(* ===== verification/Xv6_Prelude.thy ===== *)
theory Xv6_Prelude
  imports Main "HOL-Library.Word"
begin

text \<open>
  What every component of the development shares: the C integer types of
  \<^verbatim>\<open>kernel/types.h\<close> as words, the outcome of a piece of kernel code as a value, the
  little-endian layout of integers in memory and on disk, and the overwriting of a subarr of an
  array.
\<close>

unbundle bit_operations_syntax

section \<open>Integer types\<close>

type_synonym u8 = "8 word"
type_synonym u16 = "16 word"
type_synonym u32 = "32 word"
type_synonym u64 = "64 word"

lemma unat_lt_u32: "unat (w :: u32) < 2 ^ 32"
  using unsigned_less [of w] by simp

lemma unat_lt_u64: "unat (w :: u64) < 2 ^ 64"
  using unsigned_less [of w] by simp

lemma sint_nonneg:
  fixes n :: "'a::len word"
  assumes "0 \<le> sint n"
  shows "sint n = uint n"
proof -
  have "sint n < 2 ^ (LENGTH('a) - 1)"
    using sint_lt [of n] by simp
  also have "\<dots> \<le> 2 ^ LENGTH('a)"
    by (rule power_increasing) auto
  finally have "take_bit LENGTH('a) (sint n) = sint n"
    using assms by (intro take_bit_int_eq_self)
  then show ?thesis
    using uint_sint [of n] by simp
qed

lemma nat_sint: "0 \<le> sint n \<Longrightarrow> nat (sint n) = unat n"
  for n :: "'a::len word"
  by (simp add: sint_nonneg)

lemma unat_add_nowrap: "unat a + unat b < 2 ^ LENGTH('a) \<Longrightarrow> unat (a + b) = unat a + unat b"
  for a b :: "'a::len word"
  by (rule unat_add_lem [THEN iffD1])

lemma unat_ucast_u32_u64 [simp]: "unat (ucast (w :: u32) :: u64) = unat w"
  by (simp add: unsigned_ucast_eq take_bit_nat_eq_self_iff unat_lt_u32 less_le_trans [OF unat_lt_u32])

section \<open>Outcomes\<close>

text \<open>
  Kernel code either returns (\<open>Ok\<close>), stops the machine through \<^verbatim>\<open>panic\<close> with a message
  (\<open>Panic\<close>), has to wait for another thread (\<open>Blocked\<close>: a \<^verbatim>\<open>sleep\<close> that no
  code of the same thread can end), or performs an access C leaves undefined, such as
  an index outside an array (\<open>Fault\<close>).
\<close>

datatype 'a res = Ok 'a | Panic string | Blocked | Fault string

fun rbind :: "'a res \<Rightarrow> ('a \<Rightarrow> 'b res) \<Rightarrow> 'b res" where
  "rbind (Ok x) f = f x"
| "rbind (Panic m) f = Panic m"
| "rbind Blocked f = Blocked"
| "rbind (Fault m) f = Fault m"

fun rmap :: "('a \<Rightarrow> 'b) \<Rightarrow> 'a res \<Rightarrow> 'b res" where
  "rmap f (Ok x) = Ok (f x)"
| "rmap f (Panic m) = Panic m"
| "rmap f Blocked = Blocked"
| "rmap f (Fault m) = Fault m"

named_theorems res_simps \<open>inversion of outcomes\<close>

lemma rbind_Ok_iff [res_simps]: "rbind m f = Ok y \<longleftrightarrow> (\<exists>x. m = Ok x \<and> f x = Ok y)"
  by (cases m) auto

lemma rmap_Ok_iff [res_simps]: "rmap f m = Ok y \<longleftrightarrow> (\<exists>x. m = Ok x \<and> y = f x)"
  by (cases m) auto

lemma rbind_assoc: "rbind (rbind m f) g = rbind m (\<lambda>x. rbind (f x) g)"
  by (cases m) auto

lemma rbind_Ok_right [simp]: "rbind m Ok = m"
  by (cases m) auto

lemma rbind_cong [fundef_cong]:
  "m = m' \<Longrightarrow> (\<And>x. m' = Ok x \<Longrightarrow> f x = f' x) \<Longrightarrow> rbind m f = rbind m' f'"
  by (cases m') auto

section \<open>Little-endian integers\<close>

definition byte_at :: "nat \<Rightarrow> 'a::len word \<Rightarrow> u8" where
  "byte_at i w = ucast (drop_bit (8 * i) w)"

definition le_bytes :: "nat \<Rightarrow> 'a::len word \<Rightarrow> u8 list" where
  "le_bytes n w = map (\<lambda>i. byte_at i w) [0..<n]"

primrec le_word :: "u8 list \<Rightarrow> 'a::len word" where
  "le_word [] = 0"
| "le_word (b # bs) = ucast b OR push_bit 8 (le_word bs)"

lemma length_le_bytes [simp]: "length (le_bytes n w) = n"
  by (simp add: le_bytes_def)

lemma nth_le_bytes [simp]: "i < n \<Longrightarrow> le_bytes n w ! i = byte_at i w"
  by (simp add: le_bytes_def)

lemma bit_byte_at: "bit (byte_at i w) k \<longleftrightarrow> k < 8 \<and> bit w (8 * i + k)"
  by (auto simp: byte_at_def bit_unsigned_iff bit_drop_bit_eq)

lemma bit_le_word:
  "bit (le_word bs :: 'a::len word) k \<longleftrightarrow>
     k < LENGTH('a) \<and> k div 8 < length bs \<and> bit (bs ! (k div 8)) (k mod 8)"
proof (induction bs arbitrary: k)
  case Nil
  then show ?case by simp
next
  case (Cons b bs)
  show ?case
  proof (cases "k < 8")
    case True
    then show ?thesis
      by (auto simp: bit_or_iff bit_unsigned_iff bit_push_bit_iff)
  next
    case False
    have "\<not> bit b k"
      using False by (simp add: bit_word.rep_eq)
    moreover have "(k - 8) div 8 = k div 8 - 1" "(k - 8) mod 8 = k mod 8"
      using False by (auto simp: le_div_geq le_mod_geq)
    moreover have "k div 8 \<noteq> 0"
      using False by auto
    ultimately show ?thesis
      using False by (simp add: bit_or_iff bit_unsigned_iff bit_push_bit_iff Cons.IH nth_Cons') linarith
  qed
qed

lemma le_word_le_bytes:
  assumes "LENGTH('a) \<le> 8 * n"
  shows "le_word (le_bytes n w) = (w :: 'a::len word)"
proof (rule bit_word_eqI)
  fix k assume k: "k < LENGTH('a)"
  then have "k div 8 < n"
    using assms by (simp add: less_mult_imp_div_less)
  then show "bit (le_word (le_bytes n w) :: 'a word) k \<longleftrightarrow> bit w k"
    using k by (simp add: bit_le_word bit_byte_at)
qed

lemma le_bytes_le_word:
  assumes "8 * length bs \<le> LENGTH('a)"
  shows "le_bytes (length bs) (le_word bs :: 'a::len word) = bs"
proof (rule nth_equalityI)
  fix i assume i: "i < length (le_bytes (length bs) (le_word bs :: 'a word))"
  show "le_bytes (length bs) (le_word bs :: 'a word) ! i = bs ! i"
  proof (rule bit_word_eqI)
    fix k assume k: "k < LENGTH(8)"
    have "8 * i + k < LENGTH('a)"
      using i k assms by simp
    moreover have "(8 * i + k) div 8 = i" "(8 * i + k) mod 8 = k"
      using k by auto
    ultimately show "bit (le_bytes (length bs) (le_word bs :: 'a word) ! i) k \<longleftrightarrow> bit (bs ! i) k"
      using i k by (simp add: bit_byte_at bit_le_word)
  qed
qed simp

section \<open>Parts of arrays\<close>

text \<open>\<open>subarr off n xs\<close> is \<open>xs[off .. off + n)\<close>; \<open>overwrite off ys xs\<close> stores \<open>ys\<close> there.\<close>

definition subarr :: "nat \<Rightarrow> nat \<Rightarrow> 'a list \<Rightarrow> 'a list" where
  "subarr off n xs = take n (drop off xs)"

definition overwrite :: "nat \<Rightarrow> 'a list \<Rightarrow> 'a list \<Rightarrow> 'a list" where
  "overwrite off ys xs = take off xs @ ys @ drop (off + length ys) xs"

lemma length_subarr: "off + n \<le> length xs \<Longrightarrow> length (subarr off n xs) = n"
  by (simp add: subarr_def)

lemma nth_subarr: "off + n \<le> length xs \<Longrightarrow> i < n \<Longrightarrow> subarr off n xs ! i = xs ! (off + i)"
  by (simp add: subarr_def)

lemma length_overwrite [simp]:
  "off + length ys \<le> length xs \<Longrightarrow> length (overwrite off ys xs) = length xs"
  by (simp add: overwrite_def)

lemma nth_overwrite:
  assumes "off + length ys \<le> length xs" "i < length xs"
  shows "overwrite off ys xs ! i =
    (if off \<le> i \<and> i < off + length ys then ys ! (i - off) else xs ! i)"
  using assms by (auto simp: overwrite_def nth_append min_def)

lemma subarr_overwrite_same:
  "off + length ys \<le> length xs \<Longrightarrow> subarr off (length ys) (overwrite off ys xs) = ys"
  by (simp add: subarr_def overwrite_def)

lemma subarr_overwrite_other:
  assumes "off + length ys \<le> length xs" "o2 + n \<le> length xs"
    and "o2 + n \<le> off \<or> off + length ys \<le> o2"
  shows "subarr o2 n (overwrite off ys xs) = subarr o2 n xs"
proof (rule nth_equalityI)
  show "length (subarr o2 n (overwrite off ys xs)) = length (subarr o2 n xs)"
    using assms by (simp add: length_subarr)
next
  fix i assume "i < length (subarr o2 n (overwrite off ys xs))"
  then have "i < n" using assms by (simp add: length_subarr)
  then show "subarr o2 n (overwrite off ys xs) ! i = subarr o2 n xs ! i"
    using assms by (auto simp: nth_subarr nth_overwrite)
qed

lemma overwrite_subarr_same: "off + n \<le> length xs \<Longrightarrow> overwrite off (subarr off n xs) xs = xs"
  by (simp add: overwrite_def subarr_def) (metis add.commute append_take_drop_id drop_drop)

end
