(* ===== verification/Phys_Mem.thy ===== *)
theory Phys_Mem
  imports Xv6_Prelude
begin

text \<open>
  The byte-addressed physical memory the kernel runs in (paging maps kernel addresses to
  themselves): reading and storing arrays and 64-bit integers, and when two accesses do not
  meet. Addresses are 64-bit words and address arithmetic wraps.
\<close>

section \<open>Memory\<close>

type_synonym mem = "u64 \<Rightarrow> u8"

text \<open>The \<open>n\<close> bytes at address \<open>a\<close>.\<close>

definition bytes_at :: "mem \<Rightarrow> u64 \<Rightarrow> nat \<Rightarrow> u8 list" where
  "bytes_at m a n = map (\<lambda>i. m (a + of_nat i)) [0..<n]"

text \<open>The address \<open>a\<close> lies in the \<open>n\<close> bytes from \<open>p\<close> on.\<close>

definition in_range :: "u64 \<Rightarrow> nat \<Rightarrow> u64 \<Rightarrow> bool" where
  "in_range p n a \<longleftrightarrow> unat (a - p) < n"

text \<open>The memory after the bytes \<open>xs\<close> are stored at \<open>p\<close>.\<close>

definition store_bytes :: "u64 \<Rightarrow> u8 list \<Rightarrow> mem \<Rightarrow> mem" where
  "store_bytes p xs m = (\<lambda>a. if in_range p (length xs) a then xs ! unat (a - p) else m a)"

text \<open>Reading and storing a \<^verbatim>\<open>uint64\<close> (also a pointer or a page-table entry).\<close>

definition load64 :: "mem \<Rightarrow> u64 \<Rightarrow> u64" where
  "load64 m a = le_word (bytes_at m a 8)"

definition store64 :: "u64 \<Rightarrow> u64 \<Rightarrow> mem \<Rightarrow> mem" where
  "store64 a w m = store_bytes a (le_bytes 8 w) m"

section \<open>Ranges of addresses\<close>

lemma in_range_0 [simp]: "\<not> in_range p 0 a"
  by (simp add: in_range_def)

lemma in_range_Suc: "in_range p (Suc k) a \<longleftrightarrow> a = p \<or> a \<noteq> p \<and> k \<noteq> 0 \<and> in_range (p + 1) k a"
proof (cases "a = p")
  case True
  then show ?thesis by (simp add: in_range_def)
next
  case False
  have "unat (a - (p + 1)) = unat (a - p) - 1"
  proof -
    have "a - (p + 1) = (a - p) - 1" by simp
    then show ?thesis using False by (metis eq_iff_diff_eq_0 unat_minus_one)
  qed
  moreover have "unat (a - p) \<noteq> 0"
    using False by (simp add: unat_eq_0)
  ultimately show ?thesis
    using False by (auto simp: in_range_def)
qed

lemma in_range_shift:
  assumes "a \<noteq> p"
  shows "in_range (p + 1) k a \<longleftrightarrow> unat (a - p) \<le> k \<and> k \<noteq> 0"
proof -
  have "a - (p + 1) = (a - p) - 1" by simp
  then have "unat (a - (p + 1)) = unat (a - p) - 1"
    using assms by (metis eq_iff_diff_eq_0 unat_minus_one)
  moreover have "unat (a - p) \<noteq> 0"
    using assms by (simp add: unat_eq_0)
  ultimately show ?thesis
    by (auto simp: in_range_def)
qed

lemma in_range_first: "k < 2 ^ 64 \<Longrightarrow> \<not> in_range (p + 1) k p"
proof -
  assume k: "k < 2 ^ 64"
  have "unat (p - (p + 1)) = 2 ^ 64 - 1"
    by (simp add: unsigned_minus_1_eq_mask mask_eq_exp_minus_1)
  then show ?thesis
    using k by (simp add: in_range_def)
qed

lemma in_range_last: "in_range p (Suc k) a \<longleftrightarrow> in_range p k a \<or> unat (a - p) = k"
  by (auto simp: in_range_def)

lemma in_range_nth: "i < n \<Longrightarrow> n \<le> 2 ^ 64 \<Longrightarrow> in_range p n (p + of_nat i)"
  by (simp add: in_range_def unat_of_nat)

lemma store_bytes_Nil [simp]: "store_bytes p [] m = m"
  by (simp add: store_bytes_def)

lemma store_bytes_Cons:
  assumes "length xs < 2 ^ 64"
  shows "store_bytes p (x # xs) m = store_bytes (p + 1) xs (m(p := x))"
proof (rule ext)
  fix a
  show "store_bytes p (x # xs) m a = store_bytes (p + 1) xs (m(p := x)) a"
  proof (cases "a = p")
    case True
    then show ?thesis
      using in_range_first [OF assms, of p] by (simp add: store_bytes_def in_range_Suc)
  next
    case False
    then have "a - p \<noteq> 0" and e: "a - (p + 1) = (a - p) - 1"
      by simp_all
    then have "unat (a - p) = Suc (unat (a - (p + 1)))"
      unfolding e by (simp add: unat_minus_one unat_gt_0)
    then show ?thesis
      using False by (auto simp: store_bytes_def in_range_Suc)
  qed
qed

lemma length_bytes_at [simp]: "length (bytes_at m a n) = n"
  by (simp add: bytes_at_def)

lemma nth_bytes_at [simp]: "i < n \<Longrightarrow> bytes_at m a n ! i = m (a + of_nat i)"
  by (simp add: bytes_at_def)

lemma bytes_at_Suc: "bytes_at m a (Suc n) = m a # bytes_at m (a + 1) n"
  by (rule nth_equalityI) (auto simp: nth_Cons add.assoc split: nat.splits)

lemma bytes_at_store:
  "length xs \<le> 2 ^ 64 \<Longrightarrow> bytes_at (store_bytes p xs m) p (length xs) = xs"
  by (rule nth_equalityI) (auto simp: bytes_at_def store_bytes_def in_range_def unat_of_nat)

lemma store_bytes_other: "\<not> in_range p (length xs) a \<Longrightarrow> store_bytes p xs m a = m a"
  by (simp add: store_bytes_def)

lemma bytes_at_upd: "\<not> in_range t n p \<Longrightarrow> n \<le> 2 ^ 64 \<Longrightarrow> bytes_at (m(p := x)) t n = bytes_at m t n"
  by (rule nth_equalityI) (auto dest: in_range_nth [where p = t])

text \<open>The ranges of \<open>n\<close> bytes from \<open>s\<close> and from \<open>t\<close> on have no address in common.\<close>

definition apart :: "u64 \<Rightarrow> u64 \<Rightarrow> nat \<Rightarrow> bool" where
  "apart s t n \<longleftrightarrow> (\<forall>a. \<not> (in_range s n a \<and> in_range t n a))"

lemma apartI:
  assumes "n \<le> unat (t - s)" and "n \<le> unat (s - t)"
  shows "apart s t n"
  unfolding apart_def
proof (intro allI notI, elim conjE)
  fix a
  assume "in_range s n a" and "in_range t n a"
  then have a: "unat (a - s) < n" "unat (a - t) < n"
    by (simp_all add: in_range_def)
  have "s \<noteq> t"
    using a(1) assms(2) by auto
  then have "unat (t - s) + unat (s - t) = 2 ^ 64"
    using unat_lt_u64 [of s] unat_lt_u64 [of t]
    by (auto simp: unat_sub_if_size word_size word_unat_eq_iff)
  then have "unat (a - t) + unat (t - s) < 2 ^ 64"
    using a(2) assms(2) by linarith
  then have "unat ((a - t) + (t - s)) = unat (a - t) + unat (t - s)"
    by (intro unat_add_nowrap) simp
  then show False
    using a(1) assms(1) by simp
qed

lemma apart_Suc: "apart s t (Suc n) \<Longrightarrow> apart (s + 1) (t + 1) n \<and> \<not> in_range (t + 1) n s \<and> t \<noteq> s"
  by (cases n) (auto simp: apart_def in_range_Suc)

section \<open>Integers in memory\<close>

lemma bytes_at_0 [simp]: "bytes_at m p 0 = []"
  by (simp add: bytes_at_def)

lemma bytes_at_numeral [simp]:
  "bytes_at m p (numeral k) = m p # bytes_at m (p + 1) (pred_numeral k)"
  by (simp add: numeral_eq_Suc bytes_at_Suc)

lemma bytes_at_cong: "(\<And>i. i < n \<Longrightarrow> m (a + of_nat i) = m' (a + of_nat i)) \<Longrightarrow> bytes_at m a n = bytes_at m' a n"
  by (simp add: bytes_at_def)

lemma bytes_at_store_other:
  assumes "\<And>b. in_range a n b \<Longrightarrow> \<not> in_range p (length xs) b" and "n \<le> 2 ^ 64"
  shows "bytes_at (store_bytes p xs m) a n = bytes_at m a n"
  using assms by (intro bytes_at_cong) (simp add: store_bytes_other in_range_nth)

lemma load64_store64_same [simp]: "load64 (store64 a w m) a = w"
proof -
  have "bytes_at (store_bytes a (le_bytes 8 w) m) a 8 = le_bytes 8 w"
    using bytes_at_store [of "le_bytes 8 w" a m] by simp
  then show ?thesis
    by (simp add: load64_def store64_def le_word_le_bytes)
qed

lemma store64_other: "\<not> in_range a 8 b \<Longrightarrow> store64 a w m b = m b"
  by (simp add: store64_def store_bytes_def)

lemma load64_cong:
  assumes "\<And>b. in_range a 8 b \<Longrightarrow> m b = m' b"
  shows "load64 m a = load64 m' a"
proof -
  have "bytes_at m a 8 = bytes_at m' a 8"
    by (rule bytes_at_cong) (simp add: assms in_range_nth)
  then show ?thesis
    by (simp add: load64_def)
qed

lemma load64_store64_other:
  assumes "apart a b 8"
  shows "load64 (store64 a w m) b = load64 m b"
proof (rule load64_cong)
  fix c assume "in_range b 8 c"
  then have "\<not> in_range a 8 c"
    using assms by (auto simp: apart_def)
  then show "store64 a w m c = m c"
    by (rule store64_other)
qed

end
