(* ===== verification/Kstring.thy ===== *)
theory Kstring
  imports Phys_Mem
begin

text \<open>
  \<^verbatim>\<open>kernel/string.c\<close>: the byte and string routines of the kernel over a byte-addressed memory.
  Pointers are 64-bit words and pointer arithmetic wraps; a loop that counts \<^verbatim>\<open>n\<close> down is
  recursion on the count. The lemmas give each routine its closed form; the last section relates
  the routines to arrays read out of memory as lists, the form in which the file system uses
  them.
\<close>

section \<open>The routines\<close>

primrec memset_loop :: "nat \<Rightarrow> nat \<Rightarrow> u64 \<Rightarrow> u8 \<Rightarrow> mem \<Rightarrow> mem" where
  "memset_loop 0 i cdst c m = m"
| "memset_loop (Suc k) i cdst c m = memset_loop k (Suc i) cdst c (m(cdst + of_nat i := c))"

definition memset :: "u64 \<Rightarrow> u32 \<Rightarrow> u32 \<Rightarrow> mem \<Rightarrow> mem" where
  "memset dst c n m = memset_loop (unat n) 0 dst (ucast c) m"

primrec memcmp_loop :: "nat \<Rightarrow> u64 \<Rightarrow> u64 \<Rightarrow> mem \<Rightarrow> int" where
  "memcmp_loop 0 s1 s2 m = 0"
| "memcmp_loop (Suc k) s1 s2 m =
     (if m s1 \<noteq> m s2 then uint (m s1) - uint (m s2)
      else memcmp_loop k (s1 + 1) (s2 + 1) m)"

definition memcmp :: "u64 \<Rightarrow> u64 \<Rightarrow> u32 \<Rightarrow> mem \<Rightarrow> int" where
  "memcmp v1 v2 n m = memcmp_loop (unat n) v1 v2 m"

primrec copy_up :: "nat \<Rightarrow> u64 \<Rightarrow> u64 \<Rightarrow> mem \<Rightarrow> mem" where
  "copy_up 0 d s m = m"
| "copy_up (Suc k) d s m = copy_up k (d + 1) (s + 1) (m(d := m s))"

primrec copy_down :: "nat \<Rightarrow> u64 \<Rightarrow> u64 \<Rightarrow> mem \<Rightarrow> mem" where
  "copy_down 0 d s m = m"
| "copy_down (Suc k) d s m = copy_down k (d - 1) (s - 1) (m(d - 1 := m (s - 1)))"

definition memmove :: "u64 \<Rightarrow> u64 \<Rightarrow> u32 \<Rightarrow> mem \<Rightarrow> mem" where
  "memmove dst src n m =
     (if src < dst \<and> src + ucast n > dst
      then copy_down (unat n) (dst + ucast n) (src + ucast n) m
      else copy_up (unat n) dst src m)"

definition memcpy :: "u64 \<Rightarrow> u64 \<Rightarrow> u32 \<Rightarrow> mem \<Rightarrow> mem" where
  "memcpy dst src n m = memmove dst src n m"

primrec strncmp_loop :: "nat \<Rightarrow> u64 \<Rightarrow> u64 \<Rightarrow> mem \<Rightarrow> int" where
  "strncmp_loop 0 p q m = 0"
| "strncmp_loop (Suc n) p q m =
     (if m p \<noteq> 0 \<and> m p = m q then strncmp_loop n (p + 1) (q + 1) m
      else uint (m p) - uint (m q))"

definition strncmp :: "u64 \<Rightarrow> u64 \<Rightarrow> u32 \<Rightarrow> mem \<Rightarrow> int" where
  "strncmp p q n m = strncmp_loop (unat n) p q m"

primrec zero_fill :: "nat \<Rightarrow> u64 \<Rightarrow> mem \<Rightarrow> mem" where
  "zero_fill 0 s m = m"
| "zero_fill (Suc k) s m = zero_fill k (s + 1) (m(s := 0))"

primrec strncpy_loop :: "nat \<Rightarrow> u64 \<Rightarrow> u64 \<Rightarrow> mem \<Rightarrow> mem" where
  "strncpy_loop 0 s t m = m"
| "strncpy_loop (Suc n) s t m =
     (if m t \<noteq> 0 then strncpy_loop n (s + 1) (t + 1) (m(s := m t))
      else zero_fill n (s + 1) (m(s := m t)))"

definition strncpy :: "u64 \<Rightarrow> u64 \<Rightarrow> u32 \<Rightarrow> mem \<Rightarrow> mem" where
  "strncpy s t n m = strncpy_loop (nat (sint n)) s t m"

text \<open>The loop of \<^verbatim>\<open>safestrcpy\<close> runs with \<^verbatim>\<open>--n > 0\<close>; the store after it runs in every case, one
  byte past the copied NUL when the loop ended there.\<close>

primrec safestrcpy_loop :: "nat \<Rightarrow> u64 \<Rightarrow> u64 \<Rightarrow> mem \<Rightarrow> mem" where
  "safestrcpy_loop 0 s t m = m(s := 0)"
| "safestrcpy_loop (Suc n) s t m =
     (if m t \<noteq> 0 then safestrcpy_loop n (s + 1) (t + 1) (m(s := m t))
      else m(s := m t, s + 1 := 0))"

definition safestrcpy :: "u64 \<Rightarrow> u64 \<Rightarrow> u32 \<Rightarrow> mem \<Rightarrow> mem" where
  "safestrcpy s t n m =
     (if sint n \<le> 0 then m else safestrcpy_loop (nat (sint n) - 1) s t m)"

text \<open>\<^verbatim>\<open>strlen\<close> looks for a NUL that need not exist; not finding one is \<open>None\<close>.\<close>

partial_function (option) strlen_from :: "mem \<Rightarrow> u64 \<Rightarrow> nat \<Rightarrow> nat option" where
  "strlen_from m s n = (if m (s + of_nat n) = 0 then Some n else strlen_from m s (Suc n))"

definition strlen :: "u64 \<Rightarrow> mem \<Rightarrow> nat option" where
  "strlen s m = strlen_from m s 0"

section \<open>Closed forms\<close>

lemma memset_loop_eq:
  "k + i \<le> 2 ^ 64 \<Longrightarrow>
   memset_loop k i p c m = (\<lambda>a. if in_range (p + of_nat i) k a then c else m a)"
proof (induction k arbitrary: i m)
  case 0
  then show ?case by simp
next
  case (Suc k)
  then have IH: "memset_loop k (Suc i) p c (m(p + of_nat i := c)) =
      (\<lambda>a. if in_range (p + of_nat (Suc i)) k a then c else (m(p + of_nat i := c)) a)"
    by simp
  have s: "p + of_nat (Suc i) = (p + of_nat i) + 1"
    by simp
  show ?case
    unfolding memset_loop.simps IH s
    by (rule ext) (auto simp: in_range_Suc)
qed

lemma memset_eq: "memset dst c n m = (\<lambda>a. if in_range dst (unat n) a then ucast c else m a)"
proof -
  show ?thesis
    using unat_lt_u32 [of n] by (simp add: memset_def memset_loop_eq)
qed

text \<open>Copying upwards is right when the destination does not start inside the source.\<close>

lemma copy_up_eq:
  assumes "unat s + n \<le> 2 ^ 64" and "\<not> (unat s < unat d \<and> unat d < unat s + n)"
  shows "copy_up n d s m = (\<lambda>a. if in_range d n a then m (s + (a - d)) else m a)"
  using assms
proof (induction n arbitrary: d s m)
  case 0
  then show ?case by simp
next
  case (Suc k)
  show ?case
  proof (cases "k = 0")
    case True
    then show ?thesis by (auto simp: in_range_Suc)
  next
    case False
    have s1: "unat (s + 1) = unat s + 1"
      using Suc.prems False by (simp add: unat_word_ariths)
    have nd: "\<not> (unat (s + 1) < unat (d + 1) \<and> unat (d + 1) < unat (s + 1) + k)"
    proof (cases "d + 1 = 0")
      case True
      then show ?thesis by simp
    next
      case False
      then have "unat (d + 1) = unat d + 1"
        using unatSuc [of d] by (simp add: add.commute)
      then show ?thesis
        using Suc.prems s1 by auto
    qed
    have IH: "copy_up k (d + 1) (s + 1) (m(d := m s)) =
       (\<lambda>a. if in_range (d + 1) k a then (m(d := m s)) (s + 1 + (a - (d + 1))) else (m(d := m s)) a)"
      using Suc.prems s1 nd by (intro Suc.IH) auto
    have src: "s + (a - d) \<noteq> d" if "a \<noteq> d" "in_range (d + 1) k a" for a
    proof -
      have r: "unat (a - d) \<le> k" "unat (a - d) \<noteq> 0"
        using that by (auto simp: in_range_shift unat_eq_0)
      then have "unat (s + (a - d)) = unat s + unat (a - d)"
        using Suc.prems by (intro unat_add_lem[THEN iffD1]) simp
      then have "unat (s + (a - d)) \<noteq> unat d"
        using r Suc.prems by linarith
      then show ?thesis by metis
    qed
    show ?thesis
      unfolding copy_up.simps IH
      using src False by (rule_tac ext) (auto simp: in_range_Suc algebra_simps)
  qed
qed

text \<open>Copying downwards is right when the source starts below the destination.\<close>

lemma copy_down_eq:
  assumes "unat s < unat d" and "unat d + k \<le> 2 ^ 64"
  shows "copy_down k (d + of_nat k) (s + of_nat k) m =
     (\<lambda>a. if in_range d k a then m (s + (a - d)) else m a)"
  using assms(2)
proof (induction k arbitrary: m)
  case 0
  then show ?case by simp
next
  case (Suc k)
  let ?m = "m(d + of_nat k := m (s + of_nat k))"
  have step: "copy_down (Suc k) (d + of_nat (Suc k)) (s + of_nat (Suc k)) m =
      copy_down k (d + of_nat k) (s + of_nat k) ?m"
    by simp
  have IH: "copy_down k (d + of_nat k) (s + of_nat k) ?m =
      (\<lambda>a. if in_range d k a then ?m (s + (a - d)) else ?m a)"
    using Suc.prems by (intro Suc.IH) simp
  have k: "unat (of_nat k :: u64) = k"
    using Suc.prems by (simp add: unat_of_nat)
  have src: "s + (a - d) \<noteq> d + of_nat k" if "in_range d k a" for a
  proof -
    have "unat (s + (a - d)) = unat s + unat (a - d)"
      using that Suc.prems assms(1) by (intro unat_add_nowrap) (simp add: in_range_def)
    moreover have "unat (d + of_nat k) = unat d + k"
      using Suc.prems k by (subst unat_add_nowrap) auto
    ultimately have "unat (s + (a - d)) \<noteq> unat (d + of_nat k)"
      using that assms(1) by (simp add: in_range_def)
    then show ?thesis by metis
  qed
  have dk: "a = d + of_nat k \<longleftrightarrow> unat (a - d) = k" for a
    using k word_unat_eq_iff [of "a - d" "of_nat k"] by (simp add: diff_eq_eq add.commute)
  show ?case
    unfolding step IH
  proof (rule ext)
    fix a
    show "(if in_range d k a then ?m (s + (a - d)) else ?m a) =
        (if in_range d (Suc k) a then m (s + (a - d)) else m a)"
    proof (cases "in_range d k a")
      case True
      then show ?thesis
        using fun_upd_other [OF src [OF True], of m "m (s + of_nat k)"]
        by (simp only: in_range_last simp_thms if_True)
    next
      case False
      show ?thesis
      proof (cases "a = d + of_nat k")
        case True
        then show ?thesis
          using False dk [of a] by (simp add: in_range_last)
      next
        case neq: False
        then show ?thesis
          using False dk [of a] by (simp add: in_range_last)
      qed
    qed
  qed
qed

text \<open>\<^verbatim>\<open>memmove\<close> copies what the source held before the call, however the two ranges overlap.\<close>

lemma memmove_eq:
  assumes "unat src + unat n \<le> 2 ^ 64" and "unat dst + unat n \<le> 2 ^ 64"
  shows "memmove dst src n m = (\<lambda>a. if in_range dst (unat n) a then m (src + (a - dst)) else m a)"
proof -
  show ?thesis
  proof (cases "src < dst \<and> src + ucast n > dst")
    case True
    then show ?thesis
      using assms copy_down_eq [of src dst "unat n" m]
      by (simp add: memmove_def word_less_nat_alt)
  next
    case False
    have "\<not> (unat src < unat dst \<and> unat dst < unat src + unat n)"
    proof
      assume *: "unat src < unat dst \<and> unat dst < unat src + unat n"
      then have "unat src + unat n < 2 ^ 64"
        using assms by linarith
      then have "unat (src + ucast n) = unat src + unat n"
        by (subst unat_add_nowrap) simp_all
      then show False
        using * False by (simp add: word_less_nat_alt)
    qed
    then show ?thesis
      unfolding memmove_def if_not_P [OF False] using assms by (intro copy_up_eq) auto
  qed
qed

section \<open>Strings in arrays\<close>

text \<open>The string routines on arrays: a string is the part of the array before its first NUL.\<close>

primrec strncmp_l :: "nat \<Rightarrow> u8 list \<Rightarrow> u8 list \<Rightarrow> int" where
  "strncmp_l 0 xs ys = 0"
| "strncmp_l (Suc n) xs ys =
     (if hd xs \<noteq> 0 \<and> hd xs = hd ys then strncmp_l n (tl xs) (tl ys) else uint (hd xs) - uint (hd ys))"

definition str_of :: "u8 list \<Rightarrow> u8 list" where
  "str_of xs = takeWhile (\<lambda>c. c \<noteq> 0) xs"

lemma strncmp_loop_bytes:
  "strncmp_loop n p q m = strncmp_l n (bytes_at m p n) (bytes_at m q n)"
  by (induction n arbitrary: p q) (simp_all add: bytes_at_Suc)

lemma strncmp_l_eq_0:
  "length xs = n \<Longrightarrow> length ys = n \<Longrightarrow> strncmp_l n xs ys = 0 \<longleftrightarrow> str_of xs = str_of ys"
proof (induction n arbitrary: xs ys)
  case 0
  then show ?case by simp
next
  case (Suc n)
  then obtain x xs' y ys' where "xs = x # xs'" "ys = y # ys'"
    by (metis length_Suc_conv)
  then show ?case
    using Suc by (auto simp: str_of_def word_uint_eq_iff)
qed

text \<open>\<open>strncpy_l n t\<close> is what \<^verbatim>\<open>strncpy\<close> leaves in an array of \<open>n\<close> bytes: the string cut at
  \<open>n\<close> bytes and padded with NULs.\<close>

definition strncpy_l :: "nat \<Rightarrow> u8 list \<Rightarrow> u8 list" where
  "strncpy_l n t = take n (str_of t) @ replicate (n - length (str_of t)) 0"

lemma length_strncpy_l [simp]: "length (strncpy_l n t) = n"
  by (simp add: strncpy_l_def)

lemma zero_fill_eq: "k \<le> 2 ^ 64 \<Longrightarrow> zero_fill k p m = store_bytes p (replicate k 0) m"
  by (induction k arbitrary: p m) (auto simp: store_bytes_Cons)

lemma strncpy_loop_eq:
  assumes "apart s t n" and "n \<le> 2 ^ 64"
  shows "strncpy_loop n s t m = store_bytes s (strncpy_l n (bytes_at m t n)) m"
  using assms
proof (induction n arbitrary: s t m)
  case 0
  then show ?case by (simp add: strncpy_l_def)
next
  case (Suc n)
  from Suc.prems(1) have a: "apart (s + 1) (t + 1) n" "\<not> in_range (t + 1) n s"
    by (auto dest: apart_Suc)
  have n: "n \<le> 2 ^ 64"
    using Suc.prems by simp
  show ?case
  proof (cases "m t = 0")
    case True
    then show ?thesis
      using Suc.prems by (simp add: bytes_at_Suc strncpy_l_def str_of_def zero_fill_eq store_bytes_Cons)
  next
    case False
    have "strncpy_loop n (s + 1) (t + 1) (m(s := m t)) =
        store_bytes (s + 1) (strncpy_l n (bytes_at m (t + 1) n)) (m(s := m t))"
      unfolding bytes_at_upd [OF a(2) n, of m "m t", symmetric] by (rule Suc.IH [OF a(1) n])
    then show ?thesis
      using False Suc.prems
      by (simp add: bytes_at_Suc strncpy_l_def str_of_def store_bytes_Cons)
  qed
qed

text \<open>\<^verbatim>\<open>safestrcpy\<close> leaves the string cut at \<open>n - 1\<close> bytes, with a NUL after it, and writes at most
  \<open>n\<close> bytes.\<close>

lemma safestrcpy_loop_eq:
  assumes "apart s t (Suc n)" and "n < 2 ^ 63"
  shows "\<exists>ys. length ys \<le> Suc n \<and> str_of ys = take n (str_of (bytes_at m t n)) \<and>
      length (str_of ys) < length ys \<and> safestrcpy_loop n s t m = store_bytes s ys m"
  using assms
proof (induction n arbitrary: s t m)
  case 0
  then show ?case
    by (intro exI [of _ "[0]"]) (simp add: str_of_def store_bytes_Cons)
next
  case (Suc n)
  from Suc.prems(1) have a: "apart (s + 1) (t + 1) (Suc n)" "\<not> in_range (t + 1) (Suc n) s"
    by (auto dest: apart_Suc)
  then have a': "\<not> in_range (t + 1) n s"
    by (simp add: in_range_last)
  have n: "n < 2 ^ 63" and n': "n \<le> 2 ^ 64"
    using Suc.prems by simp_all
  show ?case
  proof (cases "m t = 0")
    case True
    then show ?thesis
      by (intro exI [of _ "[0, 0]"]) (simp add: bytes_at_Suc str_of_def store_bytes_Cons)
  next
    case False
    obtain ys where ys: "length ys \<le> Suc n" "str_of ys = take n (str_of (bytes_at m (t + 1) n))"
      "length (str_of ys) < length ys"
      "safestrcpy_loop n (s + 1) (t + 1) (m(s := m t)) = store_bytes (s + 1) ys (m(s := m t))"
      using Suc.IH [OF a(1) n] unfolding bytes_at_upd [OF a' n', of m "m t", symmetric] by blast
    then show ?thesis
      using False Suc.prems
      by (intro exI [of _ "m t # ys"]) (simp add: bytes_at_Suc str_of_def store_bytes_Cons)
  qed
qed

text \<open>\<^verbatim>\<open>strlen\<close> returns as soon as there is a NUL to find, and returns its distance.\<close>

lemma strlen_from_Some:
  assumes "m (s + of_nat (n + k)) = 0" and "\<forall>j < k. m (s + of_nat (n + j)) \<noteq> 0"
  shows "strlen_from m s n = Some (n + k)"
  using assms
proof (induction k arbitrary: n)
  case 0
  then show ?case by (subst strlen_from.simps) simp
next
  case (Suc k)
  have "m (s + of_nat n) \<noteq> 0"
    using Suc.prems(2) by (metis add_0_right zero_less_Suc)
  moreover have "strlen_from m s (Suc n) = Some (Suc n + k)"
    using Suc.prems by (intro Suc.IH) (auto simp del: of_nat_Suc of_nat_add)
  ultimately show ?case
    by (subst strlen_from.simps) simp
qed

section \<open>Properties\<close>

text \<open>C29: \<^verbatim>\<open>memmove\<close> is right for every overlap of source and destination: as long as neither
  range wraps around the address space, afterwards the destination holds the bytes the source
  held before the call and every byte outside the destination is unchanged.\<close>

theorem memmove_correct:
  assumes "unat src + unat n \<le> 2 ^ 64" and "unat dst + unat n \<le> 2 ^ 64"
  shows "bytes_at (memmove dst src n m) dst (unat n) = bytes_at m src (unat n) \<and>
    (\<forall>a. \<not> in_range dst (unat n) a \<longrightarrow> memmove dst src n m a = m a)"
proof -
  have "memmove dst src n m (dst + of_nat i) = m (src + of_nat i)" if "i < unat n" for i
    using that unat_lt_u32 [of n] by (simp add: memmove_eq [OF assms] in_range_nth)
  then show ?thesis
    by (auto simp: bytes_at_def memmove_eq [OF assms])
qed

theorem memmove_correct_witness:
  "bytes_at (memmove 101 100 3 ucast) 101 3 = bytes_at ucast 100 3 \<and>
   memmove 101 100 3 ucast 104 = ucast (104 :: u64)"
  using memmove_correct [of 100 3 101 ucast] by (simp add: in_range_def)

text \<open>\<^verbatim>\<open>safestrcpy\<close> with a positive size \<open>n\<close> writes only inside the \<open>n\<close> bytes of its
  destination, always leaves a NUL-terminated string there, and that string is the source string
  cut off after \<open>n - 1\<close> characters.\<close>

theorem safestrcpy_correct:
  assumes "0 < sint n" and "apart s t (nat (sint n))"
  shows "\<exists>ys. length ys \<le> nat (sint n) \<and> safestrcpy s t n m = store_bytes s ys m \<and> 0 \<in> set ys \<and>
    str_of ys = take (nat (sint n) - 1) (str_of (bytes_at m t (nat (sint n) - 1)))"
proof -
  have n: "nat (sint n) = Suc (nat (sint n) - 1)"
    using assms(1) by simp
  have "sint n < 2 ^ 31"
    using sint_lt [of n] by simp
  then have b: "nat (sint n) - 1 < 2 ^ 63"
    by simp
  obtain ys where ys: "length ys \<le> nat (sint n)" "length (str_of ys) < length ys"
    "str_of ys = take (nat (sint n) - 1) (str_of (bytes_at m t (nat (sint n) - 1)))"
    "safestrcpy_loop (nat (sint n) - 1) s t m = store_bytes s ys m"
    using safestrcpy_loop_eq [of s t "nat (sint n) - 1" m] assms(2) b n by auto
  moreover have "0 \<in> set ys"
  proof (rule ccontr)
    assume "0 \<notin> set ys"
    then have "str_of ys = ys"
      unfolding str_of_def takeWhile_eq_all_conv by blast
    then show False
      using ys(2) by simp
  qed
  ultimately show ?thesis
    using assms(1) by (auto simp: safestrcpy_def)
qed

theorem safestrcpy_correct_witness:
  "\<exists>ys. length ys \<le> 4 \<and> safestrcpy 16 32 4 (\<lambda>a. 65) = store_bytes 16 ys (\<lambda>a. 65) \<and> 0 \<in> set ys \<and>
    str_of ys = [65, 65, 65]"
  using safestrcpy_correct [of 4 16 32 "\<lambda>a. 65"]
  by (simp add: apartI str_of_def bytes_at_Suc)

lemma strncpy_l_eq: "length t = n \<Longrightarrow> str_of (strncpy_l n t) = str_of t"
proof -
  assume n: "length t = n"
  have "length (str_of t) \<le> length t"
    unfolding str_of_def by (rule length_takeWhile_le)
  moreover have "\<forall>c \<in> set (str_of t). c \<noteq> 0"
    by (auto simp: str_of_def dest: set_takeWhileD)
  ultimately have "takeWhile (\<lambda>c. c \<noteq> 0) (str_of t @ replicate (n - length (str_of t)) 0) = str_of t"
    by (subst takeWhile_append2) (auto simp: takeWhile_replicate)
  then show ?thesis
    using n \<open>length (str_of t) \<le> length t\<close> by (simp add: strncpy_l_def str_of_def [of "_ @ _"])
qed

text \<open>\<^verbatim>\<open>strncmp\<close> returns 0 exactly when the two strings agree up to the first NUL or on all of
  the first \<open>n\<close> characters, and after \<^verbatim>\<open>strncpy\<close> of \<open>n\<close> bytes into a destination apart from the
  source the copy compares equal to the original, with nothing else changed.\<close>

theorem strncmp_strncpy:
  assumes "0 \<le> sint n" and "apart p q (unat n)"
  shows "(strncmp p q n m = 0 \<longleftrightarrow> str_of (bytes_at m p (unat n)) = str_of (bytes_at m q (unat n))) \<and>
    strncmp p q n (strncpy p q n m) = 0 \<and>
    (\<forall>a. \<not> in_range p (unat n) a \<longrightarrow> strncpy p q n m a = m a)"
proof -
  have n: "nat (sint n) = unat n" "unat n \<le> 2 ^ 64"
    using assms(1) unat_lt_u32 [of n] by (simp_all add: nat_sint)
  let ?c = "strncpy_l (unat n) (bytes_at m q (unat n))"
  have cpy: "strncpy p q n m = store_bytes p ?c m"
    using assms(2) n by (simp add: strncpy_def strncpy_loop_eq)
  have cmp: "strncmp p q n m' = 0 \<longleftrightarrow> str_of (bytes_at m' p (unat n)) = str_of (bytes_at m' q (unat n))" for m'
    by (simp add: strncmp_def strncmp_loop_bytes strncmp_l_eq_0)
  have "bytes_at (store_bytes p ?c m) p (unat n) = ?c"
    using n bytes_at_store [of ?c p m] by simp
  moreover have "bytes_at (store_bytes p ?c m) q (unat n) = bytes_at m q (unat n)"
    using assms(2) n in_range_nth [of _ "unat n" q]
    by (intro bytes_at_cong store_bytes_other) (auto simp: apart_def)
  ultimately have "strncmp p q n (store_bytes p ?c m) = 0"
    by (simp add: cmp strncpy_l_eq)
  then show ?thesis
    using n by (simp add: cmp cpy store_bytes_other)
qed

theorem strncmp_strncpy_witness:
  "strncmp 16 32 4 (strncpy 16 32 4 ucast) = 0 \<and> strncmp 16 32 4 ucast \<noteq> 0"
  using strncmp_strncpy [of 4 16 32 ucast] by (simp add: apartI str_of_def)

end
