(* ===== verification/Kalloc.thy ===== *)
theory Kalloc
  imports Kstring
begin

text \<open>
  \<^verbatim>\<open>kernel/kalloc.c\<close>: the allocator of 4096-byte physical pages. The free list is threaded
  through the free pages themselves (\<^verbatim>\<open>struct run\<close>), so the model keeps it in memory: the head
  is a field of the state and each next pointer is the \<^verbatim>\<open>uint64\<close> at the start of a page. The
  address \<open>kend\<close> of the first byte after the kernel is a linker symbol and stays a parameter.
  The lock of the list makes each operation one atomic step.
\<close>

section \<open>Pages (kernel/riscv.h, kernel/memlayout.h)\<close>

definition PGSIZE :: u64 where "PGSIZE = 4096"

definition PGROUNDUP :: "u64 \<Rightarrow> u64" where
  "PGROUNDUP sz = (sz + PGSIZE - 1) AND NOT (PGSIZE - 1)"

definition PGROUNDDOWN :: "u64 \<Rightarrow> u64" where
  "PGROUNDDOWN a = a AND NOT (PGSIZE - 1)"

definition KERNBASE :: u64 where "KERNBASE = 0x80000000"

definition PHYSTOP :: u64 where "PHYSTOP = KERNBASE + 128 * 1024 * 1024"

section \<open>State and operations\<close>

record kmem =
  pmem :: mem
  freelist :: u64

definition kfree :: "u64 \<Rightarrow> u64 \<Rightarrow> kmem \<Rightarrow> kmem res" where
  "kfree kend pa s =
     (if pa mod PGSIZE \<noteq> 0 \<or> pa < kend \<or> pa \<ge> PHYSTOP then Panic ''kfree''
      else
        let m = memset pa 1 (ucast PGSIZE) (pmem s);
            m = store64 pa (freelist s) m
        in Ok (s\<lparr>pmem := m, freelist := pa\<rparr>))"

definition kalloc :: "kmem \<Rightarrow> u64 \<times> kmem" where
  "kalloc s =
     (let r = freelist s in
      if r \<noteq> 0
      then (r, s\<lparr>freelist := load64 (pmem s) r, pmem := memset r 5 (ucast PGSIZE) (pmem s)\<rparr>)
      else (0, s))"

lemma kfree_Ok_bound: "kfree kend pa s = Ok s' \<Longrightarrow> unat pa < unat PHYSTOP"
  by (auto simp: kfree_def word_less_nat_alt word_le_nat_alt split: if_splits)

function freerange_loop :: "u64 \<Rightarrow> u64 \<Rightarrow> u64 \<Rightarrow> kmem \<Rightarrow> kmem res" where
  "freerange_loop kend p pa_end s =
     (if p + PGSIZE \<le> pa_end
      then rbind (kfree kend p s) (\<lambda>s. freerange_loop kend (p + PGSIZE) pa_end s)
      else Ok s)"
  by pat_completeness auto
termination
proof (relation "measure (\<lambda>(kend, p, pa_end, s). 2 ^ 64 - unat p)", goal_cases)
  case 1
  then show ?case by simp
next
  case (2 kend p pa_end s s')
  then have "unat p < 0x88000000"
    using kfree_Ok_bound by (auto simp: PHYSTOP_def KERNBASE_def)
  then have "unat (p + PGSIZE) = unat p + 4096"
    by (subst unat_add_nowrap) (simp_all add: PGSIZE_def)
  then show ?case
    using \<open>unat p < _\<close> by simp
qed

declare freerange_loop.simps [simp del]

definition freerange :: "u64 \<Rightarrow> u64 \<Rightarrow> u64 \<Rightarrow> kmem \<Rightarrow> kmem res" where
  "freerange kend pa_start pa_end s = freerange_loop kend (PGROUNDUP pa_start) pa_end s"

text \<open>\<^verbatim>\<open>kinit\<close> starts from the zero-initialised \<^verbatim>\<open>kmem\<close>.\<close>

definition kinit :: "u64 \<Rightarrow> mem \<Rightarrow> kmem res" where
  "kinit kend m = freerange kend kend PHYSTOP \<lparr>pmem = m, freelist = 0\<rparr>"

section \<open>Page arithmetic\<close>

text \<open>The address of a page.\<close>

definition aligned :: "u64 \<Rightarrow> bool" where
  "aligned p \<longleftrightarrow> p mod PGSIZE = 0"

definition page_ok :: "u64 \<Rightarrow> u64 \<Rightarrow> bool" where
  "page_ok kend p \<longleftrightarrow> aligned p \<and> kend \<le> p \<and> p < PHYSTOP"

lemma PGSIZE_nat: "unat PGSIZE = 4096"
  by (simp add: PGSIZE_def)

lemma aligned_nat: "aligned p \<longleftrightarrow> 4096 dvd unat p"
  by (simp add: aligned_def PGSIZE_def word_unat_eq_iff unat_mod_distrib dvd_eq_mod_eq_0)

lemma alignedE:
  assumes "aligned p"
  obtains k where "unat p = 4096 * k"
  using assms by (auto simp: aligned_nat dvd_def)

lemma aligned_le: "aligned p \<Longrightarrow> unat p \<le> 2 ^ 64 - 4096"
proof -
  assume "aligned p"
  then obtain k where k: "unat p = 4096 * k"
    by (rule alignedE)
  then have "4096 * k < 4096 * 2 ^ 52"
    using unat_lt_u64 [of p] by simp
  then have "k < 2 ^ 52" by simp
  then show ?thesis
    using k by simp
qed

text \<open>An address lies in an aligned page exactly when the page is its quotient.\<close>

lemma in_page_iff:
  assumes "aligned p"
  shows "in_range p 4096 a \<longleftrightarrow> unat a div 4096 = unat p div 4096"
proof -
  from assms obtain k where k: "unat p = 4096 * k"
    by (rule alignedE)
  show ?thesis
  proof (cases "unat p \<le> unat a")
    case True
    then have "unat (a - p) = unat a - unat p"
      by (simp add: unat_sub word_le_nat_alt)
    then show ?thesis
      using True k by (auto simp: in_range_def)
  next
    case False
    then have "unat (a - p) = unat a + 2 ^ 64 - unat p"
      by (simp add: unat_sub_if_size word_size word_le_nat_alt)
    then show ?thesis
      using False k aligned_le [OF assms] by (auto simp: in_range_def)
  qed
qed

lemma pages_apart:
  assumes "aligned p" "aligned q" "p \<noteq> q" "in_range p 4096 a"
  shows "\<not> in_range q 4096 a"
proof
  assume "in_range q 4096 a"
  then have "unat p div 4096 = unat q div 4096"
    using assms by (simp add: in_page_iff)
  then have "unat p = unat q"
    using assms(1,2) by (auto simp: aligned_nat)
  then show False
    using assms(3) by (simp add: word_unat_eq_iff)
qed

lemma and_page_mask: "unat (a AND - 4096) = unat a div 4096 * 4096" for a :: u64
proof -
  have m: "(- 4096 :: u64) = NOT (mask 12)"
    by (simp add: mask_eq_exp_minus_1)
  have e: "a AND NOT (mask 12) = push_bit 12 (drop_bit 12 a)"
    by (rule bit_word_eqI)
      (auto simp: bit_and_iff bit_not_iff bit_mask_iff bit_push_bit_iff bit_drop_bit_eq)
  have "unat a div 4096 * 4096 \<le> unat a"
    by simp
  then have "unat a div 4096 * 4096 < 2 ^ 64"
    using unat_lt_u64 [of a] by linarith
  moreover have "unat (push_bit 12 (drop_bit 12 a)) = (unat a div 4096 * 4096) mod 2 ^ 64"
    unfolding unsigned_push_bit_eq unat_drop_bit_eq
    by (simp add: drop_bit_eq_div push_bit_eq_mult take_bit_eq_mod)
  ultimately show ?thesis
    unfolding m e by simp
qed

lemma unat_PGROUNDDOWN: "unat (PGROUNDDOWN a) = unat a div 4096 * 4096"
  by (simp add: PGROUNDDOWN_def PGSIZE_def and_page_mask)

lemma unat_PGROUNDUP:
  assumes "unat a + 4095 < 2 ^ 64"
  shows "unat (PGROUNDUP a) = (unat a + 4095) div 4096 * 4096"
proof -
  have "unat (4095 + a) = unat a + 4095"
    using assms by (subst unat_add_nowrap) simp_all
  then show ?thesis
    by (simp add: PGROUNDUP_def PGSIZE_def and_page_mask)
qed

lemma PGROUNDUP_aligned: "unat a + 4095 < 2 ^ 64 \<Longrightarrow> aligned (PGROUNDUP a)"
  by (simp add: aligned_nat unat_PGROUNDUP)

lemma PGROUNDDOWN_aligned: "aligned (PGROUNDDOWN a)"
  by (simp add: aligned_nat unat_PGROUNDDOWN)

section \<open>The free list in memory\<close>

primrec run_list :: "mem \<Rightarrow> u64 \<Rightarrow> u64 list \<Rightarrow> bool" where
  "run_list m r [] \<longleftrightarrow> r = 0"
| "run_list m r (x # xs) \<longleftrightarrow> r \<noteq> 0 \<and> r = x \<and> run_list m (load64 m x) xs"

lemma run_list_unique: "run_list m r xs \<Longrightarrow> run_list m r ys \<Longrightarrow> xs = ys"
  by (induction xs arbitrary: r ys) (auto, (case_tac ys, auto)+)

lemma run_list_cong:
  "(\<And>x. x \<in> set xs \<Longrightarrow> load64 m' x = load64 m x) \<Longrightarrow> run_list m' r xs = run_list m r xs"
  by (induction xs arbitrary: r) auto

text \<open>Writes inside one page leave the next pointers of the other pages alone.\<close>

lemma load64_other_page:
  assumes "aligned p" "aligned x" "x \<noteq> p"
    and same: "\<And>a. \<not> in_range p 4096 a \<Longrightarrow> m' a = m a"
  shows "load64 m' x = load64 m x"
proof (rule load64_cong)
  fix b assume "in_range x 8 b"
  then have "in_range x 4096 b"
    by (simp add: in_range_def)
  then have "\<not> in_range p 4096 b"
    using assms by (metis pages_apart)
  then show "m' b = m b" by (rule same)
qed

definition kmem_list :: "u64 \<Rightarrow> kmem \<Rightarrow> u64 list \<Rightarrow> bool" where
  "kmem_list kend s xs \<longleftrightarrow>
     run_list (pmem s) (freelist s) xs \<and> distinct xs \<and> (\<forall>p \<in> set xs. page_ok kend p)"

definition kmem_inv :: "u64 \<Rightarrow> kmem \<Rightarrow> bool" where
  "kmem_inv kend s \<longleftrightarrow> (\<exists>xs. kmem_list kend s xs)"

definition free_pages :: "kmem \<Rightarrow> u64 set" where
  "free_pages s = {p. \<exists>xs. run_list (pmem s) (freelist s) xs \<and> p \<in> set xs}"

lemma free_pages_list: "kmem_list kend s xs \<Longrightarrow> free_pages s = set xs"
  by (auto simp: free_pages_def kmem_list_def dest: run_list_unique)

lemma page_nonzero: "0 < kend \<Longrightarrow> page_ok kend p \<Longrightarrow> p \<noteq> 0"
  by (auto simp: page_ok_def)

lemma kfree_list:
  assumes "0 < kend" "kmem_list kend s xs" "page_ok kend p" "p \<notin> set xs"
  shows "\<exists>s'. kfree kend p s = Ok s' \<and> kmem_list kend s' (p # xs) \<and>
    (\<forall>a. \<not> in_range p 4096 a \<longrightarrow> pmem s' a = pmem s a)"
proof -
  let ?m = "store64 p (freelist s) (memset p 1 (ucast PGSIZE) (pmem s))"
  have ok: "kfree kend p s = Ok (s\<lparr>pmem := ?m, freelist := p\<rparr>)"
    using assms(3) by (simp add: kfree_def page_ok_def aligned_def not_less not_le)
  have other: "?m a = pmem s a" if "\<not> in_range p 4096 a" for a
  proof -
    have "\<not> in_range p 8 a"
      using that by (simp add: in_range_def)
    then show ?thesis
      using that by (simp add: store64_other memset_eq PGSIZE_def)
  qed
  have "run_list ?m (freelist s) xs = run_list (pmem s) (freelist s) xs"
  proof (rule run_list_cong)
    fix x assume "x \<in> set xs"
    then show "load64 ?m x = load64 (pmem s) x"
      using assms other by (intro load64_other_page [of p]) (auto simp: kmem_list_def page_ok_def)
  qed
  then have "kmem_list kend (s\<lparr>pmem := ?m, freelist := p\<rparr>) (p # xs)"
    using assms page_nonzero [OF assms(1,3)] by (auto simp: kmem_list_def)
  then show ?thesis
    using ok other by auto
qed

lemma kalloc_list:
  assumes "kmem_list kend s (p # xs)"
  shows "\<exists>s'. kalloc s = (p, s') \<and> kmem_list kend s' xs \<and>
    (\<forall>a. \<not> in_range p 4096 a \<longrightarrow> pmem s' a = pmem s a) \<and>
    (\<forall>a. in_range p 4096 a \<longrightarrow> pmem s' a = 5)"
proof -
  let ?m = "memset p 5 (ucast PGSIZE) (pmem s)"
  from assms have p: "freelist s = p" "p \<noteq> 0"
    by (auto simp: kmem_list_def)
  have m: "?m a = (if in_range p 4096 a then 5 else pmem s a)" for a
    by (simp add: memset_eq PGSIZE_def)
  have "run_list ?m (load64 (pmem s) p) xs = run_list (pmem s) (load64 (pmem s) p) xs"
  proof (rule run_list_cong)
    fix x assume "x \<in> set xs"
    then show "load64 ?m x = load64 (pmem s) x"
      using assms m by (intro load64_other_page [of p]) (auto simp: kmem_list_def page_ok_def)
  qed
  then show ?thesis
    using assms p m by (auto simp: kmem_list_def kalloc_def Let_def)
qed

lemma kalloc_list_Nil: "kmem_list kend s [] \<Longrightarrow> kalloc s = (0, s)"
  by (simp add: kmem_list_def kalloc_def)

section \<open>What a page allocator promises\<close>

text \<open>
  The contract the page-table code, the process table and the pipes rely on: a set of available
  pages, each handed out at most once until it is given back, with the rest of memory left alone.
\<close>

locale page_allocator =
  fixes alloc :: "'s \<Rightarrow> u64 \<times> 's"
    and release_page :: "u64 \<Rightarrow> 's \<Rightarrow> 's res"
    and avail :: "'s \<Rightarrow> u64 set"
    and contents :: "'s \<Rightarrow> mem"
    and good :: "u64 \<Rightarrow> bool"
    and inv :: "'s \<Rightarrow> bool"
  assumes alloc_empty: "inv s \<Longrightarrow> avail s = {} \<Longrightarrow> alloc s = (0, s)"
    and alloc_page: "inv s \<Longrightarrow> avail s \<noteq> {} \<Longrightarrow>
      \<exists>p s'. alloc s = (p, s') \<and> p \<in> avail s \<and> avail s' = avail s - {p} \<and> inv s' \<and>
        (\<forall>a. \<not> in_range p 4096 a \<longrightarrow> contents s' a = contents s a)"
    and release_ok: "inv s \<Longrightarrow> good p \<Longrightarrow> p \<notin> avail s \<Longrightarrow>
      \<exists>s'. release_page p s = Ok s' \<and> avail s' = insert p (avail s) \<and> inv s' \<and>
        (\<forall>a. \<not> in_range p 4096 a \<longrightarrow> contents s' a = contents s a)"
    and avail_good: "inv s \<Longrightarrow> p \<in> avail s \<Longrightarrow> good p"
    and good_page: "good p \<Longrightarrow> p \<noteq> 0 \<and> aligned p"
begin

lemma alloc_fails_iff: "inv s \<Longrightarrow> fst (alloc s) = 0 \<longleftrightarrow> avail s = {}"
  by (metis alloc_empty alloc_page avail_good fst_conv good_page)

lemma alloc_not_avail:
  assumes "inv s" "alloc s = (p, s')" "p \<noteq> 0"
  shows "good p \<and> p \<in> avail s \<and> p \<notin> avail s' \<and> avail s' = avail s - {p} \<and> inv s'"
  using assms alloc_fails_iff [OF assms(1)] alloc_page [OF assms(1)] avail_good [OF assms(1)] by fastforce

lemma alloc_twice:
  assumes "inv s" "alloc s = (p, s1)" "p \<noteq> 0" "alloc s1 = (q, s2)" "q \<noteq> 0" "in_range p 4096 a"
  shows "p \<noteq> q \<and> \<not> in_range q 4096 a \<and> contents s2 a = contents s1 a"
proof -
  note p = alloc_not_avail [OF assms(1-3)]
  note q = alloc_not_avail [OF _ assms(4,5)]
  have ne: "p \<noteq> q" using p q by blast
  then have ap: "\<not> in_range q 4096 a"
    using p q assms(6) good_page by (metis pages_apart)
  have "avail s1 \<noteq> {}" using q p by blast
  then show ?thesis
    using ne ap p assms(4) alloc_page [of s1] by auto
qed

lemma alloc_release:
  assumes "inv s" "alloc s = (p, s1)" "p \<noteq> 0"
  shows "\<exists>s2. release_page p s1 = Ok s2 \<and> inv s2 \<and> avail s2 = avail s \<and>
    (\<forall>a. \<not> in_range p 4096 a \<longrightarrow> contents s2 a = contents s a)"
proof -
  note p = alloc_not_avail [OF assms]
  then obtain s2 where s2: "release_page p s1 = Ok s2" "avail s2 = insert p (avail s1)" "inv s2"
    "\<forall>a. \<not> in_range p 4096 a \<longrightarrow> contents s2 a = contents s1 a"
    using release_ok [of s1 p] by blast
  moreover have "\<forall>a. \<not> in_range p 4096 a \<longrightarrow> contents s1 a = contents s a"
    using alloc_page [OF assms(1)] p assms(2) by fastforce
  ultimately show ?thesis
    using p by (intro exI [of _ s2]) auto
qed

end

text \<open>\<^verbatim>\<open>kalloc\<close> and \<^verbatim>\<open>kfree\<close> keep the contract, for a kernel loaded above address 0.\<close>

lemma kalloc_contract:
  assumes "0 < kend" "kmem_inv kend s" "free_pages s \<noteq> {}"
  shows "\<exists>p s'. kalloc s = (p, s') \<and> p \<in> free_pages s \<and> free_pages s' = free_pages s - {p} \<and>
    kmem_inv kend s' \<and> (\<forall>a. \<not> in_range p 4096 a \<longrightarrow> pmem s' a = pmem s a)"
proof -
  from assms(2) obtain xs where xs: "kmem_list kend s xs"
    by (auto simp: kmem_inv_def)
  with assms(3) obtain p ys where c: "xs = p # ys"
    by (cases xs) (auto simp: free_pages_list)
  then obtain s' where s': "kalloc s = (p, s')" "kmem_list kend s' ys"
    "\<forall>a. \<not> in_range p 4096 a \<longrightarrow> pmem s' a = pmem s a"
    using kalloc_list xs by blast
  moreover have "distinct (p # ys)"
    using xs c by (simp add: kmem_list_def)
  ultimately show ?thesis
    using xs c free_pages_list [OF xs] free_pages_list [OF s'(2)]
    by (auto simp: kmem_inv_def)
qed

lemma kfree_contract:
  assumes "0 < kend" "kmem_inv kend s" "page_ok kend p" "p \<notin> free_pages s"
  shows "\<exists>s'. kfree kend p s = Ok s' \<and> free_pages s' = insert p (free_pages s) \<and> kmem_inv kend s' \<and>
    (\<forall>a. \<not> in_range p 4096 a \<longrightarrow> pmem s' a = pmem s a)"
proof -
  from assms(2) obtain xs where xs: "kmem_list kend s xs"
    by (auto simp: kmem_inv_def)
  then obtain s' where s': "kfree kend p s = Ok s'" "kmem_list kend s' (p # xs)"
    "\<forall>a. \<not> in_range p 4096 a \<longrightarrow> pmem s' a = pmem s a"
    using kfree_list [OF assms(1) xs assms(3)] assms(4) by (auto simp: free_pages_list)
  then show ?thesis
    using free_pages_list [OF xs] free_pages_list [OF s'(2)] by (auto simp: kmem_inv_def)
qed

text \<open>The kernel is linked at \<^verbatim>\<open>KERNBASE\<close>, so the first free address is above it, and
  \<open>max kend KERNBASE\<close> in the interpretation below is \<open>kend\<close>.\<close>

definition kernel_end :: "u64 \<Rightarrow> bool" where
  "kernel_end kend \<longleftrightarrow> KERNBASE \<le> kend \<and> kend \<le> PHYSTOP"

lemma kernel_end_pos: "kernel_end kend \<Longrightarrow> 0 < kend"
  by (auto simp: kernel_end_def KERNBASE_def word_le_nat_alt word_less_nat_alt)

interpretation kpages: page_allocator kalloc "kfree (max kend KERNBASE)" free_pages pmem
  "page_ok (max kend KERNBASE)" "kmem_inv (max kend KERNBASE)" for kend
proof -
  have pos: "0 < max kend KERNBASE"
    by (auto simp: KERNBASE_def less_max_iff_disj)
  show "page_allocator kalloc (kfree (max kend KERNBASE)) free_pages pmem
      (page_ok (max kend KERNBASE)) (kmem_inv (max kend KERNBASE))"
  proof (unfold_locales, goal_cases)
    case (1 s)
    then obtain xs where xs: "kmem_list (max kend KERNBASE) s xs"
      by (auto simp: kmem_inv_def)
    with 1 have "xs = []"
      by (simp add: free_pages_list)
    then show ?case
      using xs kalloc_list_Nil by blast
  next
    case (2 s)
    then show ?case
      by (rule kalloc_contract [OF pos])
  next
    case (3 s p)
    then show ?case
      by (rule kfree_contract [OF pos])
  next
    case (4 s p)
    then obtain xs where "kmem_list (max kend KERNBASE) s xs"
      by (auto simp: kmem_inv_def)
    with 4 show ?case
      by (auto simp: free_pages_list) (auto simp: kmem_list_def)
  next
    case (5 p)
    then show ?case
      using page_nonzero [OF pos] by (auto simp: page_ok_def)
  qed
qed

section \<open>Initialisation\<close>

definition pages_from :: "u64 \<Rightarrow> u64 set" where
  "pages_from p = {q. aligned q \<and> p \<le> q \<and> q < PHYSTOP}"

lemma PHYSTOP_nat: "unat PHYSTOP = 0x88000000"
  by (simp add: PHYSTOP_def KERNBASE_def)

lemma add_page:
  assumes "p < PHYSTOP"
  shows "unat (p + PGSIZE) = unat p + 4096"
  using assms by (subst unat_add_nowrap) (simp_all add: word_less_nat_alt PHYSTOP_nat PGSIZE_nat)

lemma round_up_le: "n \<le> (n + 4095) div 4096 * 4096" for n :: nat
  using div_mult_mod_eq [of "n + 4095" 4096] mod_less_divisor [of 4096 "n + 4095"] by linarith

lemma round_up_le_iff: "(n + 4095) div 4096 * 4096 \<le> 4096 * j \<longleftrightarrow> n \<le> 4096 * j" for n :: nat
proof
  assume "n \<le> 4096 * j"
  then have "n + 4095 < Suc j * 4096" by simp
  then have "(n + 4095) div 4096 < Suc j" by (rule less_mult_imp_div_less)
  then show "(n + 4095) div 4096 * 4096 \<le> 4096 * j" by simp
next
  assume "(n + 4095) div 4096 * 4096 \<le> 4096 * j"
  with round_up_le [of n] show "n \<le> 4096 * j" by (rule order_trans)
qed

lemma pages_from_step:
  assumes "aligned p" "p < PHYSTOP"
  shows "pages_from p = insert p (pages_from (p + PGSIZE))"
proof -
  have "p \<le> q \<longleftrightarrow> q = p \<or> p + PGSIZE \<le> q" if q: "aligned q" for q
  proof -
    obtain k j where "unat p = 4096 * k" "unat q = 4096 * j"
      using assms(1) q by (metis alignedE)
    then show ?thesis
      using add_page [OF assms(2)] by (auto simp: word_le_nat_alt word_unat_eq_iff)
  qed
  then show ?thesis
    using assms by (auto simp: pages_from_def)
qed

lemma freerange_loop_list:
  assumes "0 < kend" "kmem_list kend s xs" "aligned p" "kend \<le> p" "p \<le> PHYSTOP"
    and "\<forall>x \<in> set xs. x < p"
  shows "\<exists>s' ys. freerange_loop kend p PHYSTOP s = Ok s' \<and> kmem_list kend s' ys \<and>
    set ys = set xs \<union> pages_from p"
  using assms(2-)
proof (induction "unat PHYSTOP - unat p" arbitrary: p s xs rule: less_induct)
  case less
  show ?case
  proof (cases "p = PHYSTOP")
    case True
    have "\<not> PHYSTOP + PGSIZE \<le> PHYSTOP"
      by (simp add: PHYSTOP_def KERNBASE_def PGSIZE_def)
    moreover have "pages_from PHYSTOP = {}"
      by (auto simp: pages_from_def)
    ultimately show ?thesis
      using True less.prems by (subst freerange_loop.simps) auto
  next
    case False
    then have lt: "p < PHYSTOP"
      using less.prems by simp
    then have ok: "page_ok kend p"
      using less.prems by (simp add: page_ok_def)
    have notin: "p \<notin> set xs"
      using less.prems by auto
    obtain s1 where s1: "kfree kend p s = Ok s1" "kmem_list kend s1 (p # xs)"
      using kfree_list [OF assms(1) less.prems(1) ok notin] by auto
    obtain k where k: "unat p = 4096 * k"
      using less.prems(2) by (rule alignedE)
    have n: "unat (p + PGSIZE) = unat p + 4096"
      using add_page lt .
    moreover have "4096 * k < 4096 * 0x88000"
      using lt k by (simp add: word_less_nat_alt PHYSTOP_nat)
    ultimately have le: "p + PGSIZE \<le> PHYSTOP"
      using k by (simp add: word_le_nat_alt PHYSTOP_nat)
    have al: "aligned (p + PGSIZE)"
      using k n by (simp add: aligned_nat)
    have pl: "p < p + PGSIZE"
      using n by (simp add: word_less_nat_alt)
    have "\<exists>s' ys. freerange_loop kend (p + PGSIZE) PHYSTOP s1 = Ok s' \<and> kmem_list kend s' ys \<and>
        set ys = set (p # xs) \<union> pages_from (p + PGSIZE)"
    proof (rule less.hyps [OF _ s1(2) al])
      show "unat PHYSTOP - unat (p + PGSIZE) < unat PHYSTOP - unat p"
        using n lt by (simp add: word_less_nat_alt)
      show "kend \<le> p + PGSIZE"
        using less.prems(3) pl by simp
      show "\<forall>x \<in> set (p # xs). x < p + PGSIZE"
        using less.prems(5) pl by auto
    qed (rule le)
    then show ?thesis
      using s1 le pages_from_step [OF less.prems(2) lt]
      by (subst freerange_loop.simps) auto
  qed
qed

text \<open>After \<^verbatim>\<open>kinit\<close> exactly the whole pages between the kernel and \<^verbatim>\<open>PHYSTOP\<close> are free.\<close>

text \<open>\<^verbatim>\<open>kinit\<close> gives every whole page between the end of the kernel and \<^verbatim>\<open>PHYSTOP\<close> to the list.\<close>

lemma kinit_frees_all:
  assumes "kernel_end kend"
  shows "\<exists>s. kinit kend m = Ok s \<and> kmem_inv kend s \<and> free_pages s = {p. page_ok kend p}"
proof -
  have k: "0 < kend" "unat kend \<le> 0x88000000"
    using assms kernel_end_pos by (auto simp: kernel_end_def word_le_nat_alt PHYSTOP_nat)
  then have up: "unat (PGROUNDUP kend) = (unat kend + 4095) div 4096 * 4096"
    by (intro unat_PGROUNDUP) simp
  have al: "aligned (PGROUNDUP kend)"
    using k by (intro PGROUNDUP_aligned) simp
  have ge: "kend \<le> PGROUNDUP kend"
    unfolding word_le_nat_alt up by (rule round_up_le)
  have le: "PGROUNDUP kend \<le> PHYSTOP"
    proof -
    have "(unat kend + 4095) div 4096 * 4096 \<le> 4096 * 557056"
      by (rule round_up_le_iff [THEN iffD2]) (use k(2) in simp)
    then show ?thesis
      unfolding word_le_nat_alt up PHYSTOP_nat by simp
  qed
  have "kmem_list kend \<lparr>pmem = m, freelist = 0\<rparr> []"
    by (simp add: kmem_list_def)
  then obtain s ys where s: "kinit kend m = Ok s" "kmem_list kend s ys"
      "set ys = pages_from (PGROUNDUP kend)"
    using freerange_loop_list [OF k(1) _ al ge le]
    by (fastforce simp: kinit_def freerange_def)
  have "kend \<le> q \<longleftrightarrow> PGROUNDUP kend \<le> q" if q: "aligned q" for q
  proof -
    obtain j where "unat q = 4096 * j"
      using q by (rule alignedE)
    then show ?thesis
      unfolding word_le_nat_alt up by (simp only: round_up_le_iff)
  qed
  then have "pages_from (PGROUNDUP kend) = {p. page_ok kend p}"
    by (auto simp: pages_from_def page_ok_def)
  then show ?thesis
    using s free_pages_list [OF s(2)] by (auto simp: kmem_inv_def)
qed

section \<open>Properties\<close>

lemma kernel_end_max: "kernel_end kend \<Longrightarrow> max kend KERNBASE = kend"
  by (simp add: kernel_end_def max_absorb1)

text \<open>A concrete kernel that ends at 0x80021000, and the memory after its start.\<close>

lemma kernel_end_example: "kernel_end 0x80021000"
  by (simp add: kernel_end_def KERNBASE_def PHYSTOP_def)

text \<open>A state with two free pages, the lower one linked to the higher one.\<close>

definition two_pages :: kmem where
  "two_pages = \<lparr>pmem = store64 0x80021000 0x80022000 (\<lambda>_. 0), freelist = 0x80021000\<rparr>"

lemma two_pages_links:
  "load64 (pmem two_pages) 0x80021000 = 0x80022000" "load64 (pmem two_pages) 0x80022000 = 0"
proof -
  show "load64 (pmem two_pages) 0x80021000 = 0x80022000"
    by (simp add: two_pages_def load64_store64_same)
  have "load64 (pmem two_pages) 0x80022000 = load64 (\<lambda>_. 0) 0x80022000"
    unfolding two_pages_def by (simp add: load64_store64_other apartI)
  then show "load64 (pmem two_pages) 0x80022000 = 0"
    by (simp add: load64_def bytes_at_Suc le_word_def)
qed

lemma two_pages_inv: "kmem_inv 0x80021000 two_pages"
proof -
  have "kmem_list 0x80021000 two_pages [0x80021000, 0x80022000]"
    using two_pages_links
    by (simp add: kmem_list_def page_ok_def aligned_def PGSIZE_def PHYSTOP_def KERNBASE_def)
       (simp add: two_pages_def)
  then show ?thesis
    by (auto simp: kmem_inv_def)
qed

text \<open>C8: for a kernel that ends between \<^verbatim>\<open>KERNBASE\<close> and \<^verbatim>\<open>PHYSTOP\<close>, \<^verbatim>\<open>kinit\<close> terminates without a
  panic and the free list then holds exactly the page-aligned addresses from the end of the
  kernel up to \<^verbatim>\<open>PHYSTOP\<close>, each once.\<close>

theorem kinit_correct:
  assumes "kernel_end kend"
  shows "\<exists>s. kinit kend m = Ok s \<and> kmem_inv kend s \<and> free_pages s = {p. page_ok kend p}"
  using assms by (rule kinit_frees_all)

theorem kinit_correct_witness:
  "\<exists>s. kinit 0x80021000 (\<lambda>_. 0) = Ok s \<and> 0x80021000 \<in> free_pages s \<and> 0x88000000 \<notin> free_pages s"
  using kinit_correct [OF kernel_end_example, of "\<lambda>_. 0"]
  by (auto simp: page_ok_def aligned_def PGSIZE_def PHYSTOP_def KERNBASE_def)

text \<open>C9: pages are handed out exclusively. From any state of the allocator, two calls of
  \<^verbatim>\<open>kalloc\<close> that both succeed return different pages, both of them free before and taken
  afterwards, and filling the second page leaves every byte of the first alone.\<close>

theorem kalloc_exclusive:
  assumes "kernel_end kend" and "kmem_inv kend s"
    and "kalloc s = (p, s1)" and "p \<noteq> 0" and "kalloc s1 = (q, s2)" and "q \<noteq> 0"
  shows "p \<noteq> q \<and> {p, q} \<subseteq> free_pages s \<and> free_pages s2 = free_pages s - {p, q} \<and> kmem_inv kend s2 \<and>
    (\<forall>a. in_range p 4096 a \<longrightarrow> pmem s2 a = pmem s1 a)"
proof -
  note k = kernel_end_max [OF assms(1)]
  note p = kpages.alloc_not_avail [of kend, unfolded k, OF assms(2-4)]
  note q = kpages.alloc_not_avail [of kend s1, unfolded k, OF _ assms(5,6)]
  show ?thesis
    using p q kpages.alloc_twice [of kend, unfolded k, OF assms(2-6)] by auto
qed

theorem kalloc_exclusive_witness:
  "\<exists>s1 s2. kalloc two_pages = (0x80021000, s1) \<and> kalloc s1 = (0x80022000, s2) \<and>
     free_pages s2 = free_pages two_pages - {0x80021000, 0x80022000}"
proof -
  define s1 where "s1 = snd (kalloc two_pages)"
  have a: "kalloc two_pages = (0x80021000, s1)"
    by (simp add: s1_def kalloc_def two_pages_def Let_def)
  have b: "kalloc s1 = (0x80022000, snd (kalloc s1))"
    using two_pages_links(1) by (simp add: s1_def kalloc_def Let_def) (simp add: two_pages_def)
  show ?thesis
    using kalloc_exclusive [OF kernel_end_example two_pages_inv a _ b] a b by auto
qed

text \<open>\<^verbatim>\<open>kfree\<close> undoes \<^verbatim>\<open>kalloc\<close>: giving a page back right after allocating it succeeds,
  restores the set of free pages and the invariant, and changes no byte outside the page.\<close>

theorem kalloc_kfree:
  assumes "kernel_end kend" and "kmem_inv kend s" and "kalloc s = (p, s1)" and "p \<noteq> 0"
  shows "\<exists>s2. kfree kend p s1 = Ok s2 \<and> kmem_inv kend s2 \<and> free_pages s2 = free_pages s \<and>
    (\<forall>a. \<not> in_range p 4096 a \<longrightarrow> pmem s2 a = pmem s a)"
  using kpages.alloc_release [of kend, unfolded kernel_end_max [OF assms(1)], OF assms(2-4)] .

theorem kalloc_kfree_witness:
  "\<exists>s1 s2. kalloc two_pages = (0x80021000, s1) \<and> kfree 0x80021000 0x80021000 s1 = Ok s2 \<and>
     free_pages s2 = free_pages two_pages"
proof -
  have a: "kalloc two_pages = (0x80021000, snd (kalloc two_pages))"
    by (simp add: kalloc_def two_pages_def Let_def)
  show ?thesis
    using kalloc_kfree [OF kernel_end_example two_pages_inv a] a by auto
qed

end
