(* ===== verification/Bio.thy ===== *)
theory Bio
  imports Xv6_Prelude
begin

text \<open>
  \<^verbatim>\<open>kernel/bio.c\<close>: the cache of disk blocks. The model keeps the array \<^verbatim>\<open>bcache.buf\<close> with the
  list head behind it, at index \<open>NBUF\<close>; the pointers \<^verbatim>\<open>prev\<close> and \<^verbatim>\<open>next\<close> are indices into that
  array, so the linked-list surgery of the source is the surgery of the model. Loops over the
  list carry a bound and running past it is a \<open>Fault\<close>; the invariant shows that \<open>NBUF + 1\<close>
  steps are enough. The sleep lock of a buffer is part of the state: a thread that asks for a
  locked buffer has to wait (\<open>Blocked\<close>).

  The disk is the array of its blocks. What one transfer of \<^verbatim>\<open>virtio_disk_rw\<close> does to it is
  \<open>disk_rw\<close>; \<open>wtrace\<close> records the writes in the order the disk got them.
\<close>

section \<open>Parameters and state\<close>

definition MAXOPBLOCKS :: nat where "MAXOPBLOCKS = 10"
definition NBUF :: nat where "NBUF = MAXOPBLOCKS * 3"
definition BSIZE :: nat where "BSIZE = 1024"

record buf =
  b_valid :: bool
  b_disk :: bool
  b_dev :: u32
  b_blockno :: u32
  b_locked :: bool
  b_pid :: nat
  b_refcnt :: u32
  b_prev :: nat
  b_next :: nat
  b_data :: "u8 list"

record bstate =
  bufs :: "buf list"
  medium :: "u32 \<Rightarrow> u8 list"
  wtrace :: "(u32 \<times> u8 list) list"
  curpid :: nat

definition upd_buf :: "nat \<Rightarrow> (buf \<Rightarrow> buf) \<Rightarrow> bstate \<Rightarrow> bstate" where
  "upd_buf i f s = s\<lparr>bufs := (bufs s)[i := f (bufs s ! i)]\<rparr>"

text \<open>The zero-initialised array; a null pointer is an index outside it.\<close>

definition zero_buf :: buf where
  "zero_buf = \<lparr>b_valid = False, b_disk = False, b_dev = 0, b_blockno = 0, b_locked = False,
     b_pid = 0, b_refcnt = 0, b_prev = NBUF + 1, b_next = NBUF + 1, b_data = replicate BSIZE 0\<rparr>"

definition binit_step :: "buf list \<Rightarrow> nat \<Rightarrow> buf list" where
  "binit_step bs b =
     (let bs = bs[b := (bs ! b)\<lparr>b_next := b_next (bs ! NBUF)\<rparr>];
          bs = bs[b := (bs ! b)\<lparr>b_prev := NBUF\<rparr>];
          bs = bs[b := (bs ! b)\<lparr>b_locked := False, b_pid := 0\<rparr>];
          h = b_next (bs ! NBUF);
          bs = bs[h := (bs ! h)\<lparr>b_prev := b\<rparr>]
      in bs[NBUF := (bs ! NBUF)\<lparr>b_next := b\<rparr>])"

definition binit :: "buf list \<Rightarrow> buf list" where
  "binit bs =
     foldl binit_step (bs[NBUF := (bs ! NBUF)\<lparr>b_prev := NBUF, b_next := NBUF\<rparr>]) [0..<NBUF]"

section \<open>Sleep locks of buffers\<close>

definition acquiresleep_buf :: "nat \<Rightarrow> bstate \<Rightarrow> bstate res" where
  "acquiresleep_buf b s =
     (if b_locked (bufs s ! b) then Blocked
      else Ok (upd_buf b (\<lambda>x. x\<lparr>b_locked := True, b_pid := curpid s\<rparr>) s))"

definition releasesleep_buf :: "nat \<Rightarrow> bstate \<Rightarrow> bstate" where
  "releasesleep_buf b s = upd_buf b (\<lambda>x. x\<lparr>b_locked := False, b_pid := 0\<rparr>) s"

definition holdingsleep_buf :: "nat \<Rightarrow> bstate \<Rightarrow> bool" where
  "holdingsleep_buf b s \<longleftrightarrow> b_locked (bufs s ! b) \<and> b_pid (bufs s ! b) = curpid s"

section \<open>Operations\<close>

text \<open>A loop over the list from \<open>b\<close> on, along \<open>step\<close>, up to the head: the first buffer with
  \<open>P\<close>, if there is one.\<close>

fun scan :: "nat \<Rightarrow> (buf \<Rightarrow> nat) \<Rightarrow> (buf \<Rightarrow> bool) \<Rightarrow> buf list \<Rightarrow> nat \<Rightarrow> nat option res" where
  "scan 0 step P bs b = Fault ''bcache list''"
| "scan (Suc k) step P bs b =
     (if b = NBUF then Ok None
      else if P (bs ! b) then Ok (Some b)
      else scan k step P bs (step (bs ! b)))"

definition bget :: "u32 \<Rightarrow> u32 \<Rightarrow> bstate \<Rightarrow> (nat \<times> bstate) res" where
  "bget dev blockno s =
     rbind (scan (NBUF + 1) b_next (\<lambda>x. b_dev x = dev \<and> b_blockno x = blockno) (bufs s)
              (b_next (bufs s ! NBUF))) (\<lambda>hit.
     case hit of
       Some b \<Rightarrow>
         rmap (Pair b) (acquiresleep_buf b (upd_buf b (\<lambda>x. x\<lparr>b_refcnt := b_refcnt x + 1\<rparr>) s))
     | None \<Rightarrow>
         rbind (scan (NBUF + 1) b_prev (\<lambda>x. b_refcnt x = 0) (bufs s) (b_prev (bufs s ! NBUF))) (\<lambda>lru.
         case lru of
           Some b \<Rightarrow>
             rmap (Pair b) (acquiresleep_buf b (upd_buf b
               (\<lambda>x. x\<lparr>b_dev := dev, b_blockno := blockno, b_valid := False, b_refcnt := 1\<rparr>) s))
         | None \<Rightarrow> Panic ''bget: no buffers''))"

definition disk_rw :: "nat \<Rightarrow> bool \<Rightarrow> bstate \<Rightarrow> bstate" where
  "disk_rw b wr s =
     (let n = b_blockno (bufs s ! b) in
      if wr
      then s\<lparr>medium := (medium s)(n := b_data (bufs s ! b)),
             wtrace := wtrace s @ [(n, b_data (bufs s ! b))]\<rparr>
      else upd_buf b (\<lambda>x. x\<lparr>b_data := medium s n\<rparr>) s)"

definition bread :: "u32 \<Rightarrow> u32 \<Rightarrow> bstate \<Rightarrow> (nat \<times> bstate) res" where
  "bread dev blockno s =
     rbind (bget dev blockno s) (\<lambda>(b, s).
     if \<not> b_valid (bufs s ! b)
     then Ok (b, upd_buf b (\<lambda>x. x\<lparr>b_valid := True\<rparr>) (disk_rw b False s))
     else Ok (b, s))"

definition bwrite :: "nat \<Rightarrow> bstate \<Rightarrow> bstate res" where
  "bwrite b s = (if \<not> holdingsleep_buf b s then Panic ''bwrite'' else Ok (disk_rw b True s))"

text \<open>The six pointer assignments of \<^verbatim>\<open>brelse\<close>, in the source's order.\<close>

definition move_front :: "nat \<Rightarrow> buf list \<Rightarrow> buf list" where
  "move_front b bs =
     (let bs = bs[b_next (bs ! b) := (bs ! b_next (bs ! b))\<lparr>b_prev := b_prev (bs ! b)\<rparr>];
          bs = bs[b_prev (bs ! b) := (bs ! b_prev (bs ! b))\<lparr>b_next := b_next (bs ! b)\<rparr>];
          bs = bs[b := (bs ! b)\<lparr>b_next := b_next (bs ! NBUF)\<rparr>];
          bs = bs[b := (bs ! b)\<lparr>b_prev := NBUF\<rparr>];
          bs = bs[b_next (bs ! NBUF) := (bs ! b_next (bs ! NBUF))\<lparr>b_prev := b\<rparr>]
      in bs[NBUF := (bs ! NBUF)\<lparr>b_next := b\<rparr>])"

definition brelse :: "nat \<Rightarrow> bstate \<Rightarrow> bstate res" where
  "brelse b s =
     (if \<not> holdingsleep_buf b s then Panic ''brelse''
      else
        let s = releasesleep_buf b s;
            s = upd_buf b (\<lambda>x. x\<lparr>b_refcnt := b_refcnt x - 1\<rparr>) s
        in Ok (if b_refcnt (bufs s ! b) = 0 then s\<lparr>bufs := move_front b (bufs s)\<rparr> else s))"

definition bpin :: "nat \<Rightarrow> bstate \<Rightarrow> bstate" where
  "bpin b s = upd_buf b (\<lambda>x. x\<lparr>b_refcnt := b_refcnt x + 1\<rparr>) s"

definition bunpin :: "nat \<Rightarrow> bstate \<Rightarrow> bstate" where
  "bunpin b s = upd_buf b (\<lambda>x. x\<lparr>b_refcnt := b_refcnt x - 1\<rparr>) s"

text \<open>Access to the bytes of a buffer by its holder.\<close>

definition bdata :: "bstate \<Rightarrow> nat \<Rightarrow> u8 list" where
  "bdata s b = b_data (bufs s ! b)"

definition set_bdata :: "nat \<Rightarrow> u8 list \<Rightarrow> bstate \<Rightarrow> bstate" where
  "set_bdata b d s = upd_buf b (\<lambda>x. x\<lparr>b_data := d\<rparr>) s"

section \<open>Circular doubly linked lists\<close>

text \<open>\<open>links f a xs z\<close>: following \<open>f\<close> from \<open>a\<close> meets exactly \<open>xs\<close> and then \<open>z\<close>.\<close>

primrec links :: "(nat \<Rightarrow> nat) \<Rightarrow> nat \<Rightarrow> nat list \<Rightarrow> nat \<Rightarrow> bool" where
  "links f a [] z \<longleftrightarrow> f a = z"
| "links f a (x # xs) z \<longleftrightarrow> f a = x \<and> links f x xs z"

lemma links_append: "links f a (us @ x # vs) z \<longleftrightarrow> links f a us x \<and> links f x vs z"
  by (induction us arbitrary: a) auto

lemma links_upd: "x \<notin> set (a # xs) \<Longrightarrow> links (f(x := y)) a xs z = links f a xs z"
  by (induction xs arbitrary: a) auto

lemma links_end: "links f a xs z \<Longrightarrow> f (last (a # xs)) = z"
  by (induction xs arbitrary: a) auto

lemma links_start: "links f a xs z \<Longrightarrow> f a = hd (xs @ [z])"
  by (cases xs) auto

lemma links_retarget:
  "links f a xs z \<Longrightarrow> distinct (a # xs) \<Longrightarrow> links (f(last (a # xs) := z')) a xs z'"
  by (induction xs arbitrary: a) auto

definition ring :: "(nat \<Rightarrow> nat) \<Rightarrow> (nat \<Rightarrow> nat) \<Rightarrow> nat \<Rightarrow> nat list \<Rightarrow> bool" where
  "ring nx pv h xs \<longleftrightarrow> links nx h xs h \<and> links pv h (rev xs) h \<and> distinct (h # xs)"

lemma last_rev_hd: "last (h # rev vs) = hd (vs @ [h])"
  by (cases vs) auto

lemma links_retarget_rev:
  "links f a (rev xs) z \<Longrightarrow> distinct (a # xs) \<Longrightarrow> links (f(hd (xs @ [a]) := z')) a (rev xs) z'"
  using links_retarget [of f a "rev xs" z z'] unfolding last_rev_hd by simp

lemma hd_rev_last: "hd (rev us @ [h]) = last (h # us)"
  by (cases us rule: rev_cases) auto

text \<open>Taking a node out: its two neighbours point past it.\<close>

lemma ring_unlink:
  assumes "ring nx pv h (us @ b # vs)"
  shows "ring (nx(pv b := nx b)) (pv(nx b := pv b)) h (us @ vs)"
proof -
  from assms have n: "links nx h us b" "links nx b vs h"
    and p: "links pv h (rev vs) b" "links pv b (rev us) h"
    and d: "distinct (h # us @ b # vs)"
    by (auto simp: ring_def links_append)
  have nb: "nx b = hd (vs @ [h])" and pb: "pv b = last (h # us)"
    using links_start [OF n(2)] links_start [OF p(2)] by (simp_all add: hd_rev_last)
  have "links (nx(pv b := nx b)) h (us @ vs) h"
  proof (cases vs)
    case Nil
    then show ?thesis
      using links_retarget [OF n(1), of h] d nb pb by simp
  next
    case (Cons v vs')
    have "links (nx(pv b := v)) h us v"
      using links_retarget [OF n(1), of v] d pb by simp
    moreover have "pv b \<in> set (h # us)"
      using pb by auto
    then have "links (nx(pv b := v)) v vs' h"
      using n(2) Cons d by (subst links_upd) auto
    ultimately show ?thesis
      using nb Cons by (simp add: links_append)
  qed
  moreover have "links (pv(nx b := pv b)) h (rev (us @ vs)) h"
  proof (cases us rule: rev_cases)
    case Nil
    then show ?thesis
      using links_retarget_rev [OF p(1), of h] d nb pb by simp
  next
    case (snoc us' u)
    have "links (pv(nx b := u)) h (rev vs) u"
      using links_retarget_rev [OF p(1), of u] d nb by simp
    moreover have "links (pv(nx b := u)) u (rev us') h"
      using p(2) snoc d nb by (subst links_upd) (cases vs; auto)+
    ultimately show ?thesis
      using pb snoc by (simp add: links_append)
  qed
  ultimately show ?thesis
    using d by (auto simp: ring_def)
qed

text \<open>Putting a node in at the front.\<close>

lemma ring_push:
  assumes "ring nx pv h xs" and "b \<notin> set (h # xs)"
  shows "ring (nx(b := nx h, h := b)) (pv(b := h, nx h := b)) h (b # xs)"
proof -
  from assms(1) have n: "links nx h xs h" and p: "links pv h (rev xs) h" and d: "distinct (h # xs)"
    by (auto simp: ring_def)
  have nh: "nx h = hd (xs @ [h])"
    using links_start [OF n] .
  have "links (nx(b := nx h, h := b)) b xs h"
    using n assms(2) d by (cases xs) (auto simp: links_upd)
  moreover have "links (pv(b := h, nx h := b)) h (rev xs @ [b]) h"
  proof -
    have "links (pv(b := h)) h (rev xs) h"
      using p assms(2) by (simp add: links_upd)
    then have "links (pv(b := h, nx h := b)) h (rev xs) b"
      unfolding nh using d by (rule links_retarget_rev)
    moreover have "b \<noteq> nx h"
      using assms(2) nh by (cases xs) auto
    ultimately show ?thesis
      by (simp add: links_append)
  qed
  ultimately show ?thesis
    using d assms(2) by (auto simp: ring_def)
qed

section \<open>The list of the cache\<close>

text \<open>\<open>lru bs xs\<close>: from the head, \<^verbatim>\<open>next\<close> visits every buffer once, in the order \<open>xs\<close>, and \<^verbatim>\<open>prev\<close>
  visits them in the reverse order.\<close>

definition lru :: "buf list \<Rightarrow> nat list \<Rightarrow> bool" where
  "lru bs xs \<longleftrightarrow> length bs = NBUF + 1 \<and> set xs = {0..<NBUF} \<and>
     ring (\<lambda>i. b_next (bs ! i)) (\<lambda>i. b_prev (bs ! i)) NBUF xs"

lemma scan_find:
  "links (\<lambda>i. step (bs ! i)) a xs NBUF \<Longrightarrow> NBUF \<notin> set xs \<Longrightarrow> length xs < k \<Longrightarrow>
   scan k step P bs (step (bs ! a)) = Ok (find (\<lambda>i. P (bs ! i)) xs)"
proof (induction xs arbitrary: a k)
  case Nil
  then show ?case
    by (cases k) auto
next
  case (Cons x xs)
  then show ?case
    by (cases k) auto
qed

lemma lru_length:
  assumes "lru bs xs"
  shows "length xs = NBUF"
proof -
  have "distinct xs" "set xs = {0..<NBUF}"
    using assms by (auto simp: lru_def ring_def)
  then show ?thesis
    using distinct_card [of xs] by simp
qed

lemma scan_next:
  "lru bs xs \<Longrightarrow>
   scan (NBUF + 1) b_next P bs (b_next (bs ! NBUF)) = Ok (find (\<lambda>i. P (bs ! i)) xs)"
  using lru_length [of bs xs] by (intro scan_find) (auto simp: lru_def ring_def)

lemma scan_prev:
  "lru bs xs \<Longrightarrow>
   scan (NBUF + 1) b_prev P bs (b_prev (bs ! NBUF)) = Ok (find (\<lambda>i. P (bs ! i)) (rev xs))"
  using lru_length [of bs xs] by (intro scan_find) (auto simp: lru_def ring_def)

text \<open>An update of one buffer, seen through its link fields.\<close>

lemma sel_list_update:
  "i < length bs \<Longrightarrow> (\<lambda>j. f (bs[i := x] ! j)) = (\<lambda>j. f (bs ! j))(i := f x)"
  by (rule ext) (simp add: nth_list_update)

lemma set_next_sel:
  "i < length bs \<Longrightarrow> (\<lambda>j. b_next (bs[i := (bs ! i)\<lparr>b_next := v\<rparr>] ! j)) = (\<lambda>j. b_next (bs ! j))(i := v)"
  "(\<lambda>j. b_prev (bs[i := (bs ! i)\<lparr>b_next := v\<rparr>] ! j)) = (\<lambda>j. b_prev (bs ! j))"
  by (rule ext, simp add: nth_list_update)
    (rule ext, cases "i < length bs", simp_all add: nth_list_update list_update_beyond)

lemma set_prev_sel:
  "i < length bs \<Longrightarrow> (\<lambda>j. b_prev (bs[i := (bs ! i)\<lparr>b_prev := v\<rparr>] ! j)) = (\<lambda>j. b_prev (bs ! j))(i := v)"
  "(\<lambda>j. b_next (bs[i := (bs ! i)\<lparr>b_prev := v\<rparr>] ! j)) = (\<lambda>j. b_next (bs ! j))"
  by (rule ext, simp add: nth_list_update)
    (rule ext, cases "i < length bs", simp_all add: nth_list_update list_update_beyond)

lemma lru_upd:
  assumes "lru bs xs" and "b_next x = b_next (bs ! i)" and "b_prev x = b_prev (bs ! i)"
  shows "lru (bs[i := x]) xs"
proof (cases "i < length bs")
  case True
  have "(\<lambda>j. b_next (bs[i := x] ! j)) = (\<lambda>j. b_next (bs ! j))"
    "(\<lambda>j. b_prev (bs[i := x] ! j)) = (\<lambda>j. b_prev (bs ! j))"
    using assms True by (auto simp: sel_list_update)
  then show ?thesis
    using assms(1) by (simp add: lru_def)
next
  case False
  then show ?thesis
    using assms(1) by (simp add: list_update_beyond)
qed

lemma lru_move_front:
  assumes l: "lru bs xs" and b: "b < NBUF"
  shows "lru (move_front b bs) (b # remove1 b xs)"
proof -
  let ?nx = "\<lambda>i. b_next (bs ! i)" and ?pv = "\<lambda>i. b_prev (bs ! i)"
  have len: "length bs = NBUF + 1" and sx: "set xs = {0..<NBUF}" and r: "ring ?nx ?pv NBUF xs"
    using l by (auto simp: lru_def)
  obtain us vs where xs: "xs = us @ b # vs"
    using b sx by (metis atLeastLessThan_iff in_set_conv_decomp le0)
  have d: "distinct (NBUF # xs)"
    using r by (simp add: ring_def)
  have rm: "remove1 b xs = us @ vs"
    using d xs by (simp add: remove1_append)
  have u: "ring (?nx(?pv b := ?nx b)) (?pv(?nx b := ?pv b)) NBUF (us @ vs)"
    using ring_unlink r xs by simp
  have p: "ring ((?nx(?pv b := ?nx b))(b := (?nx(?pv b := ?nx b)) NBUF, NBUF := b))
     ((?pv(?nx b := ?pv b))(b := NBUF, (?nx(?pv b := ?nx b)) NBUF := b)) NBUF (b # us @ vs)"
    using u d xs by (intro ring_push) auto
  have "links ?nx b vs NBUF" "links ?pv b (rev us) NBUF"
    using r xs by (auto simp: ring_def links_append)
  then have "?nx b = hd (vs @ [NBUF])" "?pv b = hd (rev us @ [NBUF])"
    by (auto dest: links_start)
  then have "?nx b \<in> set vs \<union> {NBUF}" "?pv b \<in> set us \<union> {NBUF}"
    by (cases vs; simp) (cases us rule: rev_cases; simp add: \<open>?pv b = _\<close>)
  moreover have "set vs \<union> set us \<subseteq> {0..<NBUF} - {b}"
    using sx d xs by auto
  ultimately have nb: "?nx b \<noteq> b" "?nx b < length bs" and pb: "?pv b \<noteq> b" "?pv b < length bs"
    using b len by auto
  define b1 where "b1 = bs[?nx b := (bs ! ?nx b)\<lparr>b_prev := ?pv b\<rparr>]"
  define b2 where "b2 = b1[b_prev (b1 ! b) := (b1 ! b_prev (b1 ! b))\<lparr>b_next := b_next (b1 ! b)\<rparr>]"
  define b3 where "b3 = b2[b := (b2 ! b)\<lparr>b_next := b_next (b2 ! NBUF)\<rparr>]"
  define b4 where "b4 = b3[b := (b3 ! b)\<lparr>b_prev := NBUF\<rparr>]"
  define b5 where "b5 = b4[b_next (b4 ! NBUF) := (b4 ! b_next (b4 ! NBUF))\<lparr>b_prev := b\<rparr>]"
  define b6 where "b6 = b5[NBUF := (b5 ! NBUF)\<lparr>b_next := b\<rparr>]"
  have m: "move_front b bs = b6"
    by (simp add: move_front_def Let_def b1_def b2_def b3_def b4_def b5_def b6_def)
  have len1: "length b1 = NBUF + 1" "length b2 = NBUF + 1" "length b3 = NBUF + 1"
    "length b4 = NBUF + 1" "length b5 = NBUF + 1" "length b6 = NBUF + 1"
    by (simp_all add: b1_def b2_def b3_def b4_def b5_def b6_def len)
  have n1: "(\<lambda>i. b_next (b1 ! i)) = ?nx" and p1: "(\<lambda>i. b_prev (b1 ! i)) = ?pv(?nx b := ?pv b)"
    using nb by (simp_all add: b1_def set_prev_sel)
  have pb1: "b_prev (b1 ! b) = ?pv b" and nb1: "b_next (b1 ! b) = ?nx b"
    using fun_cong [OF p1, of b] fun_cong [OF n1, of b] nb by simp_all
  have n2: "(\<lambda>i. b_next (b2 ! i)) = ?nx(?pv b := ?nx b)" and p2: "(\<lambda>i. b_prev (b2 ! i)) = ?pv(?nx b := ?pv b)"
    using pb len len1 by (simp_all add: b2_def set_next_sel pb1 nb1 n1 p1)
  have h2: "b_next (b2 ! NBUF) = (?nx(?pv b := ?nx b)) NBUF"
    by (rule fun_cong [OF n2])
  have n3: "(\<lambda>i. b_next (b3 ! i)) = (?nx(?pv b := ?nx b))(b := (?nx(?pv b := ?nx b)) NBUF)"
    and p3: "(\<lambda>i. b_prev (b3 ! i)) = ?pv(?nx b := ?pv b)"
    using b len1 by (simp_all add: b3_def set_next_sel n2 p2 h2)
  have n4: "(\<lambda>i. b_next (b4 ! i)) = (?nx(?pv b := ?nx b))(b := (?nx(?pv b := ?nx b)) NBUF)"
    and p4: "(\<lambda>i. b_prev (b4 ! i)) = (?pv(?nx b := ?pv b))(b := NBUF)"
    using b len1 by (simp_all add: b4_def set_prev_sel n3 p3)
  have h4: "b_next (b4 ! NBUF) = (?nx(?pv b := ?nx b)) NBUF"
    using fun_cong [OF n4, of NBUF] b by simp
  have "?nx NBUF = hd (xs @ [NBUF])"
    using r by (auto simp: ring_def dest: links_start)
  then have "?nx NBUF \<in> set xs \<union> {NBUF}"
    by (cases xs) auto
  then have "b_next (b4 ! NBUF) < length b4"
    using nb len len1 sx by (auto simp: h4)
  then have n5: "(\<lambda>i. b_next (b5 ! i)) = (?nx(?pv b := ?nx b))(b := (?nx(?pv b := ?nx b)) NBUF)"
    and p5: "(\<lambda>i. b_prev (b5 ! i)) = (?pv(?nx b := ?pv b))(b := NBUF, (?nx(?pv b := ?nx b)) NBUF := b)"
    by (simp_all only: b5_def set_prev_sel n4 p4 h4)
  have "ring (\<lambda>i. b_next (b6 ! i)) (\<lambda>i. b_prev (b6 ! i)) NBUF (b # us @ vs)"
    using p len1 by (simp add: b6_def set_next_sel n5 p5)
  moreover have "set (b # us @ vs) = {0..<NBUF}"
    using sx xs by auto
  ultimately show ?thesis
    using len1 by (simp add: lru_def m rm)
qed

text \<open>\<^verbatim>\<open>binit\<close> pushes the buffers one after the other.\<close>

lemma binit_step_length [simp]: "length (binit_step bs b) = length bs"
  by (simp add: binit_step_def Let_def)

lemma binit_step_ring:
  assumes r: "ring (\<lambda>i. b_next (bs ! i)) (\<lambda>i. b_prev (bs ! i)) NBUF xs"
    and b: "b < NBUF" "b \<notin> set xs" and xs: "set xs \<subseteq> {0..<NBUF}" and len: "length bs = NBUF + 1"
  shows "ring (\<lambda>i. b_next (binit_step bs b ! i)) (\<lambda>i. b_prev (binit_step bs b ! i)) NBUF (b # xs)"
proof -
  let ?nx = "\<lambda>i. b_next (bs ! i)" and ?pv = "\<lambda>i. b_prev (bs ! i)"
  define b1 where "b1 = bs[b := (bs ! b)\<lparr>b_next := ?nx NBUF\<rparr>]"
  define b2 where "b2 = b1[b := (b1 ! b)\<lparr>b_prev := NBUF\<rparr>]"
  define b3 where "b3 = b2[b := (b2 ! b)\<lparr>b_locked := False, b_pid := 0\<rparr>]"
  define b4 where "b4 = b3[b_next (b3 ! NBUF) := (b3 ! b_next (b3 ! NBUF))\<lparr>b_prev := b\<rparr>]"
  have m: "binit_step bs b = b4[NBUF := (b4 ! NBUF)\<lparr>b_next := b\<rparr>]"
    by (simp add: binit_step_def Let_def b1_def b2_def b3_def b4_def)
  have len1: "length b1 = NBUF + 1" "length b2 = NBUF + 1" "length b3 = NBUF + 1" "length b4 = NBUF + 1"
    by (simp_all add: b1_def b2_def b3_def b4_def len)
  have n2: "(\<lambda>i. b_next (b2 ! i)) = ?nx(b := ?nx NBUF)" and p2: "(\<lambda>i. b_prev (b2 ! i)) = ?pv(b := NBUF)"
    using b len by (rule_tac [!] ext) (simp_all add: b2_def b1_def nth_list_update)
  have n3: "(\<lambda>i. b_next (b3 ! i)) = ?nx(b := ?nx NBUF)"
    unfolding n2 [symmetric] b3_def using b len1 by (auto intro!: ext simp: nth_list_update)
  have p3: "(\<lambda>i. b_prev (b3 ! i)) = ?pv(b := NBUF)"
    unfolding p2 [symmetric] b3_def using b len1 by (auto intro!: ext simp: nth_list_update)
  have h3: "b_next (b3 ! NBUF) = ?nx NBUF"
    using fun_cong [OF n3, of NBUF] b by simp
  have "?nx NBUF = hd (xs @ [NBUF])"
    using r by (auto simp: ring_def dest: links_start)
  then have "?nx NBUF < length b3"
    using xs len1 by (cases xs) auto
  then have "(\<lambda>i. b_next (b4 ! i)) = ?nx(b := ?nx NBUF)"
    "(\<lambda>i. b_prev (b4 ! i)) = ?pv(b := NBUF, ?nx NBUF := b)"
    by (simp_all only: b4_def set_prev_sel n3 p3 h3)
  moreover have "ring (?nx(b := ?nx NBUF, NBUF := b)) (?pv(b := NBUF, ?nx NBUF := b)) NBUF (b # xs)"
    using r b by (intro ring_push) auto
  ultimately show ?thesis
    using len1 by (simp add: m set_next_sel)
qed

lemma binit_loop_ring:
  assumes "length bs = NBUF + 1" and "ring (\<lambda>i. b_next (bs ! i)) (\<lambda>i. b_prev (bs ! i)) NBUF []"
    and "n \<le> NBUF"
  shows "length (foldl binit_step bs [0..<n]) = NBUF + 1 \<and>
    ring (\<lambda>i. b_next (foldl binit_step bs [0..<n] ! i)) (\<lambda>i. b_prev (foldl binit_step bs [0..<n] ! i))
      NBUF (rev [0..<n])"
  using assms(3)
proof (induction n)
  case 0
  then show ?case
    using assms by simp
next
  case (Suc n)
  then show ?case
    using binit_step_ring [of "foldl binit_step bs [0..<n]" "rev [0..<n]" n] by auto
qed

lemma binit_lru:
  assumes "length bs = NBUF + 1"
  shows "lru (binit bs) (rev [0..<NBUF])"
proof -
  let ?bs = "bs[NBUF := (bs ! NBUF)\<lparr>b_prev := NBUF, b_next := NBUF\<rparr>]"
  have "ring (\<lambda>i. b_next (?bs ! i)) (\<lambda>i. b_prev (?bs ! i)) NBUF []"
    using assms by (simp add: ring_def)
  then show ?thesis
    using binit_loop_ring [of ?bs NBUF] assms by (auto simp: lru_def binit_def)
qed

section \<open>Invariant and abstraction\<close>

text \<open>The cache is seen through one device \<open>d\<close> (the root device; a zero device number marks a
  buffer that was never used). \<open>view\<close> is the content of a block as the file system sees it: that
  of the buffer caching it, or that of the disk.\<close>

definition cached :: "bstate \<Rightarrow> u32 \<Rightarrow> u32 \<Rightarrow> nat \<Rightarrow> bool" where
  "cached s d n i \<longleftrightarrow> i < NBUF \<and> b_dev (bufs s ! i) = d \<and> b_blockno (bufs s ! i) = n"

definition find_buf :: "u32 \<Rightarrow> u32 \<Rightarrow> bstate \<Rightarrow> nat option" where
  "find_buf d n s = find (cached s d n) [0..<NBUF]"

definition view :: "u32 \<Rightarrow> bstate \<Rightarrow> u32 \<Rightarrow> u8 list" where
  "view d s n = (case find_buf d n s of Some i \<Rightarrow> b_data (bufs s ! i) | None \<Rightarrow> medium s n)"

definition refs :: "u32 \<Rightarrow> bstate \<Rightarrow> u32 \<Rightarrow> u32" where
  "refs d s n = (case find_buf d n s of Some i \<Rightarrow> b_refcnt (bufs s ! i) | None \<Rightarrow> 0)"

definition busy :: "u32 \<Rightarrow> bstate \<Rightarrow> u32 set" where
  "busy d s = {n. \<exists>i. find_buf d n s = Some i \<and> b_locked (bufs s ! i)}"

definition holds :: "u32 \<Rightarrow> bstate \<Rightarrow> nat \<Rightarrow> u32 \<Rightarrow> bool" where
  "holds d s h n \<longleftrightarrow> cached s d n h \<and> holdingsleep_buf h s"

definition room :: "bstate \<Rightarrow> nat" where
  "room s = card {i. i < NBUF \<and> b_refcnt (bufs s ! i) = 0}"

definition binv :: "u32 \<Rightarrow> bstate \<Rightarrow> bool" where
  "binv d s \<longleftrightarrow> d \<noteq> 0 \<and> (\<exists>xs. lru (bufs s) xs) \<and>
     (\<forall>n. length (medium s n) = BSIZE) \<and>
     (\<forall>i<NBUF. length (b_data (bufs s ! i)) = BSIZE) \<and>
     (\<forall>n i j. cached s d n i \<longrightarrow> cached s d n j \<longrightarrow> i = j) \<and>
     (\<forall>i<NBUF. b_dev (bufs s ! i) = d \<longrightarrow> b_valid (bufs s ! i)) \<and>
     (\<forall>i<NBUF. b_locked (bufs s ! i) \<longrightarrow> b_dev (bufs s ! i) = d) \<and>
     (\<forall>i<NBUF. b_dev (bufs s ! i) = d \<longrightarrow> b_refcnt (bufs s ! i) = 0 \<longrightarrow>
        b_data (bufs s ! i) = medium s (b_blockno (bufs s ! i)))"

definition steady :: "u32 \<Rightarrow> bstate \<Rightarrow> bool" where
  "steady d s \<longleftrightarrow> (\<forall>n\<in>busy d s. refs d s n \<noteq> 0)"

lemma binvD:
  assumes "binv d s"
  shows "d \<noteq> 0" "\<exists>xs. lru (bufs s) xs" "length (medium s n) = BSIZE"
    "length (bufs s) = NBUF + 1"
    "i < NBUF \<Longrightarrow> length (b_data (bufs s ! i)) = BSIZE"
    "cached s d n i \<Longrightarrow> b_valid (bufs s ! i)"
    "i < NBUF \<Longrightarrow> b_locked (bufs s ! i) \<Longrightarrow> cached s d (b_blockno (bufs s ! i)) i"
    "cached s d n i \<Longrightarrow> b_refcnt (bufs s ! i) = 0 \<Longrightarrow> b_data (bufs s ! i) = medium s n"
  using assms by (simp_all add: binv_def cached_def lru_def)

lemma cached_unique: "binv d s \<Longrightarrow> cached s d n i \<Longrightarrow> cached s d n j \<Longrightarrow> i = j"
  unfolding binv_def by blast

lemma find_SomeD: "find P xs = Some x \<Longrightarrow> x \<in> set xs \<and> P x"
  by (induction xs) (auto split: if_splits)

lemma find_only:
  assumes "x \<in> set xs" and "P x" and u: "\<And>y. P y \<Longrightarrow> y = x"
  shows "find P xs = Some x"
proof (cases "find P xs")
  case None
  then show ?thesis
    using assms(1,2) by (auto simp: find_None_iff)
next
  case (Some y)
  then have "P y"
    by (auto dest: find_SomeD)
  then show ?thesis
    using Some u by metis
qed

lemma find_buf_Some: "binv d s \<Longrightarrow> find_buf d n s = Some i \<longleftrightarrow> cached s d n i"
  unfolding find_buf_def
proof
  show "cached s d n i" if "find (cached s d n) [0..<NBUF] = Some i"
    using find_SomeD [OF that] by simp
  show "find (cached s d n) [0..<NBUF] = Some i" if "binv d s" "cached s d n i"
  proof (rule find_only)
    show "i \<in> set [0..<NBUF]"
      using that by (simp add: cached_def)
    show "y = i" if "cached s d n y" for y
      using \<open>binv d s\<close> that \<open>cached s d n i\<close> by (rule cached_unique)
  qed (rule that)
qed

lemma find_buf_None: "find_buf d n s = None \<longleftrightarrow> (\<forall>i. \<not> cached s d n i)"
  by (auto simp: find_buf_def find_None_iff cached_def)

lemma busy_iff: "binv d s \<Longrightarrow> n \<in> busy d s \<longleftrightarrow> (\<exists>i. cached s d n i \<and> b_locked (bufs s ! i))"
  by (auto simp: busy_def find_buf_Some)

lemma busy_cached: "binv d s \<Longrightarrow> cached s d n i \<Longrightarrow> n \<in> busy d s \<longleftrightarrow> b_locked (bufs s ! i)"
  by (simp add: busy_def find_buf_Some [THEN iffD2])

lemma view_cached: "binv d s \<Longrightarrow> cached s d n i \<Longrightarrow> view d s n = b_data (bufs s ! i)"
  by (simp add: view_def find_buf_Some [THEN iffD2])

lemma refs_cached: "binv d s \<Longrightarrow> cached s d n i \<Longrightarrow> refs d s n = b_refcnt (bufs s ! i)"
  by (simp add: refs_def find_buf_Some [THEN iffD2])

lemma view_uncached: "\<forall>i. \<not> cached s d n i \<Longrightarrow> view d s n = medium s n"
  by (simp add: view_def find_buf_None [THEN iffD2])

lemma refs_uncached: "\<forall>i. \<not> cached s d n i \<Longrightarrow> refs d s n = 0"
  by (simp add: refs_def find_buf_None [THEN iffD2])

text \<open>A block nobody refers to is the same in the cache and on the disk.\<close>

lemma unreferenced_clean:
  assumes "binv d s" and "refs d s n = 0"
  shows "view d s n = medium s n"
proof (cases "\<exists>i. cached s d n i")
  case True
  then obtain i where i: "cached s d n i" ..
  then have "b_refcnt (bufs s ! i) = 0"
    using assms by (simp add: refs_cached)
  then show ?thesis
    using view_cached [OF assms(1) i] binvD(8) [OF assms(1) i] by simp
next
  case False
  then show ?thesis
    by (simp add: view_uncached)
qed

lemma room_upd:
  assumes "i < NBUF" and "length (bufs s) = NBUF + 1"
  shows "room (upd_buf i f s) + of_bool (b_refcnt (bufs s ! i) = 0) =
         room s + of_bool (b_refcnt (f (bufs s ! i)) = 0)"
proof -
  let ?F = "\<lambda>s. {j. j < NBUF \<and> b_refcnt (bufs s ! j) = 0}"
  have eq: "?F (upd_buf i f s) - {i} = ?F s - {i}"
    using assms by (auto simp: upd_buf_def nth_list_update)
  have "card (?F t) = card (?F t - {i}) + of_bool (b_refcnt (bufs t ! i) = 0)" for t
  proof (cases "b_refcnt (bufs t ! i) = 0")
    case True
    then show ?thesis
      using assms(1) card.remove [of "?F t" i] by simp
  qed simp
  note c = this [of s] this [of "upd_buf i f s"]
  have "bufs (upd_buf i f s) ! i = f (bufs s ! i)"
    using assms by (simp add: upd_buf_def)
  then show ?thesis
    unfolding room_def c eq by (simp only: ac_simps)
qed

section \<open>What each operation does\<close>

lemma upd_buf_sel [simp]:
  "medium (upd_buf i f s) = medium s" "wtrace (upd_buf i f s) = wtrace s" "curpid (upd_buf i f s) = curpid s"
  "length (bufs (upd_buf i f s)) = length (bufs s)"
  by (simp_all add: upd_buf_def)

lemma upd_buf_nth:
  "i < length (bufs s) \<Longrightarrow> bufs (upd_buf i f s) ! j = (if j = i then f (bufs s ! i) else bufs s ! j)"
  by (simp add: upd_buf_def nth_list_update)

lemma upd_buf_cong: "f (bufs s ! i) = g (bufs s ! i) \<Longrightarrow> upd_buf i f s = upd_buf i g s"
  by (simp add: upd_buf_def)

lemma upd_buf_upd_buf: "i < length (bufs s) \<Longrightarrow> upd_buf i g (upd_buf i f s) = upd_buf i (\<lambda>x. g (f x)) s"
  by (simp add: upd_buf_def)

text \<open>The buffer \<^verbatim>\<open>bread\<close> picks: the one that caches the block, or else an unreferenced one.\<close>

definition picks :: "u32 \<Rightarrow> u32 \<Rightarrow> bstate \<Rightarrow> nat \<Rightarrow> bool" where
  "picks d n s i \<longleftrightarrow> i < NBUF \<and> \<not> b_locked (bufs s ! i) \<and>
     (cached s d n i \<or> (\<forall>j. \<not> cached s d n j) \<and> b_refcnt (bufs s ! i) = 0)"

definition grab :: "u32 \<Rightarrow> u32 \<Rightarrow> bstate \<Rightarrow> buf \<Rightarrow> buf" where
  "grab d n s x = x\<lparr>b_valid := True, b_dev := d, b_blockno := n, b_locked := True, b_pid := curpid s,
     b_refcnt := refs d s n + 1, b_data := view d s n\<rparr>"

lemma bget_hit:
  assumes inv: "binv d s" and c: "cached s d n i" and u: "\<not> b_locked (bufs s ! i)"
  shows "bget d n s = Ok (i, upd_buf i (\<lambda>x. x\<lparr>b_refcnt := b_refcnt x + 1, b_locked := True, b_pid := curpid s\<rparr>) s)"
proof -
  obtain xs where l: "lru (bufs s) xs"
    using binvD(2) [OF inv] ..
  have i: "i < length (bufs s)" and xs: "set xs = {0..<NBUF}" and iN: "i < NBUF"
    using c l by (auto simp: cached_def lru_def)
  have "find (\<lambda>j. b_dev (bufs s ! j) = d \<and> b_blockno (bufs s ! j) = n) xs = find (cached s d n) xs"
    using xs by (intro find_cong) (auto simp: cached_def)
  also have "\<dots> = Some i"
    using iN xs c cached_unique [OF inv] by (intro find_only) auto
  finally show ?thesis
    using u i unfolding bget_def scan_next [OF l]
    by (simp add: acquiresleep_buf_def upd_buf_nth upd_buf_upd_buf)
qed

lemma bget_miss:
  assumes inv: "binv d s" and c: "\<forall>i. \<not> cached s d n i" and u: "steady d s" and r: "0 < room s"
  shows "\<exists>i. picks d n s i \<and> bget d n s = Ok (i, upd_buf i (\<lambda>x. x\<lparr>b_dev := d, b_blockno := n,
     b_valid := False, b_refcnt := 1, b_locked := True, b_pid := curpid s\<rparr>) s)"
proof -
  obtain xs where l: "lru (bufs s) xs"
    using binvD(2) [OF inv] ..
  have xs: "set xs = {0..<NBUF}" and len: "length (bufs s) = NBUF + 1"
    using l by (auto simp: lru_def)
  have none: "find (\<lambda>j. b_dev (bufs s ! j) = d \<and> b_blockno (bufs s ! j) = n) xs = None"
    using xs c by (auto simp: find_None_iff cached_def)
  have "find (\<lambda>j. b_refcnt (bufs s ! j) = 0) (rev xs) \<noteq> None"
    using r xs by (auto simp: find_None_iff room_def card_gt_0_iff)
  then obtain i where f: "find (\<lambda>j. b_refcnt (bufs s ! j) = 0) (rev xs) = Some i"
    by blast
  then have i: "i < NBUF" "b_refcnt (bufs s ! i) = 0"
    using xs by (auto dest: find_SomeD)
  have unl: "\<not> b_locked (bufs s ! i)"
  proof
    assume lk: "b_locked (bufs s ! i)"
    then have "cached s d (b_blockno (bufs s ! i)) i"
      using binvD(7) [OF inv] i by blast
    then have "b_blockno (bufs s ! i) \<in> busy d s" "refs d s (b_blockno (bufs s ! i)) = 0"
      using lk i inv by (auto simp: busy_iff refs_cached [OF inv])
    then show False
      using u by (simp add: steady_def)
  qed
  show ?thesis
    using i c unl len unfolding bget_def scan_next [OF l] scan_prev [OF l]
    by (intro exI [of _ i])
      (simp add: picks_def none f acquiresleep_buf_def upd_buf_nth upd_buf_upd_buf)
qed

lemma bread_eq:
  assumes inv: "binv d s" and st: "steady d s" and nb: "n \<notin> busy d s"
    and r: "refs d s n \<noteq> 0 \<or> 0 < room s"
  shows "\<exists>i. picks d n s i \<and> bread d n s = Ok (i, upd_buf i (grab d n s) s)"
proof (cases "\<exists>i. cached s d n i")
  case True
  then obtain i where c: "cached s d n i" ..
  have u: "\<not> b_locked (bufs s ! i)" and i: "i < NBUF" and v: "b_valid (bufs s ! i)"
    using nb c inv binvD(6) [OF inv c] by (auto simp: busy_iff cached_def)
  have eq: "upd_buf i (\<lambda>x. x\<lparr>b_refcnt := b_refcnt x + 1, b_locked := True, b_pid := curpid s\<rparr>) s =
      upd_buf i (grab d n s) s"
    using c v refs_cached [OF inv c] view_cached [OF inv c]
    by (intro upd_buf_cong buf.equality) (simp_all add: grab_def cached_def)
  show ?thesis
    using i u c v binvD(4) [OF inv] bget_hit [OF inv c u]
    by (intro exI [of _ i]) (simp add: bread_def eq picks_def, simp add: upd_buf_nth grab_def)
next
  case False
  then have c: "\<forall>i. \<not> cached s d n i" by blast
  have r0: "0 < room s"
    using r refs_uncached [OF c] by blast
  obtain i where p: "picks d n s i" and g: "bget d n s = Ok (i, upd_buf i (\<lambda>x. x\<lparr>b_dev := d, b_blockno := n,
     b_valid := False, b_refcnt := 1, b_locked := True, b_pid := curpid s\<rparr>) s)"
    using bget_miss [OF inv c st r0] by blast
  have i: "i < length (bufs s)"
    using p binvD(4) [OF inv] by (simp add: picks_def)
  have "bread d n s = Ok (i, upd_buf i (grab d n s) s)"
    using i refs_uncached [OF c] view_uncached [OF c]
    by (simp add: bread_def g disk_rw_def upd_buf_nth upd_buf_upd_buf Let_def)
       (intro upd_buf_cong buf.equality; simp add: grab_def)
  then show ?thesis
    using p by blast
qed

text \<open>Everything but the link fields of a buffer.\<close>

definition unlinked :: "buf \<Rightarrow> buf" where
  "unlinked x = x\<lparr>b_prev := 0, b_next := 0\<rparr>"

lemma unlinked_set [simp]:
  "unlinked (bs[i := (bs ! i)\<lparr>b_prev := v\<rparr>] ! j) = unlinked (bs ! j)"
  "unlinked (bs[i := (bs ! i)\<lparr>b_next := v\<rparr>] ! j) = unlinked (bs ! j)"
  by (cases "i < length bs"; cases "j = i"; simp add: unlinked_def list_update_beyond)+

lemma unlinked_move_front: "unlinked (move_front b bs ! j) = unlinked (bs ! j)"
  unfolding move_front_def Let_def unlinked_set ..

lemma unlinkedD:
  assumes "unlinked x = unlinked y"
  shows "b_valid x = b_valid y" "b_dev x = b_dev y" "b_blockno x = b_blockno y" "b_locked x = b_locked y"
    "b_pid x = b_pid y" "b_refcnt x = b_refcnt y" "b_data x = b_data y" "b_disk x = b_disk y"
proof -
  have *: "f (unlinked x) = f (unlinked y)" for f :: "buf \<Rightarrow> 'b"
    using assms by simp
  show "b_valid x = b_valid y" using * [of b_valid] by (simp add: unlinked_def)
  show "b_dev x = b_dev y" using * [of b_dev] by (simp add: unlinked_def)
  show "b_blockno x = b_blockno y" using * [of b_blockno] by (simp add: unlinked_def)
  show "b_locked x = b_locked y" using * [of b_locked] by (simp add: unlinked_def)
  show "b_pid x = b_pid y" using * [of b_pid] by (simp add: unlinked_def)
  show "b_refcnt x = b_refcnt y" using * [of b_refcnt] by (simp add: unlinked_def)
  show "b_data x = b_data y" using * [of b_data] by (simp add: unlinked_def)
  show "b_disk x = b_disk y" using * [of b_disk] by (simp add: unlinked_def)
qed

lemmas move_front_sel [simp] = unlinkedD [OF unlinked_move_front]

text \<open>Reordering the list changes nothing the file system sees.\<close>

lemma reorder_abs:
  fixes s :: bstate and b :: nat
  defines "s' \<equiv> s\<lparr>bufs := move_front b (bufs s)\<rparr>"
  shows "cached s' d n i = cached s d n i" "find_buf d n s' = find_buf d n s" "view d s' n = view d s n"
    "refs d s' n = refs d s n" "busy d s' = busy d s" "holds d s' i n = holds d s i n"
    "room s' = room s" "bdata s' i = bdata s i"
proof -
  show c: "cached s' d n i = cached s d n i" for n i
    by (simp add: s'_def cached_def)
  show f: "find_buf d n s' = find_buf d n s" for n
    by (simp add: find_buf_def c cong: find_cong)
  show "view d s' n = view d s n"
    unfolding view_def f by (simp add: s'_def split: option.split)
  show "refs d s' n = refs d s n"
    unfolding refs_def f by (simp add: s'_def split: option.split)
  show "busy d s' = busy d s"
    unfolding busy_def f by (simp add: s'_def)
  show "holds d s' i n = holds d s i n"
    unfolding holds_def c by (simp add: s'_def holdingsleep_buf_def)
  show "room s' = room s"
    by (simp add: s'_def room_def)
  show "bdata s' i = bdata s i"
    by (simp add: s'_def bdata_def)
qed

lemma reorder_inv:
  assumes "binv d s" and "b < NBUF"
  shows "binv d (s\<lparr>bufs := move_front b (bufs s)\<rparr>)"
proof -
  obtain xs where "lru (bufs s) xs"
    using binvD(2) [OF assms(1)] ..
  then have "\<exists>xs. lru (move_front b (bufs s)) xs"
    using lru_move_front assms(2) by blast
  then show ?thesis
    using assms(1) unfolding binv_def by (simp add: reorder_abs)
qed

text \<open>Changing one buffer without changing which block it caches.\<close>

lemma upd_abs:
  fixes s :: bstate
  defines "x \<equiv> \<lambda>i. bufs s ! i"
  assumes inv: "binv d s" and c: "cached s d n i"
    and id: "b_dev (f (x i)) = d" "b_blockno (f (x i)) = n"
  shows "cached (upd_buf i f s) d m j = cached s d m j"
    "view d (upd_buf i f s) = (view d s)(n := b_data (f (x i)))"
    "refs d (upd_buf i f s) = (refs d s)(n := b_refcnt (f (x i)))"
    "busy d (upd_buf i f s) = (if b_locked (f (x i)) then insert n (busy d s) else busy d s - {n})"
    "holds d (upd_buf i f s) h k \<longleftrightarrow>
      (if h = i then k = n \<and> b_locked (f (x i)) \<and> b_pid (f (x i)) = curpid s else holds d s h k)"
    "room (upd_buf i f s) + of_bool (refs d s n = 0) = room s + of_bool (b_refcnt (f (x i)) = 0)"
    "bdata (upd_buf i f s) h = (if h = i then b_data (f (x i)) else bdata s h)"
proof -
  have i: "i < NBUF" "i < length (bufs s)"
    using c binvD(4) [OF inv] by (auto simp: cached_def)
  note nth = upd_buf_nth [OF i(2), of f]
  show ca: "cached (upd_buf i f s) d m j = cached s d m j" for m j
    using c id by (auto simp: cached_def nth x_def)
  have fb: "find_buf d m (upd_buf i f s) = find_buf d m s" for m
    by (simp add: find_buf_def ca cong: find_cong)
  have fn: "find_buf d n s = Some i" and fo: "\<And>m j. find_buf d m s = Some j \<Longrightarrow> m \<noteq> n \<Longrightarrow> j \<noteq> i"
    using c by (auto simp: find_buf_Some [OF inv] cached_def)
  show "view d (upd_buf i f s) = (view d s)(n := b_data (f (x i)))"
    by (rule ext) (auto simp: view_def fb nth x_def fn dest: fo split: option.split)
  show "refs d (upd_buf i f s) = (refs d s)(n := b_refcnt (f (x i)))"
    by (rule ext) (auto simp: refs_def fb nth x_def fn dest: fo split: option.split)
  have "m \<in> busy d (upd_buf i f s) \<longleftrightarrow> (if m = n then b_locked (f (x i)) else m \<in> busy d s)" for m
    using fo [of m] by (auto simp: busy_def fb nth x_def fn)
  then show "busy d (upd_buf i f s) = (if b_locked (f (x i)) then insert n (busy d s) else busy d s - {n})"
    by (auto simp: set_eq_iff)
  show "holds d (upd_buf i f s) h k \<longleftrightarrow>
      (if h = i then k = n \<and> b_locked (f (x i)) \<and> b_pid (f (x i)) = curpid s else holds d s h k)"
    using c unfolding holds_def ca by (auto simp: holdingsleep_buf_def nth x_def cached_def)
  show "room (upd_buf i f s) + of_bool (refs d s n = 0) = room s + of_bool (b_refcnt (f (x i)) = 0)"
    using room_upd [OF i(1) binvD(4) [OF inv], of f] by (simp add: refs_cached [OF inv c] x_def)
  show "bdata (upd_buf i f s) h = (if h = i then b_data (f (x i)) else bdata s h)"
    by (simp add: bdata_def nth x_def)
qed

lemma upd_inv:
  assumes inv: "binv d s" and c: "cached s d n i"
    and f: "b_dev (f (bufs s ! i)) = d" "b_blockno (f (bufs s ! i)) = n" "b_valid (f (bufs s ! i))"
      "length (b_data (f (bufs s ! i))) = BSIZE"
      "b_refcnt (f (bufs s ! i)) = 0 \<Longrightarrow> b_data (f (bufs s ! i)) = medium s n"
      "b_next (f (bufs s ! i)) = b_next (bufs s ! i)" "b_prev (f (bufs s ! i)) = b_prev (bufs s ! i)"
  shows "binv d (upd_buf i f s)"
proof -
  have i: "i < NBUF" "i < length (bufs s)"
    using c binvD(4) [OF inv] by (auto simp: cached_def)
  note nth = upd_buf_nth [OF i(2), of f]
  obtain xs where "lru (bufs s) xs"
    using binvD(2) [OF inv] ..
  then have "lru (bufs (upd_buf i f s)) xs"
    unfolding upd_buf_def using f by (simp add: lru_upd)
  then show ?thesis
    using inv f i by (auto simp: binv_def upd_abs(1) [OF inv c, of f, OF f(1,2)] nth)
qed

text \<open>The state after \<^verbatim>\<open>bread\<close>: one more reference, and the block is locked.\<close>

lemma grab_cached:
  assumes "binv d s" and "picks d n s i"
  shows "cached (upd_buf i (grab d n s) s) d m j \<longleftrightarrow> (if j = i then m = n else cached s d m j)"
  using assms binvD(4) [OF assms(1)] by (auto simp: picks_def cached_def upd_buf_nth grab_def)

lemma grab_inv:
  assumes inv: "binv d s" and p: "picks d n s i" and r: "refs d s n + 1 \<noteq> 0"
  shows "binv d (upd_buf i (grab d n s) s)"
proof -
  have i: "i < NBUF" "i < length (bufs s)"
    using p binvD(4) [OF inv] by (auto simp: picks_def)
  note nth = upd_buf_nth [OF i(2), of "grab d n s"]
  obtain xs where "lru (bufs s) xs"
    using binvD(2) [OF inv] ..
  then have "lru (bufs (upd_buf i (grab d n s) s)) xs"
    unfolding upd_buf_def by (simp add: lru_upd grab_def)
  moreover have "length (view d s n) = BSIZE"
    using binvD(3,5) [OF inv] by (auto simp: view_def find_buf_Some [OF inv] cached_def split: option.split)
  moreover have "j = k" if "cached (upd_buf i (grab d n s) s) d m j" "cached (upd_buf i (grab d n s) s) d m k" for m j k
    using that p cached_unique [OF inv] unfolding grab_cached [OF inv p] picks_def
    by (auto split: if_splits)
  ultimately show ?thesis
    using inv r by (auto simp: binv_def nth grab_def)
qed

lemma grab_abs:
  fixes s :: bstate and d n :: u32 and i :: nat
  defines "s' \<equiv> upd_buf i (grab d n s) s"
  assumes inv: "binv d s" and p: "picks d n s i" and r: "refs d s n + 1 \<noteq> 0"
  shows "view d s' = view d s" "refs d s' = (refs d s)(n := refs d s n + 1)"
    "busy d s' = insert n (busy d s)" "holds d s' h k \<longleftrightarrow> h = i \<and> k = n \<or> holds d s h k"
    "room s' + of_bool (refs d s n = 0) = room s" "bdata s' h = (if h = i then view d s n else bdata s h)"
proof -
  have i: "i < NBUF" "i < length (bufs s)" and u: "\<not> b_locked (bufs s ! i)"
    using p binvD(4) [OF inv] by (auto simp: picks_def)
  note nth = upd_buf_nth [OF i(2), of "grab d n s", folded s'_def]
  have inv': "binv d s'"
    unfolding s'_def by (rule grab_inv [OF inv p r])
  note ca = grab_cached [OF inv p, folded s'_def]
  have n': "cached s' d n i"
    by (simp add: ca)
  have other: "view d s' m = view d s m \<and> refs d s' m = refs d s m \<and> (m \<in> busy d s' \<longleftrightarrow> m \<in> busy d s)"
    if m: "m \<noteq> n" for m
  proof (cases "\<exists>j. j \<noteq> i \<and> cached s d m j")
    case True
    then obtain j where j: "j \<noteq> i" "cached s d m j"
      by blast
    moreover from j have j': "cached s' d m j"
      by (simp add: ca)
    ultimately show ?thesis
      by (simp add: view_cached [OF inv j(2)] view_cached [OF inv' j'] refs_cached [OF inv j(2)]
          refs_cached [OF inv' j'] busy_cached [OF inv j(2)] busy_cached [OF inv' j'] nth)
  next
    case False
    then have un: "\<forall>j. \<not> cached s' d m j"
      using m by (auto simp: ca)
    have "refs d s m = 0 \<and> m \<notin> busy d s"
    proof (cases "cached s d m i")
      case True
      then have "b_refcnt (bufs s ! i) = 0"
        using p m by (auto simp: picks_def cached_def)
      then show ?thesis
        using u by (simp add: refs_cached [OF inv True] busy_cached [OF inv True])
    next
      case f: False
      have "\<forall>j. \<not> cached s d m j"
        using False f by auto
      then show ?thesis
        by (auto simp: refs_uncached busy_iff [OF inv])
    qed
    moreover have "medium s' = medium s" "m \<notin> busy d s'"
      using un by (simp_all add: s'_def [symmetric] busy_iff [OF inv']) (simp add: s'_def)
    ultimately show ?thesis
      using un unreferenced_clean [OF inv, of m] by (simp add: view_uncached refs_uncached)
  qed
  have "view d s' n = view d s n" "refs d s' n = refs d s n + 1"
    by (simp_all add: view_cached [OF inv' n'] refs_cached [OF inv' n'] nth grab_def)
  then show "view d s' = view d s" "refs d s' = (refs d s)(n := refs d s n + 1)"
    by (simp_all add: fun_eq_iff other) (metis other)
  have "n \<in> busy d s'"
    using n' by (auto simp: busy_iff [OF inv'] nth grab_def)
  then show "busy d s' = insert n (busy d s)"
    using other by (simp add: set_eq_iff) metis
  have "curpid s' = curpid s"
    by (simp add: s'_def)
  then show "holds d s' h k \<longleftrightarrow> h = i \<and> k = n \<or> holds d s h k"
    using u unfolding holds_def ca holdingsleep_buf_def nth by (auto simp: grab_def)
  have "b_refcnt (bufs s ! i) = refs d s n"
    using p by (auto simp: picks_def refs_cached [OF inv] refs_uncached)
  then show "room s' + of_bool (refs d s n = 0) = room s"
    using room_upd [OF i(1) binvD(4) [OF inv], of "grab d n s"] r by (simp add: s'_def grab_def)
  show "bdata s' h = (if h = i then view d s n else bdata s h)"
    by (simp add: bdata_def nth grab_def)
qed

section \<open>What a block cache promises\<close>

text \<open>What a client of the cache can observe: the content of every block as it sees it, the
  content on the disk, the writes the disk got, and for every block its reference count and
  whether it is locked; \<open>a_room\<close> is the number of buffers that can still be taken.\<close>

record bobs =
  a_view :: "u32 \<Rightarrow> u8 list"
  a_store :: "u32 \<Rightarrow> u8 list"
  a_writes :: "(u32 \<times> u8 list) list"
  a_refs :: "u32 \<Rightarrow> u32"
  a_busy :: "u32 set"
  a_room :: nat

definition a_steady :: "bobs \<Rightarrow> bool" where
  "a_steady w \<longleftrightarrow> (\<forall>n\<in>a_busy w. a_refs w n \<noteq> 0)"

text \<open>A block can be read: nobody holds it, its count does not overflow, and a buffer is free if
  one is needed.\<close>

definition a_readable :: "bobs \<Rightarrow> u32 \<Rightarrow> bool" where
  "a_readable w n \<longleftrightarrow> a_steady w \<and> n \<notin> a_busy w \<and> a_refs w n + 1 \<noteq> 0 \<and> (a_refs w n \<noteq> 0 \<or> 0 < a_room w)"

definition a_read :: "u32 \<Rightarrow> bobs \<Rightarrow> bobs" where
  "a_read n w = w\<lparr>a_refs := (a_refs w)(n := a_refs w n + 1), a_busy := insert n (a_busy w),
     a_room := a_room w - of_bool (a_refs w n = 0)\<rparr>"

definition a_write :: "u32 \<Rightarrow> bobs \<Rightarrow> bobs" where
  "a_write n w = w\<lparr>a_store := (a_store w)(n := a_view w n), a_writes := a_writes w @ [(n, a_view w n)]\<rparr>"

definition a_set :: "u32 \<Rightarrow> u8 list \<Rightarrow> bobs \<Rightarrow> bobs" where
  "a_set n x w = w\<lparr>a_view := (a_view w)(n := x)\<rparr>"

definition a_unref :: "u32 \<Rightarrow> bobs \<Rightarrow> bobs" where
  "a_unref n w = w\<lparr>a_refs := (a_refs w)(n := a_refs w n - 1),
     a_room := a_room w + of_bool (a_refs w n = 1) - of_bool (a_refs w n = 0)\<rparr>"

definition a_ref :: "u32 \<Rightarrow> bobs \<Rightarrow> bobs" where
  "a_ref n w = w\<lparr>a_refs := (a_refs w)(n := a_refs w n + 1), a_room := a_room w - of_bool (a_refs w n = 0)\<rparr>"

definition a_release :: "u32 \<Rightarrow> bobs \<Rightarrow> bobs" where
  "a_release n w = (a_unref n w)\<lparr>a_busy := a_busy w - {n}\<rparr>"

lemmas a_ops = a_read_def a_write_def a_set_def a_unref_def a_ref_def a_release_def

locale block_cache =
  fixes read_block :: "u32 \<Rightarrow> 's \<Rightarrow> ('h \<times> 's) res"
    and write_block :: "'h \<Rightarrow> 's \<Rightarrow> 's res"
    and release_block :: "'h \<Rightarrow> 's \<Rightarrow> 's res"
    and pin unpin :: "'h \<Rightarrow> 's \<Rightarrow> 's"
    and data :: "'s \<Rightarrow> 'h \<Rightarrow> u8 list"
    and set_data :: "'h \<Rightarrow> u8 list \<Rightarrow> 's \<Rightarrow> 's"
    and inv :: "'s \<Rightarrow> bool"
    and obs :: "'s \<Rightarrow> bobs"
    and hold :: "'s \<Rightarrow> 'h \<Rightarrow> u32 \<Rightarrow> bool"
  assumes read_law: "inv s \<Longrightarrow> a_readable (obs s) n \<Longrightarrow>
      \<exists>h s'. read_block n s = Ok (h, s') \<and> inv s' \<and> obs s' = a_read n (obs s) \<and> hold s' h n \<and>
        (\<forall>h' m. hold s h' m \<longrightarrow> hold s' h' m)"
    and write_law: "inv s \<Longrightarrow> hold s h n \<Longrightarrow>
      \<exists>s'. write_block h s = Ok s' \<and> inv s' \<and> obs s' = a_write n (obs s) \<and> hold s' = hold s"
    and set_law: "inv s \<Longrightarrow> hold s h n \<Longrightarrow> length x = BSIZE \<Longrightarrow> a_refs (obs s) n \<noteq> 0 \<Longrightarrow>
      inv (set_data h x s) \<and> obs (set_data h x s) = a_set n x (obs s) \<and> hold (set_data h x s) = hold s"
    and pin_law: "inv s \<Longrightarrow> hold s h n \<Longrightarrow> a_refs (obs s) n + 1 \<noteq> 0 \<Longrightarrow>
      inv (pin h s) \<and> obs (pin h s) = a_ref n (obs s) \<and> hold (pin h s) = hold s"
    and unpin_law: "inv s \<Longrightarrow> hold s h n \<Longrightarrow> (a_refs (obs s) n = 1 \<longrightarrow> a_view (obs s) n = a_store (obs s) n) \<Longrightarrow>
      inv (unpin h s) \<and> obs (unpin h s) = a_unref n (obs s) \<and> hold (unpin h s) = hold s"
    and release_law: "inv s \<Longrightarrow> hold s h n \<Longrightarrow> (a_refs (obs s) n = 1 \<longrightarrow> a_view (obs s) n = a_store (obs s) n) \<Longrightarrow>
      \<exists>s'. release_block h s = Ok s' \<and> inv s' \<and> obs s' = a_release n (obs s) \<and>
        (\<forall>h' m. hold s h' m \<longrightarrow> m \<noteq> n \<longrightarrow> hold s' h' m)"
    and data_law: "inv s \<Longrightarrow> hold s h n \<Longrightarrow> data s h = a_view (obs s) n \<and> n \<in> a_busy (obs s)"
    and clean_law: "inv s \<Longrightarrow> a_refs (obs s) n = 0 \<Longrightarrow> a_view (obs s) n = a_store (obs s) n"
    and size_law: "inv s \<Longrightarrow> length (a_view (obs s) n) = BSIZE \<and> length (a_store (obs s) n) = BSIZE"
begin

text \<open>Looking at a block: read it and give it back.\<close>

lemma read_release:
  assumes inv: "inv s" and r: "a_readable (obs s) n"
  shows "\<exists>h s1 s2. read_block n s = Ok (h, s1) \<and> data s1 h = a_view (obs s) n \<and> release_block h s1 = Ok s2 \<and>
    inv s2 \<and> obs s2 = obs s \<and> (\<forall>h m. hold s h m \<longrightarrow> hold s2 h m)"
proof -
  obtain h s1 where s1: "read_block n s = Ok (h, s1)" "inv s1" "obs s1 = a_read n (obs s)" "hold s1 h n"
    "\<forall>h' m. hold s h' m \<longrightarrow> hold s1 h' m"
    using read_law [OF inv r] by blast
  have "a_refs (obs s1) n = 1 \<longrightarrow> a_view (obs s1) n = a_store (obs s1) n"
    using clean_law [OF inv, of n] by (simp add: s1(3) a_read_def)
  then obtain s2 where s2: "release_block h s1 = Ok s2" "inv s2" "obs s2 = a_release n (obs s1)"
    "\<forall>h' m. hold s1 h' m \<longrightarrow> m \<noteq> n \<longrightarrow> hold s2 h' m"
    using release_law [OF s1(2,4)] by blast
  have "obs s2 = obs s"
    using r unfolding s2(3) s1(3)
    by (cases "obs s") (auto simp: a_ops a_readable_def insert_absorb)
  moreover have "\<forall>h' m. hold s h' m \<longrightarrow> hold s2 h' m"
    using s1(5) s2(4) data_law [OF inv] r by (metis a_readable_def)
  ultimately show ?thesis
    using s1 s2 data_law [OF s1(2,4)] by (auto simp: a_read_def)
qed

text \<open>Writing a block through: read it, change it, write it to the disk, give it back.\<close>

lemma write_through:
  assumes inv: "inv s" and r: "a_readable (obs s) n" and len: "\<And>x. length x = BSIZE \<Longrightarrow> length (f x) = BSIZE"
  shows "\<exists>s'. rbind (read_block n s) (\<lambda>(h, s).
      rbind (write_block h (set_data h (f (data s h)) s)) (release_block h)) = Ok s' \<and>
    inv s' \<and> obs s' = a_write n (a_set n (f (a_view (obs s) n)) (obs s))"
proof -
  obtain h s1 where s1: "read_block n s = Ok (h, s1)" "inv s1" "obs s1 = a_read n (obs s)" "hold s1 h n"
    using read_law [OF inv r] by blast
  have d1: "data s1 h = a_view (obs s) n"
    using data_law [OF s1(2,4)] by (simp add: s1(3) a_read_def)
  let ?x = "f (a_view (obs s) n)"
  define s2 where "s2 = set_data h ?x s1"
  have "length ?x = BSIZE" "a_refs (obs s1) n \<noteq> 0"
    using size_law [OF inv] len r by (auto simp: s1(3) a_read_def a_readable_def)
  then have s2: "inv s2" "obs s2 = a_set n ?x (obs s1)" "hold s2 h n"
    using set_law [OF s1(2,4)] s1(4) by (auto simp: s2_def)
  obtain s3 where s3: "write_block h s2 = Ok s3" "inv s3" "obs s3 = a_write n (obs s2)" "hold s3 h n"
    using write_law [OF s2(1,3)] s2(3) by auto
  have "a_view (obs s3) n = a_store (obs s3) n"
    by (simp add: s3(3) a_write_def)
  then obtain s4 where s4: "release_block h s3 = Ok s4" "inv s4" "obs s4 = a_release n (obs s3)"
    using release_law [OF s3(2,4)] by blast
  have "obs s4 = a_write n (a_set n ?x (obs s))"
    using r unfolding s4(3) s3(3) s2(2) s1(3)
    by (cases "obs s") (auto simp: a_ops a_readable_def)
  then show ?thesis
    using s1(1) s3(1) s4(1,2) by (simp add: d1 s2_def)
qed

text \<open>Copying a block over another one, which is written to the disk.\<close>

lemma copy_to:
  assumes inv: "inv s" and ne: "t \<noteq> b" and r: "a_readable (obs s) t" "a_readable (obs s) b"
    and two: "a_refs (obs s) t \<noteq> 0 \<or> a_refs (obs s) b \<noteq> 0 \<or> 1 < a_room (obs s)"
  shows "\<exists>s'. rbind (read_block t s) (\<lambda>(to, s). rbind (read_block b s) (\<lambda>(from, s).
      rbind (write_block to (set_data to (data s from) s)) (\<lambda>s.
      rbind (release_block from s) (release_block to)))) = Ok s' \<and>
    inv s' \<and> obs s' = a_write t (a_set t (a_view (obs s) b) (obs s))"
proof -
  obtain h s1 where s1: "read_block t s = Ok (h, s1)" "inv s1" "obs s1 = a_read t (obs s)" "hold s1 h t"
    using read_law [OF inv r(1)] by blast
  have r2: "a_readable (obs s1) b"
    using r two ne by (auto simp: s1(3) a_read_def a_readable_def a_steady_def)
  obtain g s2 where s2: "read_block b s1 = Ok (g, s2)" "inv s2" "obs s2 = a_read b (obs s1)" "hold s2 g b" "hold s2 h t"
    using read_law [OF s1(2) r2] s1(4) by blast
  let ?x = "a_view (obs s) b"
  have d2: "data s2 g = ?x"
    using data_law [OF s2(2,4)] by (simp add: s2(3) s1(3) a_read_def)
  define s3 where "s3 = set_data h ?x s2"
  have "a_refs (obs s2) t \<noteq> 0"
    using r ne by (auto simp: s2(3) s1(3) a_read_def a_readable_def)
  then have s3: "inv s3" "obs s3 = a_set t ?x (obs s2)" "hold s3 h t" "hold s3 g b"
    using set_law [OF s2(2,5)] size_law [OF inv] s2 by (auto simp: s3_def)
  obtain s4 where s4: "write_block h s3 = Ok s4" "inv s4" "obs s4 = a_write t (obs s3)" "hold s4 h t" "hold s4 g b"
    using write_law [OF s3(1,3)] s3 by auto
  have "a_refs (obs s4) b = 1 \<longrightarrow> a_view (obs s4) b = a_store (obs s4) b"
    using clean_law [OF inv, of b] ne by (simp add: s4(3) s3(2) s2(3) s1(3) a_ops)
  then obtain s5 where s5: "release_block g s4 = Ok s5" "inv s5" "obs s5 = a_release b (obs s4)" "hold s5 h t"
    using release_law [OF s4(2,5)] s4(4) ne by blast
  have "a_view (obs s5) t = a_store (obs s5) t"
    by (simp add: s5(3) s4(3) a_ops)
  then obtain s6 where s6: "release_block h s5 = Ok s6" "inv s6" "obs s6 = a_release t (obs s5)"
    using release_law [OF s5(2,4)] by blast
  have "obs s6 = a_write t (a_set t ?x (obs s))"
    using r two ne unfolding s6(3) s5(3) s4(3) s3(2) s2(3) s1(3)
    by (cases "obs s") (auto simp: a_ops a_readable_def fun_upd_twist)
  then show ?thesis
    using s1(1) s2(1) s4(1) s5(1) s6(1,2) by (simp add: d2 s3_def)
qed

text \<open>The same, with the source read first and the destination losing a reference on the way. A
  destination that had no reference ends with the count wrapped around.\<close>

lemma copy_from_unpin:
  assumes inv: "inv s" and ne: "t \<noteq> b" and r: "a_readable (obs s) t" "a_readable (obs s) b"
    and two: "a_refs (obs s) t \<noteq> 0 \<or> a_refs (obs s) b \<noteq> 0 \<or> 1 < a_room (obs s)"
  shows "\<exists>s'. rbind (read_block t s) (\<lambda>(from, s). rbind (read_block b s) (\<lambda>(to, s).
      rbind (write_block to (set_data to (data s from) s)) (\<lambda>s.
      rbind (release_block from (unpin to s)) (release_block to)))) = Ok s' \<and>
    inv s' \<and> obs s' = a_unref b (a_write b (a_set b (a_view (obs s) t) (obs s)))"
proof -
  obtain h s1 where s1: "read_block t s = Ok (h, s1)" "inv s1" "obs s1 = a_read t (obs s)" "hold s1 h t"
    using read_law [OF inv r(1)] by blast
  have r2: "a_readable (obs s1) b"
    using r two ne by (auto simp: s1(3) a_read_def a_readable_def a_steady_def)
  obtain g s2 where s2: "read_block b s1 = Ok (g, s2)" "inv s2" "obs s2 = a_read b (obs s1)" "hold s2 g b" "hold s2 h t"
    using read_law [OF s1(2) r2] s1(4) by blast
  let ?x = "a_view (obs s) t"
  have d2: "data s2 h = ?x"
    using data_law [OF s2(2,5)] by (simp add: s2(3) s1(3) a_read_def)
  define s3 where "s3 = set_data g ?x s2"
  have "a_refs (obs s2) b \<noteq> 0"
    using r ne by (auto simp: s2(3) s1(3) a_read_def a_readable_def)
  then have s3: "inv s3" "obs s3 = a_set b ?x (obs s2)" "hold s3 h t" "hold s3 g b"
    using set_law [OF s2(2,4)] size_law [OF inv] s2 by (auto simp: s3_def)
  obtain s4 where s4: "write_block g s3 = Ok s4" "inv s4" "obs s4 = a_write b (obs s3)" "hold s4 h t" "hold s4 g b"
    using write_law [OF s3(1,4)] s3 by auto
  have "a_view (obs s4) b = a_store (obs s4) b"
    by (simp add: s4(3) a_write_def)
  then have s5: "inv (unpin g s4)" "obs (unpin g s4) = a_unref b (obs s4)" "hold (unpin g s4) h t" "hold (unpin g s4) g b"
    using unpin_law [OF s4(2,5)] s4(4,5) by auto
  have "a_refs (obs (unpin g s4)) t = 1 \<longrightarrow> a_view (obs (unpin g s4)) t = a_store (obs (unpin g s4)) t"
    using clean_law [OF inv, of t] ne by (simp add: s5(2) s4(3) s3(2) s2(3) s1(3) a_ops)
  then obtain s6 where s6: "release_block h (unpin g s4) = Ok s6" "inv s6" "obs s6 = a_release t (obs (unpin g s4))" "hold s6 g b"
    using release_law [OF s5(1,3)] s5(4) ne by blast
  have "a_view (obs s6) b = a_store (obs s6) b"
    by (simp add: s6(3) s5(2) s4(3) a_ops)
  then obtain s7 where s7: "release_block g s6 = Ok s7" "inv s7" "obs s7 = a_release b (obs s6)"
    using release_law [OF s6(2,4)] by blast
  have "obs s7 = a_unref b (a_write b (a_set b ?x (obs s)))"
    using r two ne unfolding s7(3) s6(3) s5(2) s4(3) s3(2) s2(3) s1(3)
    by (cases "obs s") (auto simp: a_ops a_readable_def fun_upd_twist)
  then show ?thesis
    using s1(1) s2(1) s4(1) s6(1) s7(1,2) by (simp add: d2 s3_def)
qed

end

definition bobs_of :: "u32 \<Rightarrow> bstate \<Rightarrow> bobs" where
  "bobs_of d s = \<lparr>a_view = view d s, a_store = medium s, a_writes = wtrace s, a_refs = refs d s,
     a_busy = busy d s, a_room = room s\<rparr>"

lemma holdsD:
  assumes "binv d s" and "holds d s h n"
  shows "cached s d n h" "h < NBUF" "h < length (bufs s)" "holdingsleep_buf h s" "b_dev (bufs s ! h) = d"
    "b_blockno (bufs s ! h) = n" "b_valid (bufs s ! h)" "length (b_data (bufs s ! h)) = BSIZE"
    "b_data (bufs s ! h) = view d s n" "b_refcnt (bufs s ! h) = refs d s n" "b_locked (bufs s ! h)"
    "b_pid (bufs s ! h) = curpid s" "n \<in> busy d s"
proof -
  show c: "cached s d n h" and "holdingsleep_buf h s"
    using assms(2) by (auto simp: holds_def)
  then show "h < NBUF" "h < length (bufs s)" "b_dev (bufs s ! h) = d" "b_blockno (bufs s ! h) = n"
    "b_locked (bufs s ! h)" "b_pid (bufs s ! h) = curpid s"
    using binvD(4) [OF assms(1)] by (auto simp: cached_def holdingsleep_buf_def)
  then show "b_valid (bufs s ! h)" "length (b_data (bufs s ! h)) = BSIZE" "b_data (bufs s ! h) = view d s n"
    "b_refcnt (bufs s ! h) = refs d s n" "n \<in> busy d s"
    using c assms(1) by (auto simp: binvD view_cached refs_cached busy_cached)
qed

text \<open>An update that keeps the buffer held, and the update that gives it up.\<close>

lemma upd_held:
  assumes inv: "binv d s" and h: "holds d s h n"
    and f: "\<And>x. b_dev (f x) = b_dev x" "\<And>x. b_blockno (f x) = b_blockno x" "\<And>x. b_valid (f x) = b_valid x"
      "\<And>x. b_next (f x) = b_next x" "\<And>x. b_prev (f x) = b_prev x"
    and g: "length (b_data (f (bufs s ! h))) = BSIZE"
      "b_refcnt (f (bufs s ! h)) = 0 \<Longrightarrow> b_data (f (bufs s ! h)) = medium s n"
  shows "binv d (upd_buf h f s)"
    "b_locked (f (bufs s ! h)) \<Longrightarrow> b_pid (f (bufs s ! h)) = curpid s \<Longrightarrow> holds d (upd_buf h f s) = holds d s"
    "holds d s h' m \<Longrightarrow> m \<noteq> n \<Longrightarrow> holds d (upd_buf h f s) h' m"
    "bobs_of d (upd_buf h f s) = (bobs_of d s)\<lparr>a_view := (view d s)(n := b_data (f (bufs s ! h))),
       a_refs := (refs d s)(n := b_refcnt (f (bufs s ! h))),
       a_busy := (if b_locked (f (bufs s ! h)) then busy d s else busy d s - {n}),
       a_room := room s + of_bool (b_refcnt (f (bufs s ! h)) = 0) - of_bool (refs d s n = 0)\<rparr>"
proof -
  note hD = holdsD [OF inv h]
  have id: "b_dev (f (bufs s ! h)) = d" "b_blockno (f (bufs s ! h)) = n"
    using f hD by simp_all
  show "binv d (upd_buf h f s)"
    using f g hD id by (intro upd_inv [OF inv hD(1)]) simp_all
  note u = upd_abs [OF inv hD(1), of f, OF id]
  have "holds d s h k \<longleftrightarrow> k = n" for k
    using h hD by (auto simp: holds_def cached_def)
  then show "holds d (upd_buf h f s) = holds d s"
    if "b_locked (f (bufs s ! h))" "b_pid (f (bufs s ! h)) = curpid s"
    using that by (auto simp: fun_eq_iff u)
  show "holds d (upd_buf h f s) h' m" if "holds d s h' m" "m \<noteq> n"
    using that \<open>\<And>k. holds d s h k \<longleftrightarrow> k = n\<close> by (auto simp: u)
  have "room (upd_buf h f s) = room s + of_bool (b_refcnt (f (bufs s ! h)) = 0) - of_bool (refs d s n = 0)"
    using u(6) by simp
  then show "bobs_of d (upd_buf h f s) = (bobs_of d s)\<lparr>a_view := (view d s)(n := b_data (f (bufs s ! h))),
       a_refs := (refs d s)(n := b_refcnt (f (bufs s ! h))),
       a_busy := (if b_locked (f (bufs s ! h)) then busy d s else busy d s - {n}),
       a_room := room s + of_bool (b_refcnt (f (bufs s ! h)) = 0) - of_bool (refs d s n = 0)\<rparr>"
    using hD(13) by (simp add: bobs_of_def u insert_absorb)
qed

lemma upd_keep:
  assumes inv: "binv d s" and h: "holds d s h n"
    and f: "\<And>x. b_dev (f x) = b_dev x" "\<And>x. b_blockno (f x) = b_blockno x" "\<And>x. b_valid (f x) = b_valid x"
      "\<And>x. b_next (f x) = b_next x" "\<And>x. b_prev (f x) = b_prev x" "\<And>x. b_locked (f x) = b_locked x"
      "\<And>x. b_pid (f x) = b_pid x"
    and g: "length (b_data (f (bufs s ! h))) = BSIZE"
      "b_refcnt (f (bufs s ! h)) = 0 \<Longrightarrow> b_data (f (bufs s ! h)) = medium s n"
    and w: "w = (bobs_of d s)\<lparr>a_view := (view d s)(n := b_data (f (bufs s ! h))),
       a_refs := (refs d s)(n := b_refcnt (f (bufs s ! h))),
       a_room := room s + of_bool (b_refcnt (f (bufs s ! h)) = 0) - of_bool (refs d s n = 0)\<rparr>"
  shows "binv d (upd_buf h f s) \<and> bobs_of d (upd_buf h f s) = w \<and> holds d (upd_buf h f s) = holds d s"
  using upd_held(1,2,4) [OF inv h f(1-5) g] holdsD [OF inv h] f(6,7) w by (simp add: bobs_of_def)

lemma bread_law:
  assumes "binv d s" and "a_readable (bobs_of d s) n"
  shows "\<exists>h s'. bread d n s = Ok (h, s') \<and> binv d s' \<and> bobs_of d s' = a_read n (bobs_of d s) \<and>
    holds d s' h n \<and> (\<forall>h' m. holds d s h' m \<longrightarrow> holds d s' h' m)"
proof -
  have a: "steady d s" "n \<notin> busy d s" "refs d s n \<noteq> 0 \<or> 0 < room s" "refs d s n + 1 \<noteq> 0"
    using assms(2) by (auto simp: a_readable_def a_steady_def bobs_of_def steady_def)
  obtain i where i: "picks d n s i" "bread d n s = Ok (i, upd_buf i (grab d n s) s)"
    using bread_eq [OF assms(1) a(1-3)] by blast
  note g = grab_abs [OF assms(1) i(1) a(4)]
  have "room (upd_buf i (grab d n s) s) = room s - of_bool (refs d s n = 0)"
    using g(5) by simp
  then have "bobs_of d (upd_buf i (grab d n s) s) = a_read n (bobs_of d s)"
    by (simp add: bobs_of_def a_read_def g)
  then show ?thesis
    using i grab_inv [OF assms(1) i(1) a(4)] by (auto simp: g)
qed

lemma bwrite_law:
  assumes inv: "binv d s" and h: "holds d s h n"
  shows "\<exists>s'. bwrite h s = Ok s' \<and> binv d s' \<and> bobs_of d s' = a_write n (bobs_of d s) \<and> holds d s' = holds d s"
proof -
  note hD = holdsD [OF inv h]
  let ?s = "s\<lparr>medium := (medium s)(n := view d s n), wtrace := wtrace s @ [(n, view d s n)]\<rparr>"
  have w: "bwrite h s = Ok ?s"
    using hD by (simp add: bwrite_def disk_rw_def Let_def)
  have ca: "cached ?s d m i = cached s d m i" for m i
    by (simp add: cached_def)
  have fb: "find_buf d m ?s = find_buf d m s" for m
    by (simp add: find_buf_def ca cong: find_cong)
  have fn: "find_buf d n s = Some h"
    using hD(1) by (simp add: find_buf_Some [OF inv])
  have "view d ?s m = view d s m" for m
    unfolding view_def [of d _ m] fb by (cases "m = n") (simp_all add: fn split: option.split)
  moreover have "refs d ?s = refs d s" "busy d ?s = busy d s" "room ?s = room s"
    by (auto simp: refs_def busy_def room_def fb fun_eq_iff split: option.split)
  ultimately have "bobs_of d ?s = a_write n (bobs_of d s)"
    by (simp add: bobs_of_def a_write_def fun_eq_iff)
  moreover have "binv d ?s"
  proof -
    have "b_data (bufs s ! i) = view d s n" if "i < NBUF" "b_dev (bufs s ! i) = d" "b_blockno (bufs s ! i) = n" for i
      using that view_cached [OF inv, of n i] by (simp add: cached_def)
    then show ?thesis
      using inv hD(8,9) by (auto simp: binv_def ca)
  qed
  moreover have "holds d ?s = holds d s"
    by (simp add: fun_eq_iff holds_def ca holdingsleep_buf_def)
  ultimately show ?thesis
    using w by blast
qed

lemma brelse_law:
  assumes inv: "binv d s" and h: "holds d s h n" and c: "refs d s n = 1 \<longrightarrow> view d s n = medium s n"
  shows "\<exists>s'. brelse h s = Ok s' \<and> binv d s' \<and> bobs_of d s' = a_release n (bobs_of d s) \<and>
    (\<forall>h' m. holds d s h' m \<longrightarrow> m \<noteq> n \<longrightarrow> holds d s' h' m)"
proof -
  note hD = holdsD [OF inv h]
  let ?f = "\<lambda>x. x\<lparr>b_locked := False, b_pid := 0, b_refcnt := b_refcnt x - 1\<rparr>"
  let ?t = "upd_buf h ?f s"
  define s' where "s' = (if refs d s n = 1 then ?t\<lparr>bufs := move_front h (bufs ?t)\<rparr> else ?t)"
  have "brelse h s = Ok s'"
    using hD by (simp add: brelse_def releasesleep_buf_def Let_def upd_buf_upd_buf upd_buf_nth s'_def)
  have fr: "length (b_data (?f (bufs s ! h))) = BSIZE"
    "b_refcnt (?f (bufs s ! h)) = 0 \<Longrightarrow> b_data (?f (bufs s ! h)) = medium s n"
    using hD c by simp_all
  note u = upd_held [OF inv h, of ?f, OF _ _ _ _ _ fr]
  have i: "binv d ?t"
    by (rule u) simp_all
  have o: "bobs_of d ?t = a_release n (bobs_of d s)"
    using hD by (subst u) (simp_all add: a_ops bobs_of_def)
  have "binv d s'"
    using i reorder_inv [OF i hD(2)] by (simp add: s'_def)
  moreover have "bobs_of d s' = bobs_of d ?t"
    by (simp add: s'_def bobs_of_def fun_eq_iff reorder_abs)
  moreover have "holds d s' h' m" if "holds d s h' m" "m \<noteq> n" for h' m
  proof -
    have "holds d ?t h' m"
      using that by (intro u(3)) simp_all
    then show ?thesis
      by (simp add: s'_def reorder_abs)
  qed
  ultimately show ?thesis
    using o \<open>brelse h s = Ok s'\<close> by auto
qed

interpretation bcache: block_cache "bread d" bwrite brelse bpin bunpin bdata set_bdata "binv d" "bobs_of d" "holds d"
  for d
proof (unfold_locales, goal_cases)
  case (1 s n)
  then show ?case by (rule bread_law)
next
  case (2 s h n)
  then show ?case by (rule bwrite_law)
next
  case (3 s h n x)
  show ?case
    unfolding set_bdata_def using 3(3,4) holdsD [OF 3(1,2)]
    by (intro upd_keep [OF 3(1,2)]) (simp_all add: bobs_of_def a_set_def)
next
  case (4 s h n)
  show ?case
    unfolding bpin_def using 4(3) holdsD [OF 4(1,2)]
    by (intro upd_keep [OF 4(1,2)]) (simp_all add: bobs_of_def a_ref_def)
next
  case (5 s h n)
  show ?case
    unfolding bunpin_def using 5(3) holdsD [OF 5(1,2)]
    by (intro upd_keep [OF 5(1,2)]) (simp_all add: bobs_of_def a_unref_def)
next
  case (6 s h n)
  then show ?case
    by (intro brelse_law) (auto simp: bobs_of_def)
next
  case (7 s h n)
  then show ?case
    using holdsD [OF 7] by (simp add: bobs_of_def bdata_def)
next
  case (8 s n)
  then show ?case
    by (simp add: bobs_of_def unreferenced_clean)
next
  case (9 s n)
  then show ?case
    using binvD(3,5) [OF 9] by (auto simp: bobs_of_def view_def find_buf_Some [OF 9] cached_def split: option.split)
qed

section \<open>The cache after boot\<close>

definition bcache_bss :: "buf list" where
  "bcache_bss = replicate (NBUF + 1) zero_buf"

lemma bcache_bss_simps [simp]: "length bcache_bss = NBUF + 1" "i < NBUF + 1 \<Longrightarrow> bcache_bss ! i = zero_buf"
  by (simp_all only: bcache_bss_def length_replicate nth_replicate)

definition bboot :: "nat \<Rightarrow> (u32 \<Rightarrow> u8 list) \<Rightarrow> bstate" where
  "bboot pid m = \<lparr>bufs = binit bcache_bss, medium = m, wtrace = [], curpid = pid\<rparr>"

lemma length_binit [simp]: "length (binit bs) = length bs"
proof -
  have "length (foldl binit_step bs xs) = length bs" for bs xs
    by (induction xs arbitrary: bs) simp_all
  then show ?thesis
    by (simp add: binit_def)
qed

lemma binit_step_zero:
  assumes "\<forall>j < length bs. unlinked (bs ! j) = unlinked zero_buf" and "b < length bs"
  shows "\<forall>j < length bs. unlinked (binit_step bs b ! j) = unlinked zero_buf"
proof -
  have l: "unlinked (bs'[b := (bs' ! b)\<lparr>b_locked := False, b_pid := 0\<rparr>] ! j) = unlinked zero_buf"
    if "unlinked (bs' ! j) = unlinked zero_buf" "b < length bs'" for bs' j
    using that unlinkedD [OF that(1)]
    by (cases "j = b") (auto intro!: buf.equality simp: unlinked_def zero_buf_def)
  show ?thesis
  proof (intro allI impI)
    fix j
    assume "j < length bs"
    then show "unlinked (binit_step bs b ! j) = unlinked zero_buf"
      unfolding binit_step_def Let_def unlinked_set using assms
      by (intro l) (unfold unlinked_set, simp_all)
  qed
qed

lemma binit_zero:
  assumes "i < NBUF + 1"
  shows "unlinked (binit bcache_bss ! i) = unlinked zero_buf"
proof -
  let ?bs = "bcache_bss[NBUF := (bcache_bss ! NBUF)\<lparr>b_prev := NBUF, b_next := NBUF\<rparr>]"
  have "length (foldl binit_step ?bs [0..<n]) = NBUF + 1 \<and>
      (\<forall>j < NBUF + 1. unlinked (foldl binit_step ?bs [0..<n] ! j) = unlinked zero_buf)" if "n \<le> NBUF" for n
    using that
  proof (induction n)
    case 0
    then show ?case
      by (auto simp: nth_list_update unlinked_def)
  next
    case (Suc n)
    then show ?case
      using binit_step_zero [of "foldl binit_step ?bs [0..<n]" n] by simp
  qed
  from this [of NBUF] show ?thesis
    using assms by (simp add: binit_def)
qed

lemma bboot_fields:
  assumes "i < NBUF"
  shows "b_valid (bufs (bboot pid m) ! i) = False" "b_dev (bufs (bboot pid m) ! i) = 0"
    "b_locked (bufs (bboot pid m) ! i) = False" "b_refcnt (bufs (bboot pid m) ! i) = 0"
    "b_data (bufs (bboot pid m) ! i) = replicate BSIZE 0"
  using unlinkedD [OF binit_zero [of i]] assms by (simp_all add: zero_buf_def bboot_def)

lemma bboot_inv:
  assumes "d \<noteq> 0" and "\<forall>n. length (m n) = BSIZE"
  shows "binv d (bboot pid m)"
    "bobs_of d (bboot pid m) = \<lparr>a_view = m, a_store = m, a_writes = [], a_refs = (\<lambda>_. 0), a_busy = {}, a_room = NBUF\<rparr>"
proof -
  note z = bboot_fields [of _ pid m]
  have c: "\<not> cached (bboot pid m) d n i" for n i
    using assms(1) z by (auto simp: cached_def)
  then show "binv d (bboot pid m)"
    using assms binit_lru [of bcache_bss] unfolding binv_def by (auto simp: z) (auto simp: bboot_def)
  have "find_buf d n (bboot pid m) = None" for n
    using c by (simp add: find_buf_None)
  moreover have "{i. i < NBUF \<and> b_refcnt (bufs (bboot pid m) ! i) = 0} = {0..<NBUF}"
    by (auto simp: z)
  ultimately show "bobs_of d (bboot pid m) = \<lparr>a_view = m, a_store = m, a_writes = [], a_refs = (\<lambda>_. 0), a_busy = {}, a_room = NBUF\<rparr>"
    by (simp add: bobs_of_def view_def refs_def busy_def room_def fun_eq_iff) (simp add: bboot_def)
qed

section \<open>Properties\<close>

text \<open>The blank disk of the examples.\<close>

definition blank :: "u32 \<Rightarrow> u8 list" where
  "blank = (\<lambda>_. replicate BSIZE 0)"

lemma blank_boot:
  "binv 1 (bboot 1 blank)"
  "bobs_of 1 (bboot 1 blank) = \<lparr>a_view = blank, a_store = blank, a_writes = [], a_refs = (\<lambda>_. 0), a_busy = {}, a_room = NBUF\<rparr>"
  using bboot_inv [of 1 blank 1] by (simp_all add: blank_def)

text \<open>C10: \<^verbatim>\<open>bread\<close> of a block that nobody holds, when it is cached and referenced or some buffer is
  free, returns a buffer locked by the caller that holds the block's current content (the cached
  one if there is one, else the disk's); the invariant of the cache, the content of every block,
  the disk and the buffers held before stay as they were, and the block has one more reference.\<close>

theorem bread_correct:
  assumes "binv d s" and "steady d s" and "n \<notin> busy d s" and "refs d s n + 1 \<noteq> 0"
    and "refs d s n \<noteq> 0 \<or> 0 < room s"
  shows "\<exists>b s'. bread d n s = Ok (b, s') \<and> binv d s' \<and> steady d s' \<and> holds d s' b n \<and>
    bdata s' b = view d s n \<and> view d s' = view d s \<and> medium s' = medium s \<and> wtrace s' = wtrace s \<and>
    refs d s' = (refs d s)(n := refs d s n + 1) \<and> (\<forall>b' m. holds d s b' m \<longrightarrow> holds d s' b' m)"
proof -
  have "a_readable (bobs_of d s) n"
    using assms by (simp add: a_readable_def a_steady_def bobs_of_def steady_def)
  then obtain b s' where s': "bread d n s = Ok (b, s')" "binv d s'" "bobs_of d s' = a_read n (bobs_of d s)"
    "holds d s' b n" "\<forall>b' m. holds d s b' m \<longrightarrow> holds d s' b' m"
    using bcache.read_law [OF assms(1)] by blast
  have "bdata s' b = view d s' n"
    using bcache.data_law [OF s'(2,4)] by (simp add: bobs_of_def)
  moreover have "view d s' = view d s" "medium s' = medium s" "wtrace s' = wtrace s"
    "refs d s' = (refs d s)(n := refs d s n + 1)" "busy d s' = insert n (busy d s)"
    using s'(3) by (simp_all add: bobs_of_def a_read_def)
  ultimately show ?thesis
    using s' assms(2,4) by (auto simp: steady_def)
qed

theorem bread_correct_witness:
  "\<exists>b s'. bread 1 45 (bboot 1 blank) = Ok (b, s') \<and> bdata s' b = replicate BSIZE 0"
  using bread_correct [of 1 "bboot 1 blank" 45] blank_boot
  by (auto simp: bobs_of_def steady_def blank_def NBUF_def MAXOPBLOCKS_def)

text \<open>C11: replacement is least recently used. Seen as a list, the cache keeps its order except
  that \<^verbatim>\<open>brelse\<close> of the last reference moves the buffer to the front; when a block is not cached,
  \<^verbatim>\<open>bget\<close> takes the unreferenced buffer nearest to the back, and if there is none it panics
  without looping.\<close>

theorem bcache_lru:
  assumes "lru (bufs s) xs" and "\<forall>i < NBUF. \<not> (b_dev (bufs s ! i) = d \<and> b_blockno (bufs s ! i) = n)"
    and "\<forall>i < NBUF. b_refcnt (bufs s ! i) = 0 \<longrightarrow> \<not> b_locked (bufs s ! i)"
  shows "(case find (\<lambda>i. b_refcnt (bufs s ! i) = 0) (rev xs) of
      None \<Rightarrow> bget d n s = Panic ''bget: no buffers''
    | Some i \<Rightarrow> \<exists>s'. bget d n s = Ok (i, s') \<and> lru (bufs s') xs \<and>
        (\<exists>s''. brelse i s' = Ok s'' \<and> lru (bufs s'') (i # remove1 i xs)))"
proof -
  have xs: "set xs = {0..<NBUF}" and len: "length (bufs s) = NBUF + 1"
    using assms(1) by (auto simp: lru_def)
  have none: "find (\<lambda>j. b_dev (bufs s ! j) = d \<and> b_blockno (bufs s ! j) = n) xs = None"
    using xs assms(2) by (auto simp: find_None_iff)
  show ?thesis
  proof (cases "find (\<lambda>i. b_refcnt (bufs s ! i) = 0) (rev xs)")
    case None
    then show ?thesis
      unfolding bget_def scan_next [OF assms(1)] scan_prev [OF assms(1)] none by simp
  next
    case (Some i)
    then have i: "i < NBUF" "b_refcnt (bufs s ! i) = 0"
      using xs by (auto dest: find_SomeD)
    let ?s = "upd_buf i (\<lambda>x. x\<lparr>b_dev := d, b_blockno := n, b_valid := False, b_refcnt := 1,
       b_locked := True, b_pid := curpid s\<rparr>) s"
    have g: "bget d n s = Ok (i, ?s)"
      using i len assms(3) unfolding bget_def scan_next [OF assms(1)] scan_prev [OF assms(1)] none
      by (simp add: Some acquiresleep_buf_def upd_buf_nth upd_buf_upd_buf)
    have l: "lru (bufs ?s) xs"
      unfolding upd_buf_def using assms(1) by (simp add: lru_upd)
    let ?t = "upd_buf i (\<lambda>x. x\<lparr>b_locked := False, b_pid := 0, b_refcnt := b_refcnt x - 1\<rparr>) ?s"
    have "lru (bufs ?t) xs"
      using l unfolding upd_buf_def [of _ _ ?s] by (simp add: lru_upd)
    then have "lru (move_front i (bufs ?t)) (i # remove1 i xs)"
      using i by (simp add: lru_move_front)
    moreover have "brelse i ?s = Ok (?t\<lparr>bufs := move_front i (bufs ?t)\<rparr>)"
      using i len by (simp add: brelse_def holdingsleep_buf_def releasesleep_buf_def Let_def upd_buf_nth upd_buf_upd_buf)
    ultimately show ?thesis
      using g l Some by auto
  qed
qed

theorem bcache_lru_witness:
  "\<exists>s' s''. bget 1 45 (bboot 1 blank) = Ok (0, s') \<and> brelse 0 s' = Ok s'' \<and>
     lru (bufs s'') (0 # remove1 0 (rev [0..<NBUF]))"
proof -
  have l: "lru (bufs (bboot 1 blank)) (rev [0..<NBUF])"
    using binit_lru [of bcache_bss] by (simp add: bboot_def)
  have N: "[0..<NBUF] = 0 # [1..<NBUF]" "(0 :: nat) < NBUF"
    by (simp_all add: NBUF_def MAXOPBLOCKS_def upt_conv_Cons)
  then have "find (\<lambda>i. b_refcnt (bufs (bboot 1 blank) ! i) = 0) (rev (rev [0..<NBUF])) = Some 0"
    by (simp add: bboot_fields)
  then show ?thesis
    using bcache_lru [OF l, of 1 45] by (auto simp: bboot_fields)
qed

end
