(* ===== verification/Klog.thy ===== *)
theory Klog
  imports Bio
begin

text \<open>
  \<^verbatim>\<open>kernel/log.c\<close>: the write-ahead log that makes each group of file-system calls atomic with
  respect to crashes. The state joins the block cache with \<^verbatim>\<open>struct log\<close>; C integers that only
  count are \<open>int\<close>, block numbers are 32-bit words. The on-disk header is the byte layout of
  \<^verbatim>\<open>struct logheader\<close>: \<^verbatim>\<open>n\<close> and then the block numbers, four little-endian bytes each.

  The functions run under the log's protocol by one thread at a time (\<^verbatim>\<open>commit\<close> runs alone because
  of \<^verbatim>\<open>log.committing\<close>); a caller that has to wait in \<^verbatim>\<open>begin_op\<close> is \<open>Blocked\<close>.
\<close>

section \<open>State\<close>

definition LOGSIZE :: nat where "LOGSIZE = MAXOPBLOCKS * 3"

record log =
  l_start :: u32
  l_size :: int
  l_outstanding :: int
  l_committing :: bool
  l_dev :: u32
  l_n :: int
  l_block :: "u32 list"

record lstate =
  lbs :: bstate
  lg :: log

definition log_bss :: log where
  "log_bss = \<lparr>l_start = 0, l_size = 0, l_outstanding = 0, l_committing = False, l_dev = 0,
     l_n = 0, l_block = replicate LOGSIZE 0\<rparr>"

definition lblock :: "log \<Rightarrow> nat \<Rightarrow> u32 res" where
  "lblock l i = (if i < length (l_block l) then Ok (l_block l ! i) else Fault ''log.lh.block'')"

section \<open>The header block\<close>

definition hd_n :: "u8 list \<Rightarrow> int" where
  "hd_n d = sint (le_word (subarr 0 4 d) :: u32)"

definition hd_block :: "u8 list \<Rightarrow> nat \<Rightarrow> u32" where
  "hd_block d i = le_word (subarr (4 + 4 * i) 4 d)"

primrec head_in :: "nat \<Rightarrow> nat \<Rightarrow> u8 list \<Rightarrow> u32 list \<Rightarrow> u32 list res" where
  "head_in 0 i d bl = Ok bl"
| "head_in (Suc k) i d bl =
     (if i < length bl then head_in k (Suc i) d (bl[i := hd_block d i]) else Fault ''log.lh.block'')"

primrec head_out :: "nat \<Rightarrow> nat \<Rightarrow> log \<Rightarrow> u8 list \<Rightarrow> u8 list" where
  "head_out 0 i l d = d"
| "head_out (Suc k) i l d =
     head_out k (Suc i) l (overwrite (4 + 4 * i) (le_bytes 4 (l_block l ! i)) d)"

definition read_head :: "lstate \<Rightarrow> lstate res" where
  "read_head s =
     (let l = lg s in
      rbind (bread (l_dev l) (l_start l) (lbs s)) (\<lambda>(buf, b).
      let n = hd_n (bdata b buf) in
      rbind (head_in (nat n) 0 (bdata b buf) (l_block l)) (\<lambda>bl.
      rbind (brelse buf b) (\<lambda>b.
      Ok (s\<lparr>lbs := b, lg := l\<lparr>l_n := n, l_block := bl\<rparr>\<rparr>)))))"

definition write_head :: "lstate \<Rightarrow> lstate res" where
  "write_head s =
     (let l = lg s in
      rbind (bread (l_dev l) (l_start l) (lbs s)) (\<lambda>(buf, b).
      rbind (bwrite buf (set_bdata buf
          (head_out (nat (l_n l)) 0 l (overwrite 0 (le_bytes 4 (word_of_int (l_n l) :: u32)) (bdata b buf))) b)) (\<lambda>b.
      rbind (brelse buf b) (\<lambda>b.
      Ok (s\<lparr>lbs := b\<rparr>)))))"

section \<open>Commit and recovery\<close>

definition install_step :: "nat \<Rightarrow> lstate \<Rightarrow> lstate res" where
  "install_step tail s =
     (let l = lg s in
      rbind (bread (l_dev l) (l_start l + of_nat tail + 1) (lbs s)) (\<lambda>(lbuf, b).
      rbind (lblock l tail) (\<lambda>bn.
      rbind (bread (l_dev l) bn b) (\<lambda>(dbuf, b).
      rbind (bwrite dbuf (set_bdata dbuf (bdata b lbuf) b)) (\<lambda>b.
      rbind (brelse lbuf (bunpin dbuf b)) (\<lambda>b.
      rbind (brelse dbuf b) (\<lambda>b.
      Ok (s\<lparr>lbs := b\<rparr>))))))))"

primrec install_loop :: "nat \<Rightarrow> nat \<Rightarrow> lstate \<Rightarrow> lstate res" where
  "install_loop 0 tail s = Ok s"
| "install_loop (Suc k) tail s = rbind (install_step tail s) (install_loop k (Suc tail))"

definition install_trans :: "lstate \<Rightarrow> lstate res" where
  "install_trans s = install_loop (nat (l_n (lg s))) 0 s"

definition write_log_step :: "nat \<Rightarrow> lstate \<Rightarrow> lstate res" where
  "write_log_step tail s =
     (let l = lg s in
      rbind (bread (l_dev l) (l_start l + of_nat tail + 1) (lbs s)) (\<lambda>(to, b).
      rbind (lblock l tail) (\<lambda>bn.
      rbind (bread (l_dev l) bn b) (\<lambda>(from, b).
      rbind (bwrite to (set_bdata to (bdata b from) b)) (\<lambda>b.
      rbind (brelse from b) (\<lambda>b.
      rbind (brelse to b) (\<lambda>b.
      Ok (s\<lparr>lbs := b\<rparr>))))))))"

primrec write_log_loop :: "nat \<Rightarrow> nat \<Rightarrow> lstate \<Rightarrow> lstate res" where
  "write_log_loop 0 tail s = Ok s"
| "write_log_loop (Suc k) tail s = rbind (write_log_step tail s) (write_log_loop k (Suc tail))"

definition write_log :: "lstate \<Rightarrow> lstate res" where
  "write_log s = write_log_loop (nat (l_n (lg s))) 0 s"

definition set_n :: "int \<Rightarrow> lstate \<Rightarrow> lstate" where
  "set_n n s = s\<lparr>lg := (lg s)\<lparr>l_n := n\<rparr>\<rparr>"

definition commit :: "lstate \<Rightarrow> lstate res" where
  "commit s =
     (if l_n (lg s) > 0 then
        rbind (write_log s) (\<lambda>s.
        rbind (write_head s) (\<lambda>s.
        rbind (install_trans s) (\<lambda>s.
        write_head (set_n 0 s))))
      else Ok s)"

definition recover_from_log :: "lstate \<Rightarrow> lstate res" where
  "recover_from_log s =
     rbind (read_head s) (\<lambda>s.
     rbind (install_trans s) (\<lambda>s.
     write_head (set_n 0 s)))"

definition initlog :: "u32 \<Rightarrow> u32 \<Rightarrow> u32 \<Rightarrow> bstate \<Rightarrow> lstate res" where
  "initlog dev logstart nlog b =
     (if 4 + 4 * LOGSIZE \<ge> BSIZE then Panic ''initlog: too big logheader''
      else recover_from_log
        \<lparr>lbs = b, lg = log_bss\<lparr>l_start := logstart, l_size := sint nlog, l_dev := dev\<rparr>\<rparr>)"

section \<open>System calls enter and leave\<close>

definition begin_op :: "lstate \<Rightarrow> lstate res" where
  "begin_op s =
     (let l = lg s in
      if l_committing l then Blocked
      else if l_n l + (l_outstanding l + 1) * int MAXOPBLOCKS > int LOGSIZE then Blocked
      else Ok (s\<lparr>lg := l\<lparr>l_outstanding := l_outstanding l + 1\<rparr>\<rparr>))"

definition end_op :: "lstate \<Rightarrow> lstate res" where
  "end_op s =
     (let s = s\<lparr>lg := (lg s)\<lparr>l_outstanding := l_outstanding (lg s) - 1\<rparr>\<rparr> in
      if l_committing (lg s) then Panic ''log.committing''
      else if l_outstanding (lg s) = 0 then
        rbind (commit (s\<lparr>lg := (lg s)\<lparr>l_committing := True\<rparr>\<rparr>)) (\<lambda>s.
        Ok (s\<lparr>lg := (lg s)\<lparr>l_committing := False\<rparr>\<rparr>))
      else Ok s)"

primrec log_find :: "nat \<Rightarrow> nat \<Rightarrow> u32 \<Rightarrow> u32 list \<Rightarrow> nat" where
  "log_find 0 i b bl = i"
| "log_find (Suc k) i b bl = (if bl ! i = b then i else log_find k (Suc i) b bl)"

definition log_write :: "nat \<Rightarrow> lstate \<Rightarrow> lstate res" where
  "log_write b s =
     (let l = lg s; bn = b_blockno (bufs (lbs s) ! b) in
      if l_n l \<ge> int LOGSIZE \<or> l_n l \<ge> l_size l - 1 then Panic ''too big a transaction''
      else if l_outstanding l < 1 then Panic ''log_write outside of trans''
      else
        let i = log_find (nat (l_n l)) 0 bn (l_block l);
            l = l\<lparr>l_block := (l_block l)[i := bn]\<rparr>
        in if int i = l_n l
           then Ok (s\<lparr>lbs := bpin b (lbs s), lg := l\<lparr>l_n := l_n l + 1\<rparr>\<rparr>)
           else Ok (s\<lparr>lg := l\<rparr>))"

section \<open>The header round trip\<close>

definition head_enc :: "log \<Rightarrow> u8 list \<Rightarrow> u8 list" where
  "head_enc l d = head_out (nat (l_n l)) 0 l (overwrite 0 (le_bytes 4 (word_of_int (l_n l) :: u32)) d)"

lemma length_head_out:
  "4 + 4 * (i + k) \<le> length d \<Longrightarrow> length (head_out k i l d) = length d"
  by (induction k arbitrary: i d) auto

lemma hd_n_head_out: "4 + 4 * (i + k) \<le> length d \<Longrightarrow> hd_n (head_out k i l d) = hd_n d"
proof (induction k arbitrary: i d)
  case (Suc k)
  let ?d = "overwrite (4 + 4 * i) (le_bytes 4 (l_block l ! i)) d"
  have "hd_n ?d = hd_n d"
    using Suc.prems by (simp add: hd_n_def subarr_overwrite_other)
  then show ?case
    using Suc.IH [of "Suc i" ?d] Suc.prems by simp
qed simp

lemma hd_block_overwrite:
  "4 + 4 * Suc i \<le> length d \<Longrightarrow> 4 + 4 * Suc j \<le> length d \<Longrightarrow>
   hd_block (overwrite (4 + 4 * i) (le_bytes 4 x) d) j = (if j = i then x else hd_block d j)"
proof -
  assume len: "4 + 4 * Suc i \<le> length d" "4 + 4 * Suc j \<le> length d"
  show ?thesis
  proof (cases "j = i")
    case True
    then show ?thesis
      using len subarr_overwrite_same [of "4 + 4 * i" "le_bytes 4 x" d]
      by (simp add: hd_block_def le_word_le_bytes)
  next
    case False
    then have "j + 1 \<le> i \<or> i + 1 \<le> j" by auto
    then show ?thesis
      using False len by (auto simp: hd_block_def subarr_overwrite_other)
  qed
qed

lemma hd_block_head_out:
  "4 + 4 * (i + k) \<le> length d \<Longrightarrow> 4 + 4 * Suc j \<le> length d \<Longrightarrow>
   hd_block (head_out k i l d) j = (if i \<le> j \<and> j < i + k then l_block l ! j else hd_block d j)"
proof (induction k arbitrary: i d)
  case (Suc k)
  let ?d = "overwrite (4 + 4 * i) (le_bytes 4 (l_block l ! i)) d"
  have "hd_block (head_out k (Suc i) l ?d) j =
      (if Suc i \<le> j \<and> j < Suc i + k then l_block l ! j else hd_block ?d j)"
    using Suc.prems by (intro Suc.IH) auto
  moreover have "hd_block ?d j = (if j = i then l_block l ! i else hd_block d j)"
    using Suc.prems by (intro hd_block_overwrite) auto
  ultimately show ?case
    by auto
qed auto

lemma head_in_eq:
  "i + k \<le> length bl \<Longrightarrow>
   \<exists>bl'. head_in k i d bl = Ok bl' \<and> length bl' = length bl \<and>
     (\<forall>j < length bl. bl' ! j = (if i \<le> j \<and> j < i + k then hd_block d j else bl ! j))"
proof (induction k arbitrary: i bl)
  case (Suc k)
  have "Suc i + k \<le> length (bl[i := hd_block d i])"
    using Suc.prems by simp
  from Suc.IH [OF this] obtain bl' where bl': "head_in k (Suc i) d (bl[i := hd_block d i]) = Ok bl'"
    "length bl' = length bl" "\<forall>j < length bl. bl' ! j =
      (if Suc i \<le> j \<and> j < Suc i + k then hd_block d j else bl[i := hd_block d i] ! j)"
    by auto
  have "bl' ! j = (if i \<le> j \<and> j < i + Suc k then hd_block d j else bl ! j)" if "j < length bl" for j
    using that bl'(3) Suc.prems by (cases "j = i") (auto simp: nth_list_update)
  then show ?case
    using bl' Suc.prems by simp
qed auto

text \<open>A header that was written is read back.\<close>

lemma head_roundtrip:
  assumes "0 \<le> l_n l" "l_n l \<le> int LOGSIZE" "length (l_block l) = LOGSIZE" "length d = BSIZE"
  shows "length (head_enc l d) = BSIZE" "hd_n (head_enc l d) = l_n l"
    "i < nat (l_n l) \<Longrightarrow> hd_block (head_enc l d) i = l_block l ! i"
proof -
  let ?d = "overwrite 0 (le_bytes 4 (word_of_int (l_n l) :: u32)) d"
  have n: "nat (l_n l) \<le> 30" and len: "length ?d = 1024"
    using assms by (simp_all add: LOGSIZE_def MAXOPBLOCKS_def BSIZE_def)
  then have b: "4 + 4 * (0 + nat (l_n l)) \<le> length ?d"
    by simp
  show "length (head_enc l d) = BSIZE"
    unfolding head_enc_def using len by (simp add: length_head_out [OF b] BSIZE_def)
  have "subarr 0 4 ?d = le_bytes 4 (word_of_int (l_n l) :: u32)"
    using subarr_overwrite_same [of 0 "le_bytes 4 (word_of_int (l_n l) :: u32)" d] assms(4)
    by (simp add: BSIZE_def)
  then have "hd_n ?d = sint (word_of_int (l_n l) :: u32)"
    by (simp add: hd_n_def le_word_le_bytes)
  also have "\<dots> = l_n l"
    using assms(1) n by (simp add: sint_uint uint_word_of_int signed_take_bit_int_eq_self take_bit_int_eq_self)
  finally show "hd_n (head_enc l d) = l_n l"
    unfolding head_enc_def by (simp only: hd_n_head_out [OF b])
  show "hd_block (head_enc l d) i = l_block l ! i" if "i < nat (l_n l)"
    unfolding head_enc_def using that n len by (subst hd_block_head_out [OF b]) auto
qed

section \<open>Sequences of disk writes\<close>

text \<open>A crash leaves the disk with some prefix of the writes it was given.\<close>

definition apply_writes :: "(u32 \<times> u8 list) list \<Rightarrow> (u32 \<Rightarrow> u8 list) \<Rightarrow> u32 \<Rightarrow> u8 list" where
  "apply_writes ws m = foldl (\<lambda>m (n, x). m(n := x)) m ws"

lemma apply_writes_simps [simp]:
  "apply_writes [] m = m" "apply_writes ((n, x) # ws) m = apply_writes ws (m(n := x))"
  "apply_writes (us @ ws) m = apply_writes ws (apply_writes us m)"
  by (simp_all add: apply_writes_def)

lemma apply_writes_other: "b \<notin> fst ` set ws \<Longrightarrow> apply_writes ws m b = m b"
  by (induction ws arbitrary: m) auto

lemma apply_writes_at: "distinct (map fst ws) \<Longrightarrow> (b, x) \<in> set ws \<Longrightarrow> apply_writes ws m b = x"
proof (induction ws arbitrary: m)
  case (Cons w ws)
  then show ?case
    by (cases w) (auto simp: apply_writes_other rev_image_eqI)
qed simp

text \<open>One written block, and the loss of one reference, as a client of the cache sees them.\<close>

definition a_emit :: "u32 \<Rightarrow> u8 list \<Rightarrow> bobs \<Rightarrow> bobs" where
  "a_emit n x w = a_write n (a_set n x w)"

definition a_emits :: "(u32 \<times> u8 list) list \<Rightarrow> bobs \<Rightarrow> bobs" where
  "a_emits ws w = w\<lparr>a_view := apply_writes ws (a_view w), a_store := apply_writes ws (a_store w),
     a_writes := a_writes w @ ws\<rparr>"

definition a_unrefs :: "u32 list \<Rightarrow> bobs \<Rightarrow> bobs" where
  "a_unrefs bs w = foldl (\<lambda>w b. a_unref b w) w bs"

lemma a_emits_simps [simp]:
  "a_emits [] w = w" "a_emits ((n, x) # ws) w = a_emits ws (a_emit n x w)"
  "a_emits (us @ ws) w = a_emits ws (a_emits us w)"
  "a_refs (a_emits ws w) = a_refs w" "a_busy (a_emits ws w) = a_busy w" "a_room (a_emits ws w) = a_room w"
  "a_view (a_emits ws w) = apply_writes ws (a_view w)" "a_store (a_emits ws w) = apply_writes ws (a_store w)"
  "a_writes (a_emits ws w) = a_writes w @ ws"
  by (simp_all add: a_emits_def a_emit_def a_ops)

lemma a_emit_simps [simp]:
  "a_refs (a_emit n x w) = a_refs w" "a_busy (a_emit n x w) = a_busy w" "a_room (a_emit n x w) = a_room w"
  "a_view (a_emit n x w) = (a_view w)(n := x)" "a_store (a_emit n x w) = (a_store w)(n := x)"
  "a_writes (a_emit n x w) = a_writes w @ [(n, x)]"
  by (simp_all add: a_emit_def a_ops)

lemma a_unref_simps [simp]:
  "a_view (a_unref b w) = a_view w" "a_store (a_unref b w) = a_store w" "a_writes (a_unref b w) = a_writes w"
  "a_busy (a_unref b w) = a_busy w"
  by (simp_all add: a_ops)

lemma a_unrefs_simps [simp]:
  "a_unrefs [] w = w" "a_unrefs (b # bs) w = a_unrefs bs (a_unref b w)"
  "a_view (a_unrefs bs w) = a_view w" "a_store (a_unrefs bs w) = a_store w" "a_writes (a_unrefs bs w) = a_writes w"
  "a_busy (a_unrefs bs w) = a_busy w"
proof -
  show "a_unrefs [] w = w" "a_unrefs (b # bs) w = a_unrefs bs (a_unref b w)"
    by (simp_all add: a_unrefs_def)
  show "a_view (a_unrefs bs w) = a_view w" "a_store (a_unrefs bs w) = a_store w"
    "a_writes (a_unrefs bs w) = a_writes w" "a_busy (a_unrefs bs w) = a_busy w"
    unfolding a_unrefs_def by (induction bs arbitrary: w) simp_all
qed

lemma a_emit_unref: "a_emit n x (a_unref b w) = a_unref b (a_emit n x w)"
  by (simp add: a_emit_def a_ops)

lemma a_emits_unref: "a_emits ws (a_unref b w) = a_unref b (a_emits ws w)"
  by (simp add: a_emits_def a_ops)

lemma a_emits_unrefs: "a_emits ws (a_unrefs bs w) = a_unrefs bs (a_emits ws w)"
  by (induction bs arbitrary: w) (simp_all add: a_emits_unref)

lemma a_unrefs_refs:
  "distinct bs \<Longrightarrow> a_refs (a_unrefs bs w) b = (if b \<in> set bs then a_refs w b - 1 else a_refs w b)"
proof (induction bs arbitrary: w)
  case (Cons c bs)
  then show ?case
    by (auto simp: a_unref_def)
qed simp

section \<open>Steps of commit and recovery on the cache\<close>

definition lobs :: "lstate \<Rightarrow> bobs" where
  "lobs s = bobs_of (l_dev (lg s)) (lbs s)"

definition lbinv :: "lstate \<Rightarrow> bool" where
  "lbinv s \<longleftrightarrow> binv (l_dev (lg s)) (lbs s)"

definition slot :: "log \<Rightarrow> nat \<Rightarrow> u32" where
  "slot l i = l_start l + of_nat i + 1"

lemma set_n_simps [simp]: "lobs (set_n n s) = lobs s" "lbinv (set_n n s) = lbinv s"
  "lg (set_n n s) = (lg s)\<lparr>l_n := n\<rparr>" "slot (l\<lparr>l_n := n\<rparr>) i = slot l i"
  by (simp_all add: lobs_def lbinv_def set_n_def slot_def)

lemma rbind_chain:
  assumes "rbind m f = Ok x"
  shows "rbind m (\<lambda>a. rbind (f a) g) = g x"
  using assms rbind_assoc [of m f g] by simp

lemma write_head_law:
  assumes inv: "lbinv s" and r: "a_readable (lobs s) (l_start (lg s))"
    and n: "0 \<le> l_n (lg s)" "l_n (lg s) \<le> int LOGSIZE" "length (l_block (lg s)) = LOGSIZE"
  shows "\<exists>s'. write_head s = Ok s' \<and> lbinv s' \<and> lg s' = lg s \<and>
    lobs s' = a_emit (l_start (lg s)) (head_enc (lg s) (a_view (lobs s) (l_start (lg s)))) (lobs s)"
proof -
  have "\<exists>b. rbind (bread (l_dev (lg s)) (l_start (lg s)) (lbs s)) (\<lambda>(h, b).
      rbind (bwrite h (set_bdata h (head_enc (lg s) (bdata b h)) b)) (brelse h)) = Ok b \<and>
    binv (l_dev (lg s)) b \<and> bobs_of (l_dev (lg s)) b = a_write (l_start (lg s))
      (a_set (l_start (lg s)) (head_enc (lg s) (a_view (lobs s) (l_start (lg s)))) (lobs s))"
    unfolding lobs_def using inv r head_roundtrip(1) [OF n]
    by (intro bcache.write_through) (auto simp: lbinv_def lobs_def)
  then obtain b where b: "rbind (bread (l_dev (lg s)) (l_start (lg s)) (lbs s)) (\<lambda>(h, b).
      rbind (bwrite h (set_bdata h (head_enc (lg s) (bdata b h)) b)) (brelse h)) = Ok b"
    and i: "binv (l_dev (lg s)) b" "bobs_of (l_dev (lg s)) b = a_write (l_start (lg s))
      (a_set (l_start (lg s)) (head_enc (lg s) (a_view (lobs s) (l_start (lg s)))) (lobs s))"
    by blast
  have "write_head s = Ok (s\<lparr>lbs := b\<rparr>)"
    using rbind_chain [OF b, of "\<lambda>b. Ok (s\<lparr>lbs := b\<rparr>)"]
    by (simp add: write_head_def Let_def head_enc_def split_def rbind_assoc)
  then show ?thesis
    using i by (simp add: lbinv_def lobs_def a_emit_def)
qed

lemma read_head_law:
  assumes inv: "lbinv s" and r: "a_readable (lobs s) (l_start (lg s))"
    and len: "length (l_block (lg s)) = LOGSIZE" and n: "hd_n (a_view (lobs s) (l_start (lg s))) \<le> int LOGSIZE"
  shows "\<exists>s' bl. read_head s = Ok s' \<and> lbinv s' \<and> lobs s' = lobs s \<and> length bl = LOGSIZE \<and>
    lg s' = (lg s)\<lparr>l_n := hd_n (a_view (lobs s) (l_start (lg s))), l_block := bl\<rparr> \<and>
    (\<forall>i < nat (hd_n (a_view (lobs s) (l_start (lg s)))). bl ! i = hd_block (a_view (lobs s) (l_start (lg s))) i)"
proof -
  let ?d = "a_view (lobs s) (l_start (lg s))" and ?dev = "l_dev (lg s)"
  obtain h s1 s2 where b: "bread ?dev (l_start (lg s)) (lbs s) = Ok (h, s1)" "bdata s1 h = ?d"
    "brelse h s1 = Ok s2" "binv ?dev s2" "bobs_of ?dev s2 = bobs_of ?dev (lbs s)"
    using bcache.read_release [of ?dev "lbs s" "l_start (lg s)"] inv r by (auto simp: lbinv_def lobs_def)
  obtain bl where bl: "head_in (nat (hd_n ?d)) 0 ?d (l_block (lg s)) = Ok bl" "length bl = LOGSIZE"
    "\<forall>j < LOGSIZE. bl ! j = (if j < nat (hd_n ?d) then hd_block ?d j else l_block (lg s) ! j)"
    using head_in_eq [of 0 "nat (hd_n ?d)" "l_block (lg s)" ?d] n len by (auto simp: nat_le_iff)
  have "read_head s = Ok (s\<lparr>lbs := s2, lg := (lg s)\<lparr>l_n := hd_n ?d, l_block := bl\<rparr>\<rparr>)"
    using b bl by (simp add: read_head_def Let_def)
  then show ?thesis
    using b bl n by (auto simp: lbinv_def lobs_def)
qed

text \<open>The two loops copy pairs of blocks; \<open>ready\<close> is what a pair needs.\<close>

definition ready :: "bobs \<Rightarrow> u32 \<Rightarrow> u32 \<Rightarrow> bool" where
  "ready w t b \<longleftrightarrow> t \<noteq> b \<and> a_busy w = {} \<and> a_refs w t + 1 \<noteq> 0 \<and> a_refs w b + 1 \<noteq> 0 \<and>
     0 < a_room w \<and> (a_refs w b \<noteq> 0 \<or> 1 < a_room w)"

lemma ready_emit [simp]: "ready (a_emit n x w) t b = ready w t b"
  by (simp add: ready_def)

lemma readyD:
  assumes "ready w t b"
  shows "t \<noteq> b" "a_readable w t" "a_readable w b" "a_refs w t \<noteq> 0 \<or> a_refs w b \<noteq> 0 \<or> 1 < a_room w"
  using assms by (auto simp: ready_def a_readable_def a_steady_def)

lemma write_log_step_law:
  assumes inv: "lbinv s" and i: "i < length (l_block (lg s))" and r: "ready (lobs s) (slot (lg s) i) (l_block (lg s) ! i)"
  shows "\<exists>s'. write_log_step i s = Ok s' \<and> lbinv s' \<and> lg s' = lg s \<and>
    lobs s' = a_emit (slot (lg s) i) (a_view (lobs s) (l_block (lg s) ! i)) (lobs s)"
proof -
  let ?dev = "l_dev (lg s)" and ?t = "slot (lg s) i" and ?b = "l_block (lg s) ! i"
  obtain b where b: "rbind (bread ?dev ?t (lbs s)) (\<lambda>(to, b). rbind (bread ?dev ?b b) (\<lambda>(from, b).
      rbind (bwrite to (set_bdata to (bdata b from) b)) (\<lambda>b. rbind (brelse from b) (brelse to)))) = Ok b"
    and inv': "binv ?dev b" "bobs_of ?dev b = a_write ?t (a_set ?t (a_view (lobs s) ?b) (lobs s))"
    using bcache.copy_to [of ?dev "lbs s" ?t ?b] inv readyD [OF r] by (auto simp: lbinv_def lobs_def)
  have "write_log_step i s = Ok (s\<lparr>lbs := b\<rparr>)"
    using rbind_chain [OF b, of "\<lambda>b. Ok (s\<lparr>lbs := b\<rparr>)"] i
    by (simp add: write_log_step_def Let_def slot_def split_def rbind_assoc lblock_def)
  then show ?thesis
    using inv' by (simp add: lbinv_def lobs_def a_emit_def)
qed

lemma install_step_law:
  assumes inv: "lbinv s" and i: "i < length (l_block (lg s))" and r: "ready (lobs s) (slot (lg s) i) (l_block (lg s) ! i)"
  shows "\<exists>s'. install_step i s = Ok s' \<and> lbinv s' \<and> lg s' = lg s \<and>
    lobs s' = a_unref (l_block (lg s) ! i) (a_emit (l_block (lg s) ! i) (a_view (lobs s) (slot (lg s) i)) (lobs s))"
proof -
  let ?dev = "l_dev (lg s)" and ?t = "slot (lg s) i" and ?b = "l_block (lg s) ! i"
  obtain b where b: "rbind (bread ?dev ?t (lbs s)) (\<lambda>(from, b). rbind (bread ?dev ?b b) (\<lambda>(to, b).
      rbind (bwrite to (set_bdata to (bdata b from) b)) (\<lambda>b. rbind (brelse from (bunpin to b)) (brelse to)))) = Ok b"
    and inv': "binv ?dev b" "bobs_of ?dev b = a_unref ?b (a_write ?b (a_set ?b (a_view (lobs s) ?t) (lobs s)))"
    using bcache.copy_from_unpin [of ?dev "lbs s" ?t ?b] inv readyD [OF r] by (auto simp: lbinv_def lobs_def)
  have "install_step i s = Ok (s\<lparr>lbs := b\<rparr>)"
    using rbind_chain [OF b, of "\<lambda>b. Ok (s\<lparr>lbs := b\<rparr>)"] i
    by (simp add: install_step_def Let_def slot_def split_def rbind_assoc lblock_def)
  then show ?thesis
    using inv' by (simp add: lbinv_def lobs_def a_emit_def)
qed

text \<open>The home blocks of a transaction are pairwise different and outside the log.\<close>

definition separate :: "log \<Rightarrow> nat \<Rightarrow> nat \<Rightarrow> bool" where
  "separate l i k \<longleftrightarrow> i + k \<le> length (l_block l) \<and> distinct (map ((!) (l_block l)) [i..<i + k]) \<and>
     (\<forall>a\<in>{i..<i + k}. \<forall>b\<in>{i..<i + k}. slot l a \<noteq> l_block l ! b)"

lemma separateD:
  "separate l i k \<Longrightarrow> a \<in> {i..<i + k} \<Longrightarrow> b \<in> {i..<i + k} \<Longrightarrow> slot l a \<noteq> l_block l ! b"
  unfolding separate_def by blast

lemma separate_Suc: "separate l i (Suc k) \<Longrightarrow> separate l (Suc i) k"
  by (auto simp: separate_def upt_conv_Cons simp del: upt_Suc)

lemma write_log_loop_law:
  assumes "lbinv s" and "separate (lg s) i k"
    and "\<forall>j\<in>{i..<i + k}. ready (lobs s) (slot (lg s) j) (l_block (lg s) ! j)"
  shows "\<exists>s'. write_log_loop k i s = Ok s' \<and> lbinv s' \<and> lg s' = lg s \<and>
    lobs s' = a_emits (map (\<lambda>j. (slot (lg s) j, a_view (lobs s) (l_block (lg s) ! j))) [i..<i + k]) (lobs s)"
  using assms
proof (induction k arbitrary: i s)
  case (Suc k)
  have i: "i < length (l_block (lg s))" "ready (lobs s) (slot (lg s) i) (l_block (lg s) ! i)"
    using Suc.prems by (auto simp: separate_def)
  obtain s1 where s1: "write_log_step i s = Ok s1" "lbinv s1" "lg s1 = lg s"
    "lobs s1 = a_emit (slot (lg s) i) (a_view (lobs s) (l_block (lg s) ! i)) (lobs s)"
    using write_log_step_law [OF Suc.prems(1) i] by blast
  have "\<exists>s'. write_log_loop k (Suc i) s1 = Ok s' \<and> lbinv s' \<and> lg s' = lg s1 \<and>
    lobs s' = a_emits (map (\<lambda>j. (slot (lg s1) j, a_view (lobs s1) (l_block (lg s1) ! j))) [Suc i..<Suc i + k]) (lobs s1)"
    using Suc.prems(2,3) by (intro Suc.IH s1(2)) (simp_all add: s1 separate_Suc)
  then obtain s' where s': "write_log_loop k (Suc i) s1 = Ok s'" "lbinv s'" "lg s' = lg s1"
    "lobs s' = a_emits (map (\<lambda>j. (slot (lg s1) j, a_view (lobs s1) (l_block (lg s1) ! j))) [Suc i..<Suc i + k]) (lobs s1)"
    by blast
  have mp: "map (\<lambda>j. (slot (lg s1) j, a_view (lobs s1) (l_block (lg s1) ! j))) [Suc i..<Suc i + k] =
      map (\<lambda>j. (slot (lg s) j, a_view (lobs s) (l_block (lg s) ! j))) [Suc i..<Suc i + k]"
  proof (rule map_cong [OF refl])
    fix j
    assume "j \<in> set [Suc i..<Suc i + k]"
    then have "i \<in> {i..<i + Suc k}" "j \<in> {i..<i + Suc k}"
      by auto
    then have "slot (lg s) i \<noteq> l_block (lg s) ! j"
      using separateD [OF Suc.prems(2)] by blast
    then show "(slot (lg s1) j, a_view (lobs s1) (l_block (lg s1) ! j)) =
        (slot (lg s) j, a_view (lobs s) (l_block (lg s) ! j))"
      by (simp add: s1)
  qed
  show ?case
    using s1(1) s'(1,2,3) s'(4) [unfolded mp]
    by (intro exI [of _ s']) (simp add: upt_conv_Cons s1(3,4) del: upt_Suc)
qed simp

lemma install_loop_law:
  assumes "lbinv s" and "separate (lg s) i k" and "a_busy (lobs s) = {}"
    and "\<forall>j\<in>{i..<i + k}. a_refs (lobs s) (slot (lg s) j) + 1 \<noteq> 0 \<and> a_refs (lobs s) (l_block (lg s) ! j) + 1 \<noteq> 0"
    and "(\<forall>j\<in>{i..<i + k}. a_refs (lobs s) (l_block (lg s) ! j) \<noteq> 0) \<and> 0 < a_room (lobs s) \<or>
      (\<forall>j\<in>{i..<i + k}. a_refs (lobs s) (l_block (lg s) ! j) = 0) \<and> k < a_room (lobs s)"
  shows "\<exists>s'. install_loop k i s = Ok s' \<and> lbinv s' \<and> lg s' = lg s \<and>
    lobs s' = a_unrefs (map ((!) (l_block (lg s))) [i..<i + k])
      (a_emits (map (\<lambda>j. (l_block (lg s) ! j, a_view (lobs s) (slot (lg s) j))) [i..<i + k]) (lobs s))"
  using assms
proof (induction k arbitrary: i s)
  case (Suc k)
  let ?b = "(!) (l_block (lg s))"
  have i: "i < length (l_block (lg s))" "ready (lobs s) (slot (lg s) i) (?b i)"
    using Suc.prems by (auto simp: separate_def ready_def)
  obtain s1 where s1: "install_step i s = Ok s1" "lbinv s1" "lg s1 = lg s"
    "lobs s1 = a_unref (?b i) (a_emit (?b i) (a_view (lobs s) (slot (lg s) i)) (lobs s))"
    using install_step_law [OF Suc.prems(1) i] by blast
  have ne: "?b j \<noteq> ?b i" "slot (lg s) j \<noteq> ?b i" if "j \<in> {Suc i..<Suc i + k}" for j
  proof -
    have "?b i \<notin> ?b ` {Suc i..<Suc i + k}" "slot (lg s) j \<noteq> ?b i"
      using Suc.prems(2) that by (auto simp: separate_def upt_conv_Cons simp del: upt_Suc)
    then show "?b j \<noteq> ?b i" "slot (lg s) j \<noteq> ?b i"
      using that by (auto simp: rev_image_eqI)
  qed
  have rf: "a_refs (lobs s1) (?b j) = a_refs (lobs s) (?b j)"
    "a_refs (lobs s1) (slot (lg s) j) = a_refs (lobs s) (slot (lg s) j)" if "j \<in> {Suc i..<Suc i + k}" for j
    using ne [OF that] by (simp_all add: s1(4) a_unref_def)
  have rm: "a_room (lobs s1) = a_room (lobs s) + of_bool (a_refs (lobs s) (?b i) = 1) - of_bool (a_refs (lobs s) (?b i) = 0)"
    by (simp add: s1(4) a_unref_def)
  have "\<exists>s'. install_loop k (Suc i) s1 = Ok s' \<and> lbinv s' \<and> lg s' = lg s1 \<and>
    lobs s' = a_unrefs (map ((!) (l_block (lg s1))) [Suc i..<Suc i + k])
      (a_emits (map (\<lambda>j. (l_block (lg s1) ! j, a_view (lobs s1) (slot (lg s1) j))) [Suc i..<Suc i + k]) (lobs s1))"
  proof (rule Suc.IH [OF s1(2)])
    show "separate (lg s1) (Suc i) k" "a_busy (lobs s1) = {}"
      using Suc.prems(2,3) by (simp_all add: s1 separate_Suc)
    show "\<forall>j\<in>{Suc i..<Suc i + k}. a_refs (lobs s1) (slot (lg s1) j) + 1 \<noteq> 0 \<and> a_refs (lobs s1) (l_block (lg s1) ! j) + 1 \<noteq> 0"
      using Suc.prems(4) by (auto simp: s1(3) rf)
    show "(\<forall>j\<in>{Suc i..<Suc i + k}. a_refs (lobs s1) (l_block (lg s1) ! j) \<noteq> 0) \<and> 0 < a_room (lobs s1) \<or>
      (\<forall>j\<in>{Suc i..<Suc i + k}. a_refs (lobs s1) (l_block (lg s1) ! j) = 0) \<and> k < a_room (lobs s1)"
      using Suc.prems(5) by (auto simp: s1(3) rf rm)
  qed
  then obtain s' where s': "install_loop k (Suc i) s1 = Ok s'" "lbinv s'" "lg s' = lg s1"
    "lobs s' = a_unrefs (map ((!) (l_block (lg s1))) [Suc i..<Suc i + k])
      (a_emits (map (\<lambda>j. (l_block (lg s1) ! j, a_view (lobs s1) (slot (lg s1) j))) [Suc i..<Suc i + k]) (lobs s1))"
    by blast
  have mp: "map (\<lambda>j. (?b j, a_view (lobs s1) (slot (lg s) j))) [Suc i..<Suc i + k] =
      map (\<lambda>j. (?b j, a_view (lobs s) (slot (lg s) j))) [Suc i..<Suc i + k]"
    using ne by (intro map_cong) (auto simp: s1(4))
  show ?case
    using s1(1) s'(1,2,3) s'(4) [unfolded s1(3) mp]
    by (intro exI [of _ s']) (simp add: upt_conv_Cons s1(3,4) a_emits_unref del: upt_Suc)
qed simp

section \<open>Commit\<close>

definition blocks_of :: "log \<Rightarrow> u32 list" where
  "blocks_of l = take (nat (l_n l)) (l_block l)"

definition in_log :: "u32 \<Rightarrow> u32 \<Rightarrow> bool" where
  "in_log start b \<longleftrightarrow> unat (b - start) < LOGSIZE"

text \<open>The writes of a commit, in order: the log, the header, the home locations, the empty header.\<close>

definition commit_writes :: "log \<Rightarrow> (u32 \<Rightarrow> u8 list) \<Rightarrow> (u32 \<times> u8 list) list" where
  "commit_writes l v =
     (let n = nat (l_n l); h = head_enc l (v (l_start l)) in
      map (\<lambda>j. (slot l j, v (l_block l ! j))) [0..<n] @ [(l_start l, h)] @
      map (\<lambda>j. (l_block l ! j, v (l_block l ! j))) [0..<n] @ [(l_start l, head_enc (l\<lparr>l_n := 0\<rparr>) h)])"

text \<open>A transaction that can be committed: fewer blocks than buffers, each pinned, different, and
  outside the log; nobody holds a buffer.\<close>

definition committable :: "lstate \<Rightarrow> bool" where
  "committable s \<longleftrightarrow> lbinv s \<and> 0 \<le> l_n (lg s) \<and> l_n (lg s) < int LOGSIZE \<and> length (l_block (lg s)) = LOGSIZE \<and>
     distinct (blocks_of (lg s)) \<and> (\<forall>b\<in>set (blocks_of (lg s)). \<not> in_log (l_start (lg s)) b) \<and>
     a_busy (lobs s) = {} \<and> (\<forall>b\<in>set (blocks_of (lg s)). a_refs (lobs s) b \<noteq> 0) \<and>
     (\<forall>b. a_refs (lobs s) b + 1 \<noteq> 0) \<and> 0 < a_room (lobs s)"

lemma slot_offset:
  assumes "j < LOGSIZE"
  shows "unat (slot l j - l_start l) = Suc j"
proof -
  have "slot l j - l_start l = of_nat (Suc j)"
    by (simp add: slot_def)
  moreover have "Suc j < 2 ^ 32"
    using assms by (simp add: LOGSIZE_def MAXOPBLOCKS_def)
  ultimately show ?thesis
    by (simp add: unat_of_nat del: of_nat_Suc)
qed

lemma slot_facts:
  assumes "Suc j < LOGSIZE"
  shows "in_log (l_start l) (slot l j)" "slot l j \<noteq> l_start l"
proof -
  have "unat (slot l j - l_start l) = Suc j"
    using assms by (intro slot_offset) simp
  then show "in_log (l_start l) (slot l j)" "slot l j \<noteq> l_start l"
    using assms by (auto simp: in_log_def)
qed

lemma slot_inj: "i < LOGSIZE \<Longrightarrow> j < LOGSIZE \<Longrightarrow> slot l i = slot l j \<longleftrightarrow> i = j"
  using slot_offset [of i l] slot_offset [of j l] by (metis Suc_inject)

lemma start_in_log: "in_log st st"
  by (simp add: in_log_def LOGSIZE_def MAXOPBLOCKS_def)

lemma blocks_of_nth:
  assumes "l_n l < int LOGSIZE" "length (l_block l) = LOGSIZE" "0 \<le> l_n l"
  shows "blocks_of l = map ((!) (l_block l)) [0..<nat (l_n l)]" "length (blocks_of l) = nat (l_n l)"
    "set (blocks_of l) = (!) (l_block l) ` {0..<nat (l_n l)}"
proof -
  show 1: "blocks_of l = map ((!) (l_block l)) [0..<nat (l_n l)]"
    using assms by (intro nth_equalityI) (auto simp: blocks_of_def)
  show "length (blocks_of l) = nat (l_n l)" "set (blocks_of l) = (!) (l_block l) ` {0..<nat (l_n l)}"
    by (simp_all add: 1)
qed

lemma separate_blocks:
  assumes "l_n l < int LOGSIZE" "length (l_block l) = LOGSIZE" "0 \<le> l_n l" "distinct (blocks_of l)"
    and "\<forall>b\<in>set (blocks_of l). \<not> in_log (l_start l) b"
  shows "separate l 0 (nat (l_n l))"
proof -
  have n: "nat (l_n l) < LOGSIZE"
    using assms(1,3) by linarith
  have "slot l a \<noteq> l_block l ! b" if "a < nat (l_n l)" "b < nat (l_n l)" for a b
  proof -
    have "in_log (l_start l) (slot l a)"
      using that n by (intro slot_facts) linarith
    then show ?thesis
      using that assms by (auto simp: blocks_of_nth)
  qed
  then show ?thesis
    using assms by (auto simp: separate_def blocks_of_nth)
qed

lemma a_unrefs_room:
  assumes "distinct bs"
  shows "\<forall>b\<in>set bs. a_refs w b \<noteq> 0 \<Longrightarrow> a_room w \<le> a_room (a_unrefs bs w)"
    and "\<forall>b\<in>set bs. a_refs w b = 0 \<Longrightarrow> a_room (a_unrefs bs w) = a_room w - length bs"
proof -
  show "a_room w \<le> a_room (a_unrefs bs w)" if "\<forall>b\<in>set bs. a_refs w b \<noteq> 0"
    using assms that
  proof (induction bs arbitrary: w)
    case (Cons b bs)
    then have "a_room (a_unref b w) \<le> a_room (a_unrefs bs (a_unref b w))"
      by (intro Cons.IH) (auto simp: a_unref_def)
    then show ?case
      using Cons.prems by (simp add: a_unref_def)
  qed simp
  show "a_room (a_unrefs bs w) = a_room w - length bs" if "\<forall>b\<in>set bs. a_refs w b = 0"
    using assms that
  proof (induction bs arbitrary: w)
    case (Cons b bs)
    then have "a_room (a_unrefs bs (a_unref b w)) = a_room (a_unref b w) - length bs"
      by (intro Cons.IH) (auto simp: a_unref_def)
    then show ?case
      using Cons.prems by (simp add: a_unref_def)
  qed simp
qed

lemma commit_law:
  assumes c: "committable s" and pos: "0 < l_n (lg s)"
  shows "\<exists>s'. commit s = Ok s' \<and> lbinv s' \<and> lg s' = (lg s)\<lparr>l_n := 0\<rparr> \<and>
    lobs s' = a_unrefs (blocks_of (lg s)) (a_emits (commit_writes (lg s) (a_view (lobs s))) (lobs s))"
proof -
  let ?l = "lg s" and ?w = "lobs s" and ?n = "nat (l_n (lg s))" and ?st = "l_start (lg s)"
  let ?b = "(!) (l_block ?l)"
  have inv: "lbinv s" and n: "0 \<le> l_n ?l" "l_n ?l < int LOGSIZE" "length (l_block ?l) = LOGSIZE"
    and d: "distinct (blocks_of ?l)" and nl: "\<forall>b\<in>set (blocks_of ?l). \<not> in_log ?st b"
    and idle: "a_busy ?w = {}" and pinned: "\<forall>b\<in>set (blocks_of ?l). a_refs ?w b \<noteq> 0"
    and small: "\<And>b. a_refs ?w b + 1 \<noteq> 0" and room: "0 < a_room ?w"
    using c by (auto simp: committable_def)
  have nn: "?n < LOGSIZE"
    using n by linarith
  have sep: "separate ?l 0 ?n"
    using n d nl by (intro separate_blocks)
  have pin: "a_refs ?w (?b j) \<noteq> 0" if "j < ?n" for j
    using that pinned n by (auto simp: blocks_of_nth)
  have rd: "\<forall>j\<in>{0..<0 + ?n}. ready ?w (slot ?l j) (?b j)"
    using separateD [OF sep] pin idle small room by (auto simp: ready_def)
  let ?W1 = "map (\<lambda>j. (slot ?l j, a_view ?w (?b j))) [0..<?n]"
  obtain s1 where s1: "write_log s = Ok s1" "lbinv s1" "lg s1 = ?l" "lobs s1 = a_emits ?W1 ?w"
    using write_log_loop_law [OF inv sep rd] by (auto simp: write_log_def)
  have sl: "slot ?l j \<noteq> ?st" if "j < ?n" for j
    using that nn by (intro slot_facts) linarith
  then have st: "apply_writes ?W1 m ?st = m ?st" for m
    by (intro apply_writes_other) fastforce
  let ?h = "head_enc ?l (a_view ?w ?st)"
  have "a_readable (lobs s1) (l_start (lg s1))"
    using idle small room by (simp add: s1 a_readable_def a_steady_def)
  then obtain s2 where s2: "write_head s1 = Ok s2" "lbinv s2" "lg s2 = ?l" "lobs s2 = a_emits (?W1 @ [(?st, ?h)]) ?w"
    using write_head_law [OF s1(2)] n by (auto simp: s1 st)
  let ?W3 = "map (\<lambda>j. (?b j, a_view ?w (?b j))) [0..<?n]"
  have v2: "a_view (lobs s2) (slot ?l j) = a_view ?w (?b j)" if "j < ?n" for j
  proof -
    have "distinct (map fst ?W1)"
      using nn by (auto simp: distinct_map inj_on_def slot_inj comp_def)
    then have "apply_writes ?W1 (a_view ?w) (slot ?l j) = a_view ?w (?b j)"
      using that by (intro apply_writes_at) auto
    then show ?thesis
      using sl [OF that] by (simp add: s2)
  qed
  have mp: "map (\<lambda>j. (?b j, a_view (lobs s2) (slot ?l j))) [0..<?n] = ?W3"
    using v2 by (intro map_cong) auto
  have "\<exists>s'. install_loop ?n 0 s2 = Ok s' \<and> lbinv s' \<and> lg s' = lg s2 \<and>
    lobs s' = a_unrefs (map ((!) (l_block (lg s2))) [0..<0 + ?n])
      (a_emits (map (\<lambda>j. (l_block (lg s2) ! j, a_view (lobs s2) (slot (lg s2) j))) [0..<0 + ?n]) (lobs s2))"
    using sep idle small room pin by (intro install_loop_law s2(2)) (auto simp: s2)
  then obtain s3 where s3: "install_trans s2 = Ok s3" "lbinv s3" "lg s3 = ?l"
    "lobs s3 = a_unrefs (blocks_of ?l) (a_emits ?W3 (lobs s2))"
    using n by (auto simp: install_trans_def s2(3) blocks_of_nth mp)
  have st3: "apply_writes ?W3 m ?st = m ?st" for m
    using n nl start_in_log by (intro apply_writes_other) (auto simp: blocks_of_nth)
  have "a_room ?w \<le> a_room (lobs s3)"
    using a_unrefs_room(1) [OF d, of "a_emits ?W3 (lobs s2)"] pinned by (simp add: s3 s2)
  moreover have "a_refs (lobs s3) ?st + 1 \<noteq> 0"
    using small [of ?st] nl start_in_log [of ?st] by (auto simp: s3(4) s2(4) a_unrefs_refs [OF d])
  ultimately have "a_readable (lobs (set_n 0 s3)) (l_start (lg (set_n 0 s3)))"
    using idle room by (auto simp: s3 s2 a_readable_def a_steady_def)
  then obtain s4 where s4: "write_head (set_n 0 s3) = Ok s4" "lbinv s4" "lg s4 = ?l\<lparr>l_n := 0\<rparr>"
    "lobs s4 = a_emit ?st (head_enc (?l\<lparr>l_n := 0\<rparr>) (a_view (lobs s3) ?st)) (lobs s3)"
    using write_head_law [of "set_n 0 s3"] s3(2) n by (auto simp: s3)
  have "a_view (lobs s3) ?st = ?h"
    by (simp add: s3 s2 st3)
  then have "lobs s4 = a_unrefs (blocks_of ?l) (a_emits (commit_writes ?l (a_view ?w)) ?w)"
    using a_emits_unrefs [of "[(?st, head_enc (?l\<lparr>l_n := 0\<rparr>) ?h)]" "blocks_of ?l" "a_emits ?W3 (lobs s2)"]
    by (simp add: s4 s3(4) s2(4) commit_writes_def Let_def)
  moreover have "commit s = Ok s4"
    using pos by (simp add: commit_def s1(1) s2(1) s3(1) s4(1))
  ultimately show ?thesis
    using s4(2,3) by blast
qed

section \<open>Recovery\<close>

text \<open>A disk whose header describes a transaction (possibly an empty one) of fewer than \<open>LOGSIZE\<close>
  different blocks outside the log.\<close>

definition header_ok :: "u32 \<Rightarrow> (u32 \<Rightarrow> u8 list) \<Rightarrow> bool" where
  "header_ok st m \<longleftrightarrow> 0 \<le> hd_n (m st) \<and> hd_n (m st) < int LOGSIZE \<and>
     distinct (map (hd_block (m st)) [0..<nat (hd_n (m st))]) \<and>
     (\<forall>i < nat (hd_n (m st)). \<not> in_log st (hd_block (m st) i))"

definition replay :: "u32 \<Rightarrow> (u32 \<Rightarrow> u8 list) \<Rightarrow> (u32 \<times> u8 list) list" where
  "replay st m = map (\<lambda>i. (hd_block (m st) i, m (st + of_nat i + 1))) [0..<nat (hd_n (m st))]"

lemma recover_law:
  assumes inv: "lbinv s" and w: "a_view (lobs s) = m" "a_busy (lobs s) = {}" "\<And>b. a_refs (lobs s) b = 0" "a_room (lobs s) = NBUF"
    and st: "l_start (lg s) = st" and len: "length (l_block (lg s)) = LOGSIZE" and h: "header_ok st m"
  shows "\<exists>s' h. recover_from_log s = Ok s' \<and> lbinv s' \<and> l_n (lg s') = 0 \<and> hd_n h = 0 \<and> length h = BSIZE \<and>
    lobs s' = a_unrefs (map fst (replay st m)) (a_emits (replay st m @ [(st, h)]) (lobs s)) \<and>
    l_start (lg s') = st \<and> l_dev (lg s') = l_dev (lg s) \<and> l_size (lg s') = l_size (lg s) \<and>
    l_outstanding (lg s') = l_outstanding (lg s) \<and> l_committing (lg s') = l_committing (lg s) \<and>
    length (l_block (lg s')) = LOGSIZE"
proof -
  let ?n = "hd_n (m st)"
  have n: "0 \<le> ?n" "?n < int LOGSIZE" and nn: "nat ?n < LOGSIZE" "nat ?n < NBUF"
    using h by (auto simp: header_ok_def LOGSIZE_def NBUF_def)
  have r0: "a_readable (lobs s) (l_start (lg s))"
    using w nn by (auto simp: a_readable_def a_steady_def)
  obtain s1 bl where s1: "read_head s = Ok s1" "lbinv s1" "lobs s1 = lobs s" "length bl = LOGSIZE"
    "lg s1 = (lg s)\<lparr>l_n := ?n, l_block := bl\<rparr>" "\<forall>i < nat ?n. bl ! i = hd_block (m st) i"
    using read_head_law [OF inv r0 len] n by (auto simp: w st)
  have bs: "map ((!) bl) [0..<nat ?n] = map (hd_block (m st)) [0..<nat ?n]"
    using s1(6) by (intro map_cong) auto
  have sl: "slot (lg s1) i = st + of_nat i + 1" for i
    by (simp add: slot_def s1(5) st)
  have bo: "blocks_of (lg s1) = map (hd_block (m st)) [0..<nat ?n]"
    using n nn by (subst blocks_of_nth) (auto simp: s1(4,5) bs)
  have "separate (lg s1) 0 (nat (l_n (lg s1)))"
  proof (rule separate_blocks)
    show "distinct (blocks_of (lg s1))" "\<forall>b\<in>set (blocks_of (lg s1)). \<not> in_log (l_start (lg s1)) b"
      unfolding bo using h by (auto simp: header_ok_def s1(5) st)
  qed (use n in \<open>simp_all add: s1(4,5)\<close>)
  then have sep: "separate (lg s1) 0 (nat ?n)"
    by (simp add: s1(5))
  have "\<exists>s'. install_loop (nat ?n) 0 s1 = Ok s' \<and> lbinv s' \<and> lg s' = lg s1 \<and>
    lobs s' = a_unrefs (map ((!) (l_block (lg s1))) [0..<0 + nat ?n])
      (a_emits (map (\<lambda>j. (l_block (lg s1) ! j, a_view (lobs s1) (slot (lg s1) j))) [0..<0 + nat ?n]) (lobs s1))"
    using sep w nn by (intro install_loop_law s1(2)) (auto simp: s1(3))
  moreover have "map (\<lambda>j. (bl ! j, m (slot (lg s1) j))) [0..<nat ?n] = replay st m"
    using s1(6) unfolding replay_def sl by (intro map_cong) auto
  moreover have fst_replay: "map (hd_block (m st)) [0..<nat ?n] = map fst (replay st m)"
    by (simp add: replay_def comp_def)
  ultimately obtain s2 where s2: "install_trans s1 = Ok s2" "lbinv s2" "lg s2 = lg s1"
    "lobs s2 = a_unrefs (map fst (replay st m)) (a_emits (replay st m) (lobs s))"
    by (auto simp: install_trans_def s1(3,5) w bs)
  have d: "distinct (map fst (replay st m))" and nst: "st \<notin> set (map fst (replay st m))"
    using h start_in_log [of st] by (auto simp: fst_replay [symmetric] header_ok_def)
  have "a_room (lobs s2) = NBUF - nat ?n"
    using a_unrefs_room(2) [OF d, of "a_emits (replay st m) (lobs s)"] w by (simp add: s2 replay_def)
  moreover have "a_refs (lobs s2) st = 0"
    using nst w by (simp add: s2 a_unrefs_refs [OF d])
  ultimately have "a_readable (lobs (set_n 0 s2)) (l_start (lg (set_n 0 s2)))"
    using w nn by (auto simp: s2 s1(5) st a_readable_def a_steady_def)
  then obtain s3 where s3: "write_head (set_n 0 s2) = Ok s3" "lbinv s3" "lg s3 = (lg s1)\<lparr>l_n := 0\<rparr>"
    "lobs s3 = a_emit st (head_enc ((lg s1)\<lparr>l_n := 0\<rparr>) (a_view (lobs s2) st)) (lobs s2)"
    using write_head_law [of "set_n 0 s2"] s2(2) by (auto simp: s2(3) s1(4,5) st)
  let ?h = "head_enc ((lg s1)\<lparr>l_n := 0\<rparr>) (a_view (lobs s2) st)"
  have "length (a_view (lobs s2) st) = BSIZE"
    using bcache.size_law [of "l_dev (lg s2)" "lbs s2" st] s2(2) by (simp add: lobs_def lbinv_def)
  then have "hd_n ?h = 0" "length ?h = BSIZE"
    using head_roundtrip(1,2) [of "(lg s1)\<lparr>l_n := 0\<rparr>" "a_view (lobs s2) st"] by (simp_all add: s1(4,5))
  moreover have "lobs s3 = a_unrefs (map fst (replay st m)) (a_emits (replay st m @ [(st, ?h)]) (lobs s))"
    using a_emits_unrefs [of "[(st, ?h)]" "map fst (replay st m)" "a_emits (replay st m) (lobs s)"] by (simp add: s3(4) s2(4))
  moreover have "recover_from_log s = Ok s3"
    by (simp add: recover_from_log_def s1(1) s2(1) s3(1))
  ultimately show ?thesis
    using s3(2,3) s1(4,5) st by (intro exI [of _ s3] exI [of _ ?h]) simp
qed

lemma initlog_law:
  assumes "dev \<noteq> 0" and "\<forall>b. length (m b) = BSIZE" and "header_ok st m"
  shows "\<exists>s h. initlog dev st nlog (bboot pid m) = Ok s \<and> lbinv s \<and> l_n (lg s) = 0 \<and> hd_n h = 0 \<and> length h = BSIZE \<and>
    l_dev (lg s) = dev \<and> busy dev (lbs s) = {} \<and>
    medium (lbs s) = apply_writes (replay st m @ [(st, h)]) m \<and>
    wtrace (lbs s) = replay st m @ [(st, h)] \<and> refs dev (lbs s) = (\<lambda>b. if b \<in> fst ` set (replay st m) then - 1 else 0)"
proof -
  define s0 where "s0 = \<lparr>lbs = bboot pid m, lg = log_bss\<lparr>l_start := st, l_size := sint nlog, l_dev := dev\<rparr>\<rparr>"
  note b = bboot_inv [OF assms(1,2), of pid]
  have o: "lobs s0 = \<lparr>a_view = m, a_store = m, a_writes = [], a_refs = (\<lambda>_. 0), a_busy = {}, a_room = NBUF\<rparr>"
    and i: "lbinv s0" and l: "l_start (lg s0) = st" "length (l_block (lg s0)) = LOGSIZE" "l_dev (lg s0) = dev"
    using b by (simp_all add: lobs_def lbinv_def s0_def log_bss_def)
  have w: "a_view (lobs s0) = m" "a_busy (lobs s0) = {}" "\<And>b. a_refs (lobs s0) b = 0" "a_room (lobs s0) = NBUF"
    by (simp_all add: o)
  obtain s h where s: "recover_from_log s0 = Ok s" "lbinv s" "l_n (lg s) = 0" "hd_n h = 0" "l_dev (lg s) = dev" "length h = BSIZE"
    "lobs s = a_unrefs (map fst (replay st m)) (a_emits (replay st m @ [(st, h)]) (lobs s0))"
    using recover_law [OF i w l(1,2) assms(3)] l(3) by blast
  have d: "distinct (map fst (replay st m))"
    using assms(3) by (simp add: header_ok_def replay_def comp_def)
  have "medium (lbs s) = a_store (lobs s)" "wtrace (lbs s) = a_writes (lobs s)" "refs dev (lbs s) = a_refs (lobs s)" "busy dev (lbs s) = a_busy (lobs s)"
    using s(5) by (simp_all add: lobs_def bobs_of_def)
  moreover have "initlog dev st nlog (bboot pid m) = Ok s"
    using s(1) by (simp add: initlog_def LOGSIZE_def MAXOPBLOCKS_def BSIZE_def s0_def)
  ultimately show ?thesis
    using s by (intro exI [of _ s] exI [of _ h]) (simp add: o a_unrefs_refs [OF d] fun_eq_iff)
qed

section \<open>Crashes\<close>

lemma apply_writes_graph: "apply_writes (map (\<lambda>j. (f j, g (f j))) xs) m b = (if b \<in> f ` set xs then g b else m b)"
proof (induction xs arbitrary: m)
  case (Cons x xs)
  then show ?case
    by auto
qed simp

text \<open>The disk after a prefix of the writes of a commit: whether the first header is among them
  decides what recovery makes of it.\<close>

lemma crash_point:
  assumes c: "committable s" and pos: "0 < l_n (lg s)" and disk: "hd_n (disk (l_start (lg s))) = 0"
    and m: "m = apply_writes (take k (commit_writes (lg s) (a_view (lobs s)))) disk"
  shows "header_ok (l_start (lg s)) m"
    "\<not> in_log (l_start (lg s)) b \<Longrightarrow> apply_writes (replay (l_start (lg s)) m) m b =
      (if nat (l_n (lg s)) < k \<and> b \<in> set (blocks_of (lg s)) then a_view (lobs s) b else disk b)"
proof -
  let ?l = "lg s" and ?v = "a_view (lobs s)" and ?n = "nat (l_n (lg s))" and ?st = "l_start (lg s)"
  let ?b = "(!) (l_block ?l)"
  let ?W1 = "map (\<lambda>j. (slot ?l j, ?v (?b j))) [0..<?n]" and ?W3 = "map (\<lambda>j. (?b j, ?v (?b j))) [0..<?n]"
  let ?h = "head_enc ?l (?v ?st)" and ?z = "head_enc (?l\<lparr>l_n := 0\<rparr>) (head_enc ?l (?v ?st))"
  have n: "0 \<le> l_n ?l" "l_n ?l < int LOGSIZE" "length (l_block ?l) = LOGSIZE" and nn: "?n < LOGSIZE"
    and d: "distinct (blocks_of ?l)" and nl: "\<And>b. b \<in> set (blocks_of ?l) \<Longrightarrow> \<not> in_log ?st b"
    and inv: "lbinv s"
    using c by (auto simp: committable_def)
  have bo: "set (blocks_of ?l) = ?b ` {0..<?n}" "distinct (map ?b [0..<?n])"
    using d by (simp_all add: blocks_of_nth [OF n(2,3,1)])
  have sz: "length (?v x) = BSIZE" for x
    using bcache.size_law [of "l_dev ?l" "lbs s" x] inv by (simp add: lbinv_def lobs_def)
  have h: "length ?h = BSIZE" "hd_n ?h = l_n ?l" "\<And>i. i < ?n \<Longrightarrow> hd_block ?h i = ?b i" "hd_n ?z = 0"
    using head_roundtrip [of ?l "?v ?st"] head_roundtrip(2) [of "?l\<lparr>l_n := 0\<rparr>" ?h] n sz by auto
  have sl: "in_log ?st (slot ?l j)" "slot ?l j \<noteq> ?st" if "j < ?n" for j
    using that nn by (auto intro!: slot_facts)
  have bst: "?st \<notin> ?b ` {0..<?n}"
    using nl start_in_log bo(1) by blast
  have W: "commit_writes ?l ?v = ?W1 @ (?st, ?h) # ?W3 @ [(?st, ?z)]"
    by (simp add: commit_writes_def Let_def)
  have w1: "apply_writes (take i ?W1) f x = f x" if "x = ?st \<or> \<not> in_log ?st x" for f x i
  proof (rule apply_writes_other)
    have "x \<notin> slot ?l ` {0..<?n}"
      using that sl by (metis atLeastLessThan_iff imageE)
    then show "x \<notin> fst ` set (take i ?W1)"
      by (auto dest!: in_set_takeD)
  qed
  have w3: "apply_writes (take i ?W3) f x = f x" if "x \<notin> ?b ` {0..<?n}" for f x i
    using that by (intro apply_writes_other) (auto dest!: in_set_takeD)
  have w1s: "apply_writes ?W1 f (slot ?l j) = ?v (?b j)" if "j < ?n" for f j
    using that nn by (intro apply_writes_at) (auto simp: distinct_map inj_on_def slot_inj comp_def)
  have w3a: "apply_writes ?W3 f x = (if x \<in> ?b ` {0..<?n} then ?v x else f x)" for f x
    using apply_writes_graph [of ?b ?v "[0..<?n]" f x] by simp
  have empty: "header_ok ?st m \<and> replay ?st m = []" if "hd_n (m ?st) = 0"
    using that by (simp add: header_ok_def replay_def LOGSIZE_def MAXOPBLOCKS_def)
  consider "k \<le> ?n" | "?n < k" "k \<le> Suc (?n + ?n)" | "Suc (?n + ?n) < k"
    by linarith
  then have "header_ok ?st m \<and> (\<forall>b. \<not> in_log ?st b \<longrightarrow> apply_writes (replay ?st m) m b =
      (if ?n < k \<and> b \<in> set (blocks_of ?l) then ?v b else disk b))"
  proof cases
    case 1
    then have m1: "m = apply_writes (take k ?W1) disk"
      by (simp add: m W)
    then show ?thesis
      using 1 empty disk w1 by simp
  next
    case 2
    then have m2: "m = apply_writes (take (k - Suc ?n) ?W3) ((apply_writes ?W1 disk)(?st := ?h))"
      by (simp add: m W take_Cons' not_le)
    have mst: "m ?st = ?h"
      using bst by (simp add: m2 w3)
    have msl: "m (slot ?l j) = ?v (?b j)" if "j < ?n" for j
    proof -
      have "slot ?l j \<notin> ?b ` {0..<?n}"
        using sl(1) [OF that] nl bo(1) by blast
      then show ?thesis
        using that sl(2) [OF that] by (simp add: m2 w3 w1s)
    qed
    have bl: "map (hd_block ?h) [0..<?n] = map ?b [0..<?n]"
      using h(3) by (intro map_cong) auto
    have ok: "header_ok ?st m"
      using n bo nl unfolding header_ok_def mst h(2) bl by (auto simp: h(3))
    have "replay ?st m = ?W3"
      unfolding replay_def mst h(2) using h(3) msl by (intro map_cong) (auto simp: slot_def)
    moreover have "m b = disk b" if "\<not> in_log ?st b" "b \<notin> ?b ` {0..<?n}" for b
    proof -
      have "b \<noteq> ?st"
        using that(1) start_in_log by blast
      then show ?thesis
        using that w1 [of b "length ?W1" disk] by (simp add: m2 w3)
    qed
    ultimately show ?thesis
      using 2 ok by (auto simp: w3a bo(1))
  next
    case 3
    then have m3: "m = (apply_writes ?W3 ((apply_writes ?W1 disk)(?st := ?h)))(?st := ?z)"
      by (simp add: m W take_Cons')
    have "hd_n (m ?st) = 0"
      by (simp add: m3 h(4))
    moreover have "m b = (if b \<in> ?b ` {0..<?n} then ?v b else disk b)" if "\<not> in_log ?st b" for b
    proof -
      have "b \<noteq> ?st"
        using that(1) start_in_log by blast
      then show ?thesis
        using that w1 [of b "length ?W1" disk] by (simp add: m3 w3a)
    qed
    ultimately show ?thesis
      using 3 empty by (auto simp: bo(1))
  qed
  then show "header_ok ?st m"
    "\<not> in_log ?st b \<Longrightarrow> apply_writes (replay ?st m) m b =
      (if ?n < k \<and> b \<in> set (blocks_of ?l) then ?v b else disk b)"
    by auto
qed

lemma length_apply_writes:
  "\<forall>b. length (m b) = BSIZE \<Longrightarrow> \<forall>(n, x)\<in>set ws. length x = BSIZE \<Longrightarrow> length (apply_writes ws m b) = BSIZE"
  by (induction ws arbitrary: m) auto

lemma commit_writes_sizes:
  assumes "committable s"
  shows "\<forall>(b, x)\<in>set (take k (commit_writes (lg s) (a_view (lobs s)))). length x = BSIZE"
proof -
  have "length (a_view (lobs s) b) = BSIZE" for b
    using bcache.size_law [of "l_dev (lg s)" "lbs s" b] assms by (simp add: committable_def lbinv_def lobs_def)
  then show ?thesis
    using assms head_roundtrip(1) [of "lg s"] head_roundtrip(1) [of "(lg s)\<lparr>l_n := 0\<rparr>"]
    by (auto simp: commit_writes_def Let_def committable_def dest!: in_set_takeD)
qed

lemma commit_writes_last:
  assumes "committable s"
  shows "hd_n (apply_writes (commit_writes (lg s) (a_view (lobs s))) m (l_start (lg s))) = 0"
proof -
  have "length (a_view (lobs s) b) = BSIZE" for b
    using bcache.size_law [of "l_dev (lg s)" "lbs s" b] assms by (simp add: committable_def lbinv_def lobs_def)
  then show ?thesis
    using assms head_roundtrip(1) [of "lg s"] head_roundtrip(2) [of "(lg s)\<lparr>l_n := 0\<rparr>"]
    by (simp add: commit_writes_def Let_def committable_def)
qed

text \<open>The same for a crash while recovery itself runs.\<close>

lemma recrash_point:
  assumes h: "header_ok st m" and z: "hd_n z = 0" and m': "m' = apply_writes (take k (replay st m @ [(st, z)])) m"
  shows "header_ok st m'"
    "\<not> in_log st b \<Longrightarrow> apply_writes (replay st m') m' b = apply_writes (replay st m) m b"
proof -
  let ?R = "replay st m" and ?n = "nat (hd_n (m st))"
  let ?l = "log_bss\<lparr>l_start := st\<rparr>"
  have n: "?n < LOGSIZE" and d: "distinct (map fst ?R)" and nl: "\<And>b. b \<in> fst ` set ?R \<Longrightarrow> \<not> in_log st b"
    using h by (auto simp: header_ok_def replay_def comp_def)
  have nt: "b \<notin> fst ` set (take i ?R)" if "in_log st b" for b i
    using that nl by (auto dest: in_set_takeD)
  have out: "apply_writes (take i ?R) f b = f b" if "in_log st b" for f b i
    using nt [OF that] by (rule apply_writes_other)
  have slots: "in_log st (st + of_nat i + 1)" if "i < ?n" for i
    using slot_facts(1) [of i ?l] that n by (simp add: slot_def)
  show hk: "header_ok st m'"
  proof (cases "k \<le> length ?R")
    case True
    then show ?thesis
      using h out [OF start_in_log] by (simp add: header_ok_def m')
  next
    case False
    then show ?thesis
      using z by (simp add: header_ok_def m' LOGSIZE_def MAXOPBLOCKS_def)
  qed
  show "apply_writes (replay st m') m' b = apply_writes ?R m b" if nb: "\<not> in_log st b"
  proof (cases "k \<le> length ?R")
    case True
    then have m1: "m' = apply_writes (take k ?R) m"
      by (simp add: m')
    have R': "replay st m' = ?R"
      unfolding replay_def using slots by (auto simp: m1 out start_in_log)
    show ?thesis
    proof (cases "b \<in> fst ` set ?R")
      case True
      then obtain x where "(b, x) \<in> set ?R"
        by auto
      then show ?thesis
        by (simp add: R' apply_writes_at [OF d])
    next
      case False
      then have "b \<notin> fst ` set (take k ?R)"
        by (auto dest: in_set_takeD)
      then show ?thesis
        using False unfolding R' by (simp add: apply_writes_other m1)
    qed
  next
    case False
    then have m2: "m' = (apply_writes ?R m)(st := z)"
      by (simp add: m')
    then have "replay st m' = []"
      using z by (simp add: replay_def)
    moreover have "b \<noteq> st"
      using nb start_in_log by blast
    ultimately show ?thesis
      by (simp add: m2)
  qed
qed

section \<open>Logging a block\<close>

lemma log_find_eq:
  "log_find k i b bl = (case find (\<lambda>j. bl ! j = b) [i..<i + k] of None \<Rightarrow> i + k | Some j \<Rightarrow> j)"
  by (induction k arbitrary: i) (simp_all add: upt_conv_Cons del: upt_Suc split: option.split)

text \<open>The state inside a transaction: the logged blocks are different, outside the log and pinned;
  a block that is neither logged nor held is the same in the cache and on the disk, and the log on
  the disk is empty.\<close>

definition linv :: "lstate \<Rightarrow> bool" where
  "linv s \<longleftrightarrow> lbinv s \<and> 0 \<le> l_n (lg s) \<and> l_n (lg s) < int LOGSIZE \<and> length (l_block (lg s)) = LOGSIZE \<and>
     distinct (blocks_of (lg s)) \<and> (\<forall>b\<in>set (blocks_of (lg s)). \<not> in_log (l_start (lg s)) b \<and> a_refs (lobs s) b \<noteq> 0) \<and>
     (\<forall>b. b \<notin> set (blocks_of (lg s)) \<longrightarrow> b \<notin> a_busy (lobs s) \<longrightarrow> a_view (lobs s) b = a_store (lobs s) b) \<and>
     hd_n (a_store (lobs s) (l_start (lg s))) = 0"

lemma log_write_law:
  assumes inv: "linv s" and h: "holds (l_dev (lg s)) (lbs s) b n" and nl: "\<not> in_log (l_start (lg s)) n"
    and small: "l_n (lg s) + 1 < int LOGSIZE" "l_n (lg s) < l_size (lg s) - 1" "0 < l_outstanding (lg s)"
    and refs: "a_refs (lobs s) n + 1 \<noteq> 0" "a_refs (lobs s) n \<noteq> 0"
  shows "\<exists>s'. log_write b s = Ok s' \<and> linv s' \<and> holds (l_dev (lg s)) (lbs s') = holds (l_dev (lg s)) (lbs s) \<and>
    l_start (lg s') = l_start (lg s) \<and> l_size (lg s') = l_size (lg s) \<and> l_dev (lg s') = l_dev (lg s) \<and>
    l_outstanding (lg s') = l_outstanding (lg s) \<and> l_committing (lg s') = l_committing (lg s) \<and>
    set (blocks_of (lg s')) = insert n (set (blocks_of (lg s))) \<and> a_view (lobs s') = a_view (lobs s) \<and>
    a_store (lobs s') = a_store (lobs s) \<and> a_writes (lobs s') = a_writes (lobs s) \<and>
    lobs s' = (if n \<in> set (blocks_of (lg s)) then lobs s else a_ref n (lobs s))"
proof -
  let ?l = "lg s" and ?k = "nat (l_n (lg s))"
  let ?bl = "l_block ?l"
  have bi: "binv (l_dev ?l) (lbs s)" and n0: "0 \<le> l_n ?l" "l_n ?l < int LOGSIZE" and len: "length ?bl = LOGSIZE"
    using inv by (auto simp: linv_def lbinv_def)
  have bn: "b_blockno (bufs (lbs s) ! b) = n"
    using holdsD(6) [OF bi h] .
  have kk: "?k < LOGSIZE" "Suc ?k < LOGSIZE"
    using n0 small by linarith+
  have bs: "blocks_of ?l = map ((!) ?bl) [0..<?k]" "set (blocks_of ?l) = (!) ?bl ` {0..<?k}"
    using blocks_of_nth [OF n0(2) len n0(1)] by simp_all
  have ng: "\<not> (l_n ?l \<ge> int LOGSIZE \<or> l_n ?l \<ge> l_size ?l - 1)" "\<not> l_outstanding ?l < 1"
    using small n0 by linarith+
  show ?thesis
  proof (cases "n \<in> set (blocks_of ?l)")
    case True
    then have "find (\<lambda>j. ?bl ! j = n) [0..<?k] \<noteq> None"
      by (auto simp: find_None_iff bs(2))
    then obtain i where i: "find (\<lambda>j. ?bl ! j = n) [0..<?k] = Some i"
      by blast
    then have i': "i < ?k" "?bl ! i = n"
      by (auto dest: find_SomeD)
    then have same: "?l\<lparr>l_block := ?bl[i := n]\<rparr> = ?l"
      using list_update_id [of ?bl i] by simp
    have "log_write b s = Ok s"
      using ng i i' by (simp add: log_write_def Let_def bn log_find_eq same)
    then show ?thesis
      using True inv by (auto simp: insert_absorb)
  next
    case False
    then have "find (\<lambda>j. ?bl ! j = n) [0..<?k] = None"
      by (auto simp: find_None_iff bs(2))
    then have lf: "log_find ?k 0 n ?bl = ?k"
      by (simp add: log_find_eq)
    let ?l' = "?l\<lparr>l_block := ?bl[?k := n], l_n := l_n ?l + 1\<rparr>"
    let ?s = "s\<lparr>lbs := bpin b (lbs s), lg := ?l'\<rparr>"
    have ok: "log_write b s = Ok ?s"
      using ng n0 by (simp add: log_write_def Let_def bn lf)
    have p: "binv (l_dev ?l) (bpin b (lbs s))" "bobs_of (l_dev ?l) (bpin b (lbs s)) = a_ref n (lobs s)"
      "holds (l_dev ?l) (bpin b (lbs s)) = holds (l_dev ?l) (lbs s)"
      using bcache.pin_law [OF bi h] refs by (auto simp: lobs_def)
    have o: "lobs ?s = a_ref n (lobs s)" and i: "lbinv ?s"
      using p by (simp_all add: lobs_def lbinv_def)
    have "nat (l_n ?l') = Suc ?k"
      using n0 by simp
    then have bo: "blocks_of ?l' = blocks_of ?l @ [n]"
      using kk len by (simp add: blocks_of_def take_Suc_conv_app_nth)
    have "linv ?s"
      using inv False nl refs small i unfolding linv_def o
      by (auto simp: bo len a_ref_def)
    then show ?thesis
      using ok False p(3) by (auto simp: o bo a_ref_def)
  qed
qed

section \<open>Properties\<close>

text \<open>A transaction with one block, built with the operations of the code on a freshly booted
  cache.\<close>

definition log_example :: lstate where
  "log_example = \<lparr>lbs = bboot 1 blank, lg = log_bss\<lparr>l_start := 2, l_size := 31, l_dev := 1, l_outstanding := 1\<rparr>\<rparr>"

lemma log_example_obs:
  "lobs log_example = \<lparr>a_view = blank, a_store = blank, a_writes = [], a_refs = (\<lambda>_. 0), a_busy = {}, a_room = NBUF\<rparr>"
  "lbinv log_example"
  using blank_boot by (simp_all add: log_example_def lobs_def lbinv_def)

lemma hd_n_blank: "hd_n (blank b) = 0"
proof -
  have "subarr 0 4 (blank b) = replicate 4 0"
    by (simp add: subarr_def blank_def BSIZE_def)
  then show ?thesis
    by (simp add: hd_n_def numeral_eq_Suc)
qed

lemma linv_example: "linv log_example"
  using log_example_obs hd_n_blank
  by (simp add: linv_def blocks_of_def) (simp add: log_example_def log_bss_def LOGSIZE_def MAXOPBLOCKS_def)

lemma committable_example:
  "\<exists>s. committable s \<and> 0 < l_n (lg s) \<and> hd_n (medium (lbs s) (l_start (lg s))) = 0"
proof -
  let ?s = log_example
  have d: "l_dev (lg ?s) = 1" "lbs ?s = bboot 1 blank" "l_start (lg ?s) = 2" "blocks_of (lg ?s) = []" "l_n (lg ?s) = 0"
    by (simp_all add: log_example_def log_bss_def blocks_of_def)
  have "a_readable (bobs_of 1 (bboot 1 blank)) 100"
    using blank_boot by (simp add: a_readable_def a_steady_def NBUF_def MAXOPBLOCKS_def)
  then obtain h b where b: "bread 1 100 (bboot 1 blank) = Ok (h, b)" "binv 1 b" "bobs_of 1 b = a_read 100 (bobs_of 1 (bboot 1 blank))" "holds 1 b h 100"
    using bcache.read_law [OF blank_boot(1)] by blast
  let ?t = "?s\<lparr>lbs := b\<rparr>"
  have o: "lobs ?t = a_read 100 (lobs ?s)"
    using b by (simp add: lobs_def d)
  have lt: "linv ?t"
    using b(2) linv_example hd_n_blank unfolding linv_def o
    by (simp add: lbinv_def d a_read_def log_example_obs)
  have nl: "\<not> in_log (l_start (lg ?t)) 100"
    by (simp add: d in_log_def LOGSIZE_def MAXOPBLOCKS_def)
  have "\<exists>s'. log_write h ?t = Ok s' \<and> linv s' \<and> holds (l_dev (lg ?t)) (lbs s') = holds (l_dev (lg ?t)) (lbs ?t) \<and>
    l_start (lg s') = l_start (lg ?t) \<and> l_size (lg s') = l_size (lg ?t) \<and> l_dev (lg s') = l_dev (lg ?t) \<and>
    l_outstanding (lg s') = l_outstanding (lg ?t) \<and> l_committing (lg s') = l_committing (lg ?t) \<and>
    set (blocks_of (lg s')) = insert 100 (set (blocks_of (lg ?t))) \<and> a_view (lobs s') = a_view (lobs ?t) \<and>
    a_store (lobs s') = a_store (lobs ?t) \<and> a_writes (lobs s') = a_writes (lobs ?t) \<and>
    lobs s' = (if 100 \<in> set (blocks_of (lg ?t)) then lobs ?t else a_ref 100 (lobs ?t))"
    using b(4) nl
    by (intro log_write_law [OF lt])
      (simp_all add: o d a_read_def log_example_obs LOGSIZE_def MAXOPBLOCKS_def, simp_all add: log_example_def log_bss_def)
  then obtain s2 where s2: "linv s2" "holds 1 (lbs s2) h 100" "l_dev (lg s2) = 1" "l_start (lg s2) = 2"
    "set (blocks_of (lg s2)) = {100}" "lobs s2 = a_ref 100 (lobs ?t)"
    using b(4) by (auto simp: d)
  have i2: "binv 1 (lbs s2)" and o2: "bobs_of 1 (lbs s2) = a_ref 100 (lobs ?t)"
    using s2 by (simp_all add: linv_def lbinv_def lobs_def)
  obtain b3 where b3: "brelse h (lbs s2) = Ok b3" "binv 1 b3" "bobs_of 1 b3 = a_release 100 (a_ref 100 (lobs ?t))"
    using bcache.release_law [OF i2 s2(2)] by (auto simp: o2 o log_example_obs a_ops)
  let ?u = "s2\<lparr>lbs := b3\<rparr>"
  have ou: "lobs ?u = a_release 100 (a_ref 100 (a_read 100 (lobs ?s)))"
    using b3 s2(3) by (simp add: lobs_def [of ?u] o)
  have "committable ?u"
    using s2(1,3,5) b3(2) unfolding committable_def ou
    by (auto simp: linv_def lbinv_def a_ops log_example_obs NBUF_def MAXOPBLOCKS_def)
  moreover have "0 < l_n (lg ?u)"
  proof (rule ccontr)
    assume "\<not> 0 < l_n (lg ?u)"
    then have "blocks_of (lg s2) = []"
      by (simp add: blocks_of_def)
    then show False
      using s2(5) by simp
  qed
  moreover have "medium b3 = a_store (lobs ?u)"
    using s2(3) by (simp add: lobs_def bobs_of_def)
  then have "hd_n (medium (lbs ?u) (l_start (lg ?u))) = 0"
    using hd_n_blank by (simp add: ou a_ops log_example_obs)
  ultimately show ?thesis
    by blast
qed

text \<open>C1: commit is atomic with respect to crashes. From a transaction that fits (every logged
  block pinned, different and outside the log, a buffer free, nobody holding one) with an empty log
  on the disk, \<^verbatim>\<open>commit\<close> finishes, and if the machine stops after any number \<open>k\<close> of the disk writes
  \<^verbatim>\<open>commit\<close> makes, booting again (\<^verbatim>\<open>binit\<close>, \<^verbatim>\<open>initlog\<close>) succeeds and leaves every block outside the
  log as it was before the transaction if the header had not been written, and with the
  transaction's content if it had; the committed content is that of the cache for the logged
  blocks and the old one for all others.\<close>

theorem commit_crash_safe:
  assumes "committable s" and "0 < l_n (lg s)" and "hd_n (medium (lbs s) (l_start (lg s))) = 0"
  shows "\<exists>s1 ws. commit s = Ok s1 \<and> l_n (lg s1) = 0 \<and> wtrace (lbs s1) = wtrace (lbs s) @ ws \<and>
    (\<forall>b. \<not> in_log (l_start (lg s)) b \<longrightarrow> medium (lbs s1) b =
      (if b \<in> set (blocks_of (lg s)) then view (l_dev (lg s)) (lbs s) b else medium (lbs s) b)) \<and>
    (\<forall>k. \<exists>s2. initlog (l_dev (lg s)) (l_start (lg s)) nlog
        (bboot pid (apply_writes (take k ws) (medium (lbs s)))) = Ok s2 \<and>
      (\<forall>b. \<not> in_log (l_start (lg s)) b \<longrightarrow> medium (lbs s2) b =
        (if k \<le> nat (l_n (lg s)) then medium (lbs s) b else medium (lbs s1) b)))"
proof -
  let ?st = "l_start (lg s)" and ?m = "medium (lbs s)" and ?dev = "l_dev (lg s)"
  let ?ws = "commit_writes (lg s) (a_view (lobs s))"
  have inv: "binv ?dev (lbs s)" and small: "l_n (lg s) < int LOGSIZE"
    using assms(1) by (auto simp: committable_def lbinv_def)
  obtain s1 where s1: "commit s = Ok s1" "lg s1 = (lg s)\<lparr>l_n := 0\<rparr>"
    "lobs s1 = a_unrefs (blocks_of (lg s)) (a_emits ?ws (lobs s))"
    using commit_law [OF assms(1,2)] by blast
  have w: "a_view (lobs s) = view ?dev (lbs s)" "a_store (lobs s) = ?m" "a_writes (lobs s) = wtrace (lbs s)"
    by (simp_all add: lobs_def bobs_of_def)
  have "wtrace (lbs s1) = a_writes (lobs s1)" "medium (lbs s1) = a_store (lobs s1)"
    by (simp_all add: lobs_def bobs_of_def)
  then have tr: "wtrace (lbs s1) = wtrace (lbs s) @ ?ws" and md: "medium (lbs s1) = apply_writes ?ws ?m"
    by (simp_all add: s1(3) w(2,3))
  note cp = crash_point [where s = s and disk = ?m, OF assms refl]
  have new: "medium (lbs s1) b = (if b \<in> set (blocks_of (lg s)) then view ?dev (lbs s) b else ?m b)"
    if "\<not> in_log ?st b" for b
  proof -
    have "replay ?st (medium (lbs s1)) = []"
      using commit_writes_last [OF assms(1)] by (simp add: replay_def md)
    moreover have "nat (l_n (lg s)) < length ?ws"
      by (simp add: commit_writes_def Let_def)
    ultimately show ?thesis
      using cp(2) [of b "length ?ws"] that by (simp add: md w(1))
  qed
  have "\<exists>s2. initlog ?dev ?st nlog (bboot pid (apply_writes (take k ?ws) ?m)) = Ok s2 \<and>
      (\<forall>b. \<not> in_log ?st b \<longrightarrow> medium (lbs s2) b = (if k \<le> nat (l_n (lg s)) then ?m b else medium (lbs s1) b))" for k
  proof -
    let ?mk = "apply_writes (take k ?ws) ?m"
    have "length (?mk b) = BSIZE" for b
      using binvD(3) [OF inv] commit_writes_sizes [OF assms(1)] by (intro length_apply_writes) auto
    then obtain s2 h where s2: "initlog ?dev ?st nlog (bboot pid ?mk) = Ok s2"
      "medium (lbs s2) = apply_writes (replay ?st ?mk @ [(?st, h)]) ?mk"
      using initlog_law [OF binvD(1) [OF inv], of ?mk ?st nlog pid] cp(1) [of k] by blast
    have "medium (lbs s2) b = (if k \<le> nat (l_n (lg s)) then ?m b else medium (lbs s1) b)" if "\<not> in_log ?st b" for b
    proof -
      have "b \<noteq> ?st"
        using that start_in_log by blast
      then show ?thesis
        using cp(2) [OF that, of k] new [OF that] by (auto simp: s2(2) w(1))
    qed
    then show ?thesis
      using s2(1) by blast
  qed
  then show ?thesis
    using s1(1,2) tr new by (intro exI [of _ s1] exI [of _ ?ws]) simp
qed

theorem commit_crash_safe_witness:
  "\<exists>s s1 ws. 0 < l_n (lg s) \<and> commit s = Ok s1 \<and> wtrace (lbs s1) = wtrace (lbs s) @ ws \<and>
    (\<forall>k. \<exists>s2. initlog (l_dev (lg s)) (l_start (lg s)) 30 (bboot 1 (apply_writes (take k ws) (medium (lbs s)))) = Ok s2)"
proof -
  obtain s where s: "committable s" "0 < l_n (lg s)" "hd_n (medium (lbs s) (l_start (lg s))) = 0"
    using committable_example by blast
  show ?thesis
    using commit_crash_safe [OF s, of 30 1] s(2) by blast
qed

text \<open>C2: recovery may itself be interrupted. On a disk whose header describes a transaction,
  \<^verbatim>\<open>initlog\<close> copies every logged block home and empties the log; and if it is stopped after any
  number of its own writes and run again from the start, the blocks outside the log end up the
  same.\<close>

theorem recovery_crash_safe:
  assumes "dev \<noteq> 0" and "\<forall>b. length (m b) = BSIZE" and "header_ok st m"
  shows "\<exists>s. initlog dev st nlog (bboot pid m) = Ok s \<and> hd_n (medium (lbs s) st) = 0 \<and>
    (\<forall>i < nat (hd_n (m st)). medium (lbs s) (hd_block (m st) i) = m (st + of_nat i + 1)) \<and>
    (\<forall>k. \<exists>s'. initlog dev st nlog (bboot pid (apply_writes (take k (wtrace (lbs s))) m)) = Ok s' \<and>
      (\<forall>b. \<not> in_log st b \<longrightarrow> medium (lbs s') b = medium (lbs s) b))"
proof -
  obtain s h where s: "initlog dev st nlog (bboot pid m) = Ok s" "hd_n h = 0" "length h = BSIZE"
    "medium (lbs s) = apply_writes (replay st m @ [(st, h)]) m" "wtrace (lbs s) = replay st m @ [(st, h)]"
    using initlog_law [OF assms, of nlog pid] by blast
  have d: "distinct (map fst (replay st m))" and o: "\<And>i. i < nat (hd_n (m st)) \<Longrightarrow> hd_block (m st) i \<noteq> st"
    using assms(3) start_in_log [of st] by (auto simp: header_ok_def replay_def comp_def)
  have "medium (lbs s) (hd_block (m st) i) = m (st + of_nat i + 1)" if "i < nat (hd_n (m st))" for i
    using that o [OF that] d by (auto simp: s(4) replay_def intro!: apply_writes_at)
  moreover have "\<exists>s'. initlog dev st nlog (bboot pid (apply_writes (take k (wtrace (lbs s))) m)) = Ok s' \<and>
      (\<forall>b. \<not> in_log st b \<longrightarrow> medium (lbs s') b = medium (lbs s) b)" for k
  proof -
    let ?m = "apply_writes (take k (wtrace (lbs s))) m"
    note rc = recrash_point [where k = k, OF assms(3) s(2) refl, folded s(5)]
    have "\<forall>b. length (?m b) = BSIZE"
      using assms(2) s(3) by (intro allI length_apply_writes) (auto simp: s(5) replay_def dest!: in_set_takeD)
    then obtain s' h' where s': "initlog dev st nlog (bboot pid ?m) = Ok s'"
      "medium (lbs s') = apply_writes (replay st ?m @ [(st, h')]) ?m"
      using initlog_law [OF assms(1) _ rc(1), of nlog pid] by blast
    have "medium (lbs s') b = medium (lbs s) b" if "\<not> in_log st b" for b
    proof -
      have "b \<noteq> st"
        using that start_in_log by blast
      then show ?thesis
        using rc(2) [OF that] by (simp add: s'(2) s(4))
    qed
    then show ?thesis
      using s'(1) by blast
  qed
  ultimately show ?thesis
    using s by (intro exI [of _ s]) simp
qed

text \<open>A disk with a committed transaction of one block, 100.\<close>

definition one_block_log :: "u32 \<Rightarrow> u8 list" where
  "one_block_log = blank(2 := head_enc (log_bss\<lparr>l_n := 1, l_block := replicate LOGSIZE 100\<rparr>) (blank 2))"

lemma one_block_log:
  "hd_n (one_block_log 2) = 1" "hd_block (one_block_log 2) 0 = 100" "length (one_block_log b) = BSIZE"
  "header_ok 2 one_block_log"
proof -
  let ?l = "log_bss\<lparr>l_n := 1, l_block := replicate LOGSIZE 100\<rparr>"
  have b: "length (blank 2) = BSIZE"
    by (simp add: blank_def)
  have l: "0 \<le> l_n ?l" "l_n ?l \<le> int LOGSIZE" "length (l_block ?l) = LOGSIZE" "l_block ?l ! 0 = 100"
    by (simp_all add: LOGSIZE_def MAXOPBLOCKS_def)
  note r = head_roundtrip [OF l(1-3) b]
  show h: "hd_n (one_block_log 2) = 1" "hd_block (one_block_log 2) 0 = 100"
    using r(2) r(3) [of 0] l(4) by (simp_all add: one_block_log_def)
  show "length (one_block_log b) = BSIZE"
    using r(1) by (simp add: one_block_log_def blank_def)
  show "header_ok 2 one_block_log"
    using h by (simp add: header_ok_def in_log_def LOGSIZE_def MAXOPBLOCKS_def)
qed

theorem recovery_crash_safe_witness:
  "\<exists>s. initlog 1 2 30 (bboot 1 one_block_log) = Ok s \<and> medium (lbs s) 100 = blank 3"
  using recovery_crash_safe [of 1 one_block_log 2 30 1] one_block_log
  by (auto simp: one_block_log_def)

text \<open>C34: what \<^verbatim>\<open>install_trans\<close> does to reference counts when it runs for recovery. No block is
  pinned then, so its \<^verbatim>\<open>bunpin\<close> takes the count of the home buffer below zero: after \<^verbatim>\<open>initlog\<close>
  every recovered block has the count 4294967295, its buffer is never recycled, and the next
  \<^verbatim>\<open>bread\<close> of it returns a locked buffer whose count is 0.\<close>

theorem recovery_refcnt_underflow:
  assumes "dev \<noteq> 0" and "\<forall>b. length (m b) = BSIZE" and "header_ok st m" and "i < nat (hd_n (m st))"
  shows "\<exists>s b s'. initlog dev st nlog (bboot pid m) = Ok s \<and> refs dev (lbs s) (hd_block (m st) i) = 4294967295 \<and>
    bread dev (hd_block (m st) i) (lbs s) = Ok (b, s') \<and> b_locked (bufs s' ! b) \<and> b_refcnt (bufs s' ! b) = 0"
proof -
  let ?n = "hd_block (m st) i"
  obtain s where s: "initlog dev st nlog (bboot pid m) = Ok s" "lbinv s" "l_dev (lg s) = dev" "busy dev (lbs s) = {}"
    "refs dev (lbs s) = (\<lambda>b. if b \<in> fst ` set (replay st m) then - 1 else 0)"
    using initlog_law [OF assms(1-3), of nlog pid] by blast
  have inv: "binv dev (lbs s)"
    using s(2,3) by (simp add: lbinv_def)
  have r: "refs dev (lbs s) ?n = - 1"
    using assms(4) by (auto simp: s(5) replay_def image_image)
  then have "\<exists>b. cached (lbs s) dev ?n b"
    using refs_uncached by force
  then obtain b where c: "cached (lbs s) dev ?n b" ..
  have "\<not> b_locked (bufs (lbs s) ! b)"
    using busy_cached [OF inv c] s(4) by simp
  moreover have "b_refcnt (bufs (lbs s) ! b) = - 1"
    using refs_cached [OF inv c] r by simp
  then have b: "b < length (bufs (lbs s))" "b_refcnt (bufs (lbs s) ! b) + 1 = 0"
    using c binvD(4) [OF inv] by (simp_all add: cached_def)
  ultimately have "bread dev ?n (lbs s) = Ok (b, upd_buf b (\<lambda>x. x\<lparr>b_refcnt := b_refcnt x + 1,
      b_locked := True, b_pid := curpid (lbs s)\<rparr>) (lbs s))"
    using bget_hit [OF inv c] binvD(6) [OF inv c] by (simp add: bread_def upd_buf_nth)
  then show ?thesis
    using s(1) r b by (auto simp: upd_buf_nth)
qed

theorem recovery_refcnt_underflow_witness:
  "\<exists>s. initlog 1 2 30 (bboot 1 one_block_log) = Ok s \<and> refs 1 (lbs s) 100 = 4294967295"
  using recovery_refcnt_underflow [of 1 one_block_log 2 0 30 1] one_block_log by auto

end
