(* ===== verification/Spinlock.thy ===== *)
theory Spinlock
  imports Xv6_Prelude
begin

text \<open>
  \<^verbatim>\<open>kernel/spinlock.c\<close>: spin locks and the nesting of disabled interrupts. Locks and CPUs are
  numbered; the flag \<open>c_intr\<close> of a CPU is the SIE bit that \<^verbatim>\<open>intr_get\<close>, \<^verbatim>\<open>intr_on\<close> and \<^verbatim>\<open>intr_off\<close>
  read and write. The functions are given as a whole for one CPU; the step relation \<open>lk_step\<close> cuts
  them at every access to memory another CPU can interfere with, and its runs interleave any number
  of CPUs.
\<close>

section \<open>State\<close>

record spinlock =
  lk_locked :: bool
  lk_name :: string
  lk_cpu :: "nat option"

record cpu =
  c_noff :: int
  c_intena :: bool
  c_intr :: bool

record lkstate =
  locks :: "nat \<Rightarrow> spinlock"
  cpus :: "nat \<Rightarrow> cpu"

definition upd_cpu :: "nat \<Rightarrow> (cpu \<Rightarrow> cpu) \<Rightarrow> lkstate \<Rightarrow> lkstate" where
  "upd_cpu c f s = s\<lparr>cpus := (cpus s)(c := f (cpus s c))\<rparr>"

definition upd_lock :: "nat \<Rightarrow> (spinlock \<Rightarrow> spinlock) \<Rightarrow> lkstate \<Rightarrow> lkstate" where
  "upd_lock l f s = s\<lparr>locks := (locks s)(l := f (locks s l))\<rparr>"

section \<open>Operations\<close>

definition initlock :: "nat \<Rightarrow> string \<Rightarrow> lkstate \<Rightarrow> lkstate" where
  "initlock l name s = upd_lock l (\<lambda>k. k\<lparr>lk_name := name, lk_locked := False, lk_cpu := None\<rparr>) s"

definition push_off :: "nat \<Rightarrow> lkstate \<Rightarrow> lkstate" where
  "push_off c s =
     (let old = c_intr (cpus s c);
          s = upd_cpu c (\<lambda>k. k\<lparr>c_intr := False\<rparr>) s;
          s = (if c_noff (cpus s c) = 0 then upd_cpu c (\<lambda>k. k\<lparr>c_intena := old\<rparr>) s else s)
      in upd_cpu c (\<lambda>k. k\<lparr>c_noff := c_noff k + 1\<rparr>) s)"

definition pop_off :: "nat \<Rightarrow> lkstate \<Rightarrow> lkstate res" where
  "pop_off c s =
     (if c_intr (cpus s c) then Panic ''pop_off - interruptible''
      else if c_noff (cpus s c) < 1 then Panic ''pop_off''
      else
        let s = upd_cpu c (\<lambda>k. k\<lparr>c_noff := c_noff k - 1\<rparr>) s
        in Ok (if c_noff (cpus s c) = 0 \<and> c_intena (cpus s c)
               then upd_cpu c (\<lambda>k. k\<lparr>c_intr := True\<rparr>) s else s))"

definition holding :: "nat \<Rightarrow> nat \<Rightarrow> lkstate \<Rightarrow> bool" where
  "holding c l s \<longleftrightarrow> lk_locked (locks s l) \<and> lk_cpu (locks s l) = Some c"

text \<open>The whole of \<^verbatim>\<open>acquire\<close> when nobody else runs; a lock that is taken keeps it spinning.\<close>

definition acquire :: "nat \<Rightarrow> nat \<Rightarrow> lkstate \<Rightarrow> lkstate res" where
  "acquire c l s =
     (let s = push_off c s in
      if holding c l s then Panic ''acquire''
      else if lk_locked (locks s l) then Blocked
      else Ok (upd_lock l (\<lambda>k. k\<lparr>lk_cpu := Some c\<rparr>) (upd_lock l (\<lambda>k. k\<lparr>lk_locked := True\<rparr>) s)))"

definition release :: "nat \<Rightarrow> nat \<Rightarrow> lkstate \<Rightarrow> lkstate res" where
  "release c l s =
     (if \<not> holding c l s then Panic ''release''
      else pop_off c (upd_lock l (\<lambda>k. k\<lparr>lk_locked := False\<rparr>) (upd_lock l (\<lambda>k. k\<lparr>lk_cpu := None\<rparr>) s)))"

lemma upd_sel [simp]:
  "cpus (upd_lock l f s) = cpus s" "locks (upd_cpu c g s) = locks s"
  "cpus (upd_cpu c g s) = (cpus s)(c := g (cpus s c))" "locks (upd_lock l f s) = (locks s)(l := f (locks s l))"
  by (simp_all add: upd_cpu_def upd_lock_def)

lemma push_off_sel [simp]:
  "locks (push_off c s) = locks s" "c' \<noteq> c \<Longrightarrow> cpus (push_off c s) c' = cpus s c'"
  "c_intr (cpus (push_off c s) c) = False" "c_noff (cpus (push_off c s) c) = c_noff (cpus s c) + 1"
  by (simp_all add: push_off_def Let_def)

lemma pop_off_Ok:
  assumes "\<not> c_intr (cpus s c)" and "0 < c_noff (cpus s c)"
  shows "\<exists>s'. pop_off c s = Ok s' \<and> locks s' = locks s \<and> (\<forall>c'. c' \<noteq> c \<longrightarrow> cpus s' c' = cpus s c') \<and>
    c_noff (cpus s' c) = c_noff (cpus s c) - 1 \<and> (c_intr (cpus s' c) \<longrightarrow> c_noff (cpus s' c) = 0)"
  using assms by (auto simp: pop_off_def Let_def)

section \<open>Interleaved runs\<close>

text \<open>Where a CPU is: outside the lock functions, spinning, between the atomic swap and the store
  to \<^verbatim>\<open>lk->cpu\<close>, between the two stores of \<^verbatim>\<open>release\<close>, or before its \<^verbatim>\<open>pop_off\<close>.\<close>

datatype pc = Run | Spin nat | Got nat | Clr nat | Pop

text \<open>\<open>crit c\<close> is the set of locks that CPU \<open>c\<close> has acquired and not yet begun to release, and
  \<open>offs c\<close> the number of its own calls of \<^verbatim>\<open>push_off\<close> that are not yet undone.\<close>

record sys =
  base :: lkstate
  pcs :: "nat \<Rightarrow> pc"
  crit :: "nat \<Rightarrow> nat set"
  offs :: "nat \<Rightarrow> nat"

definition sys_init :: "sys \<Rightarrow> bool" where
  "sys_init s \<longleftrightarrow> (\<forall>l. \<not> lk_locked (locks (base s) l) \<and> lk_cpu (locks (base s) l) = None) \<and>
     (\<forall>c. c_noff (cpus (base s) c) = 0) \<and>
     (\<forall>c. pcs s c = Run \<and> crit s c = {} \<and> offs s c = 0)"

inductive lk_step :: "sys \<Rightarrow> sys \<Rightarrow> bool" where
  acquire_start: "pcs s c = Run \<Longrightarrow> \<not> holding c l (push_off c (base s)) \<Longrightarrow>
    lk_step s (s\<lparr>base := push_off c (base s), pcs := (pcs s)(c := Spin l)\<rparr>)"
| acquire_spin: "pcs s c = Spin l \<Longrightarrow> lk_locked (locks (base s) l) \<Longrightarrow> lk_step s s"
| acquire_swap: "pcs s c = Spin l \<Longrightarrow> \<not> lk_locked (locks (base s) l) \<Longrightarrow>
    lk_step s (s\<lparr>base := upd_lock l (\<lambda>k. k\<lparr>lk_locked := True\<rparr>) (base s), pcs := (pcs s)(c := Got l)\<rparr>)"
| acquire_done: "pcs s c = Got l \<Longrightarrow>
    lk_step s (s\<lparr>base := upd_lock l (\<lambda>k. k\<lparr>lk_cpu := Some c\<rparr>) (base s), pcs := (pcs s)(c := Run),
      crit := (crit s)(c := insert l (crit s c))\<rparr>)"
| release_start: "pcs s c = Run \<Longrightarrow> holding c l (base s) \<Longrightarrow>
    lk_step s (s\<lparr>base := upd_lock l (\<lambda>k. k\<lparr>lk_cpu := None\<rparr>) (base s), pcs := (pcs s)(c := Clr l),
      crit := (crit s)(c := crit s c - {l})\<rparr>)"
| release_clear: "pcs s c = Clr l \<Longrightarrow>
    lk_step s (s\<lparr>base := upd_lock l (\<lambda>k. k\<lparr>lk_locked := False\<rparr>) (base s), pcs := (pcs s)(c := Pop)\<rparr>)"
| release_pop: "pcs s c = Pop \<Longrightarrow> pop_off c (base s) = Ok b \<Longrightarrow>
    lk_step s (s\<lparr>base := b, pcs := (pcs s)(c := Run)\<rparr>)"
| own_push: "pcs s c = Run \<Longrightarrow>
    lk_step s (s\<lparr>base := push_off c (base s), offs := (offs s)(c := Suc (offs s c))\<rparr>)"
| own_pop: "pcs s c = Run \<Longrightarrow> 0 < offs s c \<Longrightarrow> pop_off c (base s) = Ok b \<Longrightarrow>
    lk_step s (s\<lparr>base := b, offs := (offs s)(c := offs s c - 1)\<rparr>)"
| intr_on: "pcs s c = Run \<Longrightarrow> c_noff (cpus (base s) c) = 0 \<Longrightarrow>
    lk_step s (s\<lparr>base := upd_cpu c (\<lambda>k. k\<lparr>c_intr := True\<rparr>) (base s)\<rparr>)"
| intr_off: "pcs s c = Run \<Longrightarrow>
    lk_step s (s\<lparr>base := upd_cpu c (\<lambda>k. k\<lparr>c_intr := False\<rparr>) (base s)\<rparr>)"

inductive reachable :: "sys \<Rightarrow> bool" where
  reach_init: "sys_init s \<Longrightarrow> reachable s"
| reach_step: "reachable s \<Longrightarrow> lk_step s t \<Longrightarrow> reachable t"

text \<open>Whether the CPU owns the lock word: from the successful swap to the clearing store.\<close>

definition owns :: "sys \<Rightarrow> nat \<Rightarrow> nat \<Rightarrow> bool" where
  "owns s c l \<longleftrightarrow> l \<in> crit s c \<or> pcs s c = Got l \<or> pcs s c = Clr l"

definition depth :: "sys \<Rightarrow> nat \<Rightarrow> nat" where
  "depth s c = card (crit s c) + offs s c + (if pcs s c = Run then 0 else 1)"

text \<open>The invariant in two parts: who owns the lock words, and how deep interrupts are disabled.\<close>

definition own_inv :: "sys \<Rightarrow> bool" where
  "own_inv s \<longleftrightarrow>
     (\<forall>l. lk_locked (locks (base s) l) \<longleftrightarrow> (\<exists>c. owns s c l)) \<and>
     (\<forall>l c d. owns s c l \<longrightarrow> owns s d l \<longrightarrow> c = d) \<and>
     (\<forall>l c. lk_cpu (locks (base s) l) = Some c \<longleftrightarrow> l \<in> crit s c) \<and>
     (\<forall>l c. pcs s c = Got l \<or> pcs s c = Clr l \<longrightarrow> l \<notin> crit s c)"

definition off_inv :: "sys \<Rightarrow> bool" where
  "off_inv s \<longleftrightarrow> (\<forall>c. finite (crit s c) \<and> c_noff (cpus (base s) c) = int (depth s c) \<and>
     (0 < depth s c \<longrightarrow> \<not> c_intr (cpus (base s) c)))"

definition lk_inv :: "sys \<Rightarrow> bool" where
  "lk_inv s \<longleftrightarrow> own_inv s \<and> off_inv s"

text \<open>A step changes what one CPU owns of one lock.\<close>

lemma own_invD:
  assumes "own_inv s"
  shows "lk_locked (locks (base s) l) \<longleftrightarrow> (\<exists>c. owns s c l)"
    "owns s c l \<Longrightarrow> owns s d l \<Longrightarrow> c = d"
    "lk_cpu (locks (base s) l) = Some c \<longleftrightarrow> l \<in> crit s c"
    "pcs s c = Got l \<or> pcs s c = Clr l \<Longrightarrow> l \<notin> crit s c"
  using assms unfolding own_inv_def by blast+

lemma own_invI:
  assumes "\<And>l. lk_locked (locks (base s) l) \<longleftrightarrow> (\<exists>c. owns s c l)"
    "\<And>l c d. owns s c l \<Longrightarrow> owns s d l \<Longrightarrow> c = d"
    "\<And>l c. lk_cpu (locks (base s) l) = Some c \<longleftrightarrow> l \<in> crit s c"
    "\<And>l c. pcs s c = Got l \<or> pcs s c = Clr l \<Longrightarrow> l \<notin> crit s c"
  shows "own_inv s"
  unfolding own_inv_def using assms by blast

lemma own_inv_same:
  assumes "own_inv s" and "\<And>l. locks (base t) l = locks (base s) l" and "\<And>c l. owns t c l = owns s c l"
    and "\<And>c. crit t c = crit s c" and "\<And>c l. (pcs t c = Got l \<or> pcs t c = Clr l) = (pcs s c = Got l \<or> pcs s c = Clr l)"
  shows "own_inv t"
  using assms unfolding own_inv_def by simp

lemma lk_step_own:
  assumes "lk_step s t" and inv: "own_inv s"
  shows "own_inv t"
  using assms(1)
proof (cases rule: lk_step.cases)
  case (acquire_start c l)
  then show ?thesis
    by (intro own_inv_same [OF inv]) (auto simp: owns_def)
next
  case (acquire_spin c l)
  then show ?thesis using inv by simp
next
  case (acquire_swap c l)
  have free: "\<not> owns s d l" for d
    using own_invD(1) [OF inv, of l] acquire_swap by blast
  have o: "owns t d k \<longleftrightarrow> d = c \<and> k = l \<or> owns s d k" for d k
    using acquire_swap by (auto simp: owns_def)
  show ?thesis
  proof (rule own_invI)
    show "lk_locked (locks (base t) k) \<longleftrightarrow> (\<exists>c. owns t c k)" for k
      unfolding o using acquire_swap own_invD(1) [OF inv, of k] by auto
    show "d = e" if "owns t d k" "owns t e k" for k d e
      using that free own_invD(2) [OF inv] unfolding o by blast
    show "lk_cpu (locks (base t) k) = Some d \<longleftrightarrow> k \<in> crit t d" for k d
      using acquire_swap own_invD(3) [OF inv] by simp
    show "k \<notin> crit t d" if "pcs t d = Got k \<or> pcs t d = Clr k" for k d
      using that acquire_swap own_invD(4) [OF inv, of d k] free [of d]
      by (auto simp: owns_def split: if_splits)
  qed
next
  case (acquire_done c l)
  have o: "owns t d k = owns s d k" for d k
    using acquire_done by (auto simp: owns_def)
  have l: "owns s c l" "l \<notin> crit s c"
    using acquire_done own_invD(4) [OF inv] by (auto simp: owns_def)
  have nc: "l \<notin> crit s d" for d
    using l own_invD(2) [OF inv l(1), of d] unfolding owns_def by blast
  show ?thesis
  proof (rule own_invI)
    show "lk_locked (locks (base t) k) \<longleftrightarrow> (\<exists>c. owns t c k)" for k
      unfolding o using acquire_done own_invD(1) [OF inv, of k] by auto
    show "d = e" if "owns t d k" "owns t e k" for k d e
      using that own_invD(2) [OF inv] unfolding o by blast
    show "lk_cpu (locks (base t) k) = Some d \<longleftrightarrow> k \<in> crit t d" for k d
      using acquire_done own_invD(3) [OF inv] nc by auto
    show "k \<notin> crit t d" if "pcs t d = Got k \<or> pcs t d = Clr k" for k d
      using that acquire_done own_invD(4) [OF inv, of d k] by (auto split: if_splits)
  qed
next
  case (release_start c l)
  have o: "owns t d k = owns s d k" for d k
    using release_start own_invD(3) [OF inv] by (auto simp: owns_def holding_def)
  have l: "l \<in> crit s c"
    using release_start own_invD(3) [OF inv] by (auto simp: holding_def)
  have nc: "l \<in> crit s d \<Longrightarrow> d = c" for d
    using l own_invD(2) [OF inv, of c l d] unfolding owns_def by blast
  show ?thesis
  proof (rule own_invI)
    show "lk_locked (locks (base t) k) \<longleftrightarrow> (\<exists>c. owns t c k)" for k
      unfolding o using release_start own_invD(1) [OF inv, of k] by auto
    show "d = e" if "owns t d k" "owns t e k" for k d e
      using that own_invD(2) [OF inv] unfolding o by blast
    show "lk_cpu (locks (base t) k) = Some d \<longleftrightarrow> k \<in> crit t d" for k d
      using release_start own_invD(3) [OF inv] nc [of d] by auto
    show "k \<notin> crit t d" if "pcs t d = Got k \<or> pcs t d = Clr k" for k d
      using that release_start own_invD(4) [OF inv, of d k] by (auto split: if_splits)
  qed
next
  case (release_clear c l)
  have l: "owns s c l" "l \<notin> crit s c"
    using release_clear own_invD(4) [OF inv] by (auto simp: owns_def)
  have nd: "\<not> owns s d l" if "d \<noteq> c" for d
    using own_invD(2) [OF inv l(1), of d] that by blast
  have o: "owns t d k \<longleftrightarrow> owns s d k \<and> k \<noteq> l" for d k
    using release_clear l nd [of d] by (auto simp: owns_def)
  show ?thesis
  proof (rule own_invI)
    show "lk_locked (locks (base t) k) \<longleftrightarrow> (\<exists>c. owns t c k)" for k
      unfolding o using release_clear own_invD(1) [OF inv, of k] by auto
    show "d = e" if "owns t d k" "owns t e k" for k d e
      using that own_invD(2) [OF inv] unfolding o by blast
    show "lk_cpu (locks (base t) k) = Some d \<longleftrightarrow> k \<in> crit t d" for k d
      using release_clear own_invD(3) [OF inv] by simp
    show "k \<notin> crit t d" if "pcs t d = Got k \<or> pcs t d = Clr k" for k d
      using that release_clear own_invD(4) [OF inv, of d k] by (auto split: if_splits)
  qed
next
  case (release_pop c b)
  then show ?thesis
    by (intro own_inv_same [OF inv]) (auto simp: owns_def pop_off_def Let_def split: if_splits)
next
  case (own_push c)
  then show ?thesis
    by (intro own_inv_same [OF inv]) (auto simp: owns_def)
next
  case (own_pop c b)
  then show ?thesis
    by (intro own_inv_same [OF inv]) (auto simp: owns_def pop_off_def Let_def split: if_splits)
next
  case (intr_on c)
  then show ?thesis
    by (intro own_inv_same [OF inv]) (auto simp: owns_def)
next
  case (intr_off c)
  then show ?thesis
    by (intro own_inv_same [OF inv]) (auto simp: owns_def)
qed

lemma depth_other:
  "crit t d = crit s d \<Longrightarrow> offs t d = offs s d \<Longrightarrow> pcs t d = pcs s d \<Longrightarrow> depth t d = depth s d"
  by (simp add: depth_def)

text \<open>For the second part, a step of CPU \<open>c\<close> leaves the other CPUs alone.\<close>

lemma off_invI:
  assumes "off_inv s" and "\<And>d. d \<noteq> c \<Longrightarrow> cpus (base t) d = cpus (base s) d"
    and "\<And>d. d \<noteq> c \<Longrightarrow> crit t d = crit s d \<and> offs t d = offs s d \<and> pcs t d = pcs s d"
    and "finite (crit t c)" "c_noff (cpus (base t) c) = int (depth t c)" "0 < depth t c \<Longrightarrow> \<not> c_intr (cpus (base t) c)"
  shows "off_inv t"
  unfolding off_inv_def
proof
  fix d
  show "finite (crit t d) \<and> c_noff (cpus (base t) d) = int (depth t d) \<and>
     (0 < depth t d \<longrightarrow> \<not> c_intr (cpus (base t) d))"
  proof (cases "d = c")
    case False
    then show ?thesis
      using assms(1) assms(2,3) [OF False] depth_other [of t d s] by (auto simp: off_inv_def)
  qed (use assms in auto)
qed

lemma off_invD:
  assumes "off_inv s"
  shows "finite (crit s c)" "c_noff (cpus (base s) c) = int (depth s c)" "0 < depth s c \<Longrightarrow> \<not> c_intr (cpus (base s) c)"
  using assms by (auto simp: off_inv_def)

lemma lk_step_off:
  assumes "lk_step s t" and own: "own_inv s" and inv: "off_inv s"
  shows "off_inv t"
  using assms(1)
proof (cases rule: lk_step.cases)
  case (acquire_start c l)
  then show ?thesis
    using off_invD [OF inv, of c] by (intro off_invI [OF inv, of c]) (auto simp: depth_def)
next
  case (acquire_spin c l)
  then show ?thesis using inv by simp
next
  case (acquire_swap c l)
  then show ?thesis
    using off_invD [OF inv, of c] by (intro off_invI [OF inv, of c]) (auto simp: depth_def)
next
  case (acquire_done c l)
  then have "l \<notin> crit s c"
    using own_invD(4) [OF own] by blast
  then show ?thesis
    using acquire_done off_invD [OF inv, of c] by (intro off_invI [OF inv, of c]) (auto simp: depth_def)
next
  case (release_start c l)
  then have "l \<in> crit s c"
    using own_invD(3) [OF own, of l c] by (auto simp: holding_def)
  then have "card (crit s c) = Suc (card (crit s c - {l}))"
    using off_invD(1) [OF inv] by (intro card.remove)
  then show ?thesis
    using release_start off_invD [OF inv, of c] by (intro off_invI [OF inv, of c]) (auto simp: depth_def)
next
  case (release_clear c l)
  then show ?thesis
    using off_invD [OF inv, of c] by (intro off_invI [OF inv, of c]) (auto simp: depth_def)
next
  case (release_pop c b)
  then show ?thesis
    using off_invD [OF inv, of c] pop_off_Ok [of "base s" c]
    by (intro off_invI [OF inv, of c]) (auto simp: depth_def)
next
  case (own_push c)
  then show ?thesis
    using off_invD [OF inv, of c] by (intro off_invI [OF inv, of c]) (auto simp: depth_def)
next
  case (own_pop c b)
  then show ?thesis
    using off_invD [OF inv, of c] pop_off_Ok [of "base s" c]
    by (intro off_invI [OF inv, of c]) (auto simp: depth_def)
next
  case (intr_on c)
  then show ?thesis
    using off_invD [OF inv, of c] by (intro off_invI [OF inv, of c]) (auto simp: depth_def)
next
  case (intr_off c)
  then show ?thesis
    using off_invD [OF inv, of c] by (intro off_invI [OF inv, of c]) (auto simp: depth_def)
qed

lemma reachable_inv: "reachable s \<Longrightarrow> lk_inv s"
proof (induction rule: reachable.induct)
  case (reach_init s)
  then show ?case
    by (auto simp: lk_inv_def own_inv_def off_inv_def sys_init_def owns_def depth_def)
next
  case (reach_step s t)
  then show ?case
    using lk_step_own lk_step_off by (auto simp: lk_inv_def)
qed

section \<open>Properties\<close>

text \<open>A machine at rest, and a run in which CPU 0 takes lock 7.\<close>

definition sys0 :: sys where
  "sys0 = \<lparr>base = \<lparr>locks = (\<lambda>_. \<lparr>lk_locked = False, lk_name = [], lk_cpu = None\<rparr>),
      cpus = (\<lambda>_. \<lparr>c_noff = 0, c_intena = False, c_intr = True\<rparr>)\<rparr>,
    pcs = (\<lambda>_. Run), crit = (\<lambda>_. {}), offs = (\<lambda>_. 0)\<rparr>"

lemma lock_run: "\<exists>s. reachable s \<and> 7 \<in> crit s 0 \<and> pcs s 0 = Run"
proof -
  define s1 where "s1 = sys0\<lparr>base := push_off 0 (base sys0), pcs := (pcs sys0)(0 := Spin 7)\<rparr>"
  define s2 where "s2 = s1\<lparr>base := upd_lock 7 (\<lambda>k. k\<lparr>lk_locked := True\<rparr>) (base s1), pcs := (pcs s1)(0 := Got 7)\<rparr>"
  define s3 where "s3 = s2\<lparr>base := upd_lock 7 (\<lambda>k. k\<lparr>lk_cpu := Some 0\<rparr>) (base s2), pcs := (pcs s2)(0 := Run),
      crit := (crit s2)(0 := insert 7 (crit s2 0))\<rparr>"
  have "reachable sys0"
    by (rule reach_init) (simp add: sys_init_def sys0_def)
  moreover have "lk_step sys0 s1"
    unfolding s1_def by (rule acquire_start) (simp_all add: sys0_def holding_def)
  moreover have "lk_step s1 s2"
    unfolding s2_def by (rule acquire_swap) (simp_all add: s1_def sys0_def)
  moreover have "lk_step s2 s3"
    unfolding s3_def by (rule acquire_done) (simp add: s2_def)
  ultimately have "reachable s3"
    by (blast intro: reach_step)
  moreover have "7 \<in> crit s3 0" "pcs s3 0 = Run"
    by (simp_all add: s3_def)
  ultimately show ?thesis
    by blast
qed

text \<open>C12: mutual exclusion. However any number of CPUs interleave \<^verbatim>\<open>acquire\<close>, \<^verbatim>\<open>release\<close>, \<^verbatim>\<open>push_off\<close>
  and \<^verbatim>\<open>pop_off\<close>, a lock that one CPU has acquired and not released is held by no other CPU, the
  lock word is set, \<^verbatim>\<open>holding\<close> answers yes on exactly that CPU, and interrupts are off there.\<close>

theorem spinlock_mutex:
  assumes "reachable s" and "l \<in> crit s c"
  shows "(\<forall>d. l \<in> crit s d \<longrightarrow> d = c) \<and> lk_locked (locks (base s) l) \<and> (\<forall>d. holding d l (base s) \<longleftrightarrow> d = c) \<and>
    \<not> c_intr (cpus (base s) c)"
proof -
  have inv: "own_inv s" "off_inv s"
    using reachable_inv [OF assms(1)] by (auto simp: lk_inv_def)
  have u: "d = c" if "l \<in> crit s d" for d
    using that assms(2) own_invD(2) [OF inv(1), of d l c] by (simp add: owns_def)
  have k: "lk_locked (locks (base s) l)"
    using own_invD(1) [OF inv(1), of l] assms(2) unfolding owns_def by blast
  have "0 < card (crit s c)"
    using assms(2) off_invD(1) [OF inv(2), of c] card_gt_0_iff by blast
  then have "\<not> c_intr (cpus (base s) c)"
    using off_invD(3) [OF inv(2), of c] by (simp add: depth_def)
  moreover have "holding d l (base s) \<longleftrightarrow> d = c" for d
    using k u assms(2) own_invD(3) [OF inv(1), of l] unfolding holding_def by blast
  ultimately show ?thesis
    using u k by blast
qed

theorem spinlock_mutex_witness:
  "\<exists>s. reachable s \<and> holding 0 7 (base s) \<and> \<not> holding 1 7 (base s)"
  using lock_run spinlock_mutex [of _ 7 0] by (metis zero_neq_one)

text \<open>When the lock functions panic. On every reachable state, \<^verbatim>\<open>acquire\<close> panics exactly for a
  lock its own CPU already holds, \<^verbatim>\<open>release\<close> exactly for one it does not hold, and the \<^verbatim>\<open>pop_off\<close>
  at the end of \<^verbatim>\<open>release\<close> never panics.\<close>

theorem spinlock_panics:
  assumes "reachable s" and "pcs s c = Run"
  shows "(acquire c l (base s) = Panic ''acquire'' \<longleftrightarrow> l \<in> crit s c) \<and>
    (l \<notin> crit s c \<longrightarrow> release c l (base s) = Panic ''release'') \<and>
    (l \<in> crit s c \<longrightarrow> (\<exists>b. release c l (base s) = Ok b \<and> \<not> lk_locked (locks b l)))"
proof -
  have inv: "own_inv s" "off_inv s"
    using reachable_inv [OF assms(1)] by (auto simp: lk_inv_def)
  have h: "holding c l (base s) \<longleftrightarrow> l \<in> crit s c"
    using own_invD(1,3) [OF inv(1), of l] unfolding holding_def owns_def by blast
  have "\<exists>b. release c l (base s) = Ok b \<and> \<not> lk_locked (locks b l)" if "l \<in> crit s c"
  proof -
    have "0 < card (crit s c)"
      using that off_invD(1) [OF inv(2), of c] card_gt_0_iff by blast
    then have "0 < depth s c"
      by (simp add: depth_def)
    then show ?thesis
      using h that off_invD [OF inv(2), of c]
        pop_off_Ok [of "upd_lock l (\<lambda>k. k\<lparr>lk_locked := False\<rparr>) (upd_lock l (\<lambda>k. k\<lparr>lk_cpu := None\<rparr>) (base s))" c]
      by (auto simp: release_def)
  qed
  then show ?thesis
    using h by (auto simp: acquire_def release_def holding_def Let_def)
qed

theorem spinlock_panics_witness:
  "\<exists>s b. reachable s \<and> acquire 0 7 (base s) = Panic ''acquire'' \<and> release 0 7 (base s) = Ok b"
  using lock_run spinlock_panics [of _ 0 7] by metis

text \<open>\<^verbatim>\<open>release\<close> undoes \<^verbatim>\<open>acquire\<close>: acquiring a free lock and releasing it again succeeds and
  leaves the CPU's nesting depth and interrupt flag, every lock word and every other CPU as they
  were, whatever the depth was before.\<close>

theorem acquire_release:
  assumes "\<not> lk_locked (locks s l)" and "0 \<le> c_noff (cpus s c)" and "0 < c_noff (cpus s c) \<Longrightarrow> \<not> c_intr (cpus s c)"
  shows "\<exists>s1 s2. acquire c l s = Ok s1 \<and> holding c l s1 \<and> \<not> c_intr (cpus s1 c) \<and> release c l s1 = Ok s2 \<and>
    c_noff (cpus s2 c) = c_noff (cpus s c) \<and> c_intr (cpus s2 c) = c_intr (cpus s c) \<and>
    (\<forall>k. lk_locked (locks s2 k) = lk_locked (locks s k)) \<and> (\<forall>d. d \<noteq> c \<longrightarrow> cpus s2 d = cpus s d)"
  using assms
  by (auto simp: acquire_def release_def holding_def push_off_def pop_off_def Let_def upd_cpu_def upd_lock_def)

theorem acquire_release_witness:
  "\<exists>s1 s2. acquire 0 7 (base sys0) = Ok s1 \<and> release 0 7 s1 = Ok s2 \<and> c_intr (cpus s2 0)"
  using acquire_release [of "base sys0" 7 0] by (auto simp: sys0_def)

end
