(* ===== verification/Ring.thy ===== *)
theory Ring
  imports Xv6_Prelude
begin

text \<open>
  Bounded buffers. The kernel has three of them: the bytes of a pipe and the console's input are
  indexed by free-running 32-bit counters reduced modulo the size of the array, the serial port's
  output by two indices below the size. This theory has the arithmetic of both and the contract
  they keep, a first-in first-out queue.
\<close>

section \<open>Free-running counters\<close>

definition ring_at :: "'a list \<Rightarrow> u32 \<Rightarrow> 'a" where
  "ring_at d i = d ! (unat i mod length d)"

definition ring_put :: "'a \<Rightarrow> u32 \<Rightarrow> 'a list \<Rightarrow> 'a list" where
  "ring_put x i d = d[unat i mod length d := x]"

definition ring_list :: "'a list \<Rightarrow> u32 \<Rightarrow> u32 \<Rightarrow> 'a list" where
  "ring_list d r w = map (\<lambda>k. ring_at d (r + of_nat k)) [0..<unat (w - r)]"

lemma length_ring_put [simp]: "length (ring_put x i d) = length d"
  by (simp add: ring_put_def)

lemma length_ring_list [simp]: "length (ring_list d r w) = unat (w - r)"
  by (simp add: ring_list_def)

lemma ring_list_empty [simp]: "ring_list d r r = []"
  by (simp add: ring_list_def)

text \<open>The size of the array divides the range of the counters, so the reduction is not disturbed
  when a counter wraps around.\<close>

lemma ring_index:
  assumes "N dvd 2 ^ 32"
  shows "unat ((r :: u32) + of_nat k) mod N = (unat r + k) mod N"
proof -
  have "unat (r + of_nat k) = (unat r + k) mod 2 ^ 32"
    by (simp add: unat_word_ariths unat_of_nat mod_simps)
  then show ?thesis
    using assms by (simp add: mod_mod_cancel)
qed

lemma ring_distinct:
  fixes r w :: u32
  assumes "N dvd 2 ^ 32" and "k < unat (w - r)" and "unat (w - r) < N"
  shows "unat (r + of_nat k) mod N \<noteq> unat w mod N"
proof
  let ?d = "unat (w - r)"
  assume "unat (r + of_nat k) mod N = unat w mod N"
  moreover have "unat w mod N = (unat r + ?d) mod N"
    using ring_index [OF assms(1), of r ?d] by simp
  ultimately have "(unat r + k) mod N = (unat r + ?d) mod N"
    using ring_index [OF assms(1), of r k] by simp
  then have "N dvd (unat r + ?d) - (unat r + k)"
    using assms(2) by (metis add_le_cancel_left less_imp_le_nat mod_eq_dvd_iff_nat)
  then have "N dvd ?d - k"
    by simp
  then show False
    using assms(2,3) dvd_imp_le [of N "?d - k"] by linarith
qed

lemma unat_step: "(w :: u32) - r \<noteq> - 1 \<Longrightarrow> unat (w + 1 - r) = Suc (unat (w - r))"
proof -
  assume "w - r \<noteq> - 1"
  moreover have "w + 1 - r = 1 + (w - r)"
    by simp
  ultimately show ?thesis
    by (metis unatSuc add_eq_0_iff)
qed

lemma unat_step_lt: "unat ((w :: u32) - r) < n \<Longrightarrow> n < 2 ^ 32 \<Longrightarrow> unat (w + 1 - r) = Suc (unat (w - r))"
proof (rule unat_step)
  assume a: "unat (w - r) < n" "n < 2 ^ 32"
  show "w - r \<noteq> - 1"
  proof
    assume "w - r = - 1"
    then have "unat (w - r) = 2 ^ 32 - 1"
      by (simp add: unsigned_minus_1_eq_mask mask_eq_exp_minus_1)
    then show False
      using a by linarith
  qed
qed

text \<open>Storing at the write counter appends, reading at the read counter removes the first byte, and
  stepping the write counter back removes the last one.\<close>

lemma ring_list_push:
  fixes r w :: u32
  assumes "length d dvd 2 ^ 32" and "length d < 2 ^ 32" and "unat (w - r) < length d"
  shows "ring_list (ring_put x w d) r (w + 1) = ring_list d r w @ [x]"
proof -
  have "ring_at (ring_put x w d) (r + of_nat k) = ring_at d (r + of_nat k)" if "k < unat (w - r)" for k
    using ring_distinct [OF assms(1) that assms(3)] by (simp add: ring_at_def ring_put_def)
  moreover have "unat w mod length d < length d"
    using assms(3) by (intro mod_less_divisor) linarith
  then have "ring_at (ring_put x w d) w = x"
    by (simp add: ring_at_def ring_put_def)
  ultimately show ?thesis
    unfolding ring_list_def unat_step_lt [OF assms(3,2)] by simp
qed

lemma ring_list_pop:
  fixes r w :: u32
  assumes "r \<noteq> w"
  shows "ring_list d r w = ring_at d r # ring_list d (r + 1) w"
proof -
  have "w - (r + 1) + 1 \<noteq> 0"
    using assms by simp
  then have "unat (w - r) = Suc (unat (w - (r + 1)))"
    using unatSuc [of "w - (r + 1)"] by (simp add: add.commute)
  then show ?thesis
    by (simp add: ring_list_def upt_conv_Cons map_Suc_upt [symmetric] add.assoc del: upt_Suc)
qed

lemma ring_list_unpush:
  fixes r w :: u32
  assumes "r \<noteq> w"
  shows "ring_list d r w = ring_list d r (w - 1) @ [ring_at d (w - 1)]"
proof -
  have "w - 1 - r + 1 \<noteq> 0"
    using assms by (simp add: algebra_simps)
  then have "unat (w - r) = Suc (unat (w - 1 - r))"
    using unatSuc [of "w - 1 - r"] by (simp add: add.commute)
  then show ?thesis
    by (simp add: ring_list_def)
qed

lemma unat_span:
  fixes r w e :: u32
  assumes "unat (w - r) + unat (e - w) < 2 ^ 32"
  shows "unat (e - r) = unat (w - r) + unat (e - w)"
  using unat_add_nowrap [of "w - r" "e - w"] assms by simp

lemma ring_list_split:
  fixes r w e :: u32
  assumes "unat (w - r) + unat (e - w) < 2 ^ 32"
  shows "ring_list d r e = ring_list d r w @ ring_list d w e"
proof (rule nth_equalityI)
  show "length (ring_list d r e) = length (ring_list d r w @ ring_list d w e)"
    by (simp add: unat_span [OF assms])
  fix i
  assume i: "i < length (ring_list d r e)"
  show "ring_list d r e ! i = (ring_list d r w @ ring_list d w e) ! i"
  proof (cases "i < unat (w - r)")
    case True
    then show ?thesis using i by (simp add: ring_list_def nth_append)
  next
    case False
    then have "r + of_nat i = w + of_nat (i - unat (w - r))"
      by (simp add: of_nat_diff)
    then show ?thesis
      using False i by (simp add: ring_list_def nth_append unat_span [OF assms] add.commute)
  qed
qed

section \<open>What a queue promises\<close>

datatype 'a qop = Put 'a | Get

text \<open>A run of puts and gets: a put on a full queue and a get on an empty one wait, that is, are
  not part of the run. The result is what the gets returned, in order.\<close>

fun qrun :: "('a \<Rightarrow> 's \<Rightarrow> 's) \<Rightarrow> ('s \<Rightarrow> 'a \<times> 's) \<Rightarrow> ('s \<Rightarrow> bool) \<Rightarrow> ('s \<Rightarrow> bool) \<Rightarrow> 'a qop list \<Rightarrow> 's \<Rightarrow> ('a list \<times> 's) option" where
  "qrun put get full idle [] s = Some ([], s)"
| "qrun put get full idle (Put x # ops) s =
     (if full s then None else qrun put get full idle ops (put x s))"
| "qrun put get full idle (Get # ops) s =
     (if idle s then None
      else map_option (\<lambda>(out, t). (fst (get s) # out, t)) (qrun put get full idle ops (snd (get s))))"

definition puts :: "'a qop list \<Rightarrow> 'a list" where
  "puts ops = concat (map (\<lambda>x. case x of Put a \<Rightarrow> [a] | Get \<Rightarrow> []) ops)"

lemma puts_simps [simp]: "puts [] = []" "puts (Put x # ops) = x # puts ops" "puts (Get # ops) = puts ops"
  by (simp_all add: puts_def)

locale fifo =
  fixes put :: "'a \<Rightarrow> 's \<Rightarrow> 's" and get :: "'s \<Rightarrow> 'a \<times> 's" and full idle :: "'s \<Rightarrow> bool"
    and inv :: "'s \<Rightarrow> bool" and contents :: "'s \<Rightarrow> 'a list"
  assumes put_law: "inv s \<Longrightarrow> \<not> full s \<Longrightarrow> inv (put x s) \<and> contents (put x s) = contents s @ [x]"
    and get_law: "inv s \<Longrightarrow> \<not> idle s \<Longrightarrow> inv (snd (get s)) \<and> contents s = fst (get s) # contents (snd (get s))"
    and empty_law: "inv s \<Longrightarrow> idle s \<longleftrightarrow> contents s = []"
begin

text \<open>Nothing is lost, duplicated or reordered, however puts and gets alternate.\<close>

lemma run_fifo:
  assumes "inv s" and "qrun put get full idle ops s = Some (out, t)"
  shows "inv t \<and> out @ contents t = contents s @ puts ops"
  using assms
proof (induction ops arbitrary: s out)
  case Nil
  then show ?case by simp
next
  case (Cons op ops)
  show ?case
  proof (cases op)
    case (Put x)
    then have "\<not> full s" "qrun put get full idle ops (put x s) = Some (out, t)"
      using Cons.prems by (auto split: if_splits)
    then show ?thesis
      using Cons.IH [of "put x s" out] put_law [OF Cons.prems(1), of x] Put by simp
  next
    case Get
    then obtain out' where o: "\<not> idle s" "qrun put get full idle ops (snd (get s)) = Some (out', t)"
      "out = fst (get s) # out'"
      using Cons.prems by (auto split: if_splits)
    then show ?thesis
      using Cons.IH [of "snd (get s)" out'] get_law [OF Cons.prems(1)] Get by simp
  qed
qed

end

end
