(* ===== verification/Uart.thy ===== *)
theory Uart
  imports Ring
begin

text \<open>
  \<^verbatim>\<open>kernel/uart.c\<close>: the driver of the serial port, with its 32-byte transmit buffer. The device is
  described by what the driver reads from it and writes to it: \<open>u_polls\<close> holds the answers to the
  coming reads of the transmitter-idle bit (none left: it stays busy), \<open>u_in\<close> the received
  bytes not read yet, \<open>u_out\<close> the bytes written to the transmit register, each with the path it
  came by (buffered by \<^verbatim>\<open>uartputc\<close>, or direct by \<^verbatim>\<open>uartputc_sync\<close>), \<open>u_regs\<close> the writes to the control
  registers.
\<close>

section \<open>State\<close>

definition UART_TX_BUF_SIZE :: nat where "UART_TX_BUF_SIZE = 32"

datatype path = Buffered | Direct

record uart =
  tx_buf :: "u8 list"
  tx_w :: nat
  tx_r :: nat
  panicked :: bool
  u_polls :: "bool list"
  u_in :: "u8 list"
  u_out :: "(path \<times> u8) list"
  u_regs :: "(nat \<times> u8) list"

section \<open>Operations\<close>

definition IER :: nat where "IER = 1"
definition FCR :: nat where "FCR = 2"
definition LCR :: nat where "LCR = 3"

definition write_reg :: "nat \<Rightarrow> u8 \<Rightarrow> uart \<Rightarrow> uart" where
  "write_reg reg v u = u\<lparr>u_regs := u_regs u @ [(reg, v)]\<rparr>"

definition uartinit :: "uart \<Rightarrow> uart" where
  "uartinit u =
     (let u = write_reg IER 0 u;
          u = write_reg LCR 128 u;
          u = write_reg 0 3 u;
          u = write_reg 1 0 u;
          u = write_reg LCR 3 u;
          u = write_reg FCR (1 OR push_bit 1 3) u
      in write_reg IER (1 OR push_bit 1 1) u)"

text \<open>The loop of \<^verbatim>\<open>uartstart\<close> ends because every round either stops or consumes an answer of the
  device; a device that gives no more answers is busy.\<close>

definition tx_send :: "bool list \<Rightarrow> uart \<Rightarrow> uart" where
  "tx_send bs u = u\<lparr>tx_r := (tx_r u + 1) mod UART_TX_BUF_SIZE, u_polls := bs,
     u_out := u_out u @ [(Buffered, tx_buf u ! tx_r u)]\<rparr>"

fun uartstart_loop :: "bool list \<Rightarrow> uart \<Rightarrow> uart" where
  "uartstart_loop bs u =
     (if tx_w u = tx_r u then u\<lparr>u_polls := bs\<rparr>
      else case bs of
             [] \<Rightarrow> u\<lparr>u_polls := []\<rparr>
           | idle # bs \<Rightarrow> if \<not> idle then u\<lparr>u_polls := bs\<rparr> else uartstart_loop bs (tx_send bs u))"

declare uartstart_loop.simps [simp del]

definition uartstart :: "uart \<Rightarrow> uart" where
  "uartstart u = uartstart_loop (u_polls u) u"

text \<open>
  \<^verbatim>\<open>sleep\<close> reaches \<^verbatim>\<open>sched\<close> with as many locks held as the caller had (the lock it gives up is
  replaced by the process's own), and \<^verbatim>\<open>sched\<close> refuses to switch unless that is exactly one. The
  argument \<open>noff\<close> counts the spin locks held, including the one passed to \<^verbatim>\<open>sleep\<close>.
\<close>

definition sleep_holding :: "nat \<Rightarrow> 'a res" where
  "sleep_holding noff = (if noff \<noteq> 1 then Panic ''sched locks'' else Blocked)"

definition tx_full :: "uart \<Rightarrow> bool" where
  "tx_full u \<longleftrightarrow> (tx_w u + 1) mod UART_TX_BUF_SIZE = tx_r u"

definition tx_idle :: "uart \<Rightarrow> bool" where
  "tx_idle u \<longleftrightarrow> tx_w u = tx_r u"

definition tx_put :: "u8 \<Rightarrow> uart \<Rightarrow> uart" where
  "tx_put c u = u\<lparr>tx_buf := (tx_buf u)[tx_w u := c], tx_w := (tx_w u + 1) mod UART_TX_BUF_SIZE\<rparr>"

definition uartputc :: "nat \<Rightarrow> u8 \<Rightarrow> uart \<Rightarrow> uart res" where
  "uartputc noff c u =
     (if panicked u then Blocked
      else if tx_full u then sleep_holding (noff + 1)
      else Ok (uartstart (tx_put c u)))"

definition uartputc_sync :: "u8 \<Rightarrow> uart \<Rightarrow> uart res" where
  "uartputc_sync c u =
     (if panicked u then Blocked
      else case dropWhile (\<lambda>idle. \<not> idle) (u_polls u) of
             [] \<Rightarrow> Blocked
           | idle # bs \<Rightarrow> Ok (u\<lparr>u_polls := bs, u_out := u_out u @ [(Direct, c)]\<rparr>))"

definition uartgetc :: "uart \<Rightarrow> u8 option \<times> uart" where
  "uartgetc u = (case u_in u of [] \<Rightarrow> (None, u) | c # cs \<Rightarrow> (Some c, u\<lparr>u_in := cs\<rparr>))"

section \<open>The transmit buffer is a queue\<close>

definition tx_inv :: "uart \<Rightarrow> bool" where
  "tx_inv u \<longleftrightarrow> length (tx_buf u) = UART_TX_BUF_SIZE \<and> tx_w u < UART_TX_BUF_SIZE \<and> tx_r u < UART_TX_BUF_SIZE"

definition tx_count :: "uart \<Rightarrow> nat" where
  "tx_count u = (tx_w u + UART_TX_BUF_SIZE - tx_r u) mod UART_TX_BUF_SIZE"

definition tx_contents :: "uart \<Rightarrow> u8 list" where
  "tx_contents u = map (\<lambda>k. tx_buf u ! ((tx_r u + k) mod UART_TX_BUF_SIZE)) [0..<tx_count u]"

definition tx_get :: "uart \<Rightarrow> u8 \<times> uart" where
  "tx_get u = (tx_buf u ! tx_r u, u\<lparr>tx_r := (tx_r u + 1) mod UART_TX_BUF_SIZE\<rparr>)"

lemma tx_next: "w < 32 \<Longrightarrow> (w + 1) mod 32 = (if w = 31 then 0 else w + 1)"
  for w :: nat by simp

lemma tx_dist: "w < 32 \<Longrightarrow> r < 32 \<Longrightarrow> (w + 32 - r) mod 32 = (if r \<le> w then w - r else w + 32 - r)"
  for w r :: nat
proof (cases "r \<le> w")
  case True
  assume "w < 32"
  then have "(w + 32 - r) mod 32 = (w - r) mod 32"
    using True by (simp flip: mod_add_self2 [of "w - r" 32])
  then show ?thesis
    using True \<open>w < 32\<close> by simp
qed simp

lemma tx_slot: "r < 32 \<Longrightarrow> k < 32 \<Longrightarrow> (r + k) mod 32 = (if r + k < 32 then r + k else r + k - 32)"
  for r k :: nat by (simp add: mod_if)

lemma tx_count_put: "w < 32 \<Longrightarrow> r < 32 \<Longrightarrow> (w + 1) mod 32 \<noteq> r \<Longrightarrow>
    ((w + 1) mod 32 + 32 - r) mod 32 = Suc ((w + 32 - r) mod 32)"
  for w r :: nat using tx_dist [of "(w + 1) mod 32" r] tx_dist [of w r] by (auto simp: tx_next [simplified] split: if_splits)

lemma tx_slot_put: "w < 32 \<Longrightarrow> r < 32 \<Longrightarrow> k < (w + 32 - r) mod 32 \<Longrightarrow> (r + k) mod 32 \<noteq> w"
  for w r :: nat using tx_dist [of w r] tx_slot [of r k] by (auto split: if_splits)

lemma tx_last_put: "w < 32 \<Longrightarrow> r < 32 \<Longrightarrow> (r + (w + 32 - r) mod 32) mod 32 = w"
  for w r :: nat using tx_dist [of w r] tx_slot [of r "(w + 32 - r) mod 32"] by (simp split: if_splits)

lemma tx_count_get: "w < 32 \<Longrightarrow> r < 32 \<Longrightarrow> w \<noteq> r \<Longrightarrow>
    (w + 32 - r) mod 32 = Suc ((w + 32 - (r + 1) mod 32) mod 32)"
  for w r :: nat using tx_dist [of w "(r + 1) mod 32"] tx_dist [of w r] by (auto simp: tx_next [simplified] split: if_splits)

lemma tx_count_zero: "w < 32 \<Longrightarrow> r < 32 \<Longrightarrow> (w + 32 - r) mod 32 = 0 \<longleftrightarrow> w = r"
  for w r :: nat using tx_dist [of w r] by (simp split: if_splits)

interpretation txq: fifo tx_put tx_get tx_full tx_idle tx_inv tx_contents
proof (unfold_locales, goal_cases)
  case (1 u x)
  then have b: "length (tx_buf u) = 32" "tx_w u < 32" "tx_r u < 32" "(tx_w u + 1) mod 32 \<noteq> tx_r u"
    by (auto simp: tx_inv_def tx_full_def UART_TX_BUF_SIZE_def)
  let ?n = "(tx_w u + 32 - tx_r u) mod 32"
  have "map (\<lambda>k. (tx_buf u)[tx_w u := x] ! ((tx_r u + k) mod 32)) [0..<?n] =
        map (\<lambda>k. tx_buf u ! ((tx_r u + k) mod 32)) [0..<?n]"
  proof (rule map_cong [OF refl])
    fix k
    assume "k \<in> set [0..<?n]"
    then have "(tx_r u + k) mod 32 \<noteq> tx_w u"
      using tx_slot_put [OF b(2,3)] by simp
    then show "(tx_buf u)[tx_w u := x] ! ((tx_r u + k) mod 32) = tx_buf u ! ((tx_r u + k) mod 32)"
      by simp
  qed
  then have "tx_contents (tx_put x u) = tx_contents u @ [x]"
    using tx_count_put [OF b(2-4)] tx_last_put [OF b(2,3)] b(1,2)
    by (simp add: tx_contents_def tx_count_def tx_put_def UART_TX_BUF_SIZE_def)
  then show ?case
    using 1 by (simp add: tx_inv_def tx_put_def UART_TX_BUF_SIZE_def)
next
  case (2 u)
  then have b: "tx_w u < 32" "tx_r u < 32" "tx_w u \<noteq> tx_r u"
    by (auto simp: tx_inv_def tx_idle_def UART_TX_BUF_SIZE_def)
  have "tx_contents u = fst (tx_get u) # tx_contents (snd (tx_get u))"
    using tx_count_get [OF b] b(2)
    by (simp add: tx_contents_def tx_count_def tx_get_def UART_TX_BUF_SIZE_def upt_conv_Cons
        map_Suc_upt [symmetric] mod_simps comp_def del: upt_Suc)
  then show ?case
    using 2 by (simp add: tx_inv_def tx_get_def UART_TX_BUF_SIZE_def)
next
  case (3 u)
  then show ?case
    using tx_count_zero [of "tx_w u" "tx_r u"]
    by (simp add: tx_contents_def tx_count_def tx_idle_def tx_inv_def UART_TX_BUF_SIZE_def)
qed

section \<open>What is sent\<close>

definition sent :: "path \<Rightarrow> uart \<Rightarrow> u8 list" where
  "sent pa u = map snd (filter (\<lambda>x. fst x = pa) (u_out u))"

lemma tx_send_law:
  assumes "tx_inv u" and "tx_w u \<noteq> tx_r u"
  shows "tx_inv (tx_send bs u)" and "sent Buffered (tx_send bs u) @ tx_contents (tx_send bs u) = sent Buffered u @ tx_contents u"
    and "sent Direct (tx_send bs u) = sent Direct u" and "panicked (tx_send bs u) = panicked u"
proof -
  have c: "tx_contents (tx_send bs u) = tx_contents (snd (tx_get u))"
    by (simp add: tx_contents_def tx_count_def tx_send_def tx_get_def)
  show "tx_inv (tx_send bs u)"
    using assms by (simp add: tx_inv_def tx_send_def UART_TX_BUF_SIZE_def)
  show "sent Buffered (tx_send bs u) @ tx_contents (tx_send bs u) = sent Buffered u @ tx_contents u"
    using txq.get_law [of u] assms unfolding c by (simp add: sent_def tx_send_def tx_idle_def tx_get_def)
qed (simp_all add: sent_def tx_send_def)

lemma polls_law [simp]: "tx_inv (u\<lparr>u_polls := bs\<rparr>) = tx_inv u" "tx_contents (u\<lparr>u_polls := bs\<rparr>) = tx_contents u"
  "sent pa (u\<lparr>u_polls := bs\<rparr>) = sent pa u"
  by (simp_all add: tx_inv_def tx_contents_def tx_count_def sent_def)

lemma uartstart_loop_law:
  assumes "tx_inv u"
  shows "tx_inv (uartstart_loop bs u) \<and>
    sent Buffered (uartstart_loop bs u) @ tx_contents (uartstart_loop bs u) = sent Buffered u @ tx_contents u \<and>
    sent Direct (uartstart_loop bs u) = sent Direct u \<and>
    (list_all id bs \<and> length (tx_contents u) \<le> length bs \<longrightarrow> tx_contents (uartstart_loop bs u) = [])"
  using assms
proof (induction bs arbitrary: u)
  case Nil
  then show ?case
    using txq.empty_law [of u]
    by (simp add: uartstart_loop.simps tx_idle_def)
next
  case (Cons b bs)
  show ?case
  proof (cases "tx_w u = tx_r u \<or> \<not> b")
    case True
    then show ?thesis
      using Cons.prems txq.empty_law [of u] by (auto simp: uartstart_loop.simps tx_idle_def)
  next
    case False
    then have ne: "tx_w u \<noteq> tx_r u" and b: "b = True" by auto
    have "length (tx_contents (tx_send bs u)) < length (tx_contents u)"
      using arg_cong [OF tx_send_law(2) [OF Cons.prems ne, of bs], of length]
      by (simp add: sent_def tx_send_def)
    moreover have "uartstart_loop (b # bs) u = uartstart_loop bs (tx_send bs u)"
      using False by (simp add: uartstart_loop.simps [of "True # bs"] b)
    ultimately show ?thesis
      using Cons.IH [OF tx_send_law(1) [OF Cons.prems ne, of bs]] tx_send_law [OF Cons.prems ne, of bs]
      by (simp add: b)
  qed
qed

text \<open>
  The port as its users see it: characters written through the buffer, characters echoed directly,
  interrupts that resume sending, and the answers and bytes the device supplies in between. A
  blocked call changes nothing and is tried again.
\<close>

inductive uart_run :: "uart \<Rightarrow> u8 list \<Rightarrow> u8 list \<Rightarrow> uart \<Rightarrow> bool" for u0 where
  ur_start: "uart_run u0 [] [] u0"
| ur_putc: "uart_run u0 w d u \<Longrightarrow> uartputc noff c u = Ok v \<Longrightarrow> uart_run u0 (w @ [c]) d v"
| ur_sync: "uart_run u0 w d u \<Longrightarrow> uartputc_sync c u = Ok v \<Longrightarrow> uart_run u0 w (d @ [c]) v"
| ur_intr: "uart_run u0 w d u \<Longrightarrow> uart_run u0 w d (uartstart u)"
| ur_getc: "uart_run u0 w d u \<Longrightarrow> uart_run u0 w d (snd (uartgetc u))"
| ur_device: "uart_run u0 w d u \<Longrightarrow> uart_run u0 w d (u\<lparr>u_polls := bs, u_in := cs\<rparr>)"

lemma uartputc_law:
  assumes "tx_inv u" and "uartputc noff c u = Ok v"
  shows "tx_inv v \<and> sent Buffered v @ tx_contents v = sent Buffered u @ tx_contents u @ [c] \<and> sent Direct v = sent Direct u"
proof -
  have nf: "\<not> tx_full u" and v: "v = uartstart (tx_put c u)"
    using assms(2) by (auto simp: uartputc_def sleep_holding_def split: if_splits)
  have "sent pa (tx_put c u) = sent pa u" for pa
    by (simp add: sent_def tx_put_def)
  then show ?thesis
    using uartstart_loop_law [of "tx_put c u" "u_polls (tx_put c u)"] txq.put_law [OF assms(1) nf, of c]
    by (simp add: v uartstart_def)
qed

lemma uartputc_sync_law:
  assumes "tx_inv u" and "uartputc_sync c u = Ok v"
  shows "tx_inv v" and "sent Buffered v = sent Buffered u" and "tx_contents v = tx_contents u"
    and "sent Direct v = sent Direct u @ [c]"
  using assms
  by (auto simp: uartputc_sync_def sent_def tx_inv_def tx_contents_def tx_count_def split: if_splits list.splits)

text \<open>C27: however writes, echoes, interrupts and the device alternate, the characters given to
  \<^verbatim>\<open>uartputc\<close> leave through the transmit register in order and each exactly once, those not sent yet
  being the contents of the buffer, and likewise those of \<^verbatim>\<open>uartputc_sync\<close>, which never wait.\<close>
theorem uart_stream:
  assumes "uart_run u w d v" and "tx_inv u"
  shows "sent Buffered v @ tx_contents v = sent Buffered u @ tx_contents u @ w \<and>
    sent Direct v = sent Direct u @ d \<and> length (tx_contents v) < UART_TX_BUF_SIZE"
proof -
  have "tx_inv v \<and> sent Buffered v @ tx_contents v = sent Buffered u @ tx_contents u @ w \<and> sent Direct v = sent Direct u @ d"
    using assms
  proof induction
    case (ur_putc w d u' noff c v)
    then show ?case
      using uartputc_law [of u' noff c v] by (metis append_assoc)
  next
    case (ur_sync w d u' c v)
    then show ?case
      using uartputc_sync_law [of u' c v] by simp
  next
    case (ur_intr w d u')
    then show ?case
      using uartstart_loop_law [of u' "u_polls u'"] by (simp add: uartstart_def)
  next
    case (ur_getc w d u')
    then show ?case
      by (auto simp: uartgetc_def tx_inv_def sent_def tx_contents_def tx_count_def split: list.split)
  next
    case (ur_device w d u' bs cs)
    then show ?case
      by (auto simp: tx_inv_def sent_def tx_contents_def tx_count_def)
  qed simp
  then show ?thesis
    by (simp add: tx_contents_def tx_count_def UART_TX_BUF_SIZE_def)
qed

definition uart_reset :: "bool list \<Rightarrow> uart" where
  "uart_reset polls = \<lparr>tx_buf = replicate 32 0, tx_w = 0, tx_r = 0, panicked = False,
     u_polls = polls, u_in = [], u_out = [], u_regs = []\<rparr>"

theorem uart_stream_witness:
  "\<exists>v. uart_run (uart_reset [False, True]) [65] [] v \<and> sent Buffered v @ tx_contents v = [65]"
proof -
  let ?u = "uart_reset [False, True]"
  have i: "tx_inv ?u" "tx_contents ?u = []" "sent Buffered ?u = []"
    by (simp_all add: uart_reset_def tx_inv_def UART_TX_BUF_SIZE_def tx_contents_def tx_count_def sent_def)
  have "uartputc 0 65 ?u = Ok (uartstart (tx_put 65 ?u))"
    by (simp add: uartputc_def uart_reset_def tx_full_def UART_TX_BUF_SIZE_def)
  then have r: "uart_run ?u [65] [] (uartstart (tx_put 65 ?u))"
    using ur_putc [OF ur_start, of 0 65 ?u] by simp
  show ?thesis
    using uart_stream [OF r i(1)] r i by auto
qed

end
