(* ===== verification/Pipe.thy ===== *)
theory Pipe
  imports Ring
begin

text \<open>
  \<^verbatim>\<open>kernel/pipe.c\<close>: reading, writing and closing a pipe. A call holds the pipe's lock from start
  to end except while it sleeps, so a call is a sequence of uninterrupted segments: each ends with
  a return value or with the call asleep at some position, from where it is run again. The copies
  from and to user memory are arguments, one byte at a time as the code makes them; \<open>None\<close> is the
  result -1. Allocation of a pipe is with the file table.
\<close>

section \<open>State\<close>

definition PIPESIZE :: nat where "PIPESIZE = 512"

record pipe =
  pi_data :: "u8 list"
  pi_nread :: u32
  pi_nwrite :: u32
  pi_readopen :: bool
  pi_writeopen :: bool

datatype 's io = Ret int 's | Sleep nat 's

section \<open>Operations\<close>

definition pipe_full :: "pipe \<Rightarrow> bool" where
  "pipe_full p \<longleftrightarrow> pi_nwrite p = pi_nread p + of_nat PIPESIZE"

definition pipe_empty :: "pipe \<Rightarrow> bool" where
  "pipe_empty p \<longleftrightarrow> pi_nread p = pi_nwrite p"

definition pipe_put :: "u8 \<Rightarrow> pipe \<Rightarrow> pipe" where
  "pipe_put ch p =
     p\<lparr>pi_data := (pi_data p)[unat (pi_nwrite p) mod PIPESIZE := ch], pi_nwrite := pi_nwrite p + 1\<rparr>"

definition pipe_get :: "pipe \<Rightarrow> u8 \<times> pipe" where
  "pipe_get p = (pi_data p ! (unat (pi_nread p) mod PIPESIZE), p\<lparr>pi_nread := pi_nread p + 1\<rparr>)"

primrec pipewrite_loop :: "(u64 \<Rightarrow> u8 option) \<Rightarrow> bool \<Rightarrow> u64 \<Rightarrow> nat \<Rightarrow> nat \<Rightarrow> pipe \<Rightarrow> pipe io" where
  "pipewrite_loop cin killed addr 0 i p = Ret (int i) p"
| "pipewrite_loop cin killed addr (Suc k) i p =
     (if pipe_full p then (if \<not> pi_readopen p \<or> killed then Ret (- 1) p else Sleep i p)
      else case cin (addr + of_nat i) of
             None \<Rightarrow> Ret (int i) p
           | Some ch \<Rightarrow> pipewrite_loop cin killed addr k (Suc i) (pipe_put ch p))"

definition pipewrite :: "(u64 \<Rightarrow> u8 option) \<Rightarrow> bool \<Rightarrow> u64 \<Rightarrow> u32 \<Rightarrow> pipe \<Rightarrow> pipe io" where
  "pipewrite cin killed addr n p = pipewrite_loop cin killed addr (nat (sint n)) 0 p"

primrec piperead_loop :: "(u64 \<Rightarrow> u8 \<Rightarrow> 'm \<Rightarrow> 'm option) \<Rightarrow> u64 \<Rightarrow> nat \<Rightarrow> nat \<Rightarrow> pipe \<times> 'm \<Rightarrow> int \<times> pipe \<times> 'm" where
  "piperead_loop cout addr 0 i s = (int i, s)"
| "piperead_loop cout addr (Suc k) i s =
     (if pipe_empty (fst s) then (int i, s)
      else let (ch, p) = pipe_get (fst s) in
        case cout (addr + of_nat i) ch (snd s) of
          None \<Rightarrow> (int i, p, snd s)
        | Some m \<Rightarrow> piperead_loop cout addr k (Suc i) (p, m))"

definition piperead :: "(u64 \<Rightarrow> u8 \<Rightarrow> 'm \<Rightarrow> 'm option) \<Rightarrow> bool \<Rightarrow> u64 \<Rightarrow> u32 \<Rightarrow> pipe \<times> 'm \<Rightarrow> (pipe \<times> 'm) io" where
  "piperead cout killed addr n s =
     (if pipe_empty (fst s) \<and> pi_writeopen (fst s)
      then (if killed then Ret (- 1) s else Sleep 0 s)
      else let (r, s) = piperead_loop cout addr (nat (sint n)) 0 s in Ret r s)"

text \<open>\<^verbatim>\<open>pipeclose\<close>: the flag says whether both ends are closed now, when the page is freed.\<close>

definition pipeclose :: "bool \<Rightarrow> pipe \<Rightarrow> bool \<times> pipe" where
  "pipeclose writable p =
     (let p = (if writable then p\<lparr>pi_writeopen := False\<rparr> else p\<lparr>pi_readopen := False\<rparr>)
      in (\<not> pi_readopen p \<and> \<not> pi_writeopen p, p))"

section \<open>A pipe is a queue\<close>

definition pipe_inv :: "pipe \<Rightarrow> bool" where
  "pipe_inv p \<longleftrightarrow> length (pi_data p) = PIPESIZE \<and> unat (pi_nwrite p - pi_nread p) \<le> PIPESIZE"

definition pipe_contents :: "pipe \<Rightarrow> u8 list" where
  "pipe_contents p = ring_list (pi_data p) (pi_nread p) (pi_nwrite p)"

lemma pipe_full_iff: "pipe_full p \<longleftrightarrow> unat (pi_nwrite p - pi_nread p) = PIPESIZE"
proof -
  have "pipe_full p \<longleftrightarrow> pi_nwrite p - pi_nread p = of_nat PIPESIZE"
    by (auto simp: pipe_full_def algebra_simps)
  also have "\<dots> \<longleftrightarrow> unat (pi_nwrite p - pi_nread p) = unat (of_nat PIPESIZE :: u32)"
    by (simp only: word_unat_eq_iff)
  finally show ?thesis
    by (simp add: PIPESIZE_def)
qed

lemma length_pipe_contents: "pipe_inv p \<Longrightarrow> length (pipe_contents p) \<le> PIPESIZE"
  by (simp add: pipe_contents_def pipe_inv_def)

interpretation pipeq: fifo pipe_put pipe_get pipe_full pipe_empty pipe_inv pipe_contents
proof (unfold_locales, goal_cases)
  case (1 s x)
  have len: "length (pi_data s) = PIPESIZE" and lt: "unat (pi_nwrite s - pi_nread s) < length (pi_data s)"
    using 1 by (auto simp: pipe_inv_def pipe_full_iff)
  have d: "length (pi_data s) dvd 2 ^ 32" "length (pi_data s) < 2 ^ 32"
    by (simp_all add: len PIPESIZE_def)
  have "pi_data (pipe_put x s) = ring_put x (pi_nwrite s) (pi_data s)"
    by (simp add: pipe_put_def ring_put_def len)
  then have "pipe_contents (pipe_put x s) = pipe_contents s @ [x]"
    using ring_list_push [OF d lt, of x] by (simp add: pipe_contents_def pipe_put_def)
  moreover have "pipe_inv (pipe_put x s)"
    using unat_step_lt [OF lt d(2)] lt by (simp add: pipe_inv_def pipe_put_def len)
  ultimately show ?case by simp
next
  case (2 s)
  then have ne: "pi_nread s \<noteq> pi_nwrite s" and len: "length (pi_data s) = PIPESIZE"
    by (auto simp: pipe_empty_def pipe_inv_def)
  have c: "pipe_contents s = fst (pipe_get s) # pipe_contents (snd (pipe_get s))"
    using ring_list_pop [OF ne, of "pi_data s"] by (simp add: pipe_contents_def pipe_get_def ring_at_def len)
  then have "unat (pi_nwrite s - pi_nread s) = Suc (unat (pi_nwrite s - (pi_nread s + 1)))"
    by (simp add: pipe_contents_def pipe_get_def) (metis length_Cons length_ring_list)
  then have "pipe_inv (snd (pipe_get s))"
    using 2(1) by (simp add: pipe_inv_def pipe_get_def)
  then show ?case
    using c by blast
next
  case (3 s)
  show ?case
    by (cases "pipe_empty s") (simp_all add: pipe_empty_def pipe_contents_def ring_list_pop)
qed

section \<open>What one segment of a call does\<close>

abbreviation user_bytes :: "(u64 \<Rightarrow> u8 option) \<Rightarrow> u64 \<Rightarrow> nat \<Rightarrow> nat \<Rightarrow> u8 list" where
  "user_bytes cin addr i j \<equiv> map (\<lambda>t. the (cin (addr + of_nat t))) [i..<j]"

lemma pipe_open_simps [simp]:
  "pi_readopen (pipe_put x p) = pi_readopen p" "pi_writeopen (pipe_put x p) = pi_writeopen p"
  "pi_readopen (snd (pipe_get p)) = pi_readopen p" "pi_writeopen (snd (pipe_get p)) = pi_writeopen p"
  by (simp_all add: pipe_put_def pipe_get_def)

definition wrote :: "(u64 \<Rightarrow> u8 option) \<Rightarrow> u64 \<Rightarrow> nat \<Rightarrow> nat \<Rightarrow> pipe \<Rightarrow> pipe \<Rightarrow> bool" where
  "wrote cin addr i j p q \<longleftrightarrow> pipe_inv q \<and> pipe_contents q = pipe_contents p @ user_bytes cin addr i j \<and>
     pi_readopen q = pi_readopen p \<and> pi_writeopen q = pi_writeopen p"

lemma wrote_step:
  assumes "wrote cin addr (Suc i) j (pipe_put x p) q" and "pipe_inv p" and "\<not> pipe_full p"
    and "cin (addr + of_nat i) = Some x" and "Suc i \<le> j"
  shows "wrote cin addr i j p q"
  using assms pipeq.put_law [of p x] by (simp add: wrote_def upt_conv_Cons)

lemma pipewrite_segment:
  assumes "pipe_inv p"
  shows "case pipewrite_loop cin killed addr k i p of
      Ret r q \<Rightarrow> \<exists>j. i \<le> j \<and> j \<le> i + k \<and> wrote cin addr i j p q \<and>
        (r = int j \<and> (j = i + k \<or> cin (addr + of_nat j) = None) \<or>
         r = - 1 \<and> pipe_full q \<and> (\<not> pi_readopen p \<or> killed))
    | Sleep j q \<Rightarrow> i \<le> j \<and> j < i + k \<and> wrote cin addr i j p q \<and> pipe_full q \<and> pi_readopen p \<and> \<not> killed"
  using assms
proof (induction k arbitrary: i p)
  case 0
  then show ?case by (auto simp: wrote_def)
next
  case (Suc k)
  show ?case
  proof (cases "pipe_full p")
    case True
    then show ?thesis using Suc.prems by (auto simp: wrote_def)
  next
    case False
    note nf = this
    show ?thesis
    proof (cases "cin (addr + of_nat i)")
      case None
      then show ?thesis using Suc.prems nf by (auto simp: wrote_def intro!: exI [of _ i])
    next
      case (Some x)
      have inv: "pipe_inv (pipe_put x p)"
        using pipeq.put_law Suc.prems nf by blast
      have step: "wrote cin addr (Suc i) j (pipe_put x p) q \<Longrightarrow> Suc i \<le> j \<Longrightarrow> wrote cin addr i j p q" for j q
        by (rule wrote_step [where x = x]) (use Suc.prems nf Some in auto)
      show ?thesis
      proof (cases "pipewrite_loop cin killed addr k (Suc i) (pipe_put x p)")
        case (Ret r q)
        then obtain j where j: "Suc i \<le> j" "j \<le> Suc i + k" "wrote cin addr (Suc i) j (pipe_put x p) q"
          "r = int j \<and> (j = Suc i + k \<or> cin (addr + of_nat j) = None) \<or>
           r = - 1 \<and> pipe_full q \<and> (\<not> pi_readopen p \<or> killed)"
          using Suc.IH [OF inv, of "Suc i"] by auto
        then show ?thesis
          using Ret nf Some step [OF j(3,1)] by (auto intro!: exI [of _ j])
      next
        case (Sleep j q)
        then show ?thesis
          using Suc.IH [OF inv, of "Suc i"] nf Some step [of j q] by auto
      qed
    qed
  qed
qed

text \<open>
  Reading is described with the bytes that left the pipe; when the last copy out fails, its byte has
  left the pipe and is not counted.
\<close>

fun copy_all :: "(u64 \<Rightarrow> u8 \<Rightarrow> 'm \<Rightarrow> 'm option) \<Rightarrow> u64 \<Rightarrow> u8 list \<Rightarrow> 'm \<Rightarrow> 'm option" where
  "copy_all cout a [] m = Some m"
| "copy_all cout a (x # xs) m = (case cout a x m of None \<Rightarrow> None | Some m \<Rightarrow> copy_all cout (a + 1) xs m)"

definition took :: "u8 list \<Rightarrow> pipe \<Rightarrow> pipe \<Rightarrow> bool" where
  "took xs p q \<longleftrightarrow> pipe_inv q \<and> pipe_contents p = xs @ pipe_contents q \<and>
     pi_readopen q = pi_readopen p \<and> pi_writeopen q = pi_writeopen p"

lemma took_step:
  assumes "took xs (snd (pipe_get p)) q" and "pipe_inv p" and "\<not> pipe_empty p"
  shows "took (fst (pipe_get p) # xs) p q"
  using assms pipeq.get_law [of p] by (simp add: took_def)

lemma piperead_segment:
  assumes "pipe_inv p" and "piperead_loop cout addr k i (p, m) = (r, q, m')"
  shows "\<exists>xs. r = int (i + length xs) \<and> copy_all cout (addr + of_nat i) xs m = Some m' \<and>
    (took xs p q \<and> (length xs = k \<or> length xs < k \<and> pipe_contents q = []) \<or>
     (\<exists>x. took (xs @ [x]) p q \<and> length xs < k \<and> cout (addr + of_nat i + of_nat (length xs)) x m' = None))"
  using assms
proof (induction k arbitrary: i p m)
  case 0
  then show ?case by (auto simp: took_def)
next
  case (Suc k)
  show ?case
  proof (cases "pipe_empty p")
    case True
    then show ?thesis
      using Suc.prems pipeq.empty_law [of p] by (auto simp: took_def)
  next
    case False
    obtain x p' where g: "pipe_get p = (x, p')" by fastforce
    have step: "took xs p' q \<Longrightarrow> took (x # xs) p q" for xs
      using took_step [OF _ Suc.prems(1) False] g by simp
    have inv: "pipe_inv p'" using pipeq.get_law [OF Suc.prems(1) False] g by simp
    show ?thesis
    proof (cases "cout (addr + of_nat i) x m")
      case None
      then have "r = int i" "q = p'" "m' = m"
        using Suc.prems(2) False g by auto
      moreover have "took [x] p p'" 
        using \<open>q = p'\<close> step [of "[]"] inv by (simp add: took_def)
      ultimately show ?thesis
        using None by (auto intro!: exI [of _ "[]"])
    next
      case (Some m1)
      then have "piperead_loop cout addr k (Suc i) (p', m1) = (r, q, m')"
        using Suc.prems(2) False g by simp
      from Suc.IH [OF inv this] obtain xs where xs:
        "r = int (Suc i + length xs)" "copy_all cout (addr + of_nat (Suc i)) xs m1 = Some m'"
        "took xs p' q \<and> (length xs = k \<or> length xs < k \<and> pipe_contents q = []) \<or>
         (\<exists>y. took (xs @ [y]) p' q \<and> length xs < k \<and> cout (addr + of_nat (Suc i) + of_nat (length xs)) y m' = None)"
        by blast
      then show ?thesis
        using Some step [of xs] step [of "xs @ [y]" for y]
        by (intro exI [of _ "x # xs"]) (auto simp: add_ac)
    qed
  qed
qed

section \<open>The pipe between its writers and readers\<close>

text \<open>
  Any interleaving of segments: writers that start a call or wake up inside one, readers, and the
  closing of either end. \<open>pipe_run p w r q\<close>: from \<open>p\<close> the pipe has come to \<open>q\<close> while the
  bytes \<open>w\<close> were accepted from writers and \<open>r\<close> was handed to readers, both in order.
\<close>

definition accepted :: "pipe \<Rightarrow> pipe \<Rightarrow> nat" where
  "accepted p q = length (pipe_contents q) - length (pipe_contents p)"

inductive pipe_run :: "pipe \<Rightarrow> u8 list \<Rightarrow> u8 list \<Rightarrow> pipe \<Rightarrow> bool" for p0 where
  pr_start: "pipe_run p0 [] [] p0"
| pr_write: "pipe_run p0 w r p \<Longrightarrow> pipewrite_loop cin killed addr k i p = Ret v q \<Longrightarrow>
    pipe_run p0 (w @ user_bytes cin addr i (i + accepted p q)) r q"
| pr_write_sleep: "pipe_run p0 w r p \<Longrightarrow> pipewrite_loop cin killed addr k i p = Sleep j q \<Longrightarrow>
    pipe_run p0 (w @ user_bytes cin addr i j) r q"
| pr_read: "pipe_run p0 w r p \<Longrightarrow> piperead (\<lambda>a x xs. Some (xs @ [x])) killed addr n (p, []) = Ret v (q, xs) \<Longrightarrow>
    pipe_run p0 w (r @ xs) q"
| pr_close: "pipe_run p0 w r p \<Longrightarrow> pipeclose writable p = (free, q) \<Longrightarrow> pipe_run p0 w r q"

lemma wrote_accepted: "wrote cin addr i j p q \<Longrightarrow> i \<le> j \<Longrightarrow> i + accepted p q = j"
  by (simp add: wrote_def accepted_def)

lemma copy_all_collect: "copy_all (\<lambda>a x xs. Some (xs @ [x])) a ys m = Some (m @ ys)"
  by (induction ys arbitrary: a m) simp_all

lemma piperead_total:
  assumes "pipe_inv p" and "piperead (\<lambda>a x xs. Some (xs @ [x])) killed addr n (p, []) = Ret v (q, xs)"
  shows "took xs p q"
proof (cases "pipe_empty p \<and> pi_writeopen p")
  case True
  then show ?thesis
    using assms by (auto simp: piperead_def took_def split: if_splits)
next
  case False
  then have "piperead_loop (\<lambda>a x xs. Some (xs @ [x])) addr (nat (sint n)) 0 (p, []) = (v, q, xs)"
    using assms(2) by (auto simp: piperead_def split: prod.splits)
  from piperead_segment [OF assms(1) this] show ?thesis
    by (auto simp: copy_all_collect)
qed

lemma pipeclose_contents:
  assumes "pipeclose writable p = (free, q)"
  shows "pipe_inv q \<longleftrightarrow> pipe_inv p" and "pipe_contents q = pipe_contents p"
  using assms by (auto simp: pipeclose_def Let_def pipe_inv_def pipe_contents_def split: if_splits)


definition pipe_new :: pipe where
  "pipe_new = \<lparr>pi_data = replicate PIPESIZE 0, pi_nread = 0, pi_nwrite = 0, pi_readopen = True, pi_writeopen = True\<rparr>"

lemma pipe_new_inv: "pipe_inv pipe_new" "pipe_contents pipe_new = []"
  by (simp_all add: pipe_new_def pipe_inv_def pipe_contents_def)


text \<open>A write of readable user bytes to an open pipe fills it with as many of them as fit, then
  either returns the full count or sleeps at the first byte that did not fit.\<close>
theorem pipewrite_correct:
  assumes "pipe_inv p" and "pi_readopen p" and "0 \<le> sint n"
    and "\<forall>t < nat (sint n). cin (addr + of_nat t) \<noteq> None"
  defines "room \<equiv> PIPESIZE - length (pipe_contents p)"
  shows "\<exists>q. pipe_inv q \<and>
    pipe_contents q = pipe_contents p @ user_bytes cin addr 0 (min (nat (sint n)) room) \<and>
    pipewrite cin False addr n p = (if nat (sint n) \<le> room then Ret (sint n) q else Sleep room q)"
proof (cases "pipewrite_loop cin False addr (nat (sint n)) 0 p")
  case (Ret r q)
  then obtain j where j: "j \<le> nat (sint n)" "wrote cin addr 0 j p q" "r = int j"
    "j = nat (sint n) \<or> cin (addr + of_nat j) = None"
    using pipewrite_segment [OF assms(1), where cin = cin and killed = False and addr = addr and k = "nat (sint n)" and i = 0] assms(2) by auto
  then have "j = nat (sint n)"
    using assms(4) by (cases "j = nat (sint n)") auto
  moreover from j(2) have "j \<le> room"
    using length_pipe_contents [of q] by (simp add: wrote_def room_def)
  ultimately show ?thesis
    using Ret j(2,3) assms(3) by (auto simp: wrote_def pipewrite_def)
next
  case (Sleep j q)
  then have j: "j < nat (sint n)" "wrote cin addr 0 j p q" "pipe_full q"
    using pipewrite_segment [OF assms(1), where cin = cin and killed = False and addr = addr and k = "nat (sint n)" and i = 0] by auto
  then have "length (pipe_contents q) = PIPESIZE"
    by (simp add: pipe_full_iff pipe_contents_def)
  then have "j = room"
    using j(2) by (simp add: wrote_def room_def)
  then show ?thesis
    using Sleep j by (auto simp: wrote_def pipewrite_def)
qed

theorem pipewrite_correct_witness:
  "\<exists>q. pipe_inv q \<and> pipe_contents q = [1, 1, 1] \<and> pipewrite (\<lambda>a. Some 1) False 0 3 pipe_new = Ret 3 q"
  using pipewrite_correct [of pipe_new 3 "\<lambda>a. Some 1" 0] pipe_new_inv
  by (simp add: PIPESIZE_def pipe_new_def upt_rec [of _ "Suc (Suc (Suc 0))"] numeral_3_eq_3)

text \<open>C35: \<^verbatim>\<open>piperead\<close> takes a byte out of the pipe before it copies it to the reader. When the copy
  of the first byte fails, the call returns 0, as at end of file, and the byte is gone: the next
  reader misses it.\<close>
theorem piperead_drops_byte:
  assumes "pipe_inv p" and "pipe_contents p = x # xs" and "0 < sint n" and "cout addr x m = None"
  shows "\<exists>q. piperead cout killed addr n (p, m) = Ret 0 (q, m) \<and> pipe_contents q = xs"
proof -
  have ne: "\<not> pipe_empty p"
    using pipeq.empty_law [OF assms(1)] assms(2) by simp
  obtain y q where g: "pipe_get p = (y, q)" by fastforce
  then have "y = x" "pipe_contents q = xs"
    using pipeq.get_law [OF assms(1) ne] assms(2) by auto
  moreover obtain k where "nat (sint n) = Suc k"
    using assms(3) by (cases "nat (sint n)") auto
  ultimately show ?thesis
    using ne g assms(4) by (auto simp: piperead_def)
qed

theorem piperead_drops_byte_witness:
  "\<exists>q. piperead (\<lambda>a x m. None) False 0 1 (pipe_put 7 pipe_new, ()) = Ret 0 (q, ()) \<and> pipe_contents q = []"
proof (rule piperead_drops_byte)
  have "\<not> pipe_full pipe_new"
    by (simp add: pipe_full_def pipe_new_def PIPESIZE_def)
  then show "pipe_inv (pipe_put 7 pipe_new)" "pipe_contents (pipe_put 7 pipe_new) = [7]"
    using pipeq.put_law [of pipe_new 7] by (simp_all add: pipe_new_inv)
qed simp_all

end
