(* ===== verification/Console.thy ===== *)
theory Console
  imports Uart Pipe
begin

text \<open>
  \<^verbatim>\<open>kernel/console.c\<close> over the serial port: line editing in the interrupt handler, reading of lines
  and end-of-file, writing through the transmit buffer. The three free-running indices split the
  input buffer into what readers may take and what is still being edited. The text that \<^verbatim>\<open>procdump\<close>
  prints is an argument of the handler; \<^verbatim>\<open>wakeup\<close> lets a sleeping reader run its next segment.
\<close>

section \<open>State and operations\<close>

definition INPUT_BUF :: nat where "INPUT_BUF = 128"

record console =
  c_buf :: "u8 list"
  c_r :: u32
  c_w :: u32
  c_e :: u32
  c_uart :: uart

text \<open>\<^verbatim>\<open>C(x)\<close> is the control character of a letter.\<close>

definition ctrl_D :: u8 where "ctrl_D = 4"
definition ctrl_H :: u8 where "ctrl_H = 8"
definition ctrl_P :: u8 where "ctrl_P = 16"
definition ctrl_U :: u8 where "ctrl_U = 21"

fun uart_sync_all :: "u8 list \<Rightarrow> uart \<Rightarrow> uart res" where
  "uart_sync_all [] u = Ok u"
| "uart_sync_all (c # cs) u = rbind (uartputc_sync c u) (uart_sync_all cs)"

definition consputs :: "u8 list \<Rightarrow> console \<Rightarrow> console res" where
  "consputs cs s = rmap (\<lambda>u. s\<lparr>c_uart := u\<rparr>) (uart_sync_all cs (c_uart s))"

text \<open>\<^verbatim>\<open>consputc\<close>: \<open>None\<close> is \<^verbatim>\<open>BACKSPACE\<close>, a code outside the characters.\<close>

definition consputc :: "u8 option \<Rightarrow> console \<Rightarrow> console res" where
  "consputc c s = (case c of None \<Rightarrow> consputs [8, 32, 8] s | Some c \<Rightarrow> consputs [c] s)"

fun consolewrite_loop :: "(u64 \<Rightarrow> u8 option) \<Rightarrow> u64 \<Rightarrow> nat \<Rightarrow> nat \<Rightarrow> console \<Rightarrow> (int \<times> console) res" where
  "consolewrite_loop cin src 0 i s = Ok (int i, s)"
| "consolewrite_loop cin src (Suc k) i s =
     (case cin (src + of_nat i) of
        None \<Rightarrow> Ok (int i, s)
      | Some c \<Rightarrow> rbind (uartputc 1 c (c_uart s)) (\<lambda>u. consolewrite_loop cin src k (Suc i) (s\<lparr>c_uart := u\<rparr>)))"

text \<open>\<^verbatim>\<open>uartputc\<close> is called with \<^verbatim>\<open>cons.lock\<close> held: one lock.\<close>

definition consolewrite :: "(u64 \<Rightarrow> u8 option) \<Rightarrow> u64 \<Rightarrow> u32 \<Rightarrow> console \<Rightarrow> (int \<times> console) res" where
  "consolewrite cin src n s = consolewrite_loop cin src (nat (sint n)) 0 s"

definition cons_slot :: "u32 \<Rightarrow> nat" where
  "cons_slot i = unat i mod INPUT_BUF"

fun consoleread_loop :: "(u64 \<Rightarrow> u8 \<Rightarrow> 'm \<Rightarrow> 'm option) \<Rightarrow> bool \<Rightarrow> u64 \<Rightarrow> nat \<Rightarrow> nat \<Rightarrow> console \<times> 'm \<Rightarrow> (console \<times> 'm) io" where
  "consoleread_loop cout killed dst 0 i (s, m) = Ret (int i) (s, m)"
| "consoleread_loop cout killed dst (Suc k) i (s, m) =
     (if c_r s = c_w s then (if killed then Ret (- 1) (s, m) else Sleep i (s, m))
      else let c = c_buf s ! cons_slot (c_r s); s = s\<lparr>c_r := c_r s + 1\<rparr> in
        if c = ctrl_D then Ret (int i) (if i > 0 then s\<lparr>c_r := c_r s - 1\<rparr> else s, m)
        else case cout (dst + of_nat i) c m of
               None \<Rightarrow> Ret (int i) (s, m)
             | Some m \<Rightarrow> if c = 10 then Ret (int (Suc i)) (s, m)
                         else consoleread_loop cout killed dst k (Suc i) (s, m))"

definition consoleread :: "(u64 \<Rightarrow> u8 \<Rightarrow> 'm \<Rightarrow> 'm option) \<Rightarrow> bool \<Rightarrow> u64 \<Rightarrow> u32 \<Rightarrow> console \<times> 'm \<Rightarrow> (console \<times> 'm) io" where
  "consoleread cout killed dst n s = consoleread_loop cout killed dst (nat (sint n)) 0 s"

text \<open>The kill loop runs at most as often as there are characters being edited.\<close>

function kill_line :: "console \<Rightarrow> console res" where
  "kill_line s =
     (if c_e s \<noteq> c_w s \<and> c_buf s ! cons_slot (c_e s - 1) \<noteq> 10
      then rbind (consputc None (s\<lparr>c_e := c_e s - 1\<rparr>)) kill_line
      else Ok s)"
  by auto

lemma consputs_indices:
  "consputs cs s = Ok t \<Longrightarrow> c_e t = c_e s \<and> c_w t = c_w s \<and> c_r t = c_r s \<and> c_buf t = c_buf s"
  by (auto simp: consputs_def res_simps)

lemma consputc_indices:
  "consputc c s = Ok t \<Longrightarrow> c_e t = c_e s \<and> c_w t = c_w s \<and> c_r t = c_r s \<and> c_buf t = c_buf s"
  by (auto simp: consputc_def consputs_indices split: option.splits)

lemma unat_pred: "(w :: u32) \<noteq> r \<Longrightarrow> unat (w - r) = Suc (unat (w - 1 - r))"
  using unat_step [of "w - 1" r] by (simp add: algebra_simps)

termination kill_line
  by (relation "measure (\<lambda>s. unat (c_e s - c_w s))") (auto dest!: consputc_indices simp: unat_pred)

declare kill_line.simps [simp del]

definition consoleintr :: "u8 list \<Rightarrow> u8 \<Rightarrow> console \<Rightarrow> console res" where
  "consoleintr procdump_text c s =
     (if c = ctrl_P then consputs procdump_text s
      else if c = ctrl_U then kill_line s
      else if c = ctrl_H \<or> c = 127 then
        (if c_e s \<noteq> c_w s then consputc None (s\<lparr>c_e := c_e s - 1\<rparr>) else Ok s)
      else if c \<noteq> 0 \<and> unat (c_e s - c_r s) < INPUT_BUF then
        let c = (if c = 13 then 10 else c) in
        rbind (consputc (Some c) s) (\<lambda>s.
        let s = s\<lparr>c_buf := (c_buf s)[cons_slot (c_e s) := c], c_e := c_e s + 1\<rparr> in
        Ok (if c = 10 \<or> c = ctrl_D \<or> c_e s = c_r s + of_nat INPUT_BUF then s\<lparr>c_w := c_e s\<rparr> else s))
      else Ok s)"

fun uartintr_loop :: "u8 list \<Rightarrow> u8 list \<Rightarrow> console \<Rightarrow> console res" where
  "uartintr_loop procdump_text [] s = Ok s"
| "uartintr_loop procdump_text (c # cs) s =
     rbind (consoleintr procdump_text c (s\<lparr>c_uart := (c_uart s)\<lparr>u_in := cs\<rparr>\<rparr>)) (uartintr_loop procdump_text cs)"

definition uartintr :: "u8 list \<Rightarrow> console \<Rightarrow> console res" where
  "uartintr procdump_text s =
     rmap (\<lambda>s. s\<lparr>c_uart := uartstart (c_uart s)\<rparr>) (uartintr_loop procdump_text (u_in (c_uart s)) s)"

definition consoleinit :: "console \<Rightarrow> console" where
  "consoleinit s = s\<lparr>c_uart := uartinit (c_uart s)\<rparr>"

section \<open>Line editing\<close>

definition ready :: "console \<Rightarrow> u8 list" where
  "ready s = ring_list (c_buf s) (c_r s) (c_w s)"

definition editing :: "console \<Rightarrow> u8 list" where
  "editing s = ring_list (c_buf s) (c_w s) (c_e s)"

definition cons_inv :: "console \<Rightarrow> bool" where
  "cons_inv s \<longleftrightarrow> length (c_buf s) = INPUT_BUF \<and> length (ready s) + length (editing s) \<le> INPUT_BUF \<and>
     10 \<notin> set (editing s)"

text \<open>What a typed character does to the pair of the input ready for readers and the line being
  edited.\<close>

definition edit_step :: "u8 \<Rightarrow> u8 list \<times> u8 list \<Rightarrow> u8 list \<times> u8 list" where
  "edit_step c = (\<lambda>(rd, ed).
     if c = ctrl_P then (rd, ed)
     else if c = ctrl_U then (rd, [])
     else if c = ctrl_H \<or> c = 127 then (rd, butlast ed)
     else if c = 0 \<or> length rd + length ed = INPUT_BUF then (rd, ed)
     else let ed = ed @ [if c = 13 then 10 else c] in
       if c \<in> {10, 13, ctrl_D} \<or> length rd + length ed = INPUT_BUF then (rd @ ed, []) else (rd, ed))"

lemma cons_lists_cong:
  assumes "c_buf t = c_buf s" "c_r t = c_r s" "c_w t = c_w s" "c_e t = c_e s"
  shows "ready t = ready s" "editing t = editing s" "cons_inv t = cons_inv s"
  using assms by (simp_all add: ready_def editing_def cons_inv_def)

lemma consputc_lists: "consputc c s = Ok t \<Longrightarrow> ready t = ready s \<and> editing t = editing s \<and> cons_inv t = cons_inv s"
  using consputc_indices [of c s t] cons_lists_cong [of t s] by simp

lemma erase_one:
  assumes "c_e s \<noteq> c_w s"
  shows "ready (s\<lparr>c_e := c_e s - 1\<rparr>) = ready s" "editing (s\<lparr>c_e := c_e s - 1\<rparr>) = butlast (editing s)"
    and "cons_inv s \<Longrightarrow> cons_inv (s\<lparr>c_e := c_e s - 1\<rparr>)"
    and "cons_inv s \<Longrightarrow> c_buf s ! cons_slot (c_e s - 1) \<noteq> 10"
proof -
  have e: "editing s = editing (s\<lparr>c_e := c_e s - 1\<rparr>) @ [ring_at (c_buf s) (c_e s - 1)]"
    using ring_list_unpush [of "c_w s" "c_e s" "c_buf s"] assms by (simp add: editing_def)
  show r: "ready (s\<lparr>c_e := c_e s - 1\<rparr>) = ready s"
    by (simp add: ready_def)
  show b: "editing (s\<lparr>c_e := c_e s - 1\<rparr>) = butlast (editing s)"
    by (simp add: e)
  show "cons_inv (s\<lparr>c_e := c_e s - 1\<rparr>)" if "cons_inv s"
    using that e r by (simp add: cons_inv_def)
  show "c_buf s ! cons_slot (c_e s - 1) \<noteq> 10" if "cons_inv s"
    using that e by (auto simp: cons_inv_def ring_at_def cons_slot_def)
qed

lemma kill_line_law:
  assumes "cons_inv s" and "kill_line s = Ok t"
  shows "cons_inv t \<and> ready t = ready s \<and> editing t = []"
  using assms
proof (induction s rule: kill_line.induct)
  case (1 s)
  show ?case
  proof (cases "c_e s = c_w s")
    case True
    then show ?thesis
      using "1.prems" by (simp add: kill_line.simps [of s] editing_def)
  next
    case False
    note er = erase_one [OF False]
    obtain u where u: "consputc None (s\<lparr>c_e := c_e s - 1\<rparr>) = Ok u" "kill_line u = Ok t"
      using "1.prems" False er(4) by (auto simp: kill_line.simps [of s] res_simps)
    have "cons_inv u" "ready u = ready s"
      using consputc_lists [OF u(1)] er "1.prems"(1) by auto
    then show ?thesis
      using "1.IH"[OF _ u(1) _ u(2)] False er(4) "1.prems"(1) by simp
  qed
qed

lemma store_law:
  assumes "cons_inv s" and "length (ready s) + length (editing s) < INPUT_BUF"
  shows "let t = s\<lparr>c_buf := (c_buf s)[cons_slot (c_e s) := c], c_e := c_e s + 1\<rparr> in
    ready t = ready s \<and> editing t = editing s @ [c] \<and> unat (c_e t - c_r t) = Suc (unat (c_e s - c_r s))"
proof -
  have len: "length (c_buf s) = 128"
    using assms by (simp add: cons_inv_def INPUT_BUF_def)
  let ?b = "ring_put c (c_e s) (c_buf s)"
  have sum: "unat (c_w s - c_r s) + unat (c_e s - c_w s) < 128"
    using assms by (simp add: ready_def editing_def INPUT_BUF_def)
  then have s1: "unat (c_w s - c_r s) + unat (c_e s - c_w s) < 2 ^ 32" and lt: "unat (c_e s - c_r s) < length (c_buf s)"
    using unat_span [of "c_w s" "c_r s" "c_e s"] by (simp_all add: len)
  have st: "unat (c_e s + 1 - c_r s) = Suc (unat (c_e s - c_r s))"
    "unat (c_e s + 1 - c_w s) = Suc (unat (c_e s - c_w s))"
    using unat_step_lt [of "c_e s" "c_r s" 128] unat_step_lt [of "c_e s" "c_w s" 128] lt sum by (simp_all add: len)
  then have s2: "unat (c_w s - c_r s) + unat (c_e s + 1 - c_w s) < 2 ^ 32"
    using sum by simp
  have "ring_list ?b (c_r s) (c_w s) @ ring_list ?b (c_w s) (c_e s + 1) =
        ring_list (c_buf s) (c_r s) (c_w s) @ ring_list (c_buf s) (c_w s) (c_e s) @ [c]"
    using ring_list_push [OF _ _ lt, of c] ring_list_split [OF s1, of "c_buf s"] ring_list_split [OF s2, of ?b]
    by (simp add: len)
  then have "ring_list ?b (c_r s) (c_w s) = ring_list (c_buf s) (c_r s) (c_w s)"
    "ring_list ?b (c_w s) (c_e s + 1) = ring_list (c_buf s) (c_w s) (c_e s) @ [c]"
    by (simp_all add: append_eq_append_conv)
  then show ?thesis
    using st by (simp add: ready_def editing_def cons_slot_def ring_put_def len INPUT_BUF_def)
qed

text \<open>Storing a character and publishing the line when it is complete.\<close>

definition cons_store :: "u8 \<Rightarrow> console \<Rightarrow> console" where
  "cons_store d u =
     (let s = u\<lparr>c_buf := (c_buf u)[cons_slot (c_e u) := d], c_e := c_e u + 1\<rparr> in
      if d = 10 \<or> d = ctrl_D \<or> c_e s = c_r s + of_nat INPUT_BUF then s\<lparr>c_w := c_e s\<rparr> else s)"

lemma eq_offset_iff: "n < 2 ^ 32 \<Longrightarrow> (e :: u32) = r + of_nat n \<longleftrightarrow> unat (e - r) = n"
proof -
  assume n: "n < 2 ^ 32"
  have "e = r + of_nat n \<longleftrightarrow> e - r = of_nat n"
    by (auto simp: algebra_simps)
  also have "\<dots> \<longleftrightarrow> unat (e - r) = unat (of_nat n :: u32)"
    by (simp only: word_unat_eq_iff)
  finally show ?thesis
    using n by (simp add: unat_of_nat)
qed

lemma edit_span: "cons_inv s \<Longrightarrow> unat (c_e s - c_r s) = length (ready s) + length (editing s)"
  using unat_span [of "c_w s" "c_r s" "c_e s"] by (simp add: cons_inv_def ready_def editing_def INPUT_BUF_def)

lemma cons_store_law:
  assumes "cons_inv u" and "length (ready u) + length (editing u) < INPUT_BUF"
  shows "cons_inv (cons_store d u) \<and> (ready (cons_store d u), editing (cons_store d u)) =
    (if d = 10 \<or> d = ctrl_D \<or> Suc (length (ready u) + length (editing u)) = INPUT_BUF
     then (ready u @ editing u @ [d], []) else (ready u, editing u @ [d]))"
proof -
  define v where "v = u\<lparr>c_buf := (c_buf u)[cons_slot (c_e u) := d], c_e := c_e u + 1\<rparr>"
  have v: "ready v = ready u" "editing v = editing u @ [d]"
    "unat (c_e v - c_r v) = Suc (length (ready u) + length (editing u))"
    using store_law [OF assms, of d] edit_span [OF assms(1)] by (simp_all add: v_def Let_def)
  have len: "length (c_buf v) = INPUT_BUF" "10 \<notin> set (editing u)"
    using assms(1) by (simp_all add: v_def cons_inv_def)
  have full: "c_e v = c_r v + of_nat INPUT_BUF \<longleftrightarrow> Suc (length (ready u) + length (editing u)) = INPUT_BUF"
    using v(3) eq_offset_iff [of INPUT_BUF "c_e v" "c_r v"] by (simp add: INPUT_BUF_def)
  have span: "unat (c_w v - c_r v) + unat (c_e v - c_w v) < 2 ^ 32"
    using arg_cong [OF v(1), of length] arg_cong [OF v(2), of length] assms(2)
    by (simp add: ready_def editing_def INPUT_BUF_def)
  have "ready (v\<lparr>c_w := c_e v\<rparr>) = ready u @ editing u @ [d]" "editing (v\<lparr>c_w := c_e v\<rparr>) = []"
    using ring_list_split [OF span, of "c_buf v"] v(1,2) by (simp_all add: ready_def editing_def)
  moreover have "cons_store d u = (if d = 10 \<or> d = ctrl_D \<or> Suc (length (ready u) + length (editing u)) = INPUT_BUF
      then v\<lparr>c_w := c_e v\<rparr> else v)"
    using full by (simp add: cons_store_def v_def Let_def)
  ultimately show ?thesis
    using v len assms(2) by (auto simp: cons_inv_def)
qed

text \<open>C28: the interrupt handler implements line editing: on the input that is ready and the line
  being edited, a typed character acts as \<open>edit_step\<close> says (append, erase, kill, commit at newline,
  end-of-file or a full buffer), and the line being edited never holds a newline.\<close>
theorem consoleintr_edits:
  assumes "cons_inv s" and "consoleintr dump c s = Ok t"
  shows "cons_inv t \<and> (ready t, editing t) = edit_step c (ready s, editing s)"
proof -
  consider (P) "c = ctrl_P" | (U) "c = ctrl_U" | (H) "c = ctrl_H \<or> c = 127"
    | (other) "c \<notin> {ctrl_P, ctrl_U, ctrl_H, 127}" by blast
  then show ?thesis
  proof cases
    case P
    then have "consputs dump s = Ok t"
      using assms(2) by (simp add: consoleintr_def)
    then show ?thesis
      using P assms(1) consputs_indices [of dump s t] cons_lists_cong [of t s] by (simp add: edit_step_def)
  next
    case U
    then show ?thesis
      using assms kill_line_law [of s t] by (simp add: consoleintr_def edit_step_def ctrl_P_def ctrl_U_def)
  next
    case H
    then have ne: "c \<noteq> ctrl_P" "c \<noteq> ctrl_U"
      by (auto simp: ctrl_P_def ctrl_U_def ctrl_H_def)
    show ?thesis
    proof (cases "c_e s = c_w s")
      case True
      then have "t = s" and "editing s = []"
        using assms(2) H ne by (auto simp: consoleintr_def editing_def)
      then show ?thesis
        using H ne assms(1) by (simp add: edit_step_def)
    next
      case False
      then have "consputc None (s\<lparr>c_e := c_e s - 1\<rparr>) = Ok t"
        using assms(2) H ne by (simp add: consoleintr_def)
      then show ?thesis
        using erase_one [OF False] consputc_lists H ne assms(1) by (auto simp: edit_step_def)
    qed
  next
    case other
    note sum = edit_span [OF assms(1)]
    have le: "length (ready s) + length (editing s) \<le> INPUT_BUF"
      using assms(1) by (simp add: cons_inv_def)
    show ?thesis
    proof (cases "c = 0 \<or> length (ready s) + length (editing s) = INPUT_BUF")
      case True
      then have "t = s"
        using assms(2) other sum by (auto simp: consoleintr_def)
      then show ?thesis
        using True other assms(1) by (auto simp: edit_step_def)
    next
      case False
      define d where "d = (if c = 13 then 10 else c)"
      obtain u where u: "consputc (Some d) s = Ok u" and t: "t = cons_store d u"
        using assms(2) other False sum le by (auto simp: consoleintr_def d_def Let_def res_simps cons_store_def)
      have "edit_step c (ready s, editing s) =
        (if d = 10 \<or> d = ctrl_D \<or> Suc (length (ready s) + length (editing s)) = INPUT_BUF
         then (ready s @ editing s @ [d], []) else (ready s, editing s @ [d]))"
        using other False by (auto simp: edit_step_def d_def Let_def ctrl_D_def)
      then show ?thesis
        using cons_store_law [of u d] consputc_lists [OF u] assms(1) False le by (simp add: t)
    qed
  qed
qed

definition console_reset :: "bool list \<Rightarrow> console" where
  "console_reset polls = \<lparr>c_buf = replicate 128 0, c_r = 0, c_w = 0, c_e = 0, c_uart = uart_reset polls\<rparr>"

lemma console_reset_inv: "cons_inv (console_reset polls)" "ready (console_reset polls) = []" "editing (console_reset polls) = []"
  by (simp_all add: console_reset_def cons_inv_def ready_def editing_def INPUT_BUF_def)

theorem consoleintr_edits_witness:
  "\<exists>t. consoleintr [] 97 (console_reset [True]) = Ok t \<and> editing t = [97]"
proof -
  let ?s = "console_reset [True]"
  have "\<exists>t. consoleintr [] 97 ?s = Ok t"
    by (simp add: consoleintr_def console_reset_def uart_reset_def consputc_def consputs_def uartputc_sync_def
        ctrl_P_def ctrl_U_def ctrl_H_def INPUT_BUF_def Let_def)
  then obtain t where t: "consoleintr [] 97 ?s = Ok t" ..
  then show ?thesis
    using consoleintr_edits [OF console_reset_inv(1) t]
    by (simp add: console_reset_inv edit_step_def ctrl_P_def ctrl_U_def ctrl_H_def ctrl_D_def INPUT_BUF_def)
qed

section \<open>Reading lines\<close>

lemma ready_cons:
  assumes "cons_inv s" and "ready s = c # rest"
  shows "c_r s \<noteq> c_w s" and "c_buf s ! cons_slot (c_r s) = c" and "ready (s\<lparr>c_r := c_r s + 1\<rparr>) = rest"
    and "editing (s\<lparr>c_r := c_r s + 1\<rparr>) = editing s" and "cons_inv (s\<lparr>c_r := c_r s + 1\<rparr>)"
proof -
  show ne: "c_r s \<noteq> c_w s"
    using assms(2) by (auto simp: ready_def)
  have len: "length (c_buf s) = INPUT_BUF"
    using assms(1) by (simp add: cons_inv_def)
  show "c_buf s ! cons_slot (c_r s) = c" and r: "ready (s\<lparr>c_r := c_r s + 1\<rparr>) = rest"
    using ring_list_pop [OF ne, of "c_buf s"] assms(2) by (simp_all add: ready_def ring_at_def cons_slot_def len)
  show e: "editing (s\<lparr>c_r := c_r s + 1\<rparr>) = editing s"
    by (simp add: editing_def)
  show "cons_inv (s\<lparr>c_r := c_r s + 1\<rparr>)"
    using assms unfolding cons_inv_def r e by simp
qed

lemma consoleread_plain:
  assumes "cons_inv s" and "ready s = line @ rest" and "set line \<inter> {10, ctrl_D} = {}" and "length line \<le> k"
    and "copy_all cout (dst + of_nat i) line m = Some m'"
  shows "\<exists>t. consoleread_loop cout killed dst k i (s, m) =
      consoleread_loop cout killed dst (k - length line) (i + length line) (t, m') \<and>
    cons_inv t \<and> ready t = rest \<and> editing t = editing s"
  using assms
proof (induction line arbitrary: s m i k)
  case Nil
  then show ?case by auto
next
  case (Cons c line)
  note rc = ready_cons [OF Cons.prems(1), of c "line @ rest"]
  obtain k' where k: "k = Suc k'" and k': "length line \<le> k'"
    using Cons.prems(4) by (cases k) auto
  obtain m1 where m1: "cout (dst + of_nat i) c m = Some m1" "copy_all cout (dst + of_nat (Suc i)) line m1 = Some m'"
    using Cons.prems(5) by (auto simp: add_ac split: option.splits)
  have "consoleread_loop cout killed dst k i (s, m) = consoleread_loop cout killed dst k' (Suc i) (s\<lparr>c_r := c_r s + 1\<rparr>, m1)"
    using rc Cons.prems m1 by (auto simp: k Let_def)
  then show ?case
    using Cons.IH [OF rc(5) rc(3) _ k' m1(2)] Cons.prems rc(4) k by auto
qed

text \<open>A read returns one line. When the input that is ready starts with \<open>line\<close> and then a
  newline, and the buffer is large enough, the reader gets the line with its newline and the rest
  stays; when a control-D follows instead, the reader gets the line, and the control-D is taken
  only by a read that finds it first, which then returns 0.\<close>
theorem consoleread_line:
  assumes "cons_inv s" and "ready s = line @ c # rest" and "set line \<inter> {10, ctrl_D} = {}"
    and "c \<in> {10, ctrl_D}" and "int (length line) < sint n"
    and "copy_all cout dst (if c = 10 then line @ [10] else line) m = Some m'"
  shows "\<exists>t. consoleread cout killed dst n (s, m) = Ret (int (length line) + (if c = 10 then 1 else 0)) (t, m') \<and>
    ready t = (if c = 10 \<or> line = [] then rest else ctrl_D # rest) \<and> editing t = editing s"
proof -
  let ?k = "nat (sint n)"
  have app: "copy_all cout a (xs @ [x]) m = Some m' \<longleftrightarrow>
      (\<exists>m1. copy_all cout a xs m = Some m1 \<and> cout (a + of_nat (length xs)) x m1 = Some m')" for a xs x m
    by (induction xs arbitrary: a m) (auto simp: add_ac split: option.splits)
  obtain m1 where m1: "copy_all cout dst line m = Some m1"
    "if c = 10 then cout (dst + of_nat (length line)) 10 m1 = Some m' else m1 = m'"
    using assms(6) by (cases "c = 10") (auto simp: app)
  have le: "length line \<le> ?k"
    using assms(5) by linarith
  obtain t where t: "consoleread_loop cout killed dst ?k 0 (s, m) =
      consoleread_loop cout killed dst (?k - length line) (length line) (t, m1)"
    "cons_inv t" "ready t = c # rest" "editing t = editing s"
    using consoleread_plain [OF assms(1-3) le, of cout dst 0 m m1 killed] m1(1) by auto
  obtain k where k: "?k - length line = Suc k"
    using assms(5) by (cases "?k - length line") auto
  show ?thesis
    using ready_cons [OF t(2,3)] m1(2) assms(4) t(1,3,4)
    by (auto simp: consoleread_def k Let_def ctrl_D_def)
qed

theorem consoleread_line_witness:
  "\<exists>s t. ready s = [10] \<and> consoleread (\<lambda>a x xs. Some (xs @ [x])) False 0 5 (s, []) = Ret 1 (t, [10]) \<and> ready t = []"
proof -
  let ?u = "console_reset []"
  let ?s = "cons_store 10 ?u"
  have s: "cons_inv ?s" "ready ?s = [10]"
    using cons_store_law [of ?u 10] console_reset_inv [of "[]"] by (simp_all add: INPUT_BUF_def)
  show ?thesis
    using consoleread_line [of ?s "[]" 10 "[]" 5 "\<lambda>a x xs. Some (xs @ [x])" 0 "[]" "[10]" False] s by auto
qed

section \<open>Writing to a busy port\<close>

lemma uartstart_busy: "u_polls u = [] \<Longrightarrow> uartstart u = u"
  by (simp add: uartstart_def uartstart_loop.simps)

lemma tx_full_length: "tx_inv u \<Longrightarrow> tx_full u \<longleftrightarrow> length (tx_contents u) = UART_TX_BUF_SIZE - 1"
  using tx_dist [of "tx_w u" "tx_r u"]
  by (auto simp: tx_inv_def tx_full_def tx_contents_def tx_count_def UART_TX_BUF_SIZE_def tx_next [simplified])

text \<open>C36: \<^verbatim>\<open>consolewrite\<close> calls \<^verbatim>\<open>uartputc\<close> with \<^verbatim>\<open>cons.lock\<close> held, so when the transmit buffer fills
  up it does not wait for room as \<^verbatim>\<open>uartputc\<close> promises: the kernel panics in \<^verbatim>\<open>sched\<close>. A write that is
  longer than the free space, to a port that stays busy, always does so.\<close>
theorem consolewrite_panics:
  assumes "tx_inv (c_uart s)" and "\<not> panicked (c_uart s)" and "u_polls (c_uart s) = []"
    and "\<forall>a. cin a \<noteq> None" and "int (UART_TX_BUF_SIZE - 1) < int (length (tx_contents (c_uart s))) + sint n"
  shows "consolewrite cin src n s = Panic ''sched locks''"
proof -
  have "consolewrite_loop cin src k i s = Panic ''sched locks''"
    if "tx_inv (c_uart s)" "\<not> panicked (c_uart s)" "u_polls (c_uart s) = []"
      "UART_TX_BUF_SIZE - 1 < length (tx_contents (c_uart s)) + k" for k i s
    using that
  proof (induction k arbitrary: i s)
    case 0
    then show ?case
      by (simp add: tx_contents_def tx_count_def UART_TX_BUF_SIZE_def)
  next
    case (Suc k)
    obtain c where c: "cin (src + of_nat i) = Some c"
      using assms(4) by blast
    show ?case
    proof (cases "tx_full (c_uart s)")
      case True
      then show ?thesis
        using Suc.prems c by (simp add: uartputc_def sleep_holding_def)
    next
      case False
      let ?u = "tx_put c (c_uart s)"
      have u: "tx_inv ?u" "tx_contents ?u = tx_contents (c_uart s) @ [c]" "\<not> panicked ?u" "u_polls ?u = []"
        using txq.put_law [OF Suc.prems(1) False, of c] Suc.prems by (simp_all add: tx_put_def)
      then show ?thesis
        using Suc.IH [of "s\<lparr>c_uart := ?u\<rparr>" "Suc i"] Suc.prems False c by (simp add: uartputc_def uartstart_busy)
    qed
  qed
  then show ?thesis
    using assms by (simp add: consolewrite_def UART_TX_BUF_SIZE_def)
qed

theorem consolewrite_panics_witness:
  "consolewrite (\<lambda>a. Some 65) 0 40 (console_reset []) = Panic ''sched locks''"
  by (rule consolewrite_panics)
    (simp_all add: console_reset_def uart_reset_def tx_inv_def UART_TX_BUF_SIZE_def)

end
