(* ===== verification/Vm.thy ===== *)
theory Vm
  imports Kalloc
begin

text \<open>
  \<^verbatim>\<open>kernel/vm.c\<close>: page tables in physical memory. The functions are written against the macros of
  \<^verbatim>\<open>kernel/riscv.h\<close>; the one that decodes a page-table entry, \<^verbatim>\<open>PTE2PA\<close>, is a field of the
  configuration, so that the results can say what the code needs of it. \<open>PTE2PA\<close> below is the
  macro as it stands. An access of the kernel outside the memory the machine has is a \<open>Fault\<close>.
\<close>

section \<open>Page-table entries\<close>

definition PTE_V :: u64 where "PTE_V = 1"
definition PTE_R :: u64 where "PTE_R = push_bit 1 1"
definition PTE_W :: u64 where "PTE_W = push_bit 2 1"
definition PTE_X :: u64 where "PTE_X = push_bit 3 1"
definition PTE_U :: u64 where "PTE_U = push_bit 4 1"

definition PA2PTE :: "u64 \<Rightarrow> u64" where
  "PA2PTE pa = push_bit 10 (drop_bit 12 pa)"

definition PTE2PA :: "u64 \<Rightarrow> u64" where
  "PTE2PA pte = push_bit 12 (drop_bit 10 (push_bit 12 pte))"

definition PTE_FLAGS :: "u64 \<Rightarrow> u64" where
  "PTE_FLAGS pte = pte AND 0x3FF"

definition PX :: "nat \<Rightarrow> u64 \<Rightarrow> u64" where
  "PX level va = drop_bit (12 + 9 * level) va AND 0x1FF"

definition MAXVA :: u64 where "MAXVA = push_bit 38 1"

definition TRAMPOLINE :: u64 where "TRAMPOLINE = MAXVA - PGSIZE"

definition UART0 :: u64 where "UART0 = 0x10000000"
definition VIRTIO0 :: u64 where "VIRTIO0 = 0x10001000"
definition CLINT :: u64 where "CLINT = 0x2000000"
definition PLIC :: u64 where "PLIC = 0x0c000000"

text \<open>What the linker fixes (\<^verbatim>\<open>end\<close>, \<^verbatim>\<open>etext\<close>, \<^verbatim>\<open>trampoline\<close>) and the decoding of entries.\<close>

record kconf =
  k_end :: u64
  k_etext :: u64
  k_trampoline :: u64
  k_pte2pa :: "u64 \<Rightarrow> u64"

definition in_ram :: "u64 \<Rightarrow> bool" where
  "in_ram a \<longleftrightarrow> KERNBASE \<le> a \<and> a < PHYSTOP"

definition load_pte :: "u64 \<Rightarrow> kmem \<Rightarrow> u64 res" where
  "load_pte a s = (if in_ram a then Ok (load64 (pmem s) a) else Fault ''pte'')"

definition store_pte :: "u64 \<Rightarrow> u64 \<Rightarrow> kmem \<Rightarrow> kmem res" where
  "store_pte a w s = (if in_ram a then Ok (s\<lparr>pmem := store64 a w (pmem s)\<rparr>) else Fault ''pte'')"

definition zero_page :: "u64 \<Rightarrow> kmem \<Rightarrow> kmem" where
  "zero_page p s = s\<lparr>pmem := memset p 0 (ucast PGSIZE) (pmem s)\<rparr>"

section \<open>Walking and mapping\<close>

primrec walk_loop :: "kconf \<Rightarrow> bool \<Rightarrow> u64 \<Rightarrow> nat \<Rightarrow> u64 \<Rightarrow> kmem \<Rightarrow> (u64 \<times> kmem) res" where
  "walk_loop k alloc va 0 pt s = Ok (pt + 8 * PX 0 va, s)"
| "walk_loop k alloc va (Suc l) pt s =
     (let a = pt + 8 * PX (Suc l) va in
      rbind (load_pte a s) (\<lambda>pte.
      if pte AND PTE_V \<noteq> 0 then walk_loop k alloc va l (k_pte2pa k pte) s
      else if \<not> alloc then Ok (0, s)
      else let (p, s) = kalloc s in
        if p = 0 then Ok (0, s)
        else rbind (store_pte a (PA2PTE p OR PTE_V) (zero_page p s)) (walk_loop k alloc va l p)))"

definition walk :: "kconf \<Rightarrow> u64 \<Rightarrow> u64 \<Rightarrow> bool \<Rightarrow> kmem \<Rightarrow> (u64 \<times> kmem) res" where
  "walk k pagetable va alloc s = (if va \<ge> MAXVA then Panic ''walk'' else walk_loop k alloc va 2 pagetable s)"

lemma walk_bound: "walk k pt va alloc s = Ok r \<Longrightarrow> va < MAXVA"
  by (auto simp: walk_def split: if_splits)

definition walkaddr :: "kconf \<Rightarrow> u64 \<Rightarrow> u64 \<Rightarrow> kmem \<Rightarrow> u64 res" where
  "walkaddr k pagetable va s =
     (if va \<ge> MAXVA then Ok 0
      else rbind (walk k pagetable va False s) (\<lambda>(a, s).
        if a = 0 then Ok 0
        else rbind (load_pte a s) (\<lambda>pte.
          if pte AND PTE_V = 0 then Ok 0
          else if pte AND PTE_U = 0 then Ok 0
          else Ok (k_pte2pa k pte))))"

lemma unat_MAXVA: "unat MAXVA = 2 ^ 38"
  by (simp add: MAXVA_def push_bit_eq_mult)

lemma next_page: "a < MAXVA \<Longrightarrow> unat (a + PGSIZE) = unat a + 4096"
  by (subst unat_add_nowrap) (simp_all add: word_less_nat_alt unat_MAXVA PGSIZE_nat)

lemma pages_left: "a < MAXVA \<Longrightarrow> 2 ^ 64 - unat (a + PGSIZE) < 2 ^ 64 - unat a"
  using next_page [of a] by (simp add: word_less_nat_alt unat_MAXVA)

function mappages_loop :: "kconf \<Rightarrow> u64 \<Rightarrow> u64 \<Rightarrow> u64 \<Rightarrow> u64 \<Rightarrow> u64 \<Rightarrow> kmem \<Rightarrow> (int \<times> kmem) res" where
  "mappages_loop k pagetable a lst pa perm s =
     rbind (walk k pagetable a True s) (\<lambda>(e, s).
     if e = 0 then Ok (- 1, s)
     else rbind (load_pte e s) (\<lambda>pte.
     if pte AND PTE_V \<noteq> 0 then Panic ''remap''
     else rbind (store_pte e (PA2PTE pa OR perm OR PTE_V) s) (\<lambda>s.
     if a = lst then Ok (0, s)
     else mappages_loop k pagetable (a + PGSIZE) lst (pa + PGSIZE) perm s)))"
  by pat_completeness auto
termination
  by (relation "measure (\<lambda>(k, pt, a, rest). 2 ^ 64 - unat a)") (auto dest!: walk_bound pages_left)

declare mappages_loop.simps [simp del]

definition mappages :: "kconf \<Rightarrow> u64 \<Rightarrow> u64 \<Rightarrow> u64 \<Rightarrow> u64 \<Rightarrow> u64 \<Rightarrow> kmem \<Rightarrow> (int \<times> kmem) res" where
  "mappages k pagetable va sz pa perm s =
     mappages_loop k pagetable (PGROUNDDOWN va) (PGROUNDDOWN (va + sz - 1)) pa perm s"

lemma mappages_bound: "mappages k pt va sz pa perm s = Ok r \<Longrightarrow> va < MAXVA"
proof -
  assume "mappages k pt va sz pa perm s = Ok r"
  then obtain q where "walk k pt (PGROUNDDOWN va) True s = Ok q"
    by (auto simp: mappages_def mappages_loop.simps [of k pt "PGROUNDDOWN va"] res_simps)
  then have "unat va div 4096 * 4096 < 2 ^ 38"
    using walk_bound by (fastforce simp: word_less_nat_alt unat_MAXVA unat_PGROUNDDOWN)
  then show ?thesis
    by (simp add: word_less_nat_alt unat_MAXVA)
qed

text \<open>The kernel's own page table.\<close>

definition kvmmap :: "kconf \<Rightarrow> u64 \<Rightarrow> u64 \<Rightarrow> u64 \<Rightarrow> u64 \<Rightarrow> u64 \<Rightarrow> kmem \<Rightarrow> kmem res" where
  "kvmmap k kernel_pagetable va pa sz perm s =
     rbind (mappages k kernel_pagetable va sz pa perm s) (\<lambda>(r, s). if r \<noteq> 0 then Panic ''kvmmap'' else Ok s)"

definition kvminit :: "kconf \<Rightarrow> kmem \<Rightarrow> (u64 \<times> kmem) res" where
  "kvminit k s =
     (let (pt, s) = kalloc s in
      if pt = 0 then Fault ''null''
      else
        rbind (kvmmap k pt UART0 UART0 PGSIZE (PTE_R OR PTE_W) (zero_page pt s)) (\<lambda>s.
        rbind (kvmmap k pt VIRTIO0 VIRTIO0 PGSIZE (PTE_R OR PTE_W) s) (\<lambda>s.
        rbind (kvmmap k pt CLINT CLINT 0x10000 (PTE_R OR PTE_W) s) (\<lambda>s.
        rbind (kvmmap k pt PLIC PLIC 0x400000 (PTE_R OR PTE_W) s) (\<lambda>s.
        rbind (kvmmap k pt KERNBASE KERNBASE (k_etext k - KERNBASE) (PTE_R OR PTE_X) s) (\<lambda>s.
        rbind (kvmmap k pt (k_etext k) (k_etext k) (PHYSTOP - k_etext k) (PTE_R OR PTE_W) s) (\<lambda>s.
        rbind (kvmmap k pt TRAMPOLINE (k_trampoline k) PGSIZE (PTE_R OR PTE_X) s) (\<lambda>s.
        Ok (pt, s)))))))))"

definition kvmpa :: "kconf \<Rightarrow> u64 \<Rightarrow> u64 \<Rightarrow> kmem \<Rightarrow> u64 res" where
  "kvmpa k kernel_pagetable va s =
     rbind (walk k kernel_pagetable va False s) (\<lambda>(a, s).
     if a = 0 then Panic ''kvmpa''
     else rbind (load_pte a s) (\<lambda>pte.
       if pte AND PTE_V = 0 then Panic ''kvmpa'' else Ok (k_pte2pa k pte + va mod PGSIZE)))"

section \<open>User address spaces\<close>

function uvmunmap_loop :: "kconf \<Rightarrow> u64 \<Rightarrow> u64 \<Rightarrow> u64 \<Rightarrow> bool \<Rightarrow> kmem \<Rightarrow> kmem res" where
  "uvmunmap_loop k pagetable a lst do_free s =
     (if a < lst then
        rbind (walk k pagetable a False s) (\<lambda>(e, s).
        if e = 0 then Panic ''uvmunmap: walk''
        else rbind (load_pte e s) (\<lambda>pte.
        if pte AND PTE_V = 0 then Panic ''uvmunmap: not mapped''
        else if PTE_FLAGS pte = PTE_V then Panic ''uvmunmap: not a leaf''
        else rbind (if do_free then kfree (k_end k) (k_pte2pa k pte) s else Ok s) (\<lambda>s.
        rbind (store_pte e 0 s) (\<lambda>s.
        uvmunmap_loop k pagetable (a + PGSIZE) lst do_free s))))
      else Ok s)"
  by pat_completeness auto
termination
  by (relation "measure (\<lambda>(k, pt, a, rest). 2 ^ 64 - unat a)") (auto dest!: walk_bound pages_left)

declare uvmunmap_loop.simps [simp del]

definition uvmunmap :: "kconf \<Rightarrow> u64 \<Rightarrow> u64 \<Rightarrow> u64 \<Rightarrow> bool \<Rightarrow> kmem \<Rightarrow> kmem res" where
  "uvmunmap k pagetable va npages do_free s =
     (if va mod PGSIZE \<noteq> 0 then Panic ''uvmunmap: not aligned''
      else uvmunmap_loop k pagetable va (va + npages * PGSIZE) do_free s)"

definition uvmcreate :: "kmem \<Rightarrow> u64 \<times> kmem" where
  "uvmcreate s = (let (pt, s) = kalloc s in if pt = 0 then (0, s) else (pt, zero_page pt s))"

text \<open>\<^verbatim>\<open>uvminit\<close>: \<open>src\<close> is the \<^verbatim>\<open>sz\<close> bytes of the first program.\<close>

definition uvminit :: "kconf \<Rightarrow> u64 \<Rightarrow> u8 list \<Rightarrow> kmem \<Rightarrow> kmem res" where
  "uvminit k pagetable src s =
     (if length src \<ge> unat PGSIZE then Panic ''inituvm: more than a page''
      else let (p, s) = kalloc s in
        if p = 0 then Fault ''null''
        else rbind (mappages k pagetable 0 PGSIZE p (PTE_W OR PTE_R OR PTE_X OR PTE_U) (zero_page p s)) (\<lambda>(r, s).
          Ok (s\<lparr>pmem := store_bytes p src (pmem s)\<rparr>)))"

definition uvmdealloc :: "kconf \<Rightarrow> u64 \<Rightarrow> u64 \<Rightarrow> u64 \<Rightarrow> kmem \<Rightarrow> (u64 \<times> kmem) res" where
  "uvmdealloc k pagetable oldsz newsz s =
     (if newsz \<ge> oldsz then Ok (oldsz, s)
      else if PGROUNDUP newsz < PGROUNDUP oldsz then
        let npages = ucast ((PGROUNDUP oldsz - PGROUNDUP newsz) div PGSIZE) :: u32 in
        rmap (\<lambda>s. (newsz, s)) (uvmunmap k pagetable (PGROUNDUP newsz) (scast npages) True s)
      else Ok (newsz, s))"

function uvmalloc_loop :: "kconf \<Rightarrow> u64 \<Rightarrow> u64 \<Rightarrow> u64 \<Rightarrow> u64 \<Rightarrow> kmem \<Rightarrow> (u64 \<times> kmem) res" where
  "uvmalloc_loop k pagetable oldsz a newsz s =
     (if a < newsz then
        let (p, s) = kalloc s in
        if p = 0 then rmap (\<lambda>(r, s). (0, s)) (uvmdealloc k pagetable a oldsz s)
        else rbind (mappages k pagetable a PGSIZE p (PTE_W OR PTE_X OR PTE_R OR PTE_U) (zero_page p s)) (\<lambda>(r, s).
          if r \<noteq> 0 then rbind (kfree (k_end k) p s) (\<lambda>s. rmap (\<lambda>(r, s). (0, s)) (uvmdealloc k pagetable a oldsz s))
          else uvmalloc_loop k pagetable oldsz (a + PGSIZE) newsz s)
      else Ok (newsz, s))"
  by pat_completeness auto
termination
  by (relation "measure (\<lambda>(k, pt, oldsz, a, rest). 2 ^ 64 - unat a)") (auto dest!: mappages_bound pages_left)

declare uvmalloc_loop.simps [simp del]

definition uvmalloc :: "kconf \<Rightarrow> u64 \<Rightarrow> u64 \<Rightarrow> u64 \<Rightarrow> kmem \<Rightarrow> (u64 \<times> kmem) res" where
  "uvmalloc k pagetable oldsz newsz s =
     (if newsz < oldsz then Ok (oldsz, s)
      else uvmalloc_loop k pagetable (PGROUNDUP oldsz) (PGROUNDUP oldsz) newsz s)"

text \<open>The recursion of \<^verbatim>\<open>freewalk\<close> is bounded by the frames that fit on the kernel stack; three are
  used on a page table that the other functions build.\<close>

function freewalk :: "nat \<Rightarrow> kconf \<Rightarrow> u64 \<Rightarrow> kmem \<Rightarrow> kmem res"
  and freewalk_loop :: "nat \<Rightarrow> kconf \<Rightarrow> u64 \<Rightarrow> nat \<Rightarrow> kmem \<Rightarrow> kmem res" where
  "freewalk 0 k pagetable s = Fault ''kernel stack''"
| "freewalk (Suc n) k pagetable s = rbind (freewalk_loop n k pagetable 0 s) (kfree (k_end k) pagetable)"
| "freewalk_loop n k pagetable i s =
     (if i < 512 then
        let a = pagetable + 8 * of_nat i in
        rbind (load_pte a s) (\<lambda>pte.
        if pte AND PTE_V \<noteq> 0 \<and> pte AND (PTE_R OR PTE_W OR PTE_X) = 0
        then rbind (freewalk n k (k_pte2pa k pte) s) (\<lambda>s.
             rbind (store_pte a 0 s) (freewalk_loop n k pagetable (Suc i)))
        else if pte AND PTE_V \<noteq> 0 then Panic ''freewalk: leaf''
        else freewalk_loop n k pagetable (Suc i) s)
      else Ok s)"
  by pat_completeness auto
termination
  by (relation "inv_image (less_than <*lex*> less_than)
      (case_sum (\<lambda>(n, k, pt, s). (2 * n, 0)) (\<lambda>(n, k, pt, i, s). (2 * n + 1, 512 - i)))") auto

declare freewalk_loop.simps [simp del]

definition KSTACK_FRAMES :: nat where "KSTACK_FRAMES = 64"

definition uvmfree :: "kconf \<Rightarrow> u64 \<Rightarrow> u64 \<Rightarrow> kmem \<Rightarrow> kmem res" where
  "uvmfree k pagetable sz s =
     rbind (if sz > 0 then uvmunmap k pagetable 0 (PGROUNDUP sz div PGSIZE) True s else Ok s)
       (freewalk KSTACK_FRAMES k pagetable)"

function uvmcopy_loop :: "kconf \<Rightarrow> u64 \<Rightarrow> u64 \<Rightarrow> u64 \<Rightarrow> u64 \<Rightarrow> kmem \<Rightarrow> (int \<times> kmem) res" where
  "uvmcopy_loop k old new i sz s =
     (if i < sz then
        rbind (walk k old i False s) (\<lambda>(e, s).
        if e = 0 then Panic ''uvmcopy: pte should exist''
        else rbind (load_pte e s) (\<lambda>pte.
        if pte AND PTE_V = 0 then Panic ''uvmcopy: page not present''
        else let (p, s) = kalloc s in
          if p = 0 then rmap (\<lambda>s. (- 1, s)) (uvmunmap k new 0 (i div PGSIZE) True s)
          else if \<not> in_ram (k_pte2pa k pte) then Fault ''page''
          else rbind (mappages k new i PGSIZE p (PTE_FLAGS pte)
                (s\<lparr>pmem := memmove p (k_pte2pa k pte) (ucast PGSIZE) (pmem s)\<rparr>)) (\<lambda>(r, s).
            if r \<noteq> 0 then rbind (kfree (k_end k) p s) (\<lambda>s. rmap (\<lambda>s. (- 1, s)) (uvmunmap k new 0 (i div PGSIZE) True s))
            else uvmcopy_loop k old new (i + PGSIZE) sz s)))
      else Ok (0, s))"
  by pat_completeness auto
termination
  by (relation "measure (\<lambda>(k, old, new, i, rest). 2 ^ 64 - unat i)") (auto dest!: walk_bound pages_left)

declare uvmcopy_loop.simps [simp del]

definition uvmcopy :: "kconf \<Rightarrow> u64 \<Rightarrow> u64 \<Rightarrow> u64 \<Rightarrow> kmem \<Rightarrow> (int \<times> kmem) res" where
  "uvmcopy k old new sz s = uvmcopy_loop k old new 0 sz s"

definition uvmclear :: "kconf \<Rightarrow> u64 \<Rightarrow> u64 \<Rightarrow> kmem \<Rightarrow> kmem res" where
  "uvmclear k pagetable va s =
     rbind (walk k pagetable va False s) (\<lambda>(e, s).
     if e = 0 then Panic ''uvmclear''
     else rbind (load_pte e s) (\<lambda>pte. store_pte e (pte AND NOT PTE_U) s))"

section \<open>Copying between kernel and user memory\<close>

text \<open>The kernel side of a copy is an object of the kernel, given as its bytes.\<close>

definition page_room :: "u64 \<Rightarrow> nat" where
  "page_room va = unat (PGSIZE - (va - PGROUNDDOWN va))"

lemma page_room: "page_room va = 4096 - unat va mod 4096"
proof -
  have le: "PGROUNDDOWN va \<le> va"
    by (simp add: word_le_nat_alt unat_PGROUNDDOWN)
  have o: "unat (va - PGROUNDDOWN va) = unat va mod 4096"
    using unat_sub [OF le] by (simp add: unat_PGROUNDDOWN minus_div_mult_eq_mod)
  then have "va - PGROUNDDOWN va \<le> PGSIZE"
    by (simp add: word_le_nat_alt PGSIZE_nat)
  from unat_sub [OF this] show ?thesis
    by (simp add: page_room_def PGSIZE_nat o)
qed

lemma page_room_pos: "0 < page_room va"
  by (simp add: page_room)

function copyout :: "kconf \<Rightarrow> u64 \<Rightarrow> u64 \<Rightarrow> u8 list \<Rightarrow> kmem \<Rightarrow> (int \<times> kmem) res" where
  "copyout k pagetable dstva src s =
     (if src = [] then Ok (0, s)
      else let va0 = PGROUNDDOWN dstva in
        rbind (walkaddr k pagetable va0 s) (\<lambda>pa0.
        if pa0 = 0 then Ok (- 1, s)
        else if \<not> in_ram pa0 then Fault ''page''
        else let n = page_room dstva in
          copyout k pagetable (va0 + PGSIZE) (drop n src)
            (s\<lparr>pmem := store_bytes (pa0 + (dstva - va0)) (take n src) (pmem s)\<rparr>)))"
  by pat_completeness auto
termination
  by (relation "measure (\<lambda>(k, pt, va, src, s). length src)") (auto simp: page_room_pos intro!: diff_less)

declare copyout.simps [simp del]

function copyin :: "kconf \<Rightarrow> u64 \<Rightarrow> u64 \<Rightarrow> nat \<Rightarrow> kmem \<Rightarrow> u8 list option res" where
  "copyin k pagetable srcva len s =
     (if len = 0 then Ok (Some [])
      else let va0 = PGROUNDDOWN srcva in
        rbind (walkaddr k pagetable va0 s) (\<lambda>pa0.
        if pa0 = 0 then Ok None
        else if \<not> in_ram pa0 then Fault ''page''
        else let n = min (page_room srcva) len in
          rmap (map_option (\<lambda>rest. bytes_at (pmem s) (pa0 + (srcva - va0)) n @ rest))
            (copyin k pagetable (va0 + PGSIZE) (len - n) s)))"
  by pat_completeness auto
termination
  by (relation "measure (\<lambda>(k, pt, va, len, s). len)") (auto simp: page_room_pos intro!: diff_less)

declare copyin.simps [simp del]

text \<open>\<^verbatim>\<open>copyinstr\<close> stops at the first NUL among the bytes of a page; the result is the string
  without its NUL.\<close>

function copyinstr :: "kconf \<Rightarrow> u64 \<Rightarrow> u64 \<Rightarrow> nat \<Rightarrow> kmem \<Rightarrow> u8 list option res" where
  "copyinstr k pagetable srcva mx s =
     (if mx = 0 then Ok None
      else let va0 = PGROUNDDOWN srcva in
        rbind (walkaddr k pagetable va0 s) (\<lambda>pa0.
        if pa0 = 0 then Ok None
        else if \<not> in_ram pa0 then Fault ''page''
        else let n = min (page_room srcva) mx;
                 xs = bytes_at (pmem s) (pa0 + (srcva - va0)) n in
          if 0 \<in> set xs then Ok (Some (takeWhile (\<lambda>c. c \<noteq> 0) xs))
          else rmap (map_option (\<lambda>rest. xs @ rest)) (copyinstr k pagetable (va0 + PGSIZE) (mx - n) s)))"
  by pat_completeness auto
termination
  by (relation "measure (\<lambda>(k, pt, va, len, s). len)") (auto simp: page_room_pos intro!: diff_less)

declare copyinstr.simps [simp del]

end
