(* ===== verification/Vm_Tables.thy ===== *)
theory Vm_Tables
  imports Vm
begin

text \<open>
  The three-level page tables in memory as a map from virtual pages to entries: which pages hold a
  table, when that is well formed (no table page is shared, free, or outside the memory managed by
  the allocator), and how walking, allocating and storing act on it. The laws hold for every
  decoding of entries that undoes \<^verbatim>\<open>PA2PTE\<close>.
\<close>

section \<open>Entries of a page\<close>

lemma in_range_nat:
  "unat p + n \<le> 2 ^ 64 \<Longrightarrow> in_range p n a \<longleftrightarrow> unat p \<le> unat a \<and> unat a < unat p + n"
  using unat_lt_u64 [of a] unat_lt_u64 [of p]
  by (auto simp: in_range_def unat_sub_if_size word_size)

lemma unat_entry:
  assumes "aligned r" and "i < 512"
  shows "unat (r + 8 * i) = unat r + 8 * unat i"
proof -
  have i: "unat i < 512"
    using assms(2) by (simp add: word_less_nat_alt)
  then have "unat (8 * i) = 8 * unat i"
    by (subst unat_mult_lem [THEN iffD1]) (simp_all add: word_less_nat_alt)
  then show ?thesis
    using aligned_le [OF assms(1)] i by (subst unat_add_nowrap) simp_all
qed

lemma entry_range:
  assumes "aligned r" and "i < 512"
  shows "in_range (r + 8 * i) 8 a \<longleftrightarrow> unat r + 8 * unat i \<le> unat a \<and> unat a < unat r + 8 * unat i + 8"
  using aligned_le [OF assms(1)] assms(2)
  by (subst in_range_nat) (simp_all add: unat_entry assms word_less_nat_alt)

lemma page_range: "aligned r \<Longrightarrow> in_range r 4096 a \<longleftrightarrow> unat r \<le> unat a \<and> unat a < unat r + 4096"
  using aligned_le by (subst in_range_nat) simp_all

lemma entry_in_page:
  assumes "aligned r" and "i < 512" and "in_range (r + 8 * i) 8 a"
  shows "in_range r 4096 a"
  using assms by (auto simp: entry_range page_range word_less_nat_alt)

lemma entries_apart:
  assumes "aligned r" "aligned r'" "i < 512" "i' < 512" "r \<noteq> r' \<or> i \<noteq> i'"
  shows "apart (r + 8 * i) (r' + 8 * i') 8"
proof (cases "r = r'")
  case True
  then have "unat i \<noteq> unat i'"
    using assms(5) by (simp add: word_unat_eq_iff)
  then show ?thesis
    using assms True by (auto simp: apart_def entry_range)
next
  case False
  then show ?thesis
    using assms pages_apart [OF assms(1,2) False] entry_in_page by (auto simp: apart_def)
qed

lemma entry_in_ram: "KERNBASE \<le> r \<Longrightarrow> r < PHYSTOP \<Longrightarrow> aligned r \<Longrightarrow> i < 512 \<Longrightarrow> in_ram (r + 8 * i)"
proof -
  assume a: "KERNBASE \<le> r" "r < PHYSTOP" "aligned r" "i < 512"
  obtain j where j: "unat r = 4096 * j"
    using a(3) by (rule alignedE)
  have "unat r < 0x88000000" "unat i < 512" "unat KERNBASE \<le> unat r"
    using a by (simp_all add: word_less_nat_alt word_le_nat_alt PHYSTOP_nat)
  then show ?thesis
    using unat_entry [OF a(3,4)] j by (simp add: in_ram_def word_less_nat_alt word_le_nat_alt PHYSTOP_nat)
qed

lemma PX_lt: "PX l va < 512"
proof -
  have m: "(0x1FF :: u64) = mask 9"
    by (simp add: mask_eq_exp_minus_1)
  have "PX l va = take_bit 9 (drop_bit (12 + 9 * l) va)"
    by (simp add: PX_def m take_bit_eq_mask)
  then show ?thesis
    using take_bit_nat_less_exp [of 9 "unat (drop_bit (12 + 9 * l) va)"]
    by (simp add: word_less_nat_alt unsigned_take_bit_eq)
qed

lemma load_zero_page:
  assumes "aligned p" and "i < 512"
  shows "load64 (memset p 0 (ucast PGSIZE) m) (p + 8 * i) = 0"
proof -
  have n: "unat (ucast PGSIZE :: u32) = 4096"
    by (simp add: PGSIZE_def)
  have "load64 (memset p 0 (ucast PGSIZE) m) (p + 8 * i) = load64 (\<lambda>_. 0) (p + 8 * i)"
  proof (rule load64_cong)
    fix b
    assume "in_range (p + 8 * i) 8 b"
    then show "memset p 0 (ucast PGSIZE) m b = 0"
      using entry_in_page [OF assms] by (simp add: memset_eq n)
  qed
  also have "load64 (\<lambda>_. 0) (p + 8 * i) = 0"
    by (rule bit_word_eqI) (simp add: load64_def bit_le_word del: bytes_at_numeral)
  finally show ?thesis .
qed

section \<open>The tables of a page table\<close>

primrec table :: "kconf \<Rightarrow> mem \<Rightarrow> u64 \<Rightarrow> u64 list \<Rightarrow> u64 option" where
  "table k m pt [] = Some pt"
| "table k m pt (i # is) =
     (let e = load64 m (pt + 8 * i) in if e AND PTE_V \<noteq> 0 then table k m (k_pte2pa k e) is else None)"

primrec pxs :: "nat \<Rightarrow> u64 \<Rightarrow> u64 list" where
  "pxs 0 va = []"
| "pxs (Suc l) va = PX (Suc l) va # pxs l va"

definition path :: "u64 list \<Rightarrow> bool" where
  "path ps \<longleftrightarrow> length ps \<le> 2 \<and> (\<forall>i \<in> set ps. i < 512)"

lemma length_pxs [simp]: "length (pxs l va) = l"
  by (induction l) auto

lemma pxs_lt: "i \<in> set (pxs l va) \<Longrightarrow> i < 512"
  by (induction l) (auto simp: PX_lt)

lemma path_pxs: "path (pxs 2 va)"
  by (auto simp: path_def pxs_lt)

lemma path_append: "path (ps @ qs) \<Longrightarrow> path ps"
  by (simp add: path_def)

lemma table_append: "table k m pt (ps @ qs) = Option.bind (table k m pt ps) (\<lambda>p. table k m p qs)"
  by (induction ps arbitrary: pt) (auto simp: Let_def)

lemma table_snoc:
  "table k m pt (ps @ [i]) =
     (case table k m pt ps of None \<Rightarrow> None
      | Some p \<Rightarrow> let e = load64 m (p + 8 * i) in if e AND PTE_V \<noteq> 0 then Some (k_pte2pa k e) else None)"
  by (auto simp: table_append Let_def split: option.splits bind_splits)

definition tables :: "kconf \<Rightarrow> kmem \<Rightarrow> u64 \<Rightarrow> u64 set" where
  "tables k s root = {p. \<exists>ps. path ps \<and> table k (pmem s) root ps = Some p}"

definition leaf :: "kconf \<Rightarrow> mem \<Rightarrow> u64 \<Rightarrow> u64 \<Rightarrow> u64" where
  "leaf k m root va = (case table k m root (pxs 2 va) of None \<Rightarrow> 0 | Some p \<Rightarrow> load64 m (p + 8 * PX 0 va))"

definition decodes :: "kconf \<Rightarrow> bool" where
  "decodes k \<longleftrightarrow> (\<forall>pa f. aligned pa \<longrightarrow> f < 1024 \<longrightarrow> k_pte2pa k (PA2PTE pa OR f) = pa)"

definition pt_inv :: "kconf \<Rightarrow> kmem \<Rightarrow> u64 \<Rightarrow> bool" where
  "pt_inv k s root \<longleftrightarrow> kernel_end (k_end k) \<and> kmem_inv (k_end k) s \<and>
     (\<forall>p \<in> tables k s root. page_ok (k_end k) p \<and> p \<notin> free_pages s) \<and>
     (\<forall>ps qs p. path ps \<longrightarrow> path qs \<longrightarrow> table k (pmem s) root ps = Some p \<longrightarrow> table k (pmem s) root qs = Some p \<longrightarrow> ps = qs)"

lemma pt_invD:
  assumes "pt_inv k s root" and "path ps" and "table k (pmem s) root ps = Some p"
  shows "page_ok (k_end k) p" and "p \<notin> free_pages s" and "aligned p"
    and "i < 512 \<Longrightarrow> in_ram (p + 8 * i)" and "p \<noteq> 0"
proof -
  have "p \<in> tables k s root"
    using assms(2,3) by (auto simp: tables_def)
  then show ok: "page_ok (k_end k) p" and "p \<notin> free_pages s"
    using assms(1) by (auto simp: pt_inv_def)
  then show al: "aligned p"
    by (simp add: page_ok_def)
  have "kernel_end (k_end k)"
    using assms(1) by (simp add: pt_inv_def)
  then have "KERNBASE \<le> p" "p < PHYSTOP"
    using ok by (auto simp: kernel_end_def page_ok_def)
  then show "in_ram (p + 8 * i)" if "i < 512"
    using al that by (intro entry_in_ram)
  show "p \<noteq> 0"
    using \<open>KERNBASE \<le> p\<close> by (auto simp: KERNBASE_def)
qed

lemma pt_inv_inj:
  "pt_inv k s root \<Longrightarrow> path ps \<Longrightarrow> path qs \<Longrightarrow> table k (pmem s) root ps = Some p \<Longrightarrow>
    table k (pmem s) root qs = Some p \<Longrightarrow> ps = qs"
  unfolding pt_inv_def by blast

section \<open>Looking up\<close>

lemma walk_loop_lookup:
  assumes "pt_inv k s root" and "table k (pmem s) root ps = Some pt" and "path (ps @ pxs l va)"
  shows "walk_loop k False va l pt s =
    Ok (case table k (pmem s) pt (pxs l va) of None \<Rightarrow> 0 | Some p \<Rightarrow> p + 8 * PX 0 va, s)"
  using assms
proof (induction l arbitrary: pt ps)
  case 0
  then show ?case by simp
next
  case (Suc l)
  let ?i = "PX (Suc l) va"
  let ?e = "load64 (pmem s) (pt + 8 * ?i)"
  have ram: "in_ram (pt + 8 * ?i)"
    using pt_invD(4) [OF Suc.prems(1) path_append [OF Suc.prems(3)] Suc.prems(2)] PX_lt by blast
  show ?case
  proof (cases "?e AND PTE_V = 0")
    case True
    then show ?thesis
      using ram by (simp add: load_pte_def Let_def)
  next
    case False
    then have "table k (pmem s) root (ps @ [?i]) = Some (k_pte2pa k ?e)"
      using Suc.prems(2) by (simp add: table_snoc Let_def)
    from Suc.IH [OF Suc.prems(1) this] Suc.prems(3) False show ?thesis
      using ram by (simp add: load_pte_def Let_def)
  qed
qed

definition entry_addr :: "kconf \<Rightarrow> mem \<Rightarrow> u64 \<Rightarrow> u64 \<Rightarrow> u64" where
  "entry_addr k m root va = (case table k m root (pxs 2 va) of None \<Rightarrow> 0 | Some p \<Rightarrow> p + 8 * PX 0 va)"

lemma walk_lookup: "pt_inv k s root \<Longrightarrow> va < MAXVA \<Longrightarrow> walk k root va False s = Ok (entry_addr k (pmem s) root va, s)"
  using walk_loop_lookup [of k s root "[]" root 2 va] path_pxs [of va]
  by (simp add: walk_def entry_addr_def not_le)

lemma entry_addr_some:
  assumes "pt_inv k s root" and "entry_addr k (pmem s) root va \<noteq> 0"
  obtains p where "table k (pmem s) root (pxs 2 va) = Some p" and "entry_addr k (pmem s) root va = p + 8 * PX 0 va"
    and "leaf k (pmem s) root va = load64 (pmem s) (p + 8 * PX 0 va)" and "in_ram (p + 8 * PX 0 va)"
proof (cases "table k (pmem s) root (pxs 2 va)")
  case None
  then show ?thesis using assms(2) by (simp add: entry_addr_def)
next
  case (Some p)
  then show ?thesis
    using that pt_invD(4) [OF assms(1) path_pxs Some PX_lt] by (simp add: entry_addr_def leaf_def)
qed

lemma leaf_entry:
  assumes "pt_inv k s root" and "leaf k (pmem s) root va AND PTE_V \<noteq> 0"
  shows "entry_addr k (pmem s) root va \<noteq> 0" and "load_pte (entry_addr k (pmem s) root va) s = Ok (leaf k (pmem s) root va)"
proof -
  obtain p where p: "table k (pmem s) root (pxs 2 va) = Some p"
    using assms(2) by (cases "table k (pmem s) root (pxs 2 va)") (auto simp: leaf_def)
  have ram: "in_ram (p + 8 * PX 0 va)"
    using pt_invD(4) [OF assms(1) path_pxs p PX_lt] .
  then have "p + 8 * PX 0 va \<noteq> 0"
    by (auto simp: in_ram_def KERNBASE_def)
  then show "entry_addr k (pmem s) root va \<noteq> 0" and "load_pte (entry_addr k (pmem s) root va) s = Ok (leaf k (pmem s) root va)"
    using p ram by (simp_all add: entry_addr_def leaf_def load_pte_def)
qed

section \<open>Changing memory around the free list\<close>

lemma kmem_frame:
  assumes "kmem_inv kend s" and "freelist s' = freelist s"
    and "\<And>p a. p \<in> free_pages s \<Longrightarrow> in_range p 8 a \<Longrightarrow> pmem s' a = pmem s a"
  shows "kmem_inv kend s'" and "free_pages s' = free_pages s"
proof -
  obtain xs where xs: "kmem_list kend s xs"
    using assms(1) by (auto simp: kmem_inv_def)
  have "load64 (pmem s') x = load64 (pmem s) x" if "x \<in> set xs" for x
    using that free_pages_list [OF xs] assms(3) by (intro load64_cong) simp
  then have "run_list (pmem s') (freelist s') xs"
    using xs assms(2) run_list_cong [of xs "pmem s'" "pmem s"] by (simp add: kmem_list_def)
  then have l: "kmem_list kend s' xs"
    using xs by (simp add: kmem_list_def)
  then show "kmem_inv kend s'"
    by (auto simp: kmem_inv_def)
  show "free_pages s' = free_pages s"
    unfolding free_pages_list [OF xs] free_pages_list [OF l] ..
qed

lemma free_page_ok: "kmem_inv kend s \<Longrightarrow> p \<in> free_pages s \<Longrightarrow> page_ok kend p"
  unfolding kmem_inv_def using free_pages_list [of kend s] by (auto simp: kmem_list_def)

lemma finite_free: "kmem_inv kend s \<Longrightarrow> finite (free_pages s)"
  unfolding kmem_inv_def using free_pages_list [of kend s] by auto

text \<open>A write inside a page that is not free.\<close>

lemma kmem_write:
  assumes "kmem_inv kend s" and "aligned q" and "q \<notin> free_pages s"
    and "freelist s' = freelist s" and "\<And>a. \<not> in_range q 4096 a \<Longrightarrow> pmem s' a = pmem s a"
  shows "kmem_inv kend s'" and "free_pages s' = free_pages s"
proof -
  have "pmem s' a = pmem s a" if p: "p \<in> free_pages s" "in_range p 8 a" for p a
  proof -
    have "aligned p" "p \<noteq> q"
      using free_page_ok [OF assms(1) p(1)] assms(3) p(1) by (auto simp: page_ok_def)
    then show ?thesis
      using pages_apart [of p q a] p(2) assms(2,5) by (auto simp: in_range_def)
  qed
  then show "kmem_inv kend s'" and "free_pages s' = free_pages s"
    using kmem_frame [OF assms(1,4)] by blast+
qed

lemma kalloc_law:
  assumes "kernel_end kend" and "kmem_inv kend s" and "kalloc s = (p, s1)"
  shows "p = 0 \<and> s1 = s \<and> free_pages s = {} \<or>
    p \<noteq> 0 \<and> p \<in> free_pages s \<and> page_ok kend p \<and> free_pages s1 = free_pages s - {p} \<and> kmem_inv kend s1 \<and>
    (\<forall>a. \<not> in_range p 4096 a \<longrightarrow> pmem s1 a = pmem s a)"
proof (cases "free_pages s = {}")
  case True
  obtain xs where xs: "kmem_list kend s xs"
    using assms(2) by (auto simp: kmem_inv_def)
  then have "xs = []"
    using free_pages_list [OF xs] True by simp
  then show ?thesis
    using kalloc_list_Nil xs assms(3) True by simp
next
  case False
  have pos: "0 < kend" by (rule kernel_end_pos [OF assms(1)])
  obtain p' s' where *: "kalloc s = (p', s')" "p' \<in> free_pages s" "free_pages s' = free_pages s - {p'}"
    "kmem_inv kend s'" "\<forall>a. \<not> in_range p' 4096 a \<longrightarrow> pmem s' a = pmem s a"
    using kalloc_contract [OF pos assms(2) False] by blast
  moreover have "page_ok kend p'"
    using free_page_ok [OF assms(2) *(2)] .
  moreover have "p' \<noteq> 0"
    using page_nonzero [OF pos \<open>page_ok kend p'\<close>] .
  ultimately show ?thesis
    using assms(3) by auto
qed

lemma memset_page_other: "\<not> in_range p 4096 a \<Longrightarrow> memset p c (ucast PGSIZE) m a = m a"
  by (simp add: memset_eq PGSIZE_def)

text \<open>A fresh page, cleared.\<close>

lemma fresh_page:
  assumes "kernel_end kend" and "kmem_inv kend s" and "kalloc s = (p, s1)" and "p \<noteq> 0"
  defines "s2 \<equiv> zero_page p s1"
  shows "p \<in> free_pages s" and "page_ok kend p" and "free_pages s2 = free_pages s - {p}" and "kmem_inv kend s2"
    and "\<And>a. \<not> in_range p 4096 a \<Longrightarrow> pmem s2 a = pmem s a"
    and "\<And>a. in_range p 4096 a \<Longrightarrow> pmem s2 a = 0"
    and "\<And>i. i < 512 \<Longrightarrow> load64 (pmem s2) (p + 8 * i) = 0"
proof -
  from kalloc_law [OF assms(1-3)] assms(4) have l: "p \<in> free_pages s" "page_ok kend p" "free_pages s1 = free_pages s - {p}"
    "kmem_inv kend s1" "\<And>a. \<not> in_range p 4096 a \<Longrightarrow> pmem s1 a = pmem s a"
    by auto
  then have al: "aligned p"
    by (simp add: page_ok_def)
  show "p \<in> free_pages s" "page_ok kend p"
    using l by auto
  have fr: "p \<notin> free_pages s1"
    using l(3) by simp
  show "kmem_inv kend s2" "free_pages s2 = free_pages s - {p}"
    using kmem_write [OF l(4) al fr, of s2] memset_page_other l(3) by (auto simp: s2_def zero_page_def)
  show "pmem s2 a = pmem s a" if "\<not> in_range p 4096 a" for a
    using that l(5) by (simp add: s2_def zero_page_def memset_page_other)
  show "pmem s2 a = 0" if "in_range p 4096 a" for a
    using that by (simp add: s2_def zero_page_def memset_eq PGSIZE_def)
  show "load64 (pmem s2) (p + 8 * i) = 0" if "i < 512" for i
    using load_zero_page [OF al that] by (simp add: s2_def zero_page_def)
qed

section \<open>Adding table pages\<close>

text \<open>
  \<open>ext k root s t\<close>: from \<open>s\<close> to \<open>t\<close> the page table has only gained table pages, taken from the free
  ones; every entry of a virtual page is as it was, and so is all memory that was neither free nor
  part of the tables.
\<close>

definition ext :: "kconf \<Rightarrow> u64 \<Rightarrow> kmem \<Rightarrow> kmem \<Rightarrow> bool" where
  "ext k root s t \<longleftrightarrow> pt_inv k t root \<and> free_pages t \<subseteq> free_pages s \<and>
     (\<forall>ps p. path ps \<longrightarrow> table k (pmem s) root ps = Some p \<longrightarrow> table k (pmem t) root ps = Some p) \<and>
     tables k t root \<subseteq> tables k s root \<union> free_pages s \<and>
     (\<forall>va. leaf k (pmem t) root va = leaf k (pmem s) root va) \<and>
     (\<forall>a. (\<forall>p \<in> tables k s root \<union> free_pages s. \<not> in_range p 4096 a) \<longrightarrow> pmem t a = pmem s a)"

lemma ext_refl: "pt_inv k s root \<Longrightarrow> ext k root s s"
  by (simp add: ext_def)

lemma ext_trans: "ext k root s t \<Longrightarrow> ext k root t u \<Longrightarrow> ext k root s u"
  unfolding ext_def by (intro conjI) (blast, blast, blast, blast, simp, metis UnCI UnE subset_iff)

lemma ext_table: "ext k root s t \<Longrightarrow> path ps \<Longrightarrow> table k (pmem s) root ps = Some p \<Longrightarrow> table k (pmem t) root ps = Some p"
  by (simp add: ext_def)

lemma PTE_V_or: "(w OR PTE_V) AND PTE_V \<noteq> 0"
proof -
  have "(w OR PTE_V) AND PTE_V = PTE_V"
    by (rule bit_word_eqI) (auto simp: bit_and_iff bit_or_iff)
  then show ?thesis
    by (simp add: PTE_V_def)
qed

text \<open>One new table page: the entry \<open>i\<close> of the table at \<open>ps\<close> gets the cleared page \<open>q\<close>.\<close>

definition new_table :: "kconf \<Rightarrow> u64 \<Rightarrow> kmem \<Rightarrow> kmem \<Rightarrow> u64 list \<Rightarrow> u64 \<Rightarrow> u64 \<Rightarrow> u64 \<Rightarrow> bool" where
  "new_table k root s t ps i p q \<longleftrightarrow>
     path (ps @ [i]) \<and> table k (pmem s) root ps = Some p \<and> load64 (pmem s) (p + 8 * i) AND PTE_V = 0 \<and>
     q \<in> free_pages s \<and> page_ok (k_end k) q \<and>
     (\<forall>r j. aligned r \<longrightarrow> r \<noteq> q \<longrightarrow> j < 512 \<longrightarrow> r \<noteq> p \<or> j \<noteq> i \<longrightarrow>
        load64 (pmem t) (r + 8 * j) = load64 (pmem s) (r + 8 * j)) \<and>
     (\<forall>j. j < 512 \<longrightarrow> load64 (pmem t) (q + 8 * j) = 0) \<and>
     load64 (pmem t) (p + 8 * i) AND PTE_V \<noteq> 0 \<and> k_pte2pa k (load64 (pmem t) (p + 8 * i)) = q"

lemma new_tableD:
  assumes "new_table k root s t ps i p q"
  shows "path (ps @ [i])" "path ps" "table k (pmem s) root ps = Some p" "load64 (pmem s) (p + 8 * i) AND PTE_V = 0"
    "q \<in> free_pages s" "page_ok (k_end k) q"
    "\<And>r j. aligned r \<Longrightarrow> r \<noteq> q \<Longrightarrow> j < 512 \<Longrightarrow> r \<noteq> p \<or> j \<noteq> i \<Longrightarrow>
       load64 (pmem t) (r + 8 * j) = load64 (pmem s) (r + 8 * j)"
    "\<And>j. j < 512 \<Longrightarrow> load64 (pmem t) (q + 8 * j) = 0"
    "load64 (pmem t) (p + 8 * i) AND PTE_V \<noteq> 0" "k_pte2pa k (load64 (pmem t) (p + 8 * i)) = q"
  using assms path_append by (auto simp: new_table_def)

lemma table_snocE:
  assumes "table k m root (qs @ [j]) = Some r" and "path (qs @ [j])"
  obtains r' where "table k m root qs = Some r'" and "load64 m (r' + 8 * j) AND PTE_V \<noteq> 0"
    and "r = k_pte2pa k (load64 m (r' + 8 * j))" and "path qs" and "j < 512"
  using assms by (auto simp: table_snoc Let_def path_def split: option.splits if_splits)

lemma new_table_old:
  assumes inv: "pt_inv k s root" and n: "new_table k root s t ps i p q"
    and "path qs" and "table k (pmem s) root qs = Some r"
  shows "table k (pmem t) root qs = Some r"
  using assms(3,4)
proof (induction qs arbitrary: r rule: rev_induct)
  case (snoc j qs)
  obtain r' where r': "table k (pmem s) root qs = Some r'" "load64 (pmem s) (r' + 8 * j) AND PTE_V \<noteq> 0"
    "r = k_pte2pa k (load64 (pmem s) (r' + 8 * j))" "path qs" "j < 512"
    using snoc.prems by (blast elim: table_snocE)
  have "r' \<noteq> q" "aligned r'" "r' \<noteq> p \<or> j \<noteq> i"
    using pt_invD(2,3) [OF inv r'(4,1)] new_tableD(4,5) [OF n] r'(2) by auto
  then have "load64 (pmem t) (r' + 8 * j) = load64 (pmem s) (r' + 8 * j)"
    using new_tableD(7) [OF n] r'(5) by blast
  then show ?case
    using snoc.IH [OF r'(4,1)] r' by (simp add: table_snoc Let_def)
qed simp

lemma new_table_only:
  assumes inv: "pt_inv k s root" and n: "new_table k root s t ps i p q"
    and "path qs" and "table k (pmem t) root qs = Some r"
  shows "table k (pmem s) root qs = Some r \<or> qs = ps @ [i] \<and> r = q"
  using assms(3,4)
proof (induction qs arbitrary: r rule: rev_induct)
  case (snoc j qs)
  obtain r' where r': "table k (pmem t) root qs = Some r'" "load64 (pmem t) (r' + 8 * j) AND PTE_V \<noteq> 0"
    "r = k_pte2pa k (load64 (pmem t) (r' + 8 * j))" "path qs" "j < 512"
    using snoc.prems by (blast elim: table_snocE)
  have "r' \<noteq> q"
    using r'(2) new_tableD(8) [OF n r'(5)] by auto
  then have s': "table k (pmem s) root qs = Some r'"
    using snoc.IH [OF r'(4,1)] by simp
  show ?case
  proof (cases "r' = p \<and> j = i")
    case True
    then have "qs = ps"
      using pt_inv_inj [OF inv r'(4) new_tableD(2) [OF n] s'] new_tableD(3) [OF n] by simp
    then show ?thesis
      using True r'(3) new_tableD(10) [OF n] by simp
  next
    case False
    then have "load64 (pmem t) (r' + 8 * j) = load64 (pmem s) (r' + 8 * j)"
      using new_tableD(7) [OF n pt_invD(3) [OF inv r'(4) s'] \<open>r' \<noteq> q\<close> r'(5)] by blast
    then show ?thesis
      using s' r' by (simp add: table_snoc Let_def)
  qed
qed simp

lemma new_table_leaf:
  assumes inv: "pt_inv k s root" and n: "new_table k root s t ps i p q"
  shows "leaf k (pmem t) root va = leaf k (pmem s) root va"
proof (cases "table k (pmem s) root (pxs 2 va)")
  case None
  show ?thesis
  proof (cases "table k (pmem t) root (pxs 2 va)")
    case (Some r)
    then have "r = q"
      using new_table_only [OF inv n path_pxs Some] None by simp
    then show ?thesis
      using None Some new_tableD(8) [OF n PX_lt] by (simp add: leaf_def)
  qed (use None in \<open>simp add: leaf_def\<close>)
next
  case (Some r)
  have "r \<noteq> p"
  proof
    assume "r = p"
    then have "pxs 2 va = ps"
      using pt_inv_inj [OF inv path_pxs new_tableD(2) [OF n] Some] new_tableD(3) [OF n] by simp
    then have "length ps = 2"
      using length_pxs [of 2 va] by metis
    then show False
      using new_tableD(1) [OF n] by (simp add: path_def)
  qed
  moreover have "r \<noteq> q" "aligned r"
    using pt_invD(2,3) [OF inv path_pxs Some] new_tableD(5) [OF n] by auto
  ultimately have "load64 (pmem t) (r + 8 * PX 0 va) = load64 (pmem s) (r + 8 * PX 0 va)"
    using new_tableD(7) [OF n] PX_lt by blast
  then show ?thesis
    using new_table_old [OF inv n path_pxs Some] Some by (simp add: leaf_def)
qed

lemma new_table_inv:
  assumes inv: "pt_inv k s root" and n: "new_table k root s t ps i p q"
    and t: "kmem_inv (k_end k) t" "free_pages t = free_pages s - {q}"
  shows "pt_inv k t root" and "tables k t root \<subseteq> insert q (tables k s root)"
proof -
  show tabs: "tables k t root \<subseteq> insert q (tables k s root)"
    using new_table_only [OF inv n] by (auto simp: tables_def)
  have q: "table k (pmem s) root zs \<noteq> Some q" if "path zs" for zs
    using pt_invD(2) [OF inv that] new_tableD(5) [OF n] by blast
  have "qs = qs'" if "path qs" "path qs'" "table k (pmem t) root qs = Some r" "table k (pmem t) root qs' = Some r" for qs qs' r
    using new_table_only [OF inv n that(1,3)] new_table_only [OF inv n that(2,4)] q that(1,2) pt_inv_inj [OF inv that(1,2)]
    by blast
  then show "pt_inv k t root"
    using tabs inv new_tableD(6) [OF n] t unfolding pt_inv_def by blast
qed

lemma add_table:
  assumes dec: "decodes k" and inv: "pt_inv k s root" and ps: "path (ps @ [i])" and p: "table k (pmem s) root ps = Some p"
    and invalid: "load64 (pmem s) (p + 8 * i) AND PTE_V = 0" and q: "kalloc s = (q, s1)" "q \<noteq> 0"
    and t: "store_pte (p + 8 * i) (PA2PTE q OR PTE_V) (zero_page q s1) = Ok t"
  shows "ext k root s t" and "table k (pmem t) root (ps @ [i]) = Some q" and "free_pages t = free_pages s - {q}"
proof -
  let ?s2 = "zero_page q s1" and ?e = "p + 8 * i"
  have kend: "kernel_end (k_end k)" and kinv: "kmem_inv (k_end k) s"
    using inv by (auto simp: pt_inv_def)
  note fresh = fresh_page [OF kend kinv q]
  note pd = pt_invD [OF inv path_append [OF ps] p]
  have i: "i < 512" using ps by (auto simp: path_def)
  have alq: "aligned q" and pq: "p \<noteq> q"
    using fresh(1,2) pd(2) by (auto simp: page_ok_def)
  have tm: "pmem t = store64 ?e (PA2PTE q OR PTE_V) (pmem ?s2)" and tf: "freelist t = freelist ?s2"
    using t by (auto simp: store_pte_def split: if_splits)
  have other: "pmem t a = pmem ?s2 a" if "\<not> in_range p 4096 a" for a
    using that store64_other entry_in_page [OF pd(3) i] by (metis tm)
  have ent: "load64 (pmem t) (r + 8 * j) = load64 (pmem ?s2) (r + 8 * j)"
    if r: "aligned r" "j < 512" "r \<noteq> p \<or> j \<noteq> i" for r j
    unfolding tm using entries_apart [OF pd(3) r(1) i r(2)] r(3) by (intro load64_store64_other) blast
  have old: "load64 (pmem ?s2) (r + 8 * j) = load64 (pmem s) (r + 8 * j)" if r: "aligned r" "r \<noteq> q" "j < 512" for r j
    using entry_in_page [OF r(1,3)] pages_apart [OF r(1) alq r(2)] fresh(5) by (intro load64_cong) blast
  have n: "new_table k root s t ps i p q"
    unfolding new_table_def
  proof (intro conjI allI impI)
    show "load64 (pmem t) (p + 8 * i) AND PTE_V \<noteq> 0" "k_pte2pa k (load64 (pmem t) (p + 8 * i)) = q"
      using PTE_V_or dec alq by (simp_all add: tm decodes_def PTE_V_def)
    show "load64 (pmem t) (q + 8 * j) = 0" if "j < 512" for j
      using ent [OF alq that] pq fresh(7) [OF that] by simp
  qed (use ps p invalid fresh(1,2) ent old in simp_all)
  have "p \<notin> free_pages ?s2"
    using pd(2) fresh(3) by simp
  note kt = kmem_write [OF fresh(4) pd(3) this tf other, unfolded fresh(3)]
  note invt = new_table_inv [OF inv n kt]
  show "free_pages t = free_pages s - {q}"
    by (rule kt)
  show "table k (pmem t) root (ps @ [i]) = Some q"
    using new_table_old [OF inv n path_append [OF ps] p] new_tableD(9,10) [OF n] by (simp add: table_snoc Let_def)
  have "p \<in> tables k s root"
    using p path_append [OF ps] by (auto simp: tables_def)
  then have mem: "pmem t a = pmem s a" if "\<forall>r \<in> tables k s root \<union> free_pages s. \<not> in_range r 4096 a" for a
    using that other [of a] fresh(1) fresh(5) [of a] by auto
  show "ext k root s t"
    unfolding ext_def
    using invt kt(2) fresh(1) new_table_old [OF inv n] new_table_leaf [OF inv n] mem by blast
qed

text \<open>A walk takes at most one page for each level below, and gives up only when none is left.\<close>

lemma walk_loop_alloc:
  assumes "decodes k" and "pt_inv k s root" and "table k (pmem s) root ps = Some pt" and "path (ps @ pxs l va)"
  shows "\<exists>e t. walk_loop k True va l pt s = Ok (e, t) \<and> ext k root s t \<and> card (free_pages s) \<le> card (free_pages t) + l \<and>
    (e = 0 \<and> free_pages t = {} \<or> (\<exists>p. table k (pmem t) root (ps @ pxs l va) = Some p \<and> e = p + 8 * PX 0 va))"
  using assms(2-)
proof (induction l arbitrary: pt ps s)
  case 0
  then show ?case using ext_refl by auto
next
  case (Suc l)
  let ?i = "PX (Suc l) va" and ?e = "pt + 8 * PX (Suc l) va"
  let ?w = "load64 (pmem s) ?e"
  have pp: "path (ps @ [?i])" "path ps" and pl: "path ((ps @ [?i]) @ pxs l va)"
    using Suc.prems(3) path_append [of "ps @ [?i]" "pxs l va"] path_append [of ps] by simp_all
  have ram: "in_ram ?e"
    using pt_invD(4) [OF Suc.prems(1) pp(2) Suc.prems(2)] PX_lt by blast
  show ?case
  proof (cases "?w AND PTE_V = 0")
    case False
    then have "table k (pmem s) root (ps @ [?i]) = Some (k_pte2pa k ?w)"
      using Suc.prems(2) by (simp add: table_snoc Let_def)
    from Suc.IH [OF Suc.prems(1) this pl] obtain e t where
      "walk_loop k True va l (k_pte2pa k ?w) s = Ok (e, t)" "ext k root s t" "card (free_pages s) \<le> card (free_pages t) + l"
      "e = 0 \<and> free_pages t = {} \<or> (\<exists>p. table k (pmem t) root ((ps @ [?i]) @ pxs l va) = Some p \<and> e = p + 8 * PX 0 va)"
      by blast
    then show ?thesis
      using False ram by (intro exI [of _ e] exI [of _ t]) (simp add: load_pte_def Let_def)
  next
    case True
    obtain q s1 where q: "kalloc s = (q, s1)" by fastforce
    have kl: "kernel_end (k_end k)" "kmem_inv (k_end k) s"
      using Suc.prems(1) by (auto simp: pt_inv_def)
    show ?thesis
    proof (cases "q = 0")
      case z: True
      then have "s1 = s" "free_pages s = {}"
        using kalloc_law [OF kl q] by auto
      then show ?thesis
        using True q z ram ext_refl [OF Suc.prems(1)] by (simp add: load_pte_def Let_def)
    next
      case nz: False
      obtain t where t: "store_pte ?e (PA2PTE q OR PTE_V) (zero_page q s1) = Ok t"
        using ram by (simp add: store_pte_def)
      note at = add_table [OF assms(1) Suc.prems(1) pp(1) Suc.prems(2) True q nz t]
      have "pt_inv k t root"
        using at(1) by (simp add: ext_def)
      from Suc.IH [OF this at(2) pl] obtain e u where u:
        "walk_loop k True va l q t = Ok (e, u)" "ext k root t u" "card (free_pages t) \<le> card (free_pages u) + l"
        "e = 0 \<and> free_pages u = {} \<or> (\<exists>p. table k (pmem u) root ((ps @ [?i]) @ pxs l va) = Some p \<and> e = p + 8 * PX 0 va)"
        by blast
      have "card (free_pages s) \<le> Suc (card (free_pages t))"
        using card_Suc_Diff1 [OF finite_free [OF kl(2)] fresh_page(1) [OF kl q nz]] unfolding at(3) by simp
      then show ?thesis
        using True q nz t ram ext_trans [OF at(1) u(2)] u(1,3,4) by (auto simp: load_pte_def Let_def)
    qed
  qed
qed

lemma walk_alloc:
  assumes "decodes k" and "pt_inv k s root" and "va < MAXVA"
  obtains t where "walk k root va True s = Ok (0, t)" and "ext k root s t" and "card (free_pages s) \<le> 2" and "free_pages t = {}"
  | p t where "walk k root va True s = Ok (p + 8 * PX 0 va, t)" and "ext k root s t"
    and "table k (pmem t) root (pxs 2 va) = Some p" and "card (free_pages s) \<le> card (free_pages t) + 2"
  using walk_loop_alloc [OF assms(1,2), of "[]" root 2 va] path_pxs [of va] assms(3) that
  by (auto simp: walk_def not_le)

section \<open>Storing the entry of a page\<close>

definition same_page :: "u64 \<Rightarrow> u64 \<Rightarrow> bool" where
  "same_page va va' \<longleftrightarrow> unat va div 4096 = unat va' div 4096"

lemma bit_PX: "bit (PX l va) n \<longleftrightarrow> n < 9 \<and> bit va (12 + 9 * l + n)"
proof -
  have m: "(0x1FF :: u64) = mask 9"
    by (simp add: mask_eq_exp_minus_1)
  show ?thesis
    by (auto simp: PX_def m bit_simps)
qed

lemma bit_word_eq_PX: "PX l va = PX l va' \<longleftrightarrow> (\<forall>n < 9. bit va (12 + 9 * l + n) = bit va' (12 + 9 * l + n))"
proof
  assume eq: "PX l va = PX l va'"
  show "\<forall>n < 9. bit va (12 + 9 * l + n) = bit va' (12 + 9 * l + n)"
  proof (intro allI impI)
    fix n :: nat
    assume "n < 9"
    then show "bit va (12 + 9 * l + n) = bit va' (12 + 9 * l + n)"
      using arg_cong [OF eq, of "\<lambda>x. bit x n"] by (simp add: bit_PX)
  qed
next
  assume "\<forall>n < 9. bit va (12 + 9 * l + n) = bit va' (12 + 9 * l + n)"
  then show "PX l va = PX l va'"
    by (intro bit_word_eqI) (auto simp: bit_PX)
qed

lemma bit_MAXVA: "va < MAXVA \<Longrightarrow> bit va n \<Longrightarrow> n < 38"
proof (rule ccontr)
  assume a: "va < MAXVA" "bit va n" "\<not> n < 38"
  have "unat va < 2 ^ 38"
    using a(1) by (simp add: word_less_nat_alt unat_MAXVA)
  then have "take_bit 38 (unat va) = unat va"
    by (simp add: take_bit_nat_eq_self)
  then have "\<not> bit (unat va) n"
    using a(3) by (metis bit_take_bit_iff)
  then show False
    using a(2) by (simp add: bit_unsigned_iff)
qed

lemma word_eq_iff_bits_drop: "drop_bit k v = drop_bit k w \<longleftrightarrow> (\<forall>n. bit v (k + n) = bit w (k + n))"
  for v w :: u64
proof
  assume eq: "drop_bit k v = drop_bit k w"
  show "\<forall>n. bit v (k + n) = bit w (k + n)"
    using arg_cong [OF eq, of "\<lambda>x. bit x n" for n] by (simp add: bit_drop_bit_eq)
next
  assume "\<forall>n. bit v (k + n) = bit w (k + n)"
  then show "drop_bit k v = drop_bit k w"
    by (intro bit_word_eqI) (simp add: bit_drop_bit_eq)
qed

lemma same_page_PX:
  assumes "va < MAXVA" and "va' < MAXVA"
  shows "same_page va va' \<longleftrightarrow> pxs 2 va = pxs 2 va' \<and> PX 0 va = PX 0 va'"
proof -
  have d: "unat va div 4096 = unat (drop_bit 12 va)" for va :: u64
    by (simp add: drop_bit_eq_div unat_div_distrib)
  have hi: "bit va (12 + n) = bit va' (12 + n)" if "\<not> n < 27" for n
    using bit_MAXVA [OF assms(1), of "12 + n"] bit_MAXVA [OF assms(2), of "12 + n"] that by linarith
  have split: "\<exists>l < 3. \<exists>j < 9. n = 9 * l + j" if "n < 27" for n :: nat
    using that by (intro exI [of _ "n div 9"] conjI exI [of _ "n mod 9"]) (simp_all add: less_mult_imp_div_less)
  have "same_page va va' \<longleftrightarrow> drop_bit 12 va = drop_bit 12 va'"
    unfolding same_page_def d by (simp only: word_unat_eq_iff)
  also have "\<dots> \<longleftrightarrow> (\<forall>n. bit va (12 + n) = bit va' (12 + n))"
    by (simp add: word_eq_iff_bits_drop)
  also have "\<dots> \<longleftrightarrow> (\<forall>n < 27. bit va (12 + n) = bit va' (12 + n))"
    using hi by blast
  also have "\<dots> \<longleftrightarrow> (\<forall>l < 3. \<forall>n < 9. bit va (12 + (9 * l + n)) = bit va' (12 + (9 * l + n)))"
    (is "?L \<longleftrightarrow> ?R")
  proof
    assume ?L
    then show ?R by simp
  next
    assume ?R
    then show ?L using split by blast
  qed
  also have "\<dots> \<longleftrightarrow> (\<forall>l < 3. \<forall>n < 9. bit va (12 + 9 * l + n) = bit va' (12 + 9 * l + n))"
    by (simp only: add.assoc)
  also have "\<dots> \<longleftrightarrow> (\<forall>l < 3. PX l va = PX l va')"
    using bit_PX by (simp only: bit_word_eq_PX)
  also have "\<dots> \<longleftrightarrow> PX 2 va = PX 2 va' \<and> PX 1 va = PX 1 va' \<and> PX 0 va = PX 0 va'"
    by (auto simp: numeral_3_eq_3 less_Suc_eq numeral_2_eq_2)
  finally show ?thesis
    by (simp add: numeral_2_eq_2 conj_assoc)
qed

lemma store_leaf:
  assumes inv: "pt_inv k s root" and p: "table k (pmem s) root (pxs 2 va) = Some p"
    and t: "store_pte (p + 8 * PX 0 va) w s = Ok t"
  shows "pt_inv k t root" and "free_pages t = free_pages s"
    and "\<And>qs. path qs \<Longrightarrow> table k (pmem t) root qs = table k (pmem s) root qs"
    and "leaf k (pmem t) root va' = (if pxs 2 va = pxs 2 va' \<and> PX 0 va = PX 0 va' then w else leaf k (pmem s) root va')"
    and "\<And>a. \<not> in_range p 4096 a \<Longrightarrow> pmem t a = pmem s a"
proof -
  note pd = pt_invD [OF inv path_pxs p]
  have tm: "pmem t = store64 (p + 8 * PX 0 va) w (pmem s)" and tf: "freelist t = freelist s"
    using t by (auto simp: store_pte_def split: if_splits)
  show other: "pmem t a = pmem s a" if "\<not> in_range p 4096 a" for a
    using that store64_other entry_in_page [OF pd(3) PX_lt] by (metis tm)
  have kinv: "kmem_inv (k_end k) s"
    using inv by (simp add: pt_inv_def)
  note kt = kmem_write [OF kinv pd(3,2) tf other]
  show "free_pages t = free_pages s" by (rule kt)
  have ent: "load64 (pmem t) (r + 8 * j) = load64 (pmem s) (r + 8 * j)" if "aligned r" "j < 512" "r \<noteq> p \<or> j \<noteq> PX 0 va" for r j
    unfolding tm using entries_apart [OF pd(3) that(1) PX_lt [of 0 va] that(2)] that(3) by (intro load64_store64_other) auto
  show tab: "table k (pmem t) root qs = table k (pmem s) root qs" if "path qs" for qs
    using that
  proof (induction qs rule: rev_induct)
    case (snoc j qs)
    then have qs: "path qs" "j < 512" "length qs < 2"
      by (auto simp: path_def)
    show ?case
    proof (cases "table k (pmem s) root qs")
      case (Some r)
      have "qs \<noteq> pxs 2 va"
        using qs(3) length_pxs [of 2 va] by (metis nat_neq_iff)
      then have "r \<noteq> p"
        using pt_inv_inj [OF inv qs(1) path_pxs Some] p by blast
      then show ?thesis
        using snoc.IH [OF qs(1)] ent [OF pt_invD(3) [OF inv qs(1) Some] qs(2)] Some by (simp add: table_snoc)
    qed (use snoc.IH [OF qs(1)] in \<open>simp add: table_snoc\<close>)
  qed simp
  show "pt_inv k t root"
  proof -
    have "tables k t root = tables k s root"
      using tab by (auto simp: tables_def)
    then show ?thesis
      using inv kt tab unfolding pt_inv_def by simp
  qed
  show "leaf k (pmem t) root va' = (if pxs 2 va = pxs 2 va' \<and> PX 0 va = PX 0 va' then w else leaf k (pmem s) root va')"
  proof (cases "table k (pmem s) root (pxs 2 va')")
    case None
    then show ?thesis
      using tab [OF path_pxs, of va'] p by (auto simp: leaf_def)
  next
    case (Some r)
    then have tr: "table k (pmem t) root (pxs 2 va') = Some r"
      using tab [OF path_pxs] by simp
    show ?thesis
    proof (cases "pxs 2 va = pxs 2 va' \<and> PX 0 va = PX 0 va'")
      case True
      then have "r = p"
        using Some p by simp
      then show ?thesis
        using True tr by (simp add: leaf_def tm)
    next
      case False
      then have "r \<noteq> p \<or> PX 0 va' \<noteq> PX 0 va"
        using pt_inv_inj [OF inv path_pxs path_pxs p, of va'] Some by metis
      then have "load64 (pmem t) (r + 8 * PX 0 va') = load64 (pmem s) (r + 8 * PX 0 va')"
        using ent [OF pt_invD(3) [OF inv path_pxs Some] PX_lt] by blast
      then show ?thesis
        using False tr Some by (auto simp: leaf_def)
    qed
  qed
qed

end
