(* ===== verification/Vm_Maps.thy ===== *)
theory Vm_Maps
  imports Vm_Tables
begin

text \<open>
  What the mapping and unmapping functions of \<^verbatim>\<open>kernel/vm.c\<close> do to the map from virtual pages to
  entries, what they take from and give back to the allocator, and which memory they leave alone.
\<close>

section \<open>Growing and keeping a page table\<close>

definition grow :: "kconf \<Rightarrow> u64 \<Rightarrow> kmem \<Rightarrow> kmem \<Rightarrow> bool" where
  "grow k root s t \<longleftrightarrow> pt_inv k t root \<and> free_pages t \<subseteq> free_pages s \<and>
     tables k s root \<subseteq> tables k t root \<and> tables k t root \<subseteq> tables k s root \<union> free_pages s \<and>
     (\<forall>a. (\<forall>p \<in> tables k s root \<union> free_pages s. \<not> in_range p 4096 a) \<longrightarrow> pmem t a = pmem s a)"

lemma growD:
  assumes "grow k root s t"
  shows "pt_inv k t root" and "free_pages t \<subseteq> free_pages s" and "tables k s root \<subseteq> tables k t root"
    and "tables k t root \<subseteq> tables k s root \<union> free_pages s"
    and "\<And>a. (\<And>p. p \<in> tables k s root \<union> free_pages s \<Longrightarrow> \<not> in_range p 4096 a) \<Longrightarrow> pmem t a = pmem s a"
  using assms by (simp_all add: grow_def)

lemma grow_refl: "pt_inv k s root \<Longrightarrow> grow k root s s"
  by (simp add: grow_def)

lemma grow_trans:
  assumes "grow k root s t" and "grow k root t u"
  shows "grow k root s u"
  unfolding grow_def
proof (intro conjI allI impI)
  note s = growD [OF assms(1)] and t = growD [OF assms(2)]
  show "free_pages u \<subseteq> free_pages s" "tables k s root \<subseteq> tables k u root"
    using s(2,3) t(2,3) by auto
  show "tables k u root \<subseteq> tables k s root \<union> free_pages s"
    using s(2,4) t(4) by auto
  show "pmem u a = pmem s a" if "\<forall>p \<in> tables k s root \<union> free_pages s. \<not> in_range p 4096 a" for a
  proof -
    have "pmem u a = pmem t a"
      using that s(2,4) by (intro t(5)) auto
    also have "\<dots> = pmem s a"
      using that by (intro s(5)) auto
    finally show ?thesis .
  qed
qed (rule growD(1) [OF assms(2)])

lemma ext_grow: "ext k root s t \<Longrightarrow> grow k root s t"
  unfolding ext_def grow_def tables_def by blast

lemma store_leaf_grow:
  assumes "pt_inv k s root" and "table k (pmem s) root (pxs 2 va) = Some p"
    and "store_pte (p + 8 * PX 0 va) w s = Ok t"
  shows "grow k root s t" and "tables k t root = tables k s root"
proof -
  note st = store_leaf [OF assms]
  show tab: "tables k t root = tables k s root"
    using st(3) by (auto simp: tables_def)
  have "p \<in> tables k s root"
    using assms(2) path_pxs by (auto simp: tables_def)
  then show "grow k root s t"
    using st(1,2,5) tab by (auto simp: grow_def)
qed

text \<open>A page table does not change when memory outside its pages does.\<close>

lemma table_frame:
  assumes "pt_inv k s root" and "\<And>p a. p \<in> tables k s root \<Longrightarrow> in_range p 4096 a \<Longrightarrow> m a = pmem s a" and "path ps"
  shows "table k m root ps = table k (pmem s) root ps"
  using assms(3)
proof (induction ps rule: rev_induct)
  case (snoc j ps)
  then have ps: "path ps" "j < 512"
    by (auto simp: path_def)
  show ?case
  proof (cases "table k (pmem s) root ps")
    case (Some r)
    then have "r \<in> tables k s root"
      using ps by (auto simp: tables_def)
    then have "load64 m (r + 8 * j) = load64 (pmem s) (r + 8 * j)"
      using assms(2) entry_in_page [OF pt_invD(3) [OF assms(1) ps(1) Some] ps(2)] by (intro load64_cong) blast
    then show ?thesis
      using snoc.IH [OF ps(1)] Some by (simp add: table_snoc)
  qed (use snoc.IH [OF ps(1)] in \<open>simp add: table_snoc\<close>)
qed simp

lemma pt_frame:
  assumes "pt_inv k s root" and "\<forall>p \<in> tables k s root. \<forall>a. in_range p 4096 a \<longrightarrow> pmem t a = pmem s a"
    and "kmem_inv (k_end k) t" and "tables k s root \<inter> free_pages t = {}"
  shows "pt_inv k t root" and "tables k t root = tables k s root" and "leaf k (pmem t) root va = leaf k (pmem s) root va"
    and "entry_addr k (pmem t) root va = entry_addr k (pmem s) root va"
proof -
  have tf: "table k (pmem t) root ps = table k (pmem s) root ps" if "path ps" for ps
    using table_frame [OF assms(1) _ that, of "pmem t"] assms(2) by blast
  show tab: "tables k t root = tables k s root"
    using tf by (auto simp: tables_def)
  have inj: "ps = qs" if "path ps" "path qs" "table k (pmem t) root ps = Some p" "table k (pmem t) root qs = Some p" for ps qs p
    by (rule pt_inv_inj [OF assms(1) that(1,2), of p]) (use that(3,4) tf [OF that(1)] tf [OF that(2)] in simp_all)
  have "\<forall>p \<in> tables k s root. page_ok (k_end k) p \<and> p \<notin> free_pages t"
    using assms(1,4) unfolding pt_inv_def by blast
  moreover have "kernel_end (k_end k)"
    using assms(1) by (simp add: pt_inv_def)
  ultimately show "pt_inv k t root"
    using assms(3) inj unfolding pt_inv_def tab by blast
  show "entry_addr k (pmem t) root va = entry_addr k (pmem s) root va"
    using tf [OF path_pxs] by (simp add: entry_addr_def)
  show "leaf k (pmem t) root va = leaf k (pmem s) root va"
  proof (cases "table k (pmem s) root (pxs 2 va)")
    case (Some p)
    then have "p \<in> tables k s root"
      using path_pxs by (auto simp: tables_def)
    then have "load64 (pmem t) (p + 8 * PX 0 va) = load64 (pmem s) (p + 8 * PX 0 va)"
      using assms(2) entry_in_page [OF pt_invD(3) [OF assms(1) path_pxs Some] PX_lt] by (intro load64_cong) blast
    then show ?thesis
      using tf [OF path_pxs, of va] Some by (simp add: leaf_def)
  qed (use tf [OF path_pxs, of va] in \<open>simp add: leaf_def\<close>)
qed

section \<open>Mapping\<close>

definition in_pages :: "u64 \<Rightarrow> nat \<Rightarrow> u64 \<Rightarrow> bool" where
  "in_pages a n va \<longleftrightarrow> unat a \<le> unat va \<and> unat va < unat a + 4096 * n"

lemma in_pages_1: "aligned a \<Longrightarrow> in_pages a 1 va \<longleftrightarrow> same_page a va"
  using in_page_iff [of a va] page_range [of a va] by (auto simp: in_pages_def same_page_def)

lemma in_pages_Suc:
  assumes "aligned a" and "unat (a + PGSIZE) = unat a + 4096"
  shows "in_pages a (Suc n) va \<longleftrightarrow> same_page a va \<or> in_pages (a + PGSIZE) n va"
    and "same_page a va \<Longrightarrow> \<not> in_pages (a + PGSIZE) n va"
  using in_pages_1 [OF assms(1), of va] assms(2) by (auto simp: in_pages_def)

lemma aligned_next: "aligned a \<Longrightarrow> unat (a + PGSIZE) = unat a + 4096 \<Longrightarrow> aligned (a + PGSIZE)"
  by (simp add: aligned_nat)

text \<open>The entry that the page of \<open>va\<close> gets when pages from \<open>a\<close> on are mapped to \<open>pa\<close> on.\<close>

definition new_entry :: "u64 \<Rightarrow> u64 \<Rightarrow> u64 \<Rightarrow> u64 \<Rightarrow> u64" where
  "new_entry a pa perm va = PA2PTE (pa + of_nat (4096 * ((unat va - unat a) div 4096))) OR perm OR PTE_V"

lemma new_entry_first: "same_page a va \<Longrightarrow> aligned a \<Longrightarrow> new_entry a pa perm va = PA2PTE pa OR perm OR PTE_V"
proof -
  assume "same_page a va" "aligned a"
  then have "unat va - unat a < 4096"
    using in_pages_1 [of a va] by (auto simp: in_pages_def)
  then have "(unat va - unat a) div 4096 = 0"
    by (rule div_less)
  then show ?thesis
    by (simp add: new_entry_def)
qed

lemma new_entry_rest:
  assumes "unat (a + PGSIZE) = unat a + 4096" and "in_pages (a + PGSIZE) n va"
  shows "new_entry (a + PGSIZE) (pa + PGSIZE) perm va = new_entry a pa perm va"
proof -
  have "unat va - unat a = (unat va - unat (a + PGSIZE)) + 4096"
    using assms by (simp add: in_pages_def)
  then have "(unat va - unat a) div 4096 = Suc ((unat va - unat (a + PGSIZE)) div 4096)"
    by simp
  then show ?thesis
    by (simp add: new_entry_def PGSIZE_def algebra_simps)
qed

lemma map_one:
  assumes "decodes k" and "pt_inv k s root" and "a < MAXVA" and "leaf k (pmem s) root a AND PTE_V = 0"
  obtains t where "mappages_loop k root a lst pa perm s = Ok (- 1, t)" and "ext k root s t" and "free_pages t = {}"
    and "card (free_pages s) \<le> 2"
  | t where "mappages_loop k root a lst pa perm s =
        (if a = lst then Ok (0, t) else mappages_loop k root (a + PGSIZE) lst (pa + PGSIZE) perm t)"
    and "grow k root s t" and "card (free_pages s) \<le> card (free_pages t) + 2"
    and "\<And>va. va < MAXVA \<Longrightarrow>
      leaf k (pmem t) root va = (if same_page a va then PA2PTE pa OR perm OR PTE_V else leaf k (pmem s) root va)"
proof (cases rule: walk_alloc [OF assms(1-3)])
  case (1 t)
  then show ?thesis
    using that(1) by (simp add: mappages_loop.simps [of k root a])
next
  case (2 p t)
  have inv: "pt_inv k t root" and leaf: "leaf k (pmem t) root va = leaf k (pmem s) root va" for va
    using 2(2) by (auto simp: ext_def)
  have ram: "in_ram (p + 8 * PX 0 a)"
    using pt_invD(4) [OF inv path_pxs 2(3) PX_lt] .
  then have nz: "p + 8 * PX 0 a \<noteq> 0"
    by (auto simp: in_ram_def KERNBASE_def)
  have ld: "load_pte (p + 8 * PX 0 a) t = Ok (leaf k (pmem s) root a)"
    using ram 2(3) leaf [of a] by (simp add: load_pte_def leaf_def [of k "pmem t"])
  obtain u where u: "store_pte (p + 8 * PX 0 a) (PA2PTE pa OR perm OR PTE_V) t = Ok u"
    using ram by (simp add: store_pte_def)
  have "mappages_loop k root a lst pa perm s =
      (if a = lst then Ok (0, u) else mappages_loop k root (a + PGSIZE) lst (pa + PGSIZE) perm u)"
    using 2(1) nz ld assms(4) u by (simp add: mappages_loop.simps [of k root a])
  moreover have "grow k root s u" "card (free_pages s) \<le> card (free_pages u) + 2"
    using grow_trans [OF ext_grow [OF 2(2)] store_leaf_grow(1) [OF inv 2(3) u]] store_leaf(2) [OF inv 2(3) u] 2(4) by simp_all
  moreover have "leaf k (pmem u) root va = (if same_page a va then PA2PTE pa OR perm OR PTE_V else leaf k (pmem s) root va)"
    if "va < MAXVA" for va
    using store_leaf(4) [OF inv 2(3) u, of va] same_page_PX [OF assms(3) that] leaf by simp
  ultimately show ?thesis
    by (rule that(2))
qed

lemma mappages_loop_law:
  assumes "decodes k" and "pt_inv k s root" and "aligned a" and "unat a + 4096 * Suc n \<le> 2 ^ 38"
    and "unat lst = unat a + 4096 * n"
    and "\<And>va. va < MAXVA \<Longrightarrow> in_pages a (Suc n) va \<Longrightarrow> leaf k (pmem s) root va AND PTE_V = 0"
  shows "\<exists>r t j. mappages_loop k root a lst pa perm s = Ok (r, t) \<and> grow k root s t \<and>
    card (free_pages s) \<le> card (free_pages t) + 2 * Suc n \<and>
    (r = 0 \<and> j = Suc n \<or> r = - 1 \<and> j \<le> n \<and> free_pages t = {}) \<and>
    (\<forall>va < MAXVA. leaf k (pmem t) root va = (if in_pages a j va then new_entry a pa perm va else leaf k (pmem s) root va))"
  using assms(2-)
proof (induction n arbitrary: a pa s)
  case 0
  have a: "a < MAXVA" "a = lst"
    using "0.prems"(3,4) by (simp_all add: word_less_nat_alt unat_MAXVA word_unat_eq_iff)
  have "leaf k (pmem s) root a AND PTE_V = 0"
    using "0.prems"(5) [OF a(1)] by (simp add: in_pages_def)
  then show ?case
  proof (cases rule: map_one [OF assms(1) "0.prems"(1) a(1), of lst pa perm, consumes 1])
    case (1 t)
    then show ?thesis
      using ext_grow [of k root s t] by (auto simp: ext_def in_pages_def intro!: exI [of _ 0])
  next
    case (2 t)
    then show ?thesis
      using a(2) in_pages_1 [OF "0.prems"(2)] new_entry_first [OF _ "0.prems"(2)] by auto
  qed
next
  case (Suc n)
  have a: "a < MAXVA" "a \<noteq> lst"
    using Suc.prems(3,4) by (auto simp: word_less_nat_alt unat_MAXVA)
  note np = next_page [OF a(1)]
  note al = aligned_next [OF Suc.prems(2) np]
  have "leaf k (pmem s) root a AND PTE_V = 0"
    using Suc.prems(5) [OF a(1)] by (simp add: in_pages_def)
  then show ?case
  proof (cases rule: map_one [OF assms(1) Suc.prems(1) a(1), of lst pa perm, consumes 1])
    case (1 t)
    then show ?thesis
      using ext_grow [of k root s t] by (auto simp: ext_def in_pages_def intro!: exI [of _ 0])
  next
    case (2 t)
    have inv: "pt_inv k t root"
      using 2(2) by (simp add: grow_def)
    have un: "leaf k (pmem t) root va AND PTE_V = 0" if "va < MAXVA" "in_pages (a + PGSIZE) (Suc n) va" for va
      using 2(4) [OF that(1)] that Suc.prems(5) [OF that(1)] in_pages_Suc [OF Suc.prems(2) np, where n = "Suc n" and va = va] by auto
    have "unat (a + PGSIZE) + 4096 * Suc n \<le> 2 ^ 38" "unat lst = unat (a + PGSIZE) + 4096 * n"
      using Suc.prems(3,4) np by simp_all
    from Suc.IH [OF inv al this un, of "pa + PGSIZE"] obtain r u j where u:
      "mappages_loop k root (a + PGSIZE) lst (pa + PGSIZE) perm t = Ok (r, u)" "grow k root t u"
      "card (free_pages t) \<le> card (free_pages u) + 2 * Suc n"
      "r = 0 \<and> j = Suc n \<or> r = - 1 \<and> j \<le> n \<and> free_pages u = {}"
      "\<And>va. va < MAXVA \<Longrightarrow> leaf k (pmem u) root va =
         (if in_pages (a + PGSIZE) j va then new_entry (a + PGSIZE) (pa + PGSIZE) perm va else leaf k (pmem t) root va)"
      by blast
    have "leaf k (pmem u) root va = (if in_pages a (Suc j) va then new_entry a pa perm va else leaf k (pmem s) root va)"
      if "va < MAXVA" for va
      using u(5) [OF that] 2(4) [OF that] in_pages_Suc [OF Suc.prems(2) np, where n = j and va = va]
        new_entry_first [of a va pa perm] Suc.prems(2) new_entry_rest [OF np, of j va pa perm] by auto
    then show ?thesis
      using u(1,3,4) a(2) 2(1,3) grow_trans [OF 2(2) u(2)] by (intro exI [of _ r] exI [of _ u] exI [of _ "Suc j"]) auto
  qed
qed

lemma grow_page:
  assumes "pt_inv k s root" and "grow k root s t" and "aligned q" and "q \<notin> tables k s root" and "q \<notin> free_pages s"
    and "in_range q 4096 a"
  shows "pmem t a = pmem s a"
proof (rule growD(5) [OF assms(2)])
  fix p
  assume p: "p \<in> tables k s root \<union> free_pages s"
  then have "aligned p"
    using assms(1) free_page_ok [of "k_end k" s p] by (auto simp: pt_inv_def page_ok_def)
  then show "\<not> in_range p 4096 a"
    using pages_apart [OF assms(3) _ _ assms(6)] assms(4,5) p by blast
qed

section \<open>Unmapping\<close>

text \<open>The entries of \<open>n\<close> pages from \<open>a\<close> on, and that they are leaves of pages in use by nobody else.\<close>

definition uentries :: "kconf \<Rightarrow> kmem \<Rightarrow> u64 \<Rightarrow> u64 \<Rightarrow> nat \<Rightarrow> u64 list" where
  "uentries k s root a n = map (\<lambda>i. leaf k (pmem s) root (a + of_nat (4096 * i))) [0..<n]"

abbreviation upages :: "kconf \<Rightarrow> kmem \<Rightarrow> u64 \<Rightarrow> u64 \<Rightarrow> nat \<Rightarrow> u64 list" where
  "upages k s root a n \<equiv> map (k_pte2pa k) (uentries k s root a n)"

definition own_page :: "kconf \<Rightarrow> kmem \<Rightarrow> u64 \<Rightarrow> u64 \<Rightarrow> bool" where
  "own_page k s root q \<longleftrightarrow> page_ok (k_end k) q \<and> q \<notin> free_pages s \<and> q \<notin> tables k s root"

definition uspan :: "kconf \<Rightarrow> kmem \<Rightarrow> u64 \<Rightarrow> u64 \<Rightarrow> nat \<Rightarrow> bool" where
  "uspan k s root a n \<longleftrightarrow>
     (\<forall>w \<in> set (uentries k s root a n). w AND PTE_V \<noteq> 0 \<and> PTE_FLAGS w \<noteq> PTE_V) \<and>
     distinct (upages k s root a n) \<and> (\<forall>q \<in> set (upages k s root a n). own_page k s root q)"

lemma uentries_0 [simp]: "uentries k s root a 0 = []"
  by (simp add: uentries_def)

lemma length_uentries [simp]: "length (uentries k s root a n) = n"
  by (simp add: uentries_def)

lemma uentries_Suc: "uentries k s root a (Suc n) = leaf k (pmem s) root a # uentries k s root (a + PGSIZE) n"
  by (simp add: uentries_def upt_conv_Cons map_Suc_upt [symmetric] PGSIZE_def algebra_simps del: upt_Suc)

lemma uentries_snoc: "uentries k s root a (Suc n) = uentries k s root a n @ [leaf k (pmem s) root (a + of_nat (4096 * n))]"
  by (simp add: uentries_def)

lemma page_i:
  assumes "i < n" and "unat a + 4096 * n \<le> 2 ^ 38"
  shows "unat (a + of_nat (4096 * i)) = unat a + 4096 * i" and "a + of_nat (4096 * i) < MAXVA"
    and "in_pages a n (a + of_nat (4096 * i))"
proof -
  have "unat (of_nat (4096 * i) :: u64) = 4096 * i"
    unfolding unat_of_nat using assms by (intro mod_less) simp
  then show u: "unat (a + of_nat (4096 * i)) = unat a + 4096 * i"
    using assms by (subst unat_add_nowrap) simp_all
  show "a + of_nat (4096 * i) < MAXVA" "in_pages a n (a + of_nat (4096 * i))"
    using assms by (simp_all only: word_less_nat_alt unat_MAXVA u in_pages_def) simp_all
qed

lemma uentries_cong:
  assumes "unat a + 4096 * n \<le> 2 ^ 38"
    and "\<And>va. va < MAXVA \<Longrightarrow> in_pages a n va \<Longrightarrow> leaf k (pmem t) root va = leaf k (pmem s) root va"
  shows "uentries k t root a n = uentries k s root a n"
  using assms(2) page_i [OF _ assms(1)] by (simp add: uentries_def)

lemma unmap_one:
  assumes inv: "pt_inv k s root" and a: "a < MAXVA" "a < lst"
    and w: "leaf k (pmem s) root a AND PTE_V \<noteq> 0" "PTE_FLAGS (leaf k (pmem s) root a) \<noteq> PTE_V"
    and q: "own_page k s root q" "q = k_pte2pa k (leaf k (pmem s) root a)"
  obtains t where "uvmunmap_loop k root a lst True s = uvmunmap_loop k root (a + PGSIZE) lst True t"
    and "pt_inv k t root" and "free_pages t = insert q (free_pages s)" and "tables k t root = tables k s root"
    and "\<And>va. va < MAXVA \<Longrightarrow> leaf k (pmem t) root va = (if same_page a va then 0 else leaf k (pmem s) root va)"
    and "\<And>b. (\<And>p. p \<in> insert q (tables k s root) \<Longrightarrow> \<not> in_range p 4096 b) \<Longrightarrow> pmem t b = pmem s b"
proof -
  have kend: "kernel_end (k_end k)" "kmem_inv (k_end k) s"
    using inv by (auto simp: pt_inv_def)
  have qo: "page_ok (k_end k) q" "q \<notin> free_pages s" "q \<notin> tables k s root" "aligned q"
    using q(1) by (auto simp: own_page_def page_ok_def)
  obtain s1 where s1: "kfree (k_end k) q s = Ok s1" "free_pages s1 = insert q (free_pages s)" "kmem_inv (k_end k) s1"
    "\<And>b. \<not> in_range q 4096 b \<Longrightarrow> pmem s1 b = pmem s b"
    using kfree_contract [OF kernel_end_pos [OF kend(1)] kend(2) qo(1,2)] by blast
  have "\<not> in_range q 4096 b" if "p \<in> tables k s root" "in_range p 4096 b" for p b
    using pages_apart [of p q b] that qo inv by (auto simp: pt_inv_def page_ok_def)
  then have same: "\<forall>p \<in> tables k s root. \<forall>b. in_range p 4096 b \<longrightarrow> pmem s1 b = pmem s b"
    using s1(4) by blast
  have dis: "tables k s root \<inter> free_pages s1 = {}"
    using inv qo(3) s1(2) by (auto simp: pt_inv_def)
  note fr = pt_frame [OF inv same s1(3) dis]
  obtain p where p: "table k (pmem s1) root (pxs 2 a) = Some p" "entry_addr k (pmem s1) root a = p + 8 * PX 0 a"
      "in_ram (p + 8 * PX 0 a)"
    using entry_addr_some [OF fr(1), of a] leaf_entry(1) [OF inv w(1)] fr(4) by metis
  obtain t where t: "store_pte (p + 8 * PX 0 a) 0 s1 = Ok t"
    using p(3) by (simp add: store_pte_def)
  note st = store_leaf [OF fr(1) p(1) t]
  have pt: "p \<in> tables k s root"
    using p(1) path_pxs fr(2) by (auto simp: tables_def)
  have "uvmunmap_loop k root a lst True s = uvmunmap_loop k root (a + PGSIZE) lst True t"
    using walk_lookup [OF inv a(1)] leaf_entry [OF inv w(1)] a(2) w q(2) s1(1) t p(2) fr(4)
    by (simp add: uvmunmap_loop.simps [of k root a])
  moreover have "leaf k (pmem t) root va = (if same_page a va then 0 else leaf k (pmem s) root va)" if "va < MAXVA" for va
    using st(4) [of va] same_page_PX [OF a(1) that] fr(3) by simp
  moreover have "pmem t b = pmem s b" if "\<And>p. p \<in> insert q (tables k s root) \<Longrightarrow> \<not> in_range p 4096 b" for b
    using that pt st(5) [of b] s1(4) [of b] by simp
  ultimately show ?thesis
    using that st(1,2) s1(2) fr(2) store_leaf_grow(2) [OF fr(1) p(1) t] by metis
qed

lemma own_page_cong: "free_pages t = free_pages s \<Longrightarrow> tables k t root = tables k s root \<Longrightarrow> own_page k t root q = own_page k s root q"
  by (simp add: own_page_def)

lemma uvmunmap_loop_law:
  assumes "pt_inv k s root" and "aligned a" and "unat a + 4096 * n \<le> 2 ^ 38" and "unat lst = unat a + 4096 * n"
    and "uspan k s root a n"
  shows "\<exists>t. uvmunmap_loop k root a lst True s = Ok t \<and> pt_inv k t root \<and> tables k t root = tables k s root \<and>
    free_pages t = free_pages s \<union> set (upages k s root a n) \<and>
    (\<forall>va < MAXVA. leaf k (pmem t) root va = (if in_pages a n va then 0 else leaf k (pmem s) root va)) \<and>
    (\<forall>b. (\<forall>p \<in> set (upages k s root a n) \<union> tables k s root. \<not> in_range p 4096 b) \<longrightarrow> pmem t b = pmem s b)"
  using assms
proof (induction n arbitrary: a s)
  case 0
  then show ?case
    by (auto simp: uvmunmap_loop.simps [of k root a] word_less_nat_alt in_pages_def)
next
  case (Suc n)
  let ?w = "leaf k (pmem s) root a"
  let ?q = "k_pte2pa k ?w"
  have a: "a < MAXVA" "a < lst"
    using Suc.prems(3,4) by (auto simp: word_less_nat_alt unat_MAXVA)
  note np = next_page [OF a(1)]
  note al = aligned_next [OF Suc.prems(2) np]
  have sp: "?w AND PTE_V \<noteq> 0" "PTE_FLAGS ?w \<noteq> PTE_V" "own_page k s root ?q"
    using Suc.prems(5) by (auto simp: uspan_def uentries_Suc)
  obtain t where t: "uvmunmap_loop k root a lst True s = uvmunmap_loop k root (a + PGSIZE) lst True t"
    "pt_inv k t root" "free_pages t = insert ?q (free_pages s)" "tables k t root = tables k s root"
    "\<And>va. va < MAXVA \<Longrightarrow> leaf k (pmem t) root va = (if same_page a va then 0 else leaf k (pmem s) root va)"
    "\<And>b. (\<And>p. p \<in> insert ?q (tables k s root) \<Longrightarrow> \<not> in_range p 4096 b) \<Longrightarrow> pmem t b = pmem s b"
    using unmap_one [OF Suc.prems(1) a sp refl] by (metis (no_types, lifting))
  have bd: "unat (a + PGSIZE) + 4096 * n \<le> 2 ^ 38" "unat lst = unat (a + PGSIZE) + 4096 * n"
    using Suc.prems(3,4) np by simp_all
  have ue: "uentries k t root (a + PGSIZE) n = uentries k s root (a + PGSIZE) n"
    using t(5) in_pages_Suc(2) [OF Suc.prems(2) np] by (intro uentries_cong [OF bd(1)]) auto
  have us: "uspan k t root (a + PGSIZE) n"
  proof -
    have "?q \<notin> k_pte2pa k ` set (uentries k s root (a + PGSIZE) n)"
      using Suc.prems(5) by (simp add: uspan_def uentries_Suc)
    then have "k_pte2pa k x \<noteq> ?q" if "x \<in> set (uentries k s root (a + PGSIZE) n)" for x
      using that by (metis imageI)
    then show ?thesis
      using Suc.prems(5) unfolding uspan_def ue by (auto simp: uentries_Suc own_page_def t(3,4))
  qed
  from Suc.IH [OF t(2) al bd us] obtain u where u:
    "uvmunmap_loop k root (a + PGSIZE) lst True t = Ok u" "pt_inv k u root" "tables k u root = tables k t root"
    "free_pages u = free_pages t \<union> set (upages k t root (a + PGSIZE) n)"
    "\<And>va. va < MAXVA \<Longrightarrow> leaf k (pmem u) root va = (if in_pages (a + PGSIZE) n va then 0 else leaf k (pmem t) root va)"
    "\<And>b. (\<forall>p \<in> set (upages k t root (a + PGSIZE) n) \<union> tables k t root. \<not> in_range p 4096 b) \<Longrightarrow> pmem u b = pmem t b"
    by blast
  have "leaf k (pmem u) root va = (if in_pages a (Suc n) va then 0 else leaf k (pmem s) root va)" if "va < MAXVA" for va
    using u(5) [OF that] t(5) [OF that] in_pages_Suc(1) [OF Suc.prems(2) np, where n = n and va = va] by auto
  moreover have "pmem u b = pmem s b"
    if "\<forall>p \<in> set (upages k s root a (Suc n)) \<union> tables k s root. \<not> in_range p 4096 b" for b
  proof -
    have "pmem u b = pmem t b"
      using that by (intro u(6)) (auto simp: ue t(4) uentries_Suc)
    also have "\<dots> = pmem s b"
      using that by (intro t(6)) (auto simp: uentries_Suc)
    finally show ?thesis .
  qed
  ultimately show ?case
    using t(1,3,4) u(1-4) by (intro exI [of _ u]) (simp add: ue uentries_Suc)
qed

end
