(* ===== verification/Vm_User.thy ===== *)
theory Vm_User
  imports Vm_Maps
begin

text \<open>
  User address spaces (\<^verbatim>\<open>uvm*\<close> of \<^verbatim>\<open>kernel/vm.c\<close>): growing and shrinking them, and copying between the
  kernel and user memory.
\<close>

section \<open>Entries and sizes\<close>

lemma PTE_FLAGS_entry: "f < 1024 \<Longrightarrow> PTE_FLAGS (PA2PTE pa OR f) = f"
proof -
  assume "f < 1024"
  then have f: "take_bit 10 f = f"
    by (simp add: word_unat_eq_iff unsigned_take_bit_eq word_less_nat_alt take_bit_nat_eq_self)
  have m: "(0x3FF :: u64) = mask 10"
    by (simp add: mask_eq_exp_minus_1)
  have "PTE_FLAGS (PA2PTE pa OR f) = take_bit 10 f"
    by (rule bit_word_eqI) (auto simp: PTE_FLAGS_def PA2PTE_def m bit_simps)
  then show ?thesis
    using f by simp
qed

definition UPERM :: u64 where "UPERM = PTE_W OR PTE_X OR PTE_R OR PTE_U"

lemma UPERM_bits: "UPERM OR PTE_V < 1024" "UPERM OR PTE_V \<noteq> PTE_V" "(UPERM OR PTE_V) AND PTE_V \<noteq> 0"
  "(UPERM OR PTE_V) AND PTE_U \<noteq> 0"
  by (simp_all add: UPERM_def PTE_W_def PTE_X_def PTE_R_def PTE_U_def PTE_V_def)

definition npg :: "u64 \<Rightarrow> nat" where
  "npg sz = (unat sz + 4095) div 4096"

lemma npg_round: "unat sz \<le> 2 ^ 38 \<Longrightarrow> unat (PGROUNDUP sz) = 4096 * npg sz"
  by (simp add: unat_PGROUNDUP npg_def)

lemma npg_bounds: "unat sz \<le> 4096 * npg sz" "4096 * npg sz < unat sz + 4096"
  using div_mult_mod_eq [of "unat sz + 4095" 4096] mod_less_divisor [of 4096 "unat sz + 4095"]
  unfolding npg_def by linarith+

lemma npg_mono: "unat a \<le> unat b \<Longrightarrow> npg a \<le> npg b"
  by (simp add: npg_def div_le_mono)

lemma PGROUND_aligned: "aligned a \<Longrightarrow> unat a \<le> 2 ^ 38 \<Longrightarrow> PGROUNDUP a = a \<and> PGROUNDDOWN a = a \<and> PGROUNDDOWN (a + PGSIZE - 1) = a"
proof -
  assume al: "aligned a" and le: "unat a \<le> 2 ^ 38"
  obtain j where j: "unat a = 4096 * j"
    using al by (rule alignedE)
  have "a + PGSIZE - 1 = a + 4095"
    by (simp add: PGSIZE_def)
  moreover have "unat (a + 4095) = 4096 * j + 4095"
    using le j by (subst unat_add_nowrap) simp_all
  ultimately show ?thesis
    using j le by (simp add: word_unat_eq_iff unat_PGROUNDUP unat_PGROUNDDOWN)
qed

section \<open>Growing\<close>

text \<open>
  \<open>fresh_span k root s t a m\<close>: from \<open>s\<close> to \<open>t\<close> the \<open>m\<close> pages from \<open>a\<close> on were mapped to distinct
  cleared pages that were free, and nothing else was mapped or unmapped.
\<close>

definition fresh_span :: "kconf \<Rightarrow> u64 \<Rightarrow> kmem \<Rightarrow> kmem \<Rightarrow> u64 \<Rightarrow> nat \<Rightarrow> bool" where
  "fresh_span k root s t a m \<longleftrightarrow> grow k root s t \<and> uspan k t root a m \<and> set (upages k t root a m) \<subseteq> free_pages s \<and>
     (\<forall>q \<in> set (upages k t root a m). \<forall>b. in_range q 4096 b \<longrightarrow> pmem t b = 0) \<and>
     (\<forall>w \<in> set (uentries k t root a m). PTE_FLAGS w = UPERM OR PTE_V) \<and>
     (\<forall>va < MAXVA. \<not> in_pages a m va \<longrightarrow> leaf k (pmem t) root va = leaf k (pmem s) root va)"

lemma fresh_spanD:
  assumes "fresh_span k root s t a m"
  shows "grow k root s t" "pt_inv k t root" "uspan k t root a m" "set (upages k t root a m) \<subseteq> free_pages s"
    "\<And>q b. q \<in> set (upages k t root a m) \<Longrightarrow> in_range q 4096 b \<Longrightarrow> pmem t b = 0"
    "\<And>w. w \<in> set (uentries k t root a m) \<Longrightarrow> PTE_FLAGS w = UPERM OR PTE_V"
    "\<And>va. va < MAXVA \<Longrightarrow> \<not> in_pages a m va \<Longrightarrow> leaf k (pmem t) root va = leaf k (pmem s) root va"
  using assms growD(1) by (auto simp: fresh_span_def)

lemma fresh_span_0: "pt_inv k s root \<Longrightarrow> fresh_span k root s s a 0"
  by (simp add: fresh_span_def grow_refl uspan_def)

lemma zero_page_grow:
  assumes "pt_inv k s root" and "kalloc s = (q, s1)" and "q \<noteq> 0"
  defines "s2 \<equiv> zero_page q s1"
  shows "grow k root s s2" and "tables k s2 root = tables k s root" and "free_pages s2 = free_pages s - {q}"
    and "leaf k (pmem s2) root va = leaf k (pmem s) root va" and "own_page k s2 root q"
    and "in_range q 4096 b \<Longrightarrow> pmem s2 b = 0"
proof -
  have kend: "kernel_end (k_end k)" "kmem_inv (k_end k) s"
    using assms(1) by (auto simp: pt_inv_def)
  note fr = fresh_page [OF kend assms(2,3), folded s2_def]
  have qt: "q \<notin> tables k s root" and alq: "aligned q"
    using assms(1) fr(1,2) by (auto simp: pt_inv_def page_ok_def)
  have "\<not> in_range q 4096 b" if "p \<in> tables k s root" "in_range p 4096 b" for p b
    using pages_apart [of p q b] that qt alq assms(1) by (auto simp: pt_inv_def page_ok_def)
  then have same: "\<forall>p \<in> tables k s root. \<forall>b. in_range p 4096 b \<longrightarrow> pmem s2 b = pmem s b"
    using fr(5) by blast
  have dis: "tables k s root \<inter> free_pages s2 = {}"
    using assms(1) fr(3) by (auto simp: pt_inv_def)
  note pf = pt_frame [OF assms(1) same fr(4) dis]
  show "tables k s2 root = tables k s root" "leaf k (pmem s2) root va = leaf k (pmem s) root va"
    by (rule pf)+
  show "free_pages s2 = free_pages s - {q}"
    by (rule fr)
  show "own_page k s2 root q"
    using fr(2,3) qt pf(2) by (auto simp: own_page_def)
  show "grow k root s s2"
    using pf fr(1,3,5) by (auto simp: grow_def)
  show "in_range q 4096 b \<Longrightarrow> pmem s2 b = 0"
    by (rule fr)
qed

lemma own_page_grow: "grow k root s t \<Longrightarrow> own_page k s root q \<Longrightarrow> own_page k t root q"
  using growD(2,4) [of k root s t] by (auto simp: own_page_def)

lemma own_page_mem: "pt_inv k s root \<Longrightarrow> grow k root s t \<Longrightarrow> own_page k s root q \<Longrightarrow> in_range q 4096 b \<Longrightarrow> pmem t b = pmem s b"
  by (rule grow_page) (auto simp: own_page_def page_ok_def)

lemma uspan_grow:
  assumes "uspan k s root a m" and "grow k root s t" and "uentries k t root a m = uentries k s root a m"
  shows "uspan k t root a m"
  using assms own_page_grow [OF assms(2)] by (auto simp: uspan_def)

lemma same_page_leaf:
  assumes "a < MAXVA" and "va < MAXVA" and "same_page a va"
  shows "leaf k m root va = leaf k m root a"
proof -
  have eq: "pxs 2 va = pxs 2 a" "PX 0 va = PX 0 a"
    using same_page_PX [OF assms(1,2)] assms(3) by simp_all
  show ?thesis
    unfolding leaf_def eq ..
qed

text \<open>One more page: it is mapped, or the tables it needs cannot be had.\<close>

lemma fresh_span_step:
  assumes dec: "decodes k" and f: "fresh_span k root s0 s a0 m" and al: "aligned a0" and bd: "unat a0 + 4096 * Suc m \<le> 2 ^ 38"
    and a: "a = a0 + of_nat (4096 * m)" and un: "leaf k (pmem s0) root a AND PTE_V = 0"
    and q: "kalloc s = (q, s1)" "q \<noteq> 0"
  obtains t where "mappages k root a PGSIZE q UPERM (zero_page q s1) = Ok (0, t)" and "fresh_span k root s0 t a0 (Suc m)"
    and "card (free_pages s) \<le> card (free_pages t) + 3"
  | t where "mappages k root a PGSIZE q UPERM (zero_page q s1) = Ok (- 1, t)" and "fresh_span k root s0 t a0 m"
    and "own_page k t root q" and "q \<in> free_pages s0" and "q \<notin> set (upages k t root a0 m)"
    and "card (free_pages s) \<le> 3"
proof -
  note fd = fresh_spanD [OF f]
  let ?s2 = "zero_page q s1"
  note z = zero_page_grow [OF fd(2) q]
  have inv2: "pt_inv k ?s2 root"
    using growD(1) [OF z(1)] .
  have ua: "unat a = unat a0 + 4096 * m" "a < MAXVA"
    using page_i(1,2) [OF lessI bd] a by simp_all
  have ala: "aligned a"
    using al by (auto simp: aligned_nat ua)
  have r: "PGROUNDDOWN a = a" "PGROUNDDOWN (a + PGSIZE - 1) = a"
    using PGROUND_aligned [OF ala] ua bd by auto
  have ina: "in_pages a 1 va \<Longrightarrow> \<not> in_pages a0 m va" for va
    using ua(1) by (auto simp: in_pages_def)
  have un2: "leaf k (pmem ?s2) root va AND PTE_V = 0" if "va < MAXVA" "in_pages a (Suc 0) va" for va
  proof -
    have "leaf k (pmem ?s2) root va = leaf k (pmem s0) root va"
      using fd(7) [OF that(1)] ina [of va] that(2) z(4) by simp
    also have "\<dots> = leaf k (pmem s0) root a"
      using in_pages_1 [OF ala, of va] that same_page_leaf [OF ua(2) that(1)] by simp
    finally show ?thesis using un by simp
  qed
  have bda: "unat a + 4096 * Suc 0 \<le> 2 ^ 38" "unat a = unat a + 4096 * 0"
    using bd ua by simp_all
  obtain r t j where t: "mappages_loop k root a a q UPERM ?s2 = Ok (r, t)" "grow k root ?s2 t"
    "r = 0 \<and> j = Suc 0 \<or> r = - 1 \<and> j = 0 \<and> free_pages t = {}"
    "\<And>va. va < MAXVA \<Longrightarrow> leaf k (pmem t) root va = (if in_pages a j va then new_entry a q UPERM va else leaf k (pmem ?s2) root va)"
    "card (free_pages ?s2) \<le> card (free_pages t) + 2 * Suc 0"
    using mappages_loop_law [OF dec inv2 ala bda un2] by (metis le_zero_eq)
  have mp: "mappages k root a PGSIZE q UPERM ?s2 = Ok (r, t)"
    using t(1) by (simp add: mappages_def r)
  have st: "grow k root s t"
    using grow_trans [OF z(1) t(2)] .
  have g0: "grow k root s0 t"
    using grow_trans [OF fd(1) st] .
  have own: "own_page k t root q"
    using own_page_grow [OF t(2) z(5)] .
  have bdm: "unat a0 + 4096 * m \<le> 2 ^ 38"
    using bd by simp
  have ue: "uentries k t root a0 m = uentries k s root a0 m"
    using t(4) ina z(4) t(3) by (intro uentries_cong [OF bdm]) (auto simp: in_pages_def)
  have us: "uspan k t root a0 m"
    using uspan_grow [OF fd(3) st ue] .
  have zero: "pmem t b = 0" if "p \<in> set (upages k t root a0 m)" "in_range p 4096 b" for p b
  proof -
    have p: "p \<in> set (upages k s root a0 m)"
      using that(1) by (simp add: ue)
    then have "own_page k s root p"
      using fd(3) unfolding uspan_def by blast
    then show ?thesis
      using own_page_mem [OF fd(2) st _ that(2)] fd(5) [OF p that(2)] by simp
  qed
  have rest: "leaf k (pmem t) root va = leaf k (pmem s0) root va" if "va < MAXVA" "\<not> in_pages a0 m va" "\<not> in_pages a j va" for va
    using t(4) [OF that(1)] that fd(7) [OF that(1,2)] z(4) by simp
  have qf: "q \<in> free_pages s" "q \<in> free_pages s0"
    using fresh_page(1) [OF _ _ q, of "k_end k"] fd(2) growD(2) [OF fd(1)] by (auto simp: pt_inv_def)
  have old: "p \<noteq> q" if "p \<in> set (upages k s root a0 m)" for p
    using fd(3) that qf(1) unfolding uspan_def own_page_def by blast
  have cd: "card (free_pages s) \<le> card (free_pages t) + 3"
    using t(5) z(3) qf(1) by (auto simp: card_Diff_singleton_if)
  show ?thesis
  proof (cases "r = 0")
    case False
    have "fresh_span k root s0 t a0 m"
      unfolding fresh_span_def using g0 us fd(4,6) zero rest False t(3) by (auto simp: ue in_pages_def)
    then show ?thesis
      using that(2) mp False t(3) own qf(2) old ue cd by auto
  next
    case True
    then have j: "j = 1"
      using t(3) by simp
    have la: "leaf k (pmem t) root a = PA2PTE q OR (UPERM OR PTE_V)"
      using t(4) [OF ua(2)] j new_entry_first [of a a q UPERM] ala by (simp add: in_pages_def same_page_def)
    have decq: "k_pte2pa k (leaf k (pmem t) root a) = q"
      using dec UPERM_bits(1) own unfolding la by (simp add: decodes_def own_page_def page_ok_def)
    have e: "uentries k t root a0 (Suc m) = uentries k s root a0 m @ [leaf k (pmem t) root a]"
      by (simp add: uentries_snoc ue a)
    have fl: "PTE_FLAGS (leaf k (pmem t) root a) = UPERM OR PTE_V"
      using PTE_FLAGS_entry [OF UPERM_bits(1)] la by simp
    have v: "leaf k (pmem t) root a AND PTE_V \<noteq> 0"
      using PTE_V_or [of "PA2PTE q OR UPERM"] la by (simp add: or.assoc)
    have "uspan k t root a0 (Suc m)"
      using us own v fl UPERM_bits(2) old unfolding uspan_def e ue by (auto simp: decq)
    moreover have "pmem t b = 0" if "p \<in> set (upages k t root a0 (Suc m))" "in_range p 4096 b" for p b
    proof (cases "p = q")
      case True
      then show ?thesis
        using own_page_mem [OF inv2 t(2) z(5)] z(6) that(2) by simp
    next
      case False
      then show ?thesis
        using zero [OF _ that(2)] that(1) by (auto simp: e ue decq)
    qed
    moreover have "set (upages k t root a0 (Suc m)) \<subseteq> free_pages s0"
      using fd(4) qf(2) by (auto simp: e decq)
    moreover have "\<not> in_pages a0 (Suc m) va \<Longrightarrow> \<not> in_pages a0 m va \<and> \<not> in_pages a j va" for va
      using ua(1) by (auto simp: in_pages_def j)
    ultimately have "fresh_span k root s0 t a0 (Suc m)"
      unfolding fresh_span_def using g0 rest fd(6) fl by (auto simp: e)
    then show ?thesis
      using that(1) mp True cd by simp
  qed
qed

section \<open>Shrinking\<close>

text \<open>The page count is passed through an \<^verbatim>\<open>int\<close>; an address space is too small for that to matter.\<close>

lemma npages_int:
  assumes "unat n < 2 ^ 31"
  shows "(scast (ucast (n :: u64) :: u32) :: u64) = n"
proof (rule bit_word_eqI)
  fix j :: nat
  have t: "take_bit 31 n = n"
    using assms by (simp add: word_unat_eq_iff unsigned_take_bit_eq take_bit_nat_eq_self)
  have b: "bit n i \<Longrightarrow> i < 31" for i
    using t by (metis bit_take_bit_iff)
  assume "j < LENGTH(64)"
  then show "bit (scast (ucast n :: u32) :: u64) j = bit n j"
    using b [of j] b [of 31] by (auto simp: bit_signed_iff bit_unsigned_iff min_def)
qed

lemma uvmdealloc_law:
  assumes inv: "pt_inv k s root" and le: "unat new \<le> unat old" "unat old \<le> 2 ^ 38 - 4096"
    and us: "uspan k s root (PGROUNDUP new) (npg old - npg new)"
  shows "\<exists>t. uvmdealloc k root old new s = Ok (new, t) \<and> pt_inv k t root \<and> tables k t root = tables k s root \<and>
    free_pages t = free_pages s \<union> set (upages k s root (PGROUNDUP new) (npg old - npg new)) \<and>
    (\<forall>va < MAXVA. leaf k (pmem t) root va =
       (if in_pages (PGROUNDUP new) (npg old - npg new) va then 0 else leaf k (pmem s) root va)) \<and>
    (\<forall>b. (\<forall>p \<in> set (upages k s root (PGROUNDUP new) (npg old - npg new)) \<union> tables k s root. \<not> in_range p 4096 b) \<longrightarrow>
       pmem t b = pmem s b)"
proof (cases "npg new < npg old")
  case False
  then have "npg old = npg new"
    using npg_mono [OF le(1)] by simp
  moreover
  have nl: "\<not> PGROUNDUP new < PGROUNDUP old"
    using False le npg_round [of new] npg_round [of old] by (simp add: word_less_nat_alt)
  have "uvmdealloc k root old new s = Ok (new, s)"
  proof (cases "old \<le> new")
    case True
    then have "old = new"
      using le(1) by (simp add: word_le_nat_alt word_unat_eq_iff)
    then show ?thesis by (simp add: uvmdealloc_def)
  qed (simp add: uvmdealloc_def nl)
  moreover have "\<not> in_pages x 0 va" for x va
    by (simp add: in_pages_def)
  ultimately show ?thesis
    using inv by simp
next
  case True
  let ?a = "PGROUNDUP new"
  define n where "n = npg old - npg new"
  have n: "npg old = npg new + n" and n0: "0 < n"
    using True by (simp_all add: n_def)
  have r: "unat ?a = 4096 * npg new" "unat (PGROUNDUP old) = 4096 * npg new + 4096 * n"
    using npg_round [of new] npg_round [of old] le n by auto
  have b: "4096 * npg new + 4096 * n < 2 ^ 38"
    using npg_bounds(2) [of old] le(2) n by simp
  have lt: "new < old" "?a < PGROUNDUP old"
  proof -
    have "\<not> unat old \<le> unat new"
      using True npg_mono [of old new] by auto
    then show "new < old" "?a < PGROUNDUP old"
      using r n0 by (simp_all add: word_less_nat_alt)
  qed
  have d: "unat ((PGROUNDUP old - ?a) div PGSIZE) = n"
    using unat_sub [of ?a "PGROUNDUP old"] lt(2) r by (simp add: unat_div_distrib PGSIZE_nat)
  have np: "scast (ucast ((PGROUNDUP old - ?a) div PGSIZE) :: u32) = (PGROUNDUP old - ?a) div PGSIZE"
    using b by (intro npages_int) (simp add: d)
  have al: "aligned ?a"
    using r by (simp add: aligned_nat)
  have "unat ((PGROUNDUP old - ?a) div PGSIZE * PGSIZE) = 4096 * n"
    using b d by (subst unat_mult_lem [THEN iffD1]) (simp_all add: PGSIZE_nat)
  then have e: "unat (?a + (PGROUNDUP old - ?a) div PGSIZE * PGSIZE) = unat ?a + 4096 * n"
    using b r by (subst unat_add_nowrap) simp_all
  have us': "uspan k s root ?a n"
    using us n by simp
  have b': "unat ?a + 4096 * n \<le> 2 ^ 38"
    using b r by simp
  have ne: "\<not> old \<le> new"
    using lt(1) by (simp add: not_le)
  have ud: "uvmdealloc k root old new s =
      rmap (\<lambda>s. (new, s)) (uvmunmap_loop k root ?a (?a + (PGROUNDUP old - ?a) div PGSIZE * PGSIZE) True s)"
    using lt(2) ne al np by (simp add: uvmdealloc_def uvmunmap_def aligned_def)
  from uvmunmap_loop_law [OF inv al b' e us'] obtain t where
    "uvmunmap_loop k root ?a (?a + (PGROUNDUP old - ?a) div PGSIZE * PGSIZE) True s = Ok t" and
    t: "pt_inv k t root \<and> tables k t root = tables k s root \<and> free_pages t = free_pages s \<union> set (upages k s root ?a n) \<and>
      (\<forall>va < MAXVA. leaf k (pmem t) root va = (if in_pages ?a n va then 0 else leaf k (pmem s) root va)) \<and>
      (\<forall>b. (\<forall>p \<in> set (upages k s root ?a n) \<union> tables k s root. \<not> in_range p 4096 b) \<longrightarrow> pmem t b = pmem s b)"
    by (elim exE conjE) blast
  then have "uvmdealloc k root old new s = Ok (new, t)"
    using ud by simp
  from conjI [OF this t] show ?thesis
    unfolding n_def [symmetric] by (rule exI)
qed

text \<open>Giving back a fresh span.\<close>

lemma fresh_span_undo:
  assumes f: "fresh_span k root s0 s a0 m" and al: "aligned a0" and bd: "unat a0 + 4096 * m \<le> 2 ^ 38 - 4096"
    and a: "a = a0 + of_nat (4096 * m)"
  shows "\<exists>t. uvmdealloc k root a a0 s = Ok (a0, t) \<and> grow k root s0 t \<and>
    (\<forall>va < MAXVA. leaf k (pmem t) root va = (if in_pages a0 m va then 0 else leaf k (pmem s0) root va))"
proof -
  note fd = fresh_spanD [OF f] and g = growD [OF fresh_spanD(1) [OF f]]
  have ua: "unat a = unat a0 + 4096 * m"
    using page_i(1) [of m "Suc m" a0] bd a by simp
  obtain j where j: "unat a0 = 4096 * j"
    using al by (rule alignedE)
  have n: "npg a0 = j" "npg a = j + m"
    using ua j by (simp_all add: npg_def)
  have r: "PGROUNDUP a0 = a0"
    using PGROUND_aligned [OF al] bd by simp
  obtain t where t: "uvmdealloc k root a a0 s = Ok (a0, t)" "pt_inv k t root" "tables k t root = tables k s root"
    "free_pages t = free_pages s \<union> set (upages k s root a0 m)"
    "\<And>va. va < MAXVA \<Longrightarrow> leaf k (pmem t) root va = (if in_pages a0 m va then 0 else leaf k (pmem s) root va)"
    "\<And>b. (\<forall>p \<in> set (upages k s root a0 m) \<union> tables k s root. \<not> in_range p 4096 b) \<Longrightarrow> pmem t b = pmem s b"
    using uvmdealloc_law [OF fd(2), of a0 a] fd(3) ua bd by (auto simp: n r)
  have "grow k root s0 t"
    unfolding grow_def
  proof (intro conjI allI impI)
    show "free_pages t \<subseteq> free_pages s0" "tables k s0 root \<subseteq> tables k t root" "tables k t root \<subseteq> tables k s0 root \<union> free_pages s0"
      using g(2-4) fd(4) t(3,4) by auto
    show "pmem t b = pmem s0 b" if "\<forall>p \<in> tables k s0 root \<union> free_pages s0. \<not> in_range p 4096 b" for b
    proof -
      have "pmem t b = pmem s b"
        using that fd(4) g(4) by (intro t(6)) blast
      also have "\<dots> = pmem s0 b"
        using that by (intro g(5)) blast
      finally show ?thesis .
    qed
  qed (rule t(2))
  then show ?thesis
    using t(1,5) fd(7) by auto
qed

lemma fresh_span_kfree:
  assumes f: "fresh_span k root s0 s a0 m" and q: "own_page k s root q" "q \<in> free_pages s0" and qm: "q \<notin> set (upages k s root a0 m)"
    and bd: "unat a0 + 4096 * m \<le> 2 ^ 38"
  obtains t where "kfree (k_end k) q s = Ok t" and "fresh_span k root s0 t a0 m"
proof -
  note fd = fresh_spanD [OF f] and g = growD [OF fresh_spanD(1) [OF f]]
  have kend: "kernel_end (k_end k)" "kmem_inv (k_end k) s"
    using fd(2) by (auto simp: pt_inv_def)
  have qo: "page_ok (k_end k) q" "q \<notin> free_pages s" "q \<notin> tables k s root" "aligned q"
    using q(1) by (auto simp: own_page_def page_ok_def)
  obtain t where t: "kfree (k_end k) q s = Ok t" "free_pages t = insert q (free_pages s)" "kmem_inv (k_end k) t"
    "\<And>b. \<not> in_range q 4096 b \<Longrightarrow> pmem t b = pmem s b"
    using kfree_contract [OF kernel_end_pos [OF kend(1)] kend(2) qo(1,2)] by blast
  have keep: "pmem t b = pmem s b" if "aligned p" "p \<noteq> q" "in_range p 4096 b" for p b
    using pages_apart [OF that(1) qo(4) that(2,3)] t(4) by blast
  have same: "\<forall>p \<in> tables k s root. \<forall>b. in_range p 4096 b \<longrightarrow> pmem t b = pmem s b"
    using keep qo(3) fd(2) by (auto simp: pt_inv_def page_ok_def)
  have dis: "tables k s root \<inter> free_pages t = {}"
    using fd(2) qo(3) t(2) by (auto simp: pt_inv_def)
  note pf = pt_frame [OF fd(2) same t(3) dis]
  have ue: "uentries k t root a0 m = uentries k s root a0 m"
    using pf(3) by (intro uentries_cong [OF bd]) auto
  have own: "own_page k t root p \<and> aligned p \<and> p \<noteq> q" if "p \<in> set (upages k s root a0 m)" for p
    using fd(3) that qm t(2) pf(2) unfolding uspan_def own_page_def page_ok_def by auto
  have "grow k root s0 t"
    unfolding grow_def
  proof (intro conjI allI impI)
    show "free_pages t \<subseteq> free_pages s0" "tables k s0 root \<subseteq> tables k t root" "tables k t root \<subseteq> tables k s0 root \<union> free_pages s0"
      using g(2-4) q(2) t(2) pf(2) by auto
    show "pmem t b = pmem s0 b" if "\<forall>p \<in> tables k s0 root \<union> free_pages s0. \<not> in_range p 4096 b" for b
      using that q(2) t(4) [of b] g(5) [of b] by auto
  qed (rule pf(1))
  moreover have "uspan k t root a0 m"
    using fd(3) own unfolding uspan_def ue by blast
  moreover have "pmem t b = 0" if "p \<in> set (upages k s root a0 m)" "in_range p 4096 b" for p b
    using own [OF that(1)] keep [of p b] that fd(5) [OF that] by simp
  ultimately have "fresh_span k root s0 t a0 m"
    using fd(4,6,7) pf(3) unfolding fresh_span_def ue by simp
  then show ?thesis
    using that t(1) by blast
qed

section \<open>Allocating\<close>

lemma uvmalloc_loop_law:
  assumes dec: "decodes k" and al: "aligned a0" and bd: "unat a0 + 4096 * (m + n) \<le> 2 ^ 38 - 4096"
    and f: "fresh_span k root s0 s a0 m" and a: "a = a0 + of_nat (4096 * m)"
    and new: "unat new \<le> unat a0 + 4096 * (m + n)" "n \<noteq> 0 \<longrightarrow> unat a0 + 4096 * (m + n) < unat new + 4096"
    and un: "\<And>va. va < MAXVA \<Longrightarrow> in_pages a0 (m + n) va \<Longrightarrow> leaf k (pmem s0) root va AND PTE_V = 0"
  shows "\<exists>r t. uvmalloc_loop k root a0 a new s = Ok (r, t) \<and> grow k root s0 t \<and>
    (r = new \<and> fresh_span k root s0 t a0 (m + n) \<or>
     r = 0 \<and> card (free_pages s) \<le> 3 * n \<and>
       (\<forall>va < MAXVA. if in_pages a0 (m + n) va then leaf k (pmem t) root va AND PTE_V = 0
                     else leaf k (pmem t) root va = leaf k (pmem s0) root va))"
  using bd f a new un
proof (induction n arbitrary: m s a)
  case 0
  have "unat a = unat a0 + 4096 * m"
    using page_i(1) [of m "Suc m" a0] "0.prems"(1,3) by simp
  then have "\<not> a < new"
    using "0.prems"(4) by (simp add: word_less_nat_alt)
  then show ?case
    using "0.prems"(2) fresh_spanD(1) by (auto simp: uvmalloc_loop.simps [of k root a0 a])
next
  case (Suc n)
  have bd1: "unat a0 + 4096 * Suc m \<le> 2 ^ 38" and bd2: "unat a0 + 4096 * m \<le> 2 ^ 38 - 4096"
    using Suc.prems(1) by simp_all
  have ua: "unat a = unat a0 + 4096 * m" "a < MAXVA" and ina: "in_pages a0 (Suc m) a"
    using page_i [OF lessI bd1] Suc.prems(3) by simp_all
  have lt: "a < new"
    using ua(1) Suc.prems(5) by (simp add: word_less_nat_alt)
  have una: "leaf k (pmem s0) root a AND PTE_V = 0"
    using Suc.prems(6) [OF ua(2)] ina by (auto simp: in_pages_def)
  have sub: "in_pages a0 m va \<Longrightarrow> in_pages a0 (m + Suc n) va" for va
    by (auto simp: in_pages_def)
  have undo: "\<exists>t. uvmdealloc k root a a0 u = Ok (a0, t) \<and> grow k root s0 t \<and>
      (\<forall>va < MAXVA. if in_pages a0 (m + Suc n) va then leaf k (pmem t) root va AND PTE_V = 0
                    else leaf k (pmem t) root va = leaf k (pmem s0) root va)"
    if fu: "fresh_span k root s0 u a0 m" for u
    using fresh_span_undo [OF fu al bd2 Suc.prems(3)] Suc.prems(6) sub by fastforce
  obtain q s1 where q: "kalloc s = (q, s1)" by fastforce
  show ?case
  proof (cases "q = 0")
    case True
    then have "s1 = s" "free_pages s = {}"
      using kalloc_law [OF _ _ q, of "k_end k"] fresh_spanD(2) [OF Suc.prems(2)] by (auto simp: pt_inv_def)
    then show ?thesis
      using undo [OF Suc.prems(2)] lt q True by (auto simp: uvmalloc_loop.simps [of k root a0 a])
  next
    case False
    then show ?thesis
    proof (cases rule: fresh_span_step [OF dec Suc.prems(2) al bd1 Suc.prems(3) una q, consumes 1])
      case (1 t)
      have step: "uvmalloc_loop k root a0 a new s = uvmalloc_loop k root a0 (a + PGSIZE) new t"
        using lt q False 1(1) by (simp add: uvmalloc_loop.simps [of k root a0 a] UPERM_def)
      have "a + PGSIZE = a0 + of_nat (4096 * Suc m)"
        by (simp add: Suc.prems(3) PGSIZE_def)
      then show ?thesis
        using Suc.IH [of "Suc m" t "a + PGSIZE"] 1(2,3) Suc.prems step by fastforce
    next
      case (2 t)
      obtain u where "kfree (k_end k) q t = Ok u" "fresh_span k root s0 u a0 m"
        using fresh_span_kfree [OF 2(2-5)] bd2 by auto
      then show ?thesis
        using undo lt q False 2(1,6) by (fastforce simp: uvmalloc_loop.simps [of k root a0 a] UPERM_def)
    qed
  qed
qed

section \<open>User address spaces\<close>

text \<open>
  The address space of a process of size \<open>sz\<close>: its pages are mapped to pages of its own, the
  rest up to the trapframe is not mapped and the pages above are not for the user. \<open>ubyte\<close> is the byte at a user address.
\<close>

definition ULIMIT :: nat where "ULIMIT = 2 ^ 38 - 8192"

definition uvm :: "kconf \<Rightarrow> kmem \<Rightarrow> u64 \<Rightarrow> u64 \<Rightarrow> bool" where
  "uvm k s root sz \<longleftrightarrow> pt_inv k s root \<and> unat sz \<le> ULIMIT \<and> uspan k s root 0 (npg sz) \<and>
     (\<forall>va. 4096 * npg sz \<le> unat va \<and> unat va < ULIMIT \<longrightarrow> leaf k (pmem s) root va AND PTE_V = 0) \<and>
     (\<forall>va < MAXVA. ULIMIT \<le> unat va \<longrightarrow> leaf k (pmem s) root va AND PTE_V = 0 \<or> leaf k (pmem s) root va AND PTE_U = 0)"

definition upage :: "kconf \<Rightarrow> kmem \<Rightarrow> u64 \<Rightarrow> u64 \<Rightarrow> u64" where
  "upage k s root va = k_pte2pa k (leaf k (pmem s) root va)"

definition uaddr :: "kconf \<Rightarrow> kmem \<Rightarrow> u64 \<Rightarrow> u64 \<Rightarrow> u64" where
  "uaddr k s root va = upage k s root va + va mod PGSIZE"

definition ubyte :: "kconf \<Rightarrow> kmem \<Rightarrow> u64 \<Rightarrow> u64 \<Rightarrow> u8" where
  "ubyte k s root va = pmem s (uaddr k s root va)"

definition acc :: "kconf \<Rightarrow> kmem \<Rightarrow> u64 \<Rightarrow> u64 \<Rightarrow> bool" where
  "acc k s root va \<longleftrightarrow> va < MAXVA \<and> leaf k (pmem s) root va AND PTE_V \<noteq> 0 \<and> leaf k (pmem s) root va AND PTE_U \<noteq> 0"

lemma user_flags:
  assumes "PTE_FLAGS w = UPERM OR PTE_V"
  shows "w AND PTE_V \<noteq> 0" and "w AND PTE_U \<noteq> 0"
proof -
  have "w AND PTE_V = PTE_FLAGS w AND PTE_V" "w AND PTE_U = PTE_FLAGS w AND PTE_U"
    by (simp_all add: PTE_FLAGS_def PTE_V_def PTE_U_def and.assoc)
  then show "w AND PTE_V \<noteq> 0" and "w AND PTE_U \<noteq> 0"
    using assms UPERM_bits(3,4) by simp_all
qed

lemma unat_mod_page: "unat (va mod PGSIZE) = unat va mod 4096"
  by (simp add: unat_mod_distrib PGSIZE_nat)

lemma uaddr_in_page: "in_range (upage k s root va) 4096 (uaddr k s root va)"
  by (simp add: in_range_def uaddr_def unat_mod_page)

lemma npg_limit: "unat sz \<le> ULIMIT \<Longrightarrow> 4096 * npg sz \<le> ULIMIT"
proof -
  assume "unat sz \<le> ULIMIT"
  then have "npg sz \<le> (ULIMIT + 4095) div 4096"
    by (simp add: npg_def div_le_mono)
  then show ?thesis
    by (simp add: ULIMIT_def)
qed

lemma uentry:
  assumes "unat va < 4096 * n" and "4096 * n \<le> 2 ^ 38"
  shows "leaf k (pmem s) root va = uentries k s root 0 n ! (unat va div 4096)" and "unat va div 4096 < n" and "va < MAXVA"
    and "leaf k (pmem s) root va \<in> set (uentries k s root 0 n)"
proof -
  let ?i = "unat va div 4096"
  show i: "?i < n"
    using assms(1) by (simp add: less_mult_imp_div_less mult.commute)
  show va: "va < MAXVA"
    using assms by (simp add: word_less_nat_alt unat_MAXVA)
  note pi = page_i [OF i, of 0]
  have "same_page (0 + of_nat (4096 * ?i)) va"
    unfolding same_page_def using pi(1) assms(2) by simp
  from same_page_leaf [OF pi(2) va this] show "leaf k (pmem s) root va = uentries k s root 0 n ! ?i"
    using assms(2) i by (simp add: uentries_def)
  then show "leaf k (pmem s) root va \<in> set (uentries k s root 0 n)"
    using i by simp
qed

lemma uvm_page:
  assumes "uvm k s root sz" and "unat va < 4096 * npg sz"
  shows "own_page k s root (upage k s root va)" and "leaf k (pmem s) root va AND PTE_V \<noteq> 0" and "va < MAXVA"
    and "aligned (upage k s root va)"
proof -
  have b: "4096 * npg sz \<le> 2 ^ 38"
    using npg_limit [of sz] assms(1) by (simp add: uvm_def ULIMIT_def)
  show "va < MAXVA" by (rule uentry [OF assms(2) b])
  show "own_page k s root (upage k s root va)" "leaf k (pmem s) root va AND PTE_V \<noteq> 0"
    using uentry(4) [OF assms(2) b, of k s root] assms(1) by (auto simp: uvm_def uspan_def upage_def)
  then show "aligned (upage k s root va)"
    by (simp add: own_page_def page_ok_def)
qed

lemma uvm_inj:
  assumes "uvm k s root sz" and "unat va < 4096 * npg sz" "unat vb < 4096 * npg sz"
    and "upage k s root va = upage k s root vb"
  shows "same_page va vb"
proof -
  have b: "4096 * npg sz \<le> 2 ^ 38"
    using npg_limit [of sz] assms(1) by (simp add: uvm_def ULIMIT_def)
  have d: "distinct (upages k s root 0 (npg sz))"
    using assms(1) by (simp add: uvm_def uspan_def)
  have "upages k s root 0 (npg sz) ! (unat va div 4096) = upages k s root 0 (npg sz) ! (unat vb div 4096)"
    using assms(4) uentry(1) [OF assms(2) b, of k s root] uentry(1) [OF assms(3) b, of k s root]
      uentry(2) [OF assms(2) b] uentry(2) [OF assms(3) b] by (simp add: upage_def)
  then show ?thesis
    using nth_eq_iff_index_eq [OF d] uentry(2) [OF assms(2) b] uentry(2) [OF assms(3) b] by (simp add: same_page_def)
qed

lemma uentries_append: "uentries k s root a (n + m) = uentries k s root a n @ uentries k s root (a + of_nat (4096 * n)) m"
  by (induction n arbitrary: a) (simp_all add: uentries_Suc PGSIZE_def algebra_simps)

text \<open>A fresh span right above an address space extends it.\<close>

lemma uvm_extend:
  assumes u: "uvm k s root old" and new: "unat old \<le> unat new" "unat new \<le> ULIMIT"
    and f: "fresh_span k root s t (PGROUNDUP old) (npg new - npg old)"
  shows "uvm k t root new" and "uentries k t root 0 (npg old) = uentries k s root 0 (npg old)"
    and "4096 * npg old \<le> unat va \<Longrightarrow> unat va < 4096 * npg new \<Longrightarrow> ubyte k t root va = 0 \<and> acc k t root va"
proof -
  note fd = fresh_spanD [OF f]
  let ?a = "PGROUNDUP old" and ?n = "npg old" and ?m = "npg new - npg old"
  have lim: "4096 * npg new \<le> ULIMIT" "4096 * ?n \<le> 2 ^ 38" "4096 * npg new \<le> 2 ^ 38"
    using npg_limit [OF new(2)] npg_limit [of old] new by (simp_all add: ULIMIT_def)
  have nm: "?n + ?m = npg new"
    using npg_mono [OF new(1)] by simp
  have ua: "unat ?a = 4096 * ?n"
    using npg_round [of old] new by (simp add: ULIMIT_def)
  then have "?a = of_nat (4096 * ?n)"
    using lim(2) by (simp only: word_unat_eq_iff unat_of_nat) simp
  then have app: "uentries k t root 0 (npg new) = uentries k t root 0 ?n @ uentries k t root ?a ?m"
    using uentries_append [of k t root 0 ?n ?m] nm by simp
  have bdn: "unat (0 :: u64) + 4096 * ?n \<le> 2 ^ 38"
    using lim(2) by simp
  show low: "uentries k t root 0 ?n = uentries k s root 0 ?n"
    using fd(7) ua by (intro uentries_cong [OF bdn]) (auto simp: in_pages_def)
  have us: "uspan k s root 0 ?n" and un: "\<And>va. 4096 * ?n \<le> unat va \<Longrightarrow> unat va < ULIMIT \<Longrightarrow> leaf k (pmem s) root va AND PTE_V = 0"
    using u by (auto simp: uvm_def)
  have ut: "uspan k t root 0 ?n"
    using uspan_grow [OF us fd(1) low] .
  have "set (upages k s root 0 ?n) \<inter> free_pages s = {}"
    using us by (auto simp: uspan_def own_page_def)
  then have "uspan k t root 0 (npg new)"
    using ut fd(3,4) low unfolding uspan_def app by auto
  moreover have "leaf k (pmem t) root va AND PTE_V = 0" if "4096 * npg new \<le> unat va" "unat va < ULIMIT" for va
  proof -
    have "va < MAXVA" "\<not> in_pages ?a ?m va"
      using that lim ua nm by (auto simp: word_less_nat_alt unat_MAXVA ULIMIT_def in_pages_def)
    then show ?thesis
      using fd(7) [of va] un [of va] that npg_mono [OF new(1)] by simp
  qed
  moreover have "leaf k (pmem t) root va AND PTE_V = 0 \<or> leaf k (pmem t) root va AND PTE_U = 0"
    if "va < MAXVA" "ULIMIT \<le> unat va" for va
    using that u fd(7) [OF that(1)] lim(1) ua nm by (auto simp: uvm_def in_pages_def)
  ultimately show "uvm k t root new"
    using fd(2) new(2) by (simp add: uvm_def)
  show "ubyte k t root va = 0 \<and> acc k t root va" if "4096 * ?n \<le> unat va" "unat va < 4096 * npg new"
  proof -
    have e: "uentries k t root 0 (npg new) ! (unat va div 4096) \<in> set (uentries k t root ?a ?m)"
      using that uentry(2) [OF that(2) lim(3)] nm unfolding app by (auto simp: nth_append intro!: nth_mem)
    then have "upage k t root va \<in> set (upages k t root ?a ?m)"
      using uentry(1) [OF that(2) lim(3), of k t root] by (simp add: upage_def)
    moreover have "PTE_FLAGS (leaf k (pmem t) root va) = UPERM OR PTE_V"
      using fd(6) [OF e] uentry(1) [OF that(2) lim(3), of k t root] by simp
    ultimately show ?thesis
      using fd(5) uaddr_in_page user_flags uentry(3) [OF that(2) lim(3)] by (simp add: ubyte_def acc_def)
  qed
qed

lemma uvm_keep:
  assumes u: "uvm k s root sz" and g: "grow k root s t"
    and l: "\<And>va. va < MAXVA \<Longrightarrow> unat va < 4096 * npg sz \<Longrightarrow> leaf k (pmem t) root va = leaf k (pmem s) root va"
    and va: "unat va < 4096 * npg sz"
  shows "ubyte k t root va = ubyte k s root va"
proof -
  note up = uvm_page [OF u va]
  have e: "uaddr k t root va = uaddr k s root va"
    using l [OF up(3) va] by (simp add: uaddr_def upage_def)
  have "pt_inv k s root"
    using u by (simp add: uvm_def)
  then show ?thesis
    using own_page_mem [OF _ g up(1) uaddr_in_page] e by (simp add: ubyte_def)
qed

section \<open>Copying\<close>

lemma walkaddr_law:
  "pt_inv k s root \<Longrightarrow> walkaddr k root va s = Ok (if acc k s root va then upage k s root va else 0)"
proof (cases "va < MAXVA")
  case True
  assume inv: "pt_inv k s root"
  show ?thesis
  proof (cases "entry_addr k (pmem s) root va = 0")
    case z: True
    then have "leaf k (pmem s) root va AND PTE_V = 0"
      using leaf_entry(1) [OF inv, of va] by auto
    then show ?thesis
      using z True walk_lookup [OF inv True] by (simp add: walkaddr_def acc_def)
  next
    case False
    obtain p where "entry_addr k (pmem s) root va = p + 8 * PX 0 va"
      "leaf k (pmem s) root va = load64 (pmem s) (p + 8 * PX 0 va)" "in_ram (p + 8 * PX 0 va)"
      using entry_addr_some [OF inv False] by metis
    then show ?thesis
      using False True walk_lookup [OF inv True] by (auto simp: walkaddr_def acc_def load_pte_def upage_def)
  qed
qed (auto simp: walkaddr_def acc_def not_less)

lemma acc_uvm:
  assumes "uvm k s root sz" and "acc k s root va"
  shows "unat va < 4096 * npg sz"
proof (rule ccontr)
  assume "\<not> unat va < 4096 * npg sz"
  then show False
    using assms by (cases "unat va < ULIMIT") (auto simp: uvm_def acc_def)
qed

lemma round_same_page: "same_page (PGROUNDDOWN va) va"
  by (simp add: same_page_def unat_PGROUNDDOWN)

lemma same_page_acc:
  assumes "same_page va vb"
  shows "acc k s root va = acc k s root vb" and "va < MAXVA \<Longrightarrow> upage k s root va = upage k s root vb"
proof -
  have m: "va < MAXVA \<longleftrightarrow> vb < MAXVA"
  proof -
    have "x < MAXVA \<longleftrightarrow> unat x div 4096 < 2 ^ 26" for x
      by (auto simp: word_less_nat_alt unat_MAXVA div_less_iff_less_mult)
    then show ?thesis
      using assms by (simp add: same_page_def)
  qed
  show "acc k s root va = acc k s root vb"
    using m same_page_leaf [of va vb k "pmem s" root] assms by (auto simp: acc_def)
  show "va < MAXVA \<Longrightarrow> upage k s root va = upage k s root vb"
    using m same_page_leaf [of va vb k "pmem s" root] assms by (simp add: upage_def)
qed

lemma mod_page: "va - PGROUNDDOWN va = va mod PGSIZE"
proof -
  have le: "PGROUNDDOWN va \<le> va"
    by (simp add: word_le_nat_alt unat_PGROUNDDOWN)
  show ?thesis
    by (simp only: word_unat_eq_iff unat_sub [OF le] unat_mod_page unat_PGROUNDDOWN minus_div_mult_eq_mod)
qed

lemma same_block:
  assumes "x mod 4096 + i < (4096 :: nat)"
  shows "(x + i) div 4096 = x div 4096" and "(x + i) mod 4096 = x mod 4096 + i"
proof -
  have "(x + i) mod 4096 = (x mod 4096 + i) mod 4096"
    by (simp add: mod_add_left_eq)
  also have "\<dots> = x mod 4096 + i"
    using assms by (rule mod_less)
  finally show m: "(x + i) mod 4096 = x mod 4096 + i" .
  show "(x + i) div 4096 = x div 4096"
    using div_mult_mod_eq [of "x + i" 4096] div_mult_mod_eq [of x 4096] m by linarith
qed

text \<open>The bytes of a page from an address on.\<close>

lemma room_step:
  assumes "i < page_room va"
  shows "unat (va + of_nat i) = unat va + i" and "same_page va (va + of_nat i)"
    and "(va + of_nat i) mod PGSIZE = va mod PGSIZE + of_nat i"
proof -
  have i: "unat va mod 4096 + i < 4096"
    using assms by (simp add: page_room)
  have oi: "unat (of_nat i :: u64) = i"
    unfolding unat_of_nat using i by (intro mod_less) simp
  have "unat va div 4096 \<le> (2 ^ 64 - 1) div 4096"
    using unat_lt_u64 [of va] by (intro div_le_mono) simp
  then have "unat va div 4096 \<le> 4503599627370495"
    by simp
  then have "unat va + i < 18446744073709551616"
    using i div_mult_mod_eq [of "unat va" 4096] by linarith
  then show u: "unat (va + of_nat i) = unat va + i"
    using oi by (subst unat_add_nowrap) simp_all
  note d = same_block [OF i]
  show "same_page va (va + of_nat i)"
    by (simp add: same_page_def u d)
  show "(va + of_nat i) mod PGSIZE = va mod PGSIZE + of_nat i"
    using i oi d by (simp only: word_unat_eq_iff unat_mod_page u) (subst unat_add_nowrap, simp_all add: unat_mod_page)
qed

lemma room_next:
  shows "PGROUNDDOWN va + PGSIZE = va + of_nat (page_room va)"
proof -
  have "va + of_nat (page_room va) = va + (PGSIZE - (va - PGROUNDDOWN va))"
    by (simp add: page_room_def)
  then show ?thesis by simp
qed

lemma page_bytes:
  assumes "va < MAXVA" and "n \<le> page_room va"
  shows "bytes_at (pmem s) (upage k s root va + (va - PGROUNDDOWN va)) n = map (\<lambda>i. ubyte k s root (va + of_nat i)) [0..<n]"
proof (rule nth_equalityI)
  fix i
  assume "i < length (bytes_at (pmem s) (upage k s root va + (va - PGROUNDDOWN va)) n)"
  then have i: "i < n" "i < page_room va"
    using assms(2) by simp_all
  then show "bytes_at (pmem s) (upage k s root va + (va - PGROUNDDOWN va)) n ! i =
      map (\<lambda>i. ubyte k s root (va + of_nat i)) [0..<n] ! i"
    using room_step [OF i(2)] same_page_acc(2) [OF room_step(2) [OF i(2)] assms(1), of k s root]
    by (simp add: ubyte_def uaddr_def mod_page add.assoc)
qed simp

lemma own_page_ram:
  assumes "pt_inv k s root" and "own_page k s root q"
  shows "in_ram q" and "q \<noteq> 0"
proof -
  show "in_ram q"
    using assms by (auto simp: pt_inv_def own_page_def page_ok_def in_ram_def kernel_end_def)
  then show "q \<noteq> 0"
    by (auto simp: in_ram_def KERNBASE_def)
qed

lemma copyin_law:
  assumes "uvm k s root sz"
  shows "copyin k root va len s =
    Ok (if \<forall>i < len. acc k s root (va + of_nat i) then Some (map (\<lambda>i. ubyte k s root (va + of_nat i)) [0..<len]) else None)"
proof (induction len arbitrary: va rule: less_induct)
  case (less len)
  have inv: "pt_inv k s root"
    using assms by (simp add: uvm_def)
  let ?v0 = "PGROUNDDOWN va"
  show ?case
  proof (cases "len = 0 \<or> \<not> acc k s root va")
    case True
    then show ?thesis
      using walkaddr_law [OF inv, of ?v0] same_page_acc(1) [OF round_same_page [of va], of k s root]
      by (auto simp: copyin.simps [of k root va] intro!: exI [of _ 0])
  next
    case False
    then have len: "0 < len" and a: "acc k s root va" by auto
    have va: "va < MAXVA" using a by (simp add: acc_def)
    have v0: "acc k s root ?v0" "upage k s root ?v0 = upage k s root va"
      using a same_page_acc [OF round_same_page [of va], of k s root] by (auto simp: acc_def)
    note own = uvm_page(1) [OF assms acc_uvm [OF assms a]]
    let ?n = "min (page_room va) len"
    have n: "0 < ?n" "len - ?n < len"
      using page_room_pos [of va] len by auto
    have acc0: "acc k s root (va + of_nat i)" if "i < ?n" for i
      using a same_page_acc(1) [OF room_step(2), of i va k s root] that by simp
    have step: "copyin k root va len s = rmap (map_option (\<lambda>rest. map (\<lambda>i. ubyte k s root (va + of_nat i)) [0..<?n] @ rest))
        (copyin k root (?v0 + PGSIZE) (len - ?n) s)"
      using len v0 walkaddr_law [OF inv, of ?v0] own_page_ram [OF inv own] page_bytes [OF va, of ?n s k root]
      by (simp add: copyin.simps [of k root va] Let_def)
    show ?thesis
    proof (cases "len \<le> page_room va")
      case True
      then show ?thesis
        using step acc0 by (simp add: copyin.simps [of k root _ 0])
    next
      case False
      then have n': "?n = page_room va" by simp
      let ?m = "len - page_room va"
      have shift: "?v0 + PGSIZE + of_nat i = va + of_nat (page_room va + i)" for i
        by (simp add: room_next add.assoc)
      have all: "(\<forall>i < len. acc k s root (va + of_nat i)) \<longleftrightarrow> (\<forall>i < ?m. acc k s root (va + of_nat (page_room va + i)))"
      proof
        assume r: "\<forall>i < ?m. acc k s root (va + of_nat (page_room va + i))"
        show "\<forall>i < len. acc k s root (va + of_nat i)"
        proof (intro allI impI)
          fix i assume "i < len"
          then show "acc k s root (va + of_nat i)"
            using acc0 [of i] r [rule_format, of "i - page_room va"] n' by (cases "i < page_room va") auto
        qed
      qed (use False less_diff_conv2 in \<open>auto simp: add.commute simp flip: of_nat_add\<close>)
      have "[0..<len] = [0..<page_room va] @ map (\<lambda>i. page_room va + i) [0..<?m]"
        using False upt_add_eq_append [of 0 "page_room va" ?m] map_add_upt [of "page_room va" ?m] by (simp add: add.commute)
      then show ?thesis
        using step less.IH [of ?m "?v0 + PGSIZE"] n(2) all unfolding n' shift by (simp add: comp_def)
    qed
  qed
qed

lemma map_upt_add: "map f [0..<n + m] = map f [0..<n] @ map (\<lambda>i. f (n + i)) [0..<m]"
  by (induction m) simp_all

text \<open>The string that starts at index 0 of \<open>f\<close>, all of it and its NUL accessible and below \<open>mx\<close>.\<close>

definition cstring :: "(nat \<Rightarrow> u8) \<Rightarrow> (nat \<Rightarrow> bool) \<Rightarrow> nat \<Rightarrow> u8 list \<Rightarrow> bool" where
  "cstring f a mx xs \<longleftrightarrow> length xs < mx \<and> (\<forall>i \<le> length xs. a i) \<and> xs = map f [0..<length xs] \<and> 0 \<notin> set xs \<and> f (length xs) = 0"

lemma cstring_unique:
  assumes "cstring f a mx xs" and "cstring f a mx ys"
  shows "xs = ys"
proof -
  have "\<not> length us < length vs" if u: "cstring f a mx us" and v: "cstring f a mx vs" for us vs
  proof
    assume "length us < length vs"
    moreover have "vs = map f [0..<length vs]" "0 \<notin> set vs" "f (length us) = 0"
      using u v by (auto simp: cstring_def)
    ultimately show False
      using nth_mem [of "length us" vs] by (metis add_0 length_map nth_map_upt length_upt minus_nat.diff_0)
  qed
  then have "length xs = length ys"
    using assms by (meson nat_neq_iff)
  then show ?thesis
    using assms by (metis cstring_def)
qed

lemma cstring_here:
  assumes "n \<le> mx" and "0 \<in> f ` {..<n}" and "\<forall>i < n. a i"
  shows "cstring f a mx xs \<longleftrightarrow> xs = takeWhile (\<lambda>c. c \<noteq> 0) (map f [0..<n])"
proof -
  let ?t = "takeWhile (\<lambda>c. c \<noteq> 0) (map f [0..<n])"
  have lt: "length ?t < n"
  proof (rule ccontr)
    assume "\<not> length ?t < n"
    then have "?t = map f [0..<n]"
      using length_takeWhile_le [of "\<lambda>c. c \<noteq> 0" "map f [0..<n]"]
      by (metis le_antisym length_map length_upt minus_nat.diff_0 not_le takeWhile_eq_take take_all)
    then have "\<forall>c \<in> set (map f [0..<n]). c \<noteq> 0"
      by (metis set_takeWhileD)
    then show False
      using assms(2) by auto
  qed
  have "f (length ?t) = 0"
    using nth_length_takeWhile [of "\<lambda>c. c \<noteq> 0" "map f [0..<n]"] lt by simp
  moreover have "?t = map f [0..<length ?t]"
    using lt by (subst takeWhile_eq_take) (simp add: take_map)
  moreover have "0 \<notin> set ?t"
    using set_takeWhileD by fastforce
  ultimately have "cstring f a mx ?t"
    using lt assms(1,3) by (auto simp: cstring_def)
  then show ?thesis
    using cstring_unique by blast
qed

lemma cstring_later:
  assumes "n \<le> mx" and "0 \<notin> f ` {..<n}" and "\<forall>i < n. a i"
  shows "cstring f a mx xs \<longleftrightarrow> (\<exists>ys. cstring (\<lambda>i. f (n + i)) (\<lambda>i. a (n + i)) (mx - n) ys \<and> xs = map f [0..<n] @ ys)"
proof
  assume c: "cstring f a mx xs"
  then have le: "n \<le> length xs"
    using assms(2) by (intro leI) (auto simp: cstring_def)
  then obtain m where m: "length xs = n + m"
    by (auto simp: le_iff_add)
  have xs: "xs = map f [0..<n] @ map (\<lambda>i. f (n + i)) [0..<m]"
    using c m map_upt_add [of f n m] by (simp add: cstring_def)
  have "cstring (\<lambda>i. f (n + i)) (\<lambda>i. a (n + i)) (mx - n) (map (\<lambda>i. f (n + i)) [0..<m])"
    using c m assms(1) xs unfolding cstring_def by (auto simp: image_iff)
  then show "\<exists>ys. cstring (\<lambda>i. f (n + i)) (\<lambda>i. a (n + i)) (mx - n) ys \<and> xs = map f [0..<n] @ ys"
    using xs by blast
next
  assume "\<exists>ys. cstring (\<lambda>i. f (n + i)) (\<lambda>i. a (n + i)) (mx - n) ys \<and> xs = map f [0..<n] @ ys"
  then obtain ys where ys: "cstring (\<lambda>i. f (n + i)) (\<lambda>i. a (n + i)) (mx - n) ys" "xs = map f [0..<n] @ ys"
    by blast
  have "a i" if "i \<le> n + length ys" for i
    using that assms(3) ys(1) by (cases "i < n") (auto simp: cstring_def dest: spec [of _ "i - n"])
  moreover have "map f [0..<n + length ys] = map f [0..<n] @ ys"
    using ys(1) map_upt_add [of f n "length ys"] by (simp add: cstring_def)
  ultimately show "cstring f a mx xs"
    using ys assms(2) by (auto simp: cstring_def)
qed

lemma copyinstr_law:
  assumes "uvm k s root sz"
  shows "\<exists>r. copyinstr k root va mx s = Ok r \<and>
    (\<forall>xs. r = Some xs \<longleftrightarrow> cstring (\<lambda>i. ubyte k s root (va + of_nat i)) (\<lambda>i. acc k s root (va + of_nat i)) mx xs)"
proof (induction mx arbitrary: va rule: less_induct)
  case (less mx)
  have inv: "pt_inv k s root"
    using assms by (simp add: uvm_def)
  let ?v0 = "PGROUNDDOWN va"
  let ?f = "\<lambda>i. ubyte k s root (va + of_nat i)" and ?a = "\<lambda>i. acc k s root (va + of_nat i)"
  show ?case
  proof (cases "mx = 0 \<or> \<not> acc k s root va")
    case True
    then have "\<not> cstring ?f ?a mx xs" for xs
      by (auto simp: cstring_def)
    then show ?thesis
      using True walkaddr_law [OF inv, of ?v0] same_page_acc(1) [OF round_same_page [of va], of k s root]
      by (auto simp: copyinstr.simps [of k root va])
  next
    case False
    then have mx: "0 < mx" and a: "acc k s root va" by auto
    have va: "va < MAXVA" using a by (simp add: acc_def)
    have v0: "acc k s root ?v0" "upage k s root ?v0 = upage k s root va"
      using a same_page_acc [OF round_same_page [of va], of k s root] by (auto simp: acc_def)
    note own = uvm_page(1) [OF assms acc_uvm [OF assms a]]
    let ?n = "min (page_room va) mx"
    have n: "0 < ?n" "mx - ?n < mx" "?n \<le> mx"
      using page_room_pos [of va] mx by auto
    have acc0: "\<forall>i < ?n. ?a i"
      using a same_page_acc(1) [OF room_step(2), of _ va k s root] by simp
    have step: "copyinstr k root va mx s = (if 0 \<in> set (map ?f [0..<?n]) then Ok (Some (takeWhile (\<lambda>c. c \<noteq> 0) (map ?f [0..<?n])))
        else rmap (map_option (\<lambda>rest. map ?f [0..<?n] @ rest)) (copyinstr k root (?v0 + PGSIZE) (mx - ?n) s))"
      using mx v0 walkaddr_law [OF inv, of ?v0] own_page_ram [OF inv own] page_bytes [OF va, of ?n s k root]
      by (simp add: copyinstr.simps [of k root va] Let_def)
    have img: "0 \<in> set (map ?f [0..<?n]) \<longleftrightarrow> 0 \<in> ?f ` {..<?n}"
      by (simp add: atLeast0LessThan)
    show ?thesis
    proof (cases "0 \<in> ?f ` {..<?n}")
      case True
      then show ?thesis
        unfolding step img using cstring_here [OF n(3) True acc0] by auto
    next
      case False
      obtain r where r: "copyinstr k root (?v0 + PGSIZE) (mx - ?n) s = Ok r"
        "\<And>xs. r = Some xs \<longleftrightarrow> cstring (\<lambda>i. ubyte k s root (?v0 + PGSIZE + of_nat i)) (\<lambda>i. acc k s root (?v0 + PGSIZE + of_nat i)) (mx - ?n) xs"
        using less.IH [OF n(2), of "?v0 + PGSIZE"] by blast
      have shift: "cstring (\<lambda>i. ubyte k s root (?v0 + PGSIZE + of_nat i)) (\<lambda>i. acc k s root (?v0 + PGSIZE + of_nat i)) (mx - ?n) xs \<longleftrightarrow>
          cstring (\<lambda>i. ?f (?n + i)) (\<lambda>i. ?a (?n + i)) (mx - ?n) xs" for xs
      proof (cases "page_room va < mx")
        case True
        then show ?thesis
          by (simp add: room_next add.assoc)
      qed (simp add: cstring_def)
      show ?thesis
        unfolding step img using False r shift cstring_later [OF n(3) False acc0] by auto
    qed
  qed
qed

section \<open>Storing into user memory\<close>

lemma store_own:
  assumes u: "uvm k s root sz" and v: "unat va < 4096 * npg sz" and n: "length xs \<le> page_room va"
  defines "t \<equiv> s\<lparr>pmem := store_bytes (upage k s root va + (va - PGROUNDDOWN va)) xs (pmem s)\<rparr>"
  shows "uvm k t root sz" and "free_pages t = free_pages s" and "tables k t root = tables k s root"
    and "\<And>vb. leaf k (pmem t) root vb = leaf k (pmem s) root vb"
    and "\<And>b. \<not> in_range (upage k s root va) 4096 b \<Longrightarrow> pmem t b = pmem s b"
    and "\<And>vb. unat vb < 4096 * npg sz \<Longrightarrow>
      ubyte k t root vb = (if unat va \<le> unat vb \<and> unat vb < unat va + length xs then xs ! (unat vb - unat va) else ubyte k s root vb)"
proof -
  let ?q = "upage k s root va" and ?d = "upage k s root va + (va - PGROUNDDOWN va)"
  note up = uvm_page [OF u v]
  have inv: "pt_inv k s root"
    using u by (simp add: uvm_def)
  have off: "unat (va mod PGSIZE) + length xs \<le> 4096"
    using n page_room [of va] by (simp add: unat_mod_page)
  have ud: "unat ?d = unat ?q + unat va mod 4096"
    using aligned_le [OF up(4)] off unfolding mod_page by (subst unat_add_nowrap) (simp_all add: unat_mod_page)
  have rng: "in_range ?d (length xs) b \<longleftrightarrow> unat ?d \<le> unat b \<and> unat b < unat ?d + length xs" for b
    using aligned_le [OF up(4)] off ud by (intro in_range_nat) (simp add: unat_mod_page)
  show other: "pmem t b = pmem s b" if "\<not> in_range ?q 4096 b" for b
  proof -
    have "\<not> in_range ?d (length xs) b"
      using that rng off ud page_range [OF up(4), of b] by (auto simp: unat_mod_page)
    then show ?thesis
      by (simp add: t_def store_bytes_other)
  qed
  have own: "?q \<notin> free_pages s" "?q \<notin> tables k s root"
    using up(1) by (auto simp: own_page_def)
  have kinv: "kmem_inv (k_end k) s"
    using inv by (simp add: pt_inv_def)
  have fl: "freelist t = freelist s"
    by (simp add: t_def)
  note kt = kmem_write [OF kinv up(4) own(1) fl other]
  show fr: "free_pages t = free_pages s"
    by (rule kt)
  have same: "\<forall>p \<in> tables k s root. \<forall>b. in_range p 4096 b \<longrightarrow> pmem t b = pmem s b"
    using other pages_apart [OF _ up(4)] own(2) inv by (auto simp: pt_inv_def page_ok_def)
  have dis: "tables k s root \<inter> free_pages t = {}"
    using inv fr by (auto simp: pt_inv_def)
  note pf = pt_frame [OF inv same kt(1) dis]
  show lf: "leaf k (pmem t) root vb = leaf k (pmem s) root vb" for vb
    by (rule pf)
  show tb: "tables k t root = tables k s root"
    by (rule pf)
  have "uentries k t root 0 (npg sz) = uentries k s root 0 (npg sz)"
    by (simp add: uentries_def lf)
  then show "uvm k t root sz"
    using u pf(1) lf unfolding uvm_def uspan_def own_page_def fr tb by simp
  fix vb :: u64
  assume vb: "unat vb < 4096 * npg sz"
  have ad: "uaddr k t root vb = uaddr k s root vb"
    by (simp add: uaddr_def upage_def lf)
  note upb = uvm_page [OF u vb]
  have ub: "unat (uaddr k s root vb) = unat (upage k s root vb) + unat vb mod 4096"
    using aligned_le [OF upb(4)] unfolding uaddr_def by (subst unat_add_nowrap) (simp_all add: unat_mod_page)
  show "ubyte k t root vb = (if unat va \<le> unat vb \<and> unat vb < unat va + length xs then xs ! (unat vb - unat va) else ubyte k s root vb)"
  proof (cases "same_page va vb")
    case False
    then have "upage k s root vb \<noteq> ?q"
      using uvm_inj [OF u vb v] by (auto simp: same_page_def)
    then have "pmem t (uaddr k s root vb) = pmem s (uaddr k s root vb)"
      using other pages_apart [OF upb(4) up(4) _ uaddr_in_page] by blast
    moreover have "\<not> (unat va \<le> unat vb \<and> unat vb < unat va + length xs)"
    proof
      assume "unat va \<le> unat vb \<and> unat vb < unat va + length xs"
      then have "unat va mod 4096 + (unat vb - unat va) < 4096"
        using off unfolding unat_mod_page by linarith
      from same_block(1) [OF this] show False
        using False \<open>unat va \<le> unat vb \<and> _\<close> by (simp add: same_page_def)
    qed
    ultimately show ?thesis
      by (auto simp: ubyte_def ad)
  next
    case True
    have q: "upage k s root vb = ?q"
      using same_page_acc(2) [OF True up(3)] by simp
    have blk: "unat vb div 4096 = unat va div 4096"
      using True by (simp add: same_page_def)
    have iff: "in_range ?d (length xs) (uaddr k s root vb) \<longleftrightarrow> unat va \<le> unat vb \<and> unat vb < unat va + length xs"
      and idx: "unat va \<le> unat vb \<Longrightarrow> unat (uaddr k s root vb - ?d) = unat vb - unat va"
    proof -
      have e: "unat vb + unat va mod 4096 = unat va + unat vb mod 4096"
        using div_mult_mod_eq [of "unat vb" 4096] div_mult_mod_eq [of "unat va" 4096] blk by linarith
      show "in_range ?d (length xs) (uaddr k s root vb) \<longleftrightarrow> unat va \<le> unat vb \<and> unat vb < unat va + length xs"
        unfolding rng ud ub q using e by linarith
      show "unat (uaddr k s root vb - ?d) = unat vb - unat va" if "unat va \<le> unat vb"
      proof -
        have "?d \<le> uaddr k s root vb"
          using that e by (simp add: word_le_nat_alt ud ub q)
        from unat_sub [OF this] show ?thesis
          using that e by (simp add: ud ub q)
      qed
    qed
    have "pmem t = store_bytes ?d xs (pmem s)"
      by (simp add: t_def)
    then show ?thesis
      using iff idx unfolding ubyte_def ad by (simp add: store_bytes_def)
  qed
qed

end
