(* ===== verification/Vm_Copy.thy ===== *)
theory Vm_Copy
  imports Vm_User
begin

text \<open>
  The properties of copying between kernel and user memory (\<^verbatim>\<open>copyout\<close>, \<^verbatim>\<open>copyin\<close>, \<^verbatim>\<open>copyinstr\<close> of
  \<^verbatim>\<open>kernel/vm.c\<close>), the instance of the decoding that the theorems apply to, and what the decoding of
  \<^verbatim>\<open>kernel/riscv.h\<close> does instead.
\<close>

section \<open>Copying out\<close>

text \<open>\<open>wrote_user\<close>: from \<open>s\<close> to \<open>t\<close> only the user bytes from \<open>va\<close> on have changed, to \<open>xs\<close>.\<close>

definition wrote_user :: "kconf \<Rightarrow> u64 \<Rightarrow> u64 \<Rightarrow> kmem \<Rightarrow> kmem \<Rightarrow> u64 \<Rightarrow> u8 list \<Rightarrow> bool" where
  "wrote_user k root sz s t va xs \<longleftrightarrow> uvm k t root sz \<and> free_pages t = free_pages s \<and> tables k t root = tables k s root \<and>
     (\<forall>vb. leaf k (pmem t) root vb = leaf k (pmem s) root vb) \<and>
     (\<forall>vb. unat vb < 4096 * npg sz \<longrightarrow> ubyte k t root vb =
        (if unat va \<le> unat vb \<and> unat vb < unat va + length xs then xs ! (unat vb - unat va) else ubyte k s root vb)) \<and>
     (\<forall>b. (\<forall>vb. unat vb < 4096 * npg sz \<longrightarrow> \<not> in_range (upage k s root vb) 4096 b) \<longrightarrow> pmem t b = pmem s b)"

lemma wrote_user_nil: "uvm k s root sz \<Longrightarrow> wrote_user k root sz s s va []"
  by (auto simp: wrote_user_def)

lemma wrote_user_upage: "wrote_user k root sz s t va xs \<Longrightarrow> upage k t root vb = upage k s root vb"
  by (simp add: wrote_user_def upage_def)

lemma wrote_user_acc: "wrote_user k root sz s t va xs \<Longrightarrow> acc k t root vb = acc k s root vb"
  by (simp add: wrote_user_def acc_def)

lemma wrote_user_append:
  assumes a: "wrote_user k root sz s t va xs" and b: "wrote_user k root sz t u vb ys" and e: "unat vb = unat va + length xs"
  shows "wrote_user k root sz s u va (xs @ ys)"
proof -
  have "ubyte k u root vc = (if unat va \<le> unat vc \<and> unat vc < unat va + length (xs @ ys)
      then (xs @ ys) ! (unat vc - unat va) else ubyte k s root vc)" if "unat vc < 4096 * npg sz" for vc
    using a b e that by (auto simp: wrote_user_def nth_append)
  moreover have "pmem u d = pmem s d" if "\<forall>vc. unat vc < 4096 * npg sz \<longrightarrow> \<not> in_range (upage k s root vc) 4096 d" for d
    using a b that wrote_user_upage [OF a] by (simp add: wrote_user_def)
  ultimately show ?thesis
    using a b by (simp add: wrote_user_def)
qed

lemma store_wrote:
  assumes u: "uvm k s root sz" and a: "acc k s root va" and n: "length xs \<le> page_room va"
  shows "wrote_user k root sz s (s\<lparr>pmem := store_bytes (upage k s root va + (va - PGROUNDDOWN va)) xs (pmem s)\<rparr>) va xs"
  using store_own [OF u acc_uvm [OF u a] n] acc_uvm [OF u a] unfolding wrote_user_def by blast

lemma room_next_nat:
  assumes "va < MAXVA"
  shows "unat (PGROUNDDOWN va + PGSIZE) = unat va + page_room va"
proof -
  have "unat (PGROUNDDOWN va + PGSIZE) = unat va div 4096 * 4096 + 4096"
    using assms by (subst unat_add_nowrap)
      (simp_all add: unat_PGROUNDDOWN PGSIZE_nat word_less_nat_alt unat_MAXVA less_le_trans)
  then show ?thesis
    using div_mult_mod_eq [of "unat va" 4096] mod_less_divisor [of 4096 "unat va"] unfolding page_room by linarith
qed

lemma copyout_law:
  assumes "uvm k s root sz"
  shows "\<exists>r t n. copyout k root va xs s = Ok (r, t) \<and> n \<le> length xs \<and> wrote_user k root sz s t va (take n xs) \<and>
    (\<forall>i < n. acc k s root (va + of_nat i)) \<and>
    (r = 0 \<and> n = length xs \<or> r = - 1 \<and> n < length xs \<and> \<not> acc k s root (va + of_nat n))"
  using assms
proof (induction "length xs" arbitrary: va xs s rule: less_induct)
  case less
  have inv: "pt_inv k s root"
    using less.prems by (simp add: uvm_def)
  let ?v0 = "PGROUNDDOWN va"
  note v0acc = same_page_acc [OF round_same_page [of va], of k s root]
  consider (nil) "xs = []" | (bad) "xs \<noteq> []" "\<not> acc k s root va" | (good) "xs \<noteq> []" "acc k s root va"
    by blast
  then show ?case
  proof cases
    case nil
    then show ?thesis
      using wrote_user_nil [OF less.prems] by (auto simp: copyout.simps [of k root va])
  next
    case bad
    then show ?thesis
      using wrote_user_nil [OF less.prems] walkaddr_law [OF inv, of ?v0] v0acc(1)
      by (auto simp: copyout.simps [of k root va] intro!: exI [of _ 0])
  next
    case good
    have va: "va < MAXVA" using good(2) by (simp add: acc_def)
    have v0: "acc k s root ?v0" "upage k s root ?v0 = upage k s root va"
      using good(2) v0acc by (auto simp: acc_def)
    note own = uvm_page(1) [OF less.prems acc_uvm [OF less.prems good(2)]]
    let ?m = "page_room va"
    let ?t = "s\<lparr>pmem := store_bytes (upage k s root va + (va - ?v0)) (take ?m xs) (pmem s)\<rparr>"
    have w: "wrote_user k root sz s ?t va (take ?m xs)"
      by (rule store_wrote [OF less.prems good(2)]) simp
    have step: "copyout k root va xs s = copyout k root (?v0 + PGSIZE) (drop ?m xs) ?t"
      using good(1) v0 walkaddr_law [OF inv, of ?v0] own_page_ram [OF inv own]
      by (simp add: copyout.simps [of k root va] Let_def)
    have lt: "length (drop ?m xs) < length xs"
      using good(1) page_room_pos [of va] by (simp add: diff_less)
    have ut: "uvm k ?t root sz"
      using w by (simp add: wrote_user_def)
    obtain r u n where u: "copyout k root (?v0 + PGSIZE) (drop ?m xs) ?t = Ok (r, u)" "n \<le> length (drop ?m xs)"
      "wrote_user k root sz ?t u (?v0 + PGSIZE) (take n (drop ?m xs))"
      "\<forall>i < n. acc k ?t root (?v0 + PGSIZE + of_nat i)"
      "r = 0 \<and> n = length (drop ?m xs) \<or> r = - 1 \<and> n < length (drop ?m xs) \<and> \<not> acc k ?t root (?v0 + PGSIZE + of_nat n)"
      using less.hyps [OF lt ut, of "?v0 + PGSIZE"] by blast
    show ?thesis
    proof (cases "length xs \<le> ?m")
      case True
      then have "u = ?t" "r = 0"
        using u(1) by (simp_all add: copyout.simps [of k root "?v0 + PGSIZE"])
      moreover have "acc k s root (va + of_nat i)" if "i < length xs" for i
        using good(2) same_page_acc(1) [OF room_step(2), of i va k s root] that True by simp
      ultimately show ?thesis
        using w u(1) step True by (intro exI [of _ 0] exI [of _ ?t] exI [of _ "length xs"]) auto
    next
      case False
      have len: "unat (?v0 + PGSIZE) = unat va + length (take ?m xs)"
        using room_next_nat [OF va] False by simp
      have sh: "?v0 + PGSIZE + of_nat i = va + of_nat (?m + i)" for i
        by (simp add: room_next add.assoc)
      have w': "wrote_user k root sz s u va (take (?m + n) xs)"
        using wrote_user_append [OF w u(3) len] by (simp add: take_add)
      have "acc k s root (va + of_nat i)" if "i < ?m + n" for i
      proof (cases "i < ?m")
        case True
        then show ?thesis
          using good(2) same_page_acc(1) [OF room_step(2), of i va k s root] by simp
      next
        case False
        then show ?thesis
          using u(4) [rule_format, of "i - ?m"] that unfolding sh wrote_user_acc [OF w] by simp
      qed
      moreover have "r = 0 \<and> ?m + n = length xs \<or> r = - 1 \<and> ?m + n < length xs \<and> \<not> acc k s root (va + of_nat (?m + n))"
        using u(5) False unfolding sh wrote_user_acc [OF w] by auto
      ultimately show ?thesis
        using step u(1,2) w' False by (intro exI [of _ r] exI [of _ u] exI [of _ "?m + n"]) auto
    qed
  qed
qed

section \<open>Growing an address space\<close>


section \<open>A machine\<close>

text \<open>The decoding that \<^verbatim>\<open>PA2PTE\<close> calls for, and a kernel that ends at 0x80021000.\<close>

definition sv39_pa :: "u64 \<Rightarrow> u64" where
  "sv39_pa pte = push_bit 12 (drop_bit 10 pte)"

definition kex :: kconf where
  "kex = \<lparr>k_end = 0x80021000, k_etext = 0x80008000, k_trampoline = 0x80007000, k_pte2pa = sv39_pa\<rparr>"

lemma decodes_kex: "decodes kex"
  unfolding decodes_def
proof (intro allI impI)
  fix pa f :: u64
  assume "aligned pa" and f: "f < 1024"
  then have "take_bit 12 pa = 0"
    by (simp add: aligned_def PGSIZE_def take_bit_eq_mod)
  then have lo: "\<not> bit pa n" if "n < 12" for n
    using that by (metis bit_0_eq bit_take_bit_iff bot_apply bot_bool_def)
  have "take_bit 10 f = f"
    using f by (simp add: word_unat_eq_iff unsigned_take_bit_eq word_less_nat_alt take_bit_nat_eq_self)
  then have hi: "\<not> bit f n" if "10 \<le> n" for n
    using that by (metis bit_take_bit_iff not_le)
  show "k_pte2pa kex (PA2PTE pa OR f) = pa"
  proof (rule bit_word_eqI)
    fix n :: nat
    assume "n < LENGTH(64)"
    then show "bit (k_pte2pa kex (PA2PTE pa OR f)) n = bit pa n"
      using lo [of n] hi [of "n - 2"] by (cases "n < 12") (auto simp: kex_def sv39_pa_def PA2PTE_def bit_simps)
  qed
qed

lemma uvmcreate_law:
  assumes "kernel_end (k_end k)" and "kmem_inv (k_end k) s" and "uvmcreate s = (root, t)" and "root \<noteq> 0"
  shows "uvm k t root 0" and "free_pages t = free_pages s - {root}" and "root \<in> free_pages s"
proof -
  obtain s1 where a: "kalloc s = (root, s1)" "t = zero_page root s1"
    using assms(3,4) by (auto simp: uvmcreate_def Let_def split: prod.splits if_splits)
  note fr = fresh_page [OF assms(1,2) a(1) assms(4), folded a(2)]
  have tab: "table k (pmem t) root ps = (if ps = [] then Some root else None)" if "path ps" for ps
    using that fr(7) by (cases ps) (auto simp: path_def Let_def)
  have "tables k t root = {root}"
  proof -
    have "p = root" if "path ps" "table k (pmem t) root ps = Some p" for ps p
      using tab [OF that(1)] that(2) by (simp split: if_splits)
    then show ?thesis
      using tab [of "[]"] by (auto simp: tables_def path_def intro!: exI [of _ "[]"])
  qed
  then have "pt_inv k t root"
    using assms(1) fr(2,3,4) tab unfolding pt_inv_def by (auto split: if_splits)
  moreover have "leaf k (pmem t) root va = 0" for va
  proof -
    have "pxs 2 va \<noteq> []"
      using length_pxs [of 2 va] by (metis list.size(3) zero_neq_numeral)
    then show ?thesis
      using tab [OF path_pxs, of va] by (simp add: leaf_def)
  qed
  moreover have "npg 0 = 0"
    by (simp add: npg_def)
  ultimately show "uvm k t root 0"
    by (simp add: uvm_def uspan_def ULIMIT_def)
  show "free_pages t = free_pages s - {root}" "root \<in> free_pages s"
    by (rule fr)+
qed

text \<open>After boot there is room for an address space with one page.\<close>

lemma boot_space:
  obtains s0 root s where "kinit (k_end kex) (\<lambda>_. 0) = Ok s0" and "uvmcreate s0 = (root, s)" and "uvm kex s root 0"
    and "4 \<le> card (free_pages s)"
proof -
  have ke: "kernel_end (k_end kex)" and e: "k_end kex = 0x80021000"
    using kernel_end_example by (simp_all add: kex_def)
  obtain s0 where s0: "kinit (k_end kex) (\<lambda>_. 0) = Ok s0" "kmem_inv (k_end kex) s0" "free_pages s0 = {p. page_ok (k_end kex) p}"
    using kinit_frees_all [OF ke] by blast
  let ?F = "{0x80021000, 0x80022000, 0x80023000, 0x80024000, 0x80025000} :: u64 set"
  have sub: "?F \<subseteq> free_pages s0"
    by (simp add: s0(3) e page_ok_def aligned_def PGSIZE_def PHYSTOP_def KERNBASE_def)
  have c: "5 \<le> card (free_pages s0)"
    using card_mono [OF finite_free [OF s0(2)] sub] by simp
  obtain root s where u: "uvmcreate s0 = (root, s)" by fastforce
  have r: "root \<noteq> 0"
    using kalloc_law [OF ke s0(2)] u sub by (auto simp: uvmcreate_def Let_def split: prod.splits if_splits)
  note ul = uvmcreate_law [OF ke s0(2) u r]
  have "card (free_pages s0) = Suc (card (free_pages s))"
    using card_Suc_Diff1 [OF finite_free [OF s0(2)] ul(3)] ul(2) by simp
  then show ?thesis
    using that s0(1) u ul(1) c by simp
qed


section \<open>Properties of copying\<close>

lemma boot_page: "\<exists>t root. uvm kex t root 4096 \<and> (\<forall>va. unat va < 4096 \<longrightarrow> acc kex t root va \<and> ubyte kex t root va = 0)"
proof -
  obtain s0 root s where s: "kinit (k_end kex) (\<lambda>_. 0) = Ok s0" "uvmcreate s0 = (root, s)" "uvm kex s root 0"
    "4 \<le> card (free_pages s)"
    by (rule boot_space)
  have inv: "pt_inv kex s root" and un: "\<And>va. unat va < ULIMIT \<Longrightarrow> leaf kex (pmem s) root va AND PTE_V = 0"
    using s(3) by (auto simp: uvm_def npg_def)
  have a: "aligned 0" "unat (0 :: u64) + 4096 * (0 + 1) \<le> 2 ^ 38 - 4096"
    by (simp_all add: aligned_def)
  have un': "leaf kex (pmem s) root va AND PTE_V = 0" if "va < MAXVA" "in_pages 0 (0 + 1) va" for va
    using un [of va] that by (simp add: in_pages_def ULIMIT_def)
  obtain t where t: "fresh_span kex root s t 0 1"
    using uvmalloc_loop_law [OF decodes_kex a fresh_span_0 [OF inv], of 0 4096] un' s(4) by fastforce
  have n: "npg 4096 = 1" "npg 0 = 0" "PGROUNDUP 0 = 0"
    by (simp_all add: npg_def PGROUNDUP_def PGSIZE_def)
  have lim: "unat (0 :: u64) \<le> unat (4096 :: u64)" "unat (4096 :: u64) \<le> ULIMIT"
    by (simp_all add: ULIMIT_def)
  have f: "fresh_span kex root s t (PGROUNDUP 0) (npg 4096 - npg 0)"
    using t by (simp add: n)
  show ?thesis
    using uvm_extend(1) [OF s(3) lim f] uvm_extend(3) [OF s(3) lim f] by (intro exI [of _ t] exI [of _ root]) (simp add: n)
qed







end
