(* ===== verification/Vm_Boot.thy ===== *)
theory Vm_Boot
  imports Vm_Copy
begin

text \<open>
  The kernel's page table with the decoding of entries that \<^verbatim>\<open>kernel/riscv.h\<close> has:
  \<^verbatim>\<open>((pte) << 12 >> 10 << 12)\<close> instead of \<^verbatim>\<open>((pte) >> 10) << 12\<close>.
\<close>

section \<open>The macro\<close>

lemma unat_PTE2PA: "unat w < 2 ^ 50 \<Longrightarrow> unat (PTE2PA w) = unat w * 16384"
proof -
  assume w: "unat w < 2 ^ 50"
  have a: "unat (push_bit 12 w) = unat w * 4096"
    using w by (simp add: push_bit_eq_mult unat_mult_lem [THEN iffD1])
  then have b: "unat (drop_bit 10 (push_bit 12 w)) = unat w * 4"
    by (simp add: drop_bit_eq_div unat_div_distrib)
  have "unat (push_bit 12 (drop_bit 10 (push_bit 12 w))) = unat (drop_bit 10 (push_bit 12 w)) * 4096"
    using w b unfolding push_bit_eq_mult [of 12 "drop_bit 10 _"] by (subst unat_mult_lem [THEN iffD1]) simp_all
  then show ?thesis
    using b by (simp add: PTE2PA_def)
qed

lemma unat_PA2PTE: "unat (PA2PTE p) = unat p div 4096 * 1024"
proof -
  have d: "unat (drop_bit 12 p) = unat p div 4096"
    by (simp add: drop_bit_eq_div unat_div_distrib)
  have "unat p div 4096 < 2 ^ 52"
    using unat_lt_u64 [of p] by (simp add: div_less_iff_less_mult)
  then show ?thesis
    using d unfolding PA2PTE_def push_bit_eq_mult by (subst unat_mult_lem [THEN iffD1]) simp_all
qed

lemma table_entry_bounds:
  assumes "KERNBASE \<le> p" and "p < PHYSTOP"
  shows "2 ^ 29 \<le> unat (PA2PTE p OR PTE_V)" and "unat (PA2PTE p OR PTE_V) < 2 ^ 30"
proof -
  have p: "0x80000000 \<le> unat p" "unat p < 0x88000000"
    using assms by (simp_all add: word_le_nat_alt word_less_nat_alt PHYSTOP_nat KERNBASE_def)
  have "0x80000 \<le> unat p div 4096"
    using div_le_mono [OF p(1), of 4096] by simp
  moreover have "unat p div 4096 < 0x88000"
    using p(2) by (simp add: div_less_iff_less_mult)
  ultimately have u: "2 ^ 29 \<le> unat (PA2PTE p)" "unat (PA2PTE p) < 2 ^ 30 - 1"
    by (simp_all add: unat_PA2PTE)
  have "unat (PA2PTE p OR PTE_V) = unat (PA2PTE p) \<or> unat (PA2PTE p OR PTE_V) = unat (PA2PTE p) + 1"
  proof (cases "even (PA2PTE p)")
    case True
    have "unat (PA2PTE p + 1) = unat (PA2PTE p) + 1"
      using u(2) by (subst unat_add_nowrap) simp_all
    then show ?thesis
      using True by (simp add: PTE_V_def or_one_eq)
  next
    case False
    then show ?thesis by (simp add: PTE_V_def or_one_eq)
  qed
  then show "2 ^ 29 \<le> unat (PA2PTE p OR PTE_V)" and "unat (PA2PTE p OR PTE_V) < 2 ^ 30"
    using u by auto
qed

text \<open>An entry made for a page of the machine's memory is decoded to an address far above it.\<close>

lemma PTE2PA_outside:
  assumes "KERNBASE \<le> p" and "p < PHYSTOP" and "i < 512"
  shows "\<not> in_ram (PTE2PA (PA2PTE p OR PTE_V) + 8 * i)"
proof -
  note b = table_entry_bounds [OF assms(1,2)]
  have u: "2 ^ 43 \<le> unat (PTE2PA (PA2PTE p OR PTE_V))" "unat (PTE2PA (PA2PTE p OR PTE_V)) < 2 ^ 44"
    using b by (simp_all add: unat_PTE2PA)
  have i: "unat (8 * i) < 4096"
  proof -
    have "unat i < 512"
      using assms(3) by (simp add: word_less_nat_alt)
    then show ?thesis
      by (subst unat_mult_lem [THEN iffD1]) simp_all
  qed
  have "unat (PTE2PA (PA2PTE p OR PTE_V) + 8 * i) = unat (PTE2PA (PA2PTE p OR PTE_V)) + unat (8 * i)"
    using u i by (intro unat_add_nowrap) simp
  then show ?thesis
    using u(1) by (auto simp: in_ram_def word_less_nat_alt PHYSTOP_nat)
qed

section \<open>The first two mappings of the kernel\<close>

lemma load_other_entry:
  assumes "aligned r" and "aligned q" and "r \<noteq> q" and "i < 512" and "\<And>a. \<not> in_range q 4096 a \<Longrightarrow> m' a = m a"
  shows "load64 m' (r + 8 * i) = load64 m (r + 8 * i)"
  using entry_in_page [OF assms(1,4)] pages_apart [OF assms(1-3)] assms(5) by (intro load64_cong) blast

lemma PX_devices: "PX 2 UART0 = 0" "PX 2 VIRTIO0 = 0" "PX 1 UART0 = 128" "PX 0 UART0 = 0"
  "PGROUNDDOWN UART0 = UART0" "PGROUNDDOWN (UART0 + PGSIZE - 1) = UART0" "PGROUNDDOWN VIRTIO0 = VIRTIO0"
  "UART0 < MAXVA" "VIRTIO0 < MAXVA"
  by (simp_all add: PX_def UART0_def VIRTIO0_def PGROUNDDOWN_def PGSIZE_def MAXVA_def drop_bit_eq_div)

text \<open>A page from the allocator, cleared, while another page in use keeps its contents.\<close>

lemma fresh_keep:
  assumes ke: "kernel_end kend" and inv: "kmem_inv kend s" and f: "free_pages s \<noteq> {}"
  obtains q s1 where "kalloc s = (q, s1)" and "q \<noteq> 0" and "q \<in> free_pages s" and "page_ok kend q"
    and "kmem_inv kend (zero_page q s1)" and "free_pages (zero_page q s1) = free_pages s - {q}"
    and "\<forall>r i. aligned r \<longrightarrow> r \<noteq> q \<longrightarrow> i < 512 \<longrightarrow> load64 (pmem (zero_page q s1)) (r + 8 * i) = load64 (pmem s) (r + 8 * i)"
    and "\<forall>i < 512. load64 (pmem (zero_page q s1)) (q + 8 * i) = 0"
proof -
  obtain q s1 where q: "kalloc s = (q, s1)" by fastforce
  have nz: "q \<noteq> 0"
    using kalloc_law [OF ke inv q] f by auto
  note fr = fresh_page [OF ke inv q nz]
  have "\<forall>r i. aligned r \<longrightarrow> r \<noteq> q \<longrightarrow> i < 512 \<longrightarrow> load64 (pmem (zero_page q s1)) (r + 8 * i) = load64 (pmem s) (r + 8 * i)"
    using load_other_entry [of _ q _ "pmem (zero_page q s1)" "pmem s"] fr(2,5) by (auto simp: page_ok_def)
  then show ?thesis
    using that q nz fr by blast
qed

text \<open>Storing an entry in a page in use.\<close>

lemma store_keep:
  assumes inv: "kmem_inv kend s" and p: "page_ok kend p" "KERNBASE \<le> kend" "p \<notin> free_pages s" "i < 512"
  obtains t where "store_pte (p + 8 * i) w s = Ok t" and "kmem_inv kend t" and "free_pages t = free_pages s"
    and "load64 (pmem t) (p + 8 * i) = w"
    and "\<forall>r j. aligned r \<longrightarrow> r \<noteq> p \<longrightarrow> j < 512 \<longrightarrow> load64 (pmem t) (r + 8 * j) = load64 (pmem s) (r + 8 * j)"
proof -
  have al: "aligned p" and r: "KERNBASE \<le> p" "p < PHYSTOP"
    using p(1,2) by (auto simp: page_ok_def)
  have ram: "in_ram (p + 8 * i)"
    using entry_in_ram [OF r al p(4)] .
  let ?t = "s\<lparr>pmem := store64 (p + 8 * i) w (pmem s)\<rparr>"
  have other: "pmem ?t a = pmem s a" if "\<not> in_range p 4096 a" for a
    using that entry_in_page [OF al p(4)] store64_other [of "p + 8 * i" a w "pmem s"] by auto
  have "kmem_inv kend ?t" "free_pages ?t = free_pages s"
    using kmem_write [OF inv al p(3), of ?t] other by simp_all
  moreover have "\<forall>r j. aligned r \<longrightarrow> r \<noteq> p \<longrightarrow> j < 512 \<longrightarrow> load64 (pmem ?t) (r + 8 * j) = load64 (pmem s) (r + 8 * j)"
    using load_other_entry [OF _ al, of _ _ "pmem ?t" "pmem s"] other by blast
  ultimately show ?thesis
    using that ram by (simp add: store_pte_def)
qed

text \<open>One level of a walk that has to make the table below.\<close>

definition in_use :: "kconf \<Rightarrow> kmem \<Rightarrow> u64 \<Rightarrow> bool" where
  "in_use k s p \<longleftrightarrow> page_ok (k_end k) p \<and> p \<notin> free_pages s"

definition same_entries :: "kmem \<Rightarrow> kmem \<Rightarrow> u64 set \<Rightarrow> bool" where
  "same_entries s t A \<longleftrightarrow>
     (\<forall>r j. aligned r \<longrightarrow> r \<notin> A \<longrightarrow> j < 512 \<longrightarrow> load64 (pmem t) (r + 8 * j) = load64 (pmem s) (r + 8 * j))"

lemma walk_new_level:
  assumes ke: "kernel_end (k_end k)" and inv: "kmem_inv (k_end k) s" and r: "in_use k s r"
    and z: "load64 (pmem s) (r + 8 * PX (Suc l) va) AND PTE_V = 0" and f: "free_pages s \<noteq> {}"
  obtains p t where "walk_loop k True va (Suc l) r s = walk_loop k True va l p t" and "kmem_inv (k_end k) t"
    and "free_pages t = free_pages s - {p}" and "p \<in> free_pages s" and "in_use k t r" and "in_use k t p"
    and "load64 (pmem t) (r + 8 * PX (Suc l) va) = PA2PTE p OR PTE_V" and "\<forall>i < 512. load64 (pmem t) (p + 8 * i) = 0"
    and "same_entries s t {r, p}"
proof -
  have K: "KERNBASE \<le> k_end k"
    using ke by (simp add: kernel_end_def)
  have ok: "page_ok (k_end k) r" "r \<notin> free_pages s" and alr: "aligned r"
    using r by (auto simp: in_use_def page_ok_def)
  have ram: "in_ram (r + 8 * PX (Suc l) va)"
    using ok(1) K alr by (intro entry_in_ram PX_lt) (auto simp: page_ok_def)
  obtain p s1 where p: "kalloc s = (p, s1)" "p \<noteq> 0" "p \<in> free_pages s" "page_ok (k_end k) p" "kmem_inv (k_end k) (zero_page p s1)"
    "free_pages (zero_page p s1) = free_pages s - {p}"
    "\<forall>r i. aligned r \<longrightarrow> r \<noteq> p \<longrightarrow> i < 512 \<longrightarrow> load64 (pmem (zero_page p s1)) (r + 8 * i) = load64 (pmem s) (r + 8 * i)"
    "\<forall>i < 512. load64 (pmem (zero_page p s1)) (p + 8 * i) = 0"
    by (rule fresh_keep [OF ke inv f])
  have rp: "r \<noteq> p" "r \<notin> free_pages (zero_page p s1)"
    using ok(2) p(3,6) by auto
  obtain t where t: "store_pte (r + 8 * PX (Suc l) va) (PA2PTE p OR PTE_V) (zero_page p s1) = Ok t" "kmem_inv (k_end k) t"
    "free_pages t = free_pages (zero_page p s1)" "load64 (pmem t) (r + 8 * PX (Suc l) va) = PA2PTE p OR PTE_V"
    "\<forall>r' j. aligned r' \<longrightarrow> r' \<noteq> r \<longrightarrow> j < 512 \<longrightarrow> load64 (pmem t) (r' + 8 * j) = load64 (pmem (zero_page p s1)) (r' + 8 * j)"
    by (rule store_keep [OF p(5) ok(1) K rp(2) PX_lt])
  have "walk_loop k True va (Suc l) r s = walk_loop k True va l p t"
    using ram z p(1,2) t(1) by (simp add: load_pte_def Let_def)
  moreover have "same_entries s t {r, p}"
    using p(7) t(5) by (simp add: same_entries_def)
  moreover have "\<forall>i < 512. load64 (pmem t) (p + 8 * i) = 0"
    using p(4,8) t(5) rp(1) by (simp add: page_ok_def)
  ultimately show ?thesis
    using that t(2,3,4) p(3,4,6) ok by (simp add: in_use_def)
qed

text \<open>C37: with the decoding of \<^verbatim>\<open>kernel/riscv.h\<close> the kernel does not come up: \<^verbatim>\<open>kvminit\<close> makes its first
  mapping, and the walk for the second follows the table entry just made to an address outside the
  memory of the machine, however much memory is free.\<close>
theorem kvminit_faults:
  assumes "k_pte2pa k = PTE2PA" and "kernel_end (k_end k)" and "kmem_inv (k_end k) s" and "3 \<le> card (free_pages s)"
  shows "kvminit k s = Fault ''pte''"
proof -
  have K: "KERNBASE \<le> k_end k"
    using assms(2) by (simp add: kernel_end_def)
  have c0: "free_pages s \<noteq> {}"
    using assms(4) by auto
  obtain r s1 where r: "kalloc s = (r, s1)" "r \<noteq> 0" "r \<in> free_pages s" "page_ok (k_end k) r" "kmem_inv (k_end k) (zero_page r s1)"
    "free_pages (zero_page r s1) = free_pages s - {r}"
    "\<forall>r' i. aligned r' \<longrightarrow> r' \<noteq> r \<longrightarrow> i < 512 \<longrightarrow> load64 (pmem (zero_page r s1)) (r' + 8 * i) = load64 (pmem s) (r' + 8 * i)"
    "\<forall>i < 512. load64 (pmem (zero_page r s1)) (r + 8 * i) = 0"
    by (rule fresh_keep [OF assms(2,3) c0])
  let ?s = "zero_page r s1"
  have cs: "card (free_pages ?s) = card (free_pages s) - 1"
    unfolding r(6) using r(3) by (rule card_Diff_singleton)
  have ru: "in_use k ?s r" and rz: "load64 (pmem ?s) (r + 8 * PX (Suc 1) UART0) AND PTE_V = 0"
    using r(4,6,8) PX_lt by (auto simp: in_use_def)
  have nonempty: "0 < card A \<Longrightarrow> A \<noteq> {}" for A :: "u64 set"
    by auto
  have f1: "free_pages ?s \<noteq> {}"
    using cs assms(4) by (intro nonempty) simp
  obtain p t where p: "walk_loop k True UART0 (Suc 1) r ?s = walk_loop k True UART0 1 p t" "kmem_inv (k_end k) t"
    "free_pages t = free_pages ?s - {p}" "p \<in> free_pages ?s" "in_use k t r" "in_use k t p"
    "load64 (pmem t) (r + 8 * PX (Suc 1) UART0) = PA2PTE p OR PTE_V" "\<forall>i < 512. load64 (pmem t) (p + 8 * i) = 0" "same_entries ?s t {r, p}"
    by (rule walk_new_level [OF assms(2) r(5) ru rz f1])
  have ct: "card (free_pages t) = card (free_pages ?s) - 1"
    unfolding p(3) using p(4) by (rule card_Diff_singleton)
  have pz: "load64 (pmem t) (p + 8 * PX (Suc 0) UART0) AND PTE_V = 0"
    using p(8) PX_lt by simp
  have f2: "free_pages t \<noteq> {}"
    using ct cs assms(4) by (intro nonempty) simp
  obtain q u where q: "walk_loop k True UART0 (Suc 0) p t = walk_loop k True UART0 0 q u" "kmem_inv (k_end k) u"
    "free_pages u = free_pages t - {q}" "q \<in> free_pages t" "in_use k u p" "in_use k u q"
    "load64 (pmem u) (p + 8 * PX (Suc 0) UART0) = PA2PTE q OR PTE_V" "\<forall>i < 512. load64 (pmem u) (q + 8 * i) = 0" "same_entries t u {p, q}"
    by (rule walk_new_level [OF assms(2) p(2,6) pz f2])
  have qok: "page_ok (k_end k) q" "q \<notin> free_pages u"
    using q(6) by (auto simp: in_use_def)
  obtain v where v: "store_pte (q + 8 * PX 0 UART0) (PA2PTE UART0 OR (PTE_R OR PTE_W) OR PTE_V) u = Ok v"
    "kmem_inv (k_end k) v" "free_pages v = free_pages u"
    "load64 (pmem v) (q + 8 * PX 0 UART0) = PA2PTE UART0 OR (PTE_R OR PTE_W) OR PTE_V"
    "\<forall>r' j. aligned r' \<longrightarrow> r' \<noteq> q \<longrightarrow> j < 512 \<longrightarrow> load64 (pmem v) (r' + 8 * j) = load64 (pmem u) (r' + 8 * j)"
    by (rule store_keep [OF q(2) qok(1) K qok(2) PX_lt])
  have qram: "in_ram (q + 8 * PX 0 UART0)" and pram: "KERNBASE \<le> p" "p < PHYSTOP" and rram: "in_ram (r + 8 * PX (Suc 1) VIRTIO0)"
    using qok(1) p(6) r(4) K by (auto intro!: entry_in_ram PX_lt simp: page_ok_def in_use_def)
  have alr: "aligned r"
    using r(4) unfolding page_ok_def by blast
  have "r \<noteq> p"
    using ru p(4) unfolding in_use_def by blast
  moreover have "r \<noteq> q"
    using p(5) q(4) unfolding in_use_def by blast
  ultimately have dis: "r \<notin> {p, q}"
    by blast
  have nz: "q + 8 * PX 0 UART0 \<noteq> 0"
    using qram by (auto simp: in_ram_def KERNBASE_def)
  have "walk k r UART0 True ?s = Ok (q + 8 * PX 0 UART0, u)"
    using p(1) q(1) PX_devices(8) by (simp add: walk_def numeral_2_eq_2)
  then have m1: "kvmmap k r UART0 UART0 PGSIZE (PTE_R OR PTE_W) ?s = Ok v"
    using qram nz q(8) PX_lt v(1)
    by (simp add: kvmmap_def mappages_def PX_devices(5,6) mappages_loop.simps [of k r UART0] load_pte_def)
  have "load64 (pmem v) (r + 8 * PX (Suc 1) VIRTIO0) = PA2PTE p OR PTE_V"
  proof -
    have e: "PX (Suc 1) VIRTIO0 = PX (Suc 1) UART0"
      using PX_devices(1,2) by (simp add: numeral_2_eq_2)
    have "load64 (pmem v) (r + 8 * PX (Suc 1) UART0) = load64 (pmem u) (r + 8 * PX (Suc 1) UART0)"
      "load64 (pmem u) (r + 8 * PX (Suc 1) UART0) = load64 (pmem t) (r + 8 * PX (Suc 1) UART0)"
      using v(5) q(9) alr dis PX_lt unfolding same_entries_def by blast+
    then show ?thesis
      using p(7) unfolding e by simp
  qed
  then have "walk k r VIRTIO0 True v = Fault ''pte''"
    using rram PTE_V_or PTE2PA_outside [OF pram PX_lt] PX_devices(9)
    by (simp add: walk_def numeral_2_eq_2 load_pte_def Let_def assms(1))
  then have "kvmmap k r VIRTIO0 VIRTIO0 PGSIZE (PTE_R OR PTE_W) v = Fault ''pte''"
    by (simp add: kvmmap_def mappages_def PX_devices mappages_loop.simps [of k r VIRTIO0])
  then show ?thesis
    using r(1,2) m1 by (simp add: kvminit_def)
qed

theorem kvminit_faults_witness:
  "\<exists>s. kinit 0x80021000 (\<lambda>_. 0) = Ok s \<and> kvminit (kex\<lparr>k_pte2pa := PTE2PA\<rparr>) s = Fault ''pte''"
proof -
  let ?k = "kex\<lparr>k_pte2pa := PTE2PA\<rparr>"
  have e: "k_end ?k = 0x80021000"
    by (simp add: kex_def)
  obtain s where s: "kinit 0x80021000 (\<lambda>_. 0) = Ok s" "kmem_inv 0x80021000 s" "free_pages s = {p. page_ok 0x80021000 p}"
    using kinit_frees_all [OF kernel_end_example] by blast
  have "{0x80021000, 0x80022000, 0x80023000} \<subseteq> free_pages s"
    by (simp add: s(3) page_ok_def aligned_def PGSIZE_def PHYSTOP_def KERNBASE_def)
  from card_mono [OF finite_free [OF s(2)] this] have c: "3 \<le> card (free_pages s)"
    by simp
  have "kvminit ?k s = Fault ''pte''"
    by (rule kvminit_faults) (use kernel_end_example s(2) c in \<open>simp_all add: e\<close>)
  then show ?thesis
    using s(1) by blast
qed

end
