(* ===== verification/Virtio.thy ===== *)
theory Virtio
  imports Vm
begin

text \<open>
  \<^verbatim>\<open>kernel/virtio_disk.c\<close>: the driver of the disk. The rings that driver and device share are fields
  of the state; the device itself is the hardware, known by what it writes: an element of the used
  ring with the index of a request it has served, the used index and the status byte. A call of
  \<^verbatim>\<open>virtio_disk_rw\<close> is cut at its sleeps: \<open>virtio_submit\<close> runs up to the sleep that waits for the
  device (\<open>None\<close>: it sleeps for descriptors first), \<open>virtio_finish\<close> is what follows. A buffer is its
  index; \<open>dk_busy\<close> holds \<^verbatim>\<open>b->disk\<close>.
\<close>

section \<open>Registers and state\<close>

definition NUM :: nat where "NUM = 8"
definition VRING_DESC_F_NEXT :: u16 where "VRING_DESC_F_NEXT = 1"
definition VRING_DESC_F_WRITE :: u16 where "VRING_DESC_F_WRITE = 2"
definition VIRTIO_BLK_T_IN :: u32 where "VIRTIO_BLK_T_IN = 0"
definition VIRTIO_BLK_T_OUT :: u32 where "VIRTIO_BLK_T_OUT = 1"

record vdesc =
  v_addr :: u64
  v_len :: u32
  v_flags :: u16
  v_next :: u16

record vhdr =
  h_type :: u32
  h_reserved :: u32
  h_sector :: u64

record disk =
  dk_desc :: "vdesc list"
  dk_avail_idx :: u16
  dk_avail :: "u16 list"
  dk_used_id :: u16
  dk_used :: "u32 list"
  dk_free :: "bool list"
  dk_used_idx :: u16
  dk_b :: "nat option list"
  dk_status :: "u8 list"
  dk_busy :: "nat \<Rightarrow> bool"
  dk_hdr :: "u64 \<Rightarrow> vhdr"

text \<open>Addresses: of the header on the caller's stack, of a buffer's data and of a status byte.\<close>

record vaddrs =
  va_buf0 :: u64
  va_data :: "nat \<Rightarrow> u64"
  va_status :: "nat \<Rightarrow> u64"

section \<open>Starting the device\<close>

text \<open>The registers of the device: what it answers, and the writes the driver makes, in order.\<close>

definition MMIO_MAGIC_VALUE :: nat where "MMIO_MAGIC_VALUE = 0x000"
definition MMIO_VERSION :: nat where "MMIO_VERSION = 0x004"
definition MMIO_DEVICE_ID :: nat where "MMIO_DEVICE_ID = 0x008"
definition MMIO_VENDOR_ID :: nat where "MMIO_VENDOR_ID = 0x00c"
definition MMIO_DEVICE_FEATURES :: nat where "MMIO_DEVICE_FEATURES = 0x010"
definition MMIO_DRIVER_FEATURES :: nat where "MMIO_DRIVER_FEATURES = 0x020"
definition MMIO_GUEST_PAGE_SIZE :: nat where "MMIO_GUEST_PAGE_SIZE = 0x028"
definition MMIO_QUEUE_SEL :: nat where "MMIO_QUEUE_SEL = 0x030"
definition MMIO_QUEUE_NUM_MAX :: nat where "MMIO_QUEUE_NUM_MAX = 0x034"
definition MMIO_QUEUE_NUM :: nat where "MMIO_QUEUE_NUM = 0x038"
definition MMIO_QUEUE_PFN :: nat where "MMIO_QUEUE_PFN = 0x040"
definition MMIO_STATUS :: nat where "MMIO_STATUS = 0x070"

definition driver_features :: "u32 \<Rightarrow> u32" where
  "driver_features f = foldl (\<lambda>f b. f AND NOT (push_bit b 1)) f [5, 7, 11, 12, 27, 29, 28]"

definition zero_desc :: vdesc where
  "zero_desc = \<lparr>v_addr = 0, v_len = 0, v_flags = 0, v_next = 0\<rparr>"

definition virtio_disk_init :: "(nat \<Rightarrow> u32) \<Rightarrow> u64 \<Rightarrow> disk \<Rightarrow> ((nat \<times> u32) list \<times> disk) res" where
  "virtio_disk_init reg pages d =
     (if reg MMIO_MAGIC_VALUE \<noteq> 0x74726976 \<or> reg MMIO_VERSION \<noteq> 1 \<or> reg MMIO_DEVICE_ID \<noteq> 2 \<or>
         reg MMIO_VENDOR_ID \<noteq> 0x554d4551 then Panic ''could not find virtio disk''
      else if reg MMIO_QUEUE_NUM_MAX = 0 then Panic ''virtio disk has no queue 0''
      else if unat (reg MMIO_QUEUE_NUM_MAX) < NUM then Panic ''virtio disk max queue too short''
      else Ok ([(MMIO_STATUS, 1), (MMIO_STATUS, 3),
                (MMIO_DRIVER_FEATURES, driver_features (reg MMIO_DEVICE_FEATURES)),
                (MMIO_STATUS, 11), (MMIO_STATUS, 15), (MMIO_GUEST_PAGE_SIZE, ucast PGSIZE),
                (MMIO_QUEUE_SEL, 0), (MMIO_QUEUE_NUM, of_nat NUM), (MMIO_QUEUE_PFN, ucast (drop_bit 12 pages))],
               d\<lparr>dk_desc := replicate NUM zero_desc, dk_avail_idx := 0, dk_avail := replicate NUM 0,
                 dk_used_id := 0, dk_used := replicate NUM 0, dk_free := replicate NUM True\<rparr>))"

section \<open>Descriptors\<close>

primrec alloc_scan :: "nat \<Rightarrow> nat \<Rightarrow> bool list \<Rightarrow> nat option" where
  "alloc_scan 0 i fr = None"
| "alloc_scan (Suc k) i fr = (if fr ! i then Some i else alloc_scan k (Suc i) fr)"

definition alloc_desc :: "disk \<Rightarrow> nat option \<times> disk" where
  "alloc_desc d =
     (case alloc_scan NUM 0 (dk_free d) of
        None \<Rightarrow> (None, d)
      | Some i \<Rightarrow> (Some i, d\<lparr>dk_free := (dk_free d)[i := False]\<rparr>))"

definition free_desc :: "nat \<Rightarrow> disk \<Rightarrow> disk res" where
  "free_desc i d =
     (if i \<ge> NUM then Panic ''virtio_disk_intr 1''
      else if dk_free d ! i then Panic ''virtio_disk_intr 2''
      else Ok (d\<lparr>dk_desc := (dk_desc d)[i := (dk_desc d ! i)\<lparr>v_addr := 0\<rparr>], dk_free := (dk_free d)[i := True]\<rparr>))"

text \<open>Every step frees a descriptor that was in use, so there are at most \<open>NUM\<close> of them.\<close>

primrec free_chain_loop :: "nat \<Rightarrow> nat \<Rightarrow> disk \<Rightarrow> disk res" where
  "free_chain_loop 0 i d = Fault ''free_chain''"
| "free_chain_loop (Suc k) i d =
     rbind (free_desc i d) (\<lambda>d.
     if v_flags (dk_desc d ! i) AND VRING_DESC_F_NEXT \<noteq> 0
     then free_chain_loop k (unat (v_next (dk_desc d ! i))) d
     else Ok d)"

definition free_chain :: "nat \<Rightarrow> disk \<Rightarrow> disk res" where
  "free_chain i d = free_chain_loop (NUM + 1) i d"

definition alloc3_desc :: "disk \<Rightarrow> ((nat \<times> nat \<times> nat) option \<times> disk) res" where
  "alloc3_desc d =
     (case alloc_desc d of
        (None, d) \<Rightarrow> Ok (None, d)
      | (Some i, d) \<Rightarrow>
          (case alloc_desc d of
             (None, d) \<Rightarrow> rmap (Pair None) (free_desc i d)
           | (Some j, d) \<Rightarrow>
               (case alloc_desc d of
                  (None, d) \<Rightarrow> rbind (free_desc i d) (\<lambda>d. rmap (Pair None) (free_desc j d))
                | (Some k, d) \<Rightarrow> Ok (Some (i, j, k), d))))"

section \<open>Requests\<close>

text \<open>The sector is computed in 32 bits.\<close>

definition request_hdr :: "u32 \<Rightarrow> bool \<Rightarrow> vhdr" where
  "request_hdr blockno wr = \<lparr>h_type = (if wr then VIRTIO_BLK_T_OUT else VIRTIO_BLK_T_IN), h_reserved = 0,
     h_sector = ucast (blockno * 2)\<rparr>"

definition format_descs :: "vaddrs \<Rightarrow> nat \<Rightarrow> bool \<Rightarrow> nat \<times> nat \<times> nat \<Rightarrow> vdesc list \<Rightarrow> vdesc list" where
  "format_descs a b wr = (\<lambda>(i, j, k) ds.
     ds[i := \<lparr>v_addr = va_buf0 a, v_len = 16, v_flags = VRING_DESC_F_NEXT, v_next = of_nat j\<rparr>,
        j := \<lparr>v_addr = va_data a b, v_len = 1024,
              v_flags = (if wr then 0 else VRING_DESC_F_WRITE) OR VRING_DESC_F_NEXT, v_next = of_nat k\<rparr>,
        k := \<lparr>v_addr = va_status a i, v_len = 1, v_flags = VRING_DESC_F_WRITE, v_next = 0\<rparr>])"

definition virtio_submit :: "vaddrs \<Rightarrow> nat \<Rightarrow> u32 \<Rightarrow> bool \<Rightarrow> disk \<Rightarrow> (nat option \<times> disk) res" where
  "virtio_submit a b blockno wr d =
     rbind (alloc3_desc d) (\<lambda>(r, d).
     case r of
       None \<Rightarrow> Ok (None, d)
     | Some (i, j, k) \<Rightarrow>
         Ok (Some i, d\<lparr>dk_hdr := (dk_hdr d)(va_buf0 a := request_hdr blockno wr),
           dk_desc := format_descs a b wr (i, j, k) (dk_desc d),
           dk_status := (dk_status d)[i := 0],
           dk_busy := (dk_busy d)(b := True),
           dk_b := (dk_b d)[i := Some b],
           dk_avail := (dk_avail d)[unat (dk_avail_idx d) mod NUM := of_nat i],
           dk_avail_idx := dk_avail_idx d + 1\<rparr>))"

definition virtio_finish :: "nat \<Rightarrow> disk \<Rightarrow> disk res" where
  "virtio_finish i d = free_chain i (d\<lparr>dk_b := (dk_b d)[i := None]\<rparr>)"

text \<open>The interrupt handler: it returns the buffers whose sleepers it wakes. The loop moves
  \<^verbatim>\<open>used_idx\<close> round the ring and so meets the device's index in at most \<open>NUM\<close> steps.\<close>

primrec intr_loop :: "nat \<Rightarrow> disk \<Rightarrow> (nat list \<times> disk) res" where
  "intr_loop 0 d = Ok ([], d)"
| "intr_loop (Suc n) d =
     (if unat (dk_used_idx d) mod NUM \<noteq> unat (dk_used_id d) mod NUM then
        let id = unat (dk_used d ! unat (dk_used_idx d)) in
        if id \<ge> NUM then Fault ''disk.info''
        else if dk_status d ! id \<noteq> 0 then Panic ''virtio_disk_intr status''
        else case dk_b d ! id of
               None \<Rightarrow> Fault ''disk.info[id].b''
             | Some b \<Rightarrow>
                 rmap (\<lambda>(bs, d). (b # bs, d)) (intr_loop n (d\<lparr>dk_busy := (dk_busy d)(b := False),
                   dk_used_idx := of_nat ((unat (dk_used_idx d) + 1) mod NUM)\<rparr>))
      else Ok ([], d))"

definition virtio_disk_intr :: "disk \<Rightarrow> (nat list \<times> disk) res" where
  "virtio_disk_intr d = intr_loop NUM d"

end
