(* ===== verification/Printf.thy ===== *)
theory Printf
  imports Console Kstring
begin

text \<open>
  \<^verbatim>\<open>kernel/printf.c\<close>, \<^verbatim>\<open>user/printf.c\<close> and \<^verbatim>\<open>atoi\<close> of \<^verbatim>\<open>user/ulib.c\<close>. A format is interpreted over the
  list of the arguments that were passed; \<open>Fault\<close> is a \<^verbatim>\<open>va_arg\<close> with nothing to fetch or of another
  type. The result is the characters that are printed, in order; the kernel hands them to the
  console, the user library to \<^verbatim>\<open>write\<close>, one at a time.
\<close>

section \<open>Numbers\<close>

definition kdigits :: "u8 list" where
  "kdigits = map (\<lambda>c. of_nat (48 + c)) [0..<10] @ map (\<lambda>c. of_nat (97 + c)) [0..<6]"

definition udigits :: "u8 list" where
  "udigits = map (\<lambda>c. of_nat (48 + c)) [0..<10] @ map (\<lambda>c. of_nat (65 + c)) [0..<6]"

text \<open>The digits of \<^verbatim>\<open>printint\<close> in the order in which its first loop puts them into \<^verbatim>\<open>buf\<close>.\<close>

function put_digits :: "u8 list \<Rightarrow> nat \<Rightarrow> nat \<Rightarrow> u8 list" where
  "put_digits dg base x =
     dg ! (x mod base) # (if x div base = 0 \<or> base < 2 then [] else put_digits dg base (x div base))"
  by pat_completeness auto
termination
  by (relation "measure (\<lambda>(dg, base, x). x)") (auto simp: div_eq_0_iff intro!: div_less_dividend)

declare put_digits.simps [simp del]

definition print_num :: "u8 list \<Rightarrow> u32 \<Rightarrow> nat \<Rightarrow> bool \<Rightarrow> u8 list" where
  "print_num dg xx base sign =
     (let neg = (sign \<and> sint xx < 0);
          x = (if neg then - xx else xx);
          buf = put_digits dg base (unat x);
          buf = (if neg then buf @ [45] else buf)
      in rev buf)"

definition printint :: "u32 \<Rightarrow> nat \<Rightarrow> bool \<Rightarrow> u8 list" where
  "printint xx base sign = print_num kdigits xx base sign"

definition uprintint :: "u32 \<Rightarrow> nat \<Rightarrow> bool \<Rightarrow> u8 list" where
  "uprintint xx base sg = print_num udigits xx base sg"

primrec ptr_digits :: "nat \<Rightarrow> u8 list \<Rightarrow> u64 \<Rightarrow> u8 list" where
  "ptr_digits 0 dg x = []"
| "ptr_digits (Suc k) dg x = dg ! unat (drop_bit 60 x) # ptr_digits k dg (push_bit 4 x)"

definition printptr :: "u64 \<Rightarrow> u8 list" where
  "printptr x = [48, 120] @ ptr_digits 16 kdigits x"

definition uprintptr :: "u64 \<Rightarrow> u8 list" where
  "uprintptr x = [48, 120] @ ptr_digits 16 udigits x"

section \<open>Formats\<close>

datatype parg = Pint u32 | Plong u64 | Pstr "u8 list option"

definition null_text :: "u8 list" where
  "null_text = [40, 110, 117, 108, 108, 41]"

fun printf_args :: "u8 list \<Rightarrow> parg list \<Rightarrow> u8 list res" where
  "printf_args [] ap = Ok []"
| "printf_args (c # fmt) ap =
     (if c = 0 then Ok []
      else if c \<noteq> 37 then rmap ((#) c) (printf_args fmt ap)
      else case fmt of
        [] \<Rightarrow> Ok []
      | c # fmt \<Rightarrow>
          if c = 0 then Ok []
          else if c = 100 then
            (case ap of Pint x # ap \<Rightarrow> rmap ((@) (printint x 10 True)) (printf_args fmt ap) | _ \<Rightarrow> Fault ''va_arg'')
          else if c = 120 then
            (case ap of Pint x # ap \<Rightarrow> rmap ((@) (printint x 16 True)) (printf_args fmt ap) | _ \<Rightarrow> Fault ''va_arg'')
          else if c = 112 then
            (case ap of Plong x # ap \<Rightarrow> rmap ((@) (printptr x)) (printf_args fmt ap) | _ \<Rightarrow> Fault ''va_arg'')
          else if c = 115 then
            (case ap of Pstr x # ap \<Rightarrow>
               rmap ((@) (case x of None \<Rightarrow> null_text | Some t \<Rightarrow> str_of t)) (printf_args fmt ap) | _ \<Rightarrow> Fault ''va_arg'')
          else if c = 37 then rmap ((#) 37) (printf_args fmt ap)
          else rmap (\<lambda>out. 37 # c # out) (printf_args fmt ap))"

definition kprintf :: "u8 list \<Rightarrow> parg list \<Rightarrow> console \<Rightarrow> console res" where
  "kprintf fmt ap cs = rbind (printf_args fmt ap) (\<lambda>out. consputs out cs)"

text \<open>\<^verbatim>\<open>vprintf\<close> is a machine with two states, after a \<^verbatim>\<open>%\<close> or not. \<^verbatim>\<open>%l\<close> fetches 64 bits and hands them
  to \<^verbatim>\<open>printint\<close>, which takes an \<^verbatim>\<open>int\<close>.\<close>

fun vprintf :: "bool \<Rightarrow> u8 list \<Rightarrow> parg list \<Rightarrow> u8 list res" where
  "vprintf state [] ap = Ok []"
| "vprintf False (c # fmt) ap =
     (if c = 0 then Ok []
      else if c = 37 then vprintf True fmt ap else rmap ((#) c) (vprintf False fmt ap))"
| "vprintf True (c # fmt) ap =
     (if c = 0 then Ok []
      else if c = 100 then
        (case ap of Pint x # ap \<Rightarrow> rmap ((@) (uprintint x 10 True)) (vprintf False fmt ap) | _ \<Rightarrow> Fault ''va_arg'')
      else if c = 108 then
        (case ap of Plong x # ap \<Rightarrow> rmap ((@) (uprintint (ucast x) 10 False)) (vprintf False fmt ap) | _ \<Rightarrow> Fault ''va_arg'')
      else if c = 120 then
        (case ap of Pint x # ap \<Rightarrow> rmap ((@) (uprintint x 16 False)) (vprintf False fmt ap) | _ \<Rightarrow> Fault ''va_arg'')
      else if c = 112 then
        (case ap of Plong x # ap \<Rightarrow> rmap ((@) (uprintptr x)) (vprintf False fmt ap) | _ \<Rightarrow> Fault ''va_arg'')
      else if c = 115 then
        (case ap of Pstr x # ap \<Rightarrow>
           rmap ((@) (case x of None \<Rightarrow> null_text | Some t \<Rightarrow> str_of t)) (vprintf False fmt ap) | _ \<Rightarrow> Fault ''va_arg'')
      else if c = 99 then
        (case ap of Pint x # ap \<Rightarrow> rmap ((#) (ucast x)) (vprintf False fmt ap) | _ \<Rightarrow> Fault ''va_arg'')
      else if c = 37 then rmap ((#) c) (vprintf False fmt ap)
      else rmap (\<lambda>out. 37 # c # out) (vprintf False fmt ap))"

definition uprintf :: "u8 list \<Rightarrow> parg list \<Rightarrow> u8 list res" where
  "uprintf fmt ap = vprintf False fmt ap"

text \<open>Text constants of the source as characters.\<close>

definition chars :: "string \<Rightarrow> u8 list" where
  "chars t = map (\<lambda>c. of_nat (of_char c)) t"

section \<open>Reading numbers back\<close>

fun atoi_from :: "u32 \<Rightarrow> u8 list \<Rightarrow> u32" where
  "atoi_from n [] = n"
| "atoi_from n (c # s) = (if 48 \<le> c \<and> c \<le> 57 then atoi_from (n * 10 + ucast c - 48) s else n)"

definition atoi :: "u8 list \<Rightarrow> u32" where
  "atoi s = atoi_from 0 s"

text \<open>The decimal digits, most significant first, as \<^verbatim>\<open>atoi\<close> adds them up.\<close>

lemma atoi_from_append:
  "\<forall>c \<in> set xs. 48 \<le> c \<and> c \<le> 57 \<Longrightarrow> atoi_from n (xs @ ys) = atoi_from (atoi_from n xs) ys"
  by (induction xs arbitrary: n) auto

lemma udigits_dec: "i < 10 \<Longrightarrow> udigits ! i = of_nat (48 + i)"
  by (simp add: udigits_def nth_append)

lemma dec_digit:
  assumes "i < 10"
  shows "48 \<le> (of_nat (48 + i) :: u8)" "(of_nat (48 + i) :: u8) \<le> 57" "(ucast (of_nat (48 + i) :: u8) :: u32) = of_nat (48 + i)"
proof -
  have u: "unat (of_nat (48 + i) :: u8) = 48 + i"
    using assms by (subst unat_of_nat) (simp add: take_bit_nat_eq_self_iff)
  show "48 \<le> (of_nat (48 + i) :: u8)" "(of_nat (48 + i) :: u8) \<le> 57"
    using assms unfolding word_le_nat_alt u by simp_all
  show "(ucast (of_nat (48 + i) :: u8) :: u32) = of_nat (48 + i)"
    using assms by (simp only: unsigned_of_nat) (simp add: take_bit_nat_eq_self)
qed

lemma put_digits_dec:
  "(\<forall>c \<in> set (put_digits udigits 10 x). 48 \<le> c \<and> c \<le> 57) \<and>
   atoi_from 0 (rev (put_digits udigits 10 x)) = of_nat x"
proof (induction x rule: less_induct)
  case (less x)
  let ?d = "udigits ! (x mod 10)"
  have d: "?d = of_nat (48 + x mod 10)"
    by (simp add: udigits_dec)
  have e: "put_digits udigits 10 x = ?d # (if x div 10 = 0 then [] else put_digits udigits 10 (x div 10))"
    by (subst put_digits.simps) simp
  show ?case
  proof (cases "x div 10 = 0")
    case True
    then have "x < 10"
      by (simp add: div_eq_0_iff)
    then show ?thesis
      using dec_digit [of x] udigits_dec [of x] by (simp add: e)
  next
    case False
    then have IH: "\<forall>c \<in> set (put_digits udigits 10 (x div 10)). 48 \<le> c \<and> c \<le> 57"
      "atoi_from 0 (rev (put_digits udigits 10 (x div 10))) = of_nat (x div 10)"
      using less.IH [of "x div 10"] by (auto simp: div_less_dividend)
    have "atoi_from 0 (rev (put_digits udigits 10 x)) = atoi_from (of_nat (x div 10)) [?d]"
      using IH False by (simp add: e atoi_from_append)
    also have "\<dots> = of_nat (x div 10) * 10 + of_nat (48 + x mod 10) - 48"
      using dec_digit [of "x mod 10"] by (simp only: d atoi_from.simps) simp
    also have "\<dots> = (of_nat (x div 10 * 10 + x mod 10) :: u32)"
      by (simp only: of_nat_add of_nat_mult of_nat_numeral) simp
    also have "\<dots> = of_nat x"
      by simp
    finally show ?thesis
      using IH(1) False dec_digit [of "x mod 10"] by (simp add: e d)
  qed
qed

text \<open>Numbers survive printing and reading: \<^verbatim>\<open>atoi\<close> applied to what \<^verbatim>\<open>printf\<close> prints for \<^verbatim>\<open>%d\<close> gives a
  non-negative number back, and for a negative number what follows the minus sign reads back as its
  absolute value; the characters never exceed the 16 of \<^verbatim>\<open>buf\<close>.\<close>

theorem printint_atoi:
  "\<exists>out. uprintf [37, 100] [Pint x] = Ok out \<and> length out \<le> 16 \<and>
    (if 0 \<le> sint x then atoi out = x else hd out = 45 \<and> atoi (tl out) = - x)"
proof -
  have len: "length (put_digits udigits 10 n) \<le> k" if "n < 10 ^ k" "0 < k" for n k
    using that
  proof (induction k arbitrary: n)
    case (Suc k)
    show ?case
    proof (cases "n div 10 = 0")
      case False
      then have "0 < k" and "n div 10 < 10 ^ k"
        using Suc.prems by (cases k; simp add: div_eq_0_iff less_mult_imp_div_less mult.commute)+
      then show ?thesis
        using Suc.IH [of "n div 10"] by (subst put_digits.simps) simp
    qed (subst put_digits.simps, simp)
  qed simp
  have "length (put_digits udigits 10 (unat y)) \<le> 10" for y :: u32
    using unat_lt_u32 [of y] by (intro len) simp_all
  then have "length (uprintint x 10 True) \<le> 16"
    by (auto simp: uprintint_def print_num_def Let_def intro: le_trans order_trans [of _ 10])
  moreover have "if 0 \<le> sint x then atoi (uprintint x 10 True) = x
      else hd (uprintint x 10 True) = 45 \<and> atoi (tl (uprintint x 10 True)) = - x"
    using put_digits_dec by (auto simp: uprintint_def print_num_def atoi_def)
  ultimately show ?thesis
    by (simp add: uprintf_def)
qed

end
