(* ===== verification/Kstate.thy ===== *)
theory Kstate
  imports Klog Virtio Printf
begin

text \<open>
  The state of the running kernel: the process table of \<^verbatim>\<open>kernel/proc.c\<close> and \<^verbatim>\<open>kernel/proc.h\<close>, the
  inode cache and super block of \<^verbatim>\<open>kernel/fs.c\<close>, the open files of \<^verbatim>\<open>kernel/file.c\<close>, the pipes, the
  console and the clock, beside the physical memory and the log with its block cache. Pointers to
  elements of a static array are indices; a pipe is named by the page it lives in.

  The kernel runs one thread on the CPU that is described. \<open>held\<close> is the set of spin locks this
  CPU holds across calls: the locks of processes and those given to \<^verbatim>\<open>sleep\<close>. A lock that a function
  takes and releases without calling \<^verbatim>\<open>sleep\<close> in between makes an atomic step of it and is left out;
  Spinlock is about the locks themselves.
\<close>

section \<open>Limits\<close>

definition NPROC :: nat where "NPROC = 64"
definition NOFILE :: nat where "NOFILE = 16"
definition NFILE :: nat where "NFILE = 100"
definition NINODE :: nat where "NINODE = 50"
definition NDEV :: nat where "NDEV = 10"
definition ROOTDEV :: u32 where "ROOTDEV = 1"
definition MAXARG :: nat where "MAXARG = 32"
definition MAXPATH :: nat where "MAXPATH = 128"

section \<open>Processes\<close>

text \<open>The addresses a process can sleep on, and the spin locks.\<close>

datatype chan =
    Cproc nat | Cticks | Cnread u64 | Cnwrite u64 | Ccons | Cuart | Clog | Cbuf nat | Cinode nat | Cdisk nat

datatype lockid =
    Lproc nat | Lticks | Lpipe u64 | Lcons | Luart | Llog | Lbuf nat | Linode nat | Ldisk

datatype procstate = UNUSED | SLEEPING | RUNNABLE | RUNNING | ZOMBIE

record kcontext =
  ctx_ra :: u64
  ctx_sp :: u64
  ctx_s :: "u64 list"

record proc =
  p_state :: procstate
  p_parent :: "nat option"
  p_chan :: "chan option"
  p_killed :: bool
  p_xstate :: u32
  p_pid :: u32
  p_kstack :: u64
  p_sz :: u64
  p_pagetable :: u64
  p_trapframe :: u64
  p_context :: kcontext
  p_ofile :: "nat option list"
  p_cwd :: "nat option"
  p_name :: "u8 list"

definition zero_proc :: proc where
  "zero_proc = \<lparr>p_state = UNUSED, p_parent = None, p_chan = None, p_killed = False, p_xstate = 0,
     p_pid = 0, p_kstack = 0, p_sz = 0, p_pagetable = 0, p_trapframe = 0,
     p_context = \<lparr>ctx_ra = 0, ctx_sp = 0, ctx_s = replicate 12 0\<rparr>,
     p_ofile = replicate NOFILE None, p_cwd = None, p_name = replicate 16 0\<rparr>"

section \<open>Inodes and files\<close>

record superblock =
  sb_magic :: u32
  sb_size :: u32
  sb_nblocks :: u32
  sb_ninodes :: u32
  sb_nlog :: u32
  sb_logstart :: u32
  sb_inodestart :: u32
  sb_bmapstart :: u32

text \<open>The fields that an inode has on the disk.\<close>

record dinode =
  d_type :: u16
  d_major :: u16
  d_minor :: u16
  d_nlink :: u16
  d_size :: u32
  d_addrs :: "u32 list"

record sleeplock =
  sl_locked :: bool
  sl_pid :: nat

record inode =
  i_dev :: u32
  i_inum :: u32
  i_ref :: int
  i_lock :: sleeplock
  i_valid :: bool
  i_d :: dinode

datatype fdtype = FD_NONE | FD_PIPE | FD_INODE | FD_DEVICE

record kfile =
  f_type :: fdtype
  f_ref :: int
  f_readable :: bool
  f_writable :: bool
  f_pipe :: u64
  f_ip :: nat
  f_off :: u32
  f_major :: u16

section \<open>The machine\<close>

text \<open>The registers of the hart that traps and starting use, and the interrupt controller: the
  interrupt it answers to a claim, and the words that were written to it.\<close>

record csrs =
  sstatus :: u64
  sepc :: u64
  scause :: u64
  stval :: u64
  stvec :: u64
  satp :: u64
  sip :: u64
  tp :: u64

record plicst =
  pl_claim :: u32
  pl_writes :: "(u64 \<times> u32) list"

section \<open>The kernel\<close>

text \<open>Addresses of kernel code and of the trampoline's labels, fixed by the linker.\<close>

record ksyms =
  sym_forkret :: u64
  sym_kernelvec :: u64
  sym_usertrap :: u64
  sym_uservec :: u64
  sym_userret :: u64

record kstate =
  kc :: kconf
  ksym :: ksyms
  km :: kmem
  kpgtbl :: u64
  ls :: lstate
  sb :: superblock
  icache :: "inode list"
  ftable :: "kfile list"
  pipes :: "u64 \<Rightarrow> pipe"
  cons :: console
  ptable :: "proc list"
  initproc :: "nat option"
  nextpid :: u32
  cur :: "nat option"
  held :: "lockid set"
  ticks :: u32
  csr :: csrs
  plic :: plicst
  vdisk :: disk
  kpad :: "u8 list"
  forkret_first :: bool

text \<open>\<open>kpad\<close> is what the stack holds in the padding of a structure that is copied out.\<close>

definition myproc :: "kstate \<Rightarrow> nat" where
  "myproc s = the (cur s)"

definition upd_proc :: "nat \<Rightarrow> (proc \<Rightarrow> proc) \<Rightarrow> kstate \<Rightarrow> kstate" where
  "upd_proc i f s = s\<lparr>ptable := (ptable s)[i := f (ptable s ! i)]\<rparr>"

abbreviation proc_at :: "kstate \<Rightarrow> nat \<Rightarrow> proc" where
  "proc_at s i \<equiv> ptable s ! i"

abbreviation me :: "kstate \<Rightarrow> proc" where
  "me s \<equiv> ptable s ! myproc s"

text \<open>The memory as an argument of an operation on it.\<close>

definition on_km :: "(kmem \<Rightarrow> ('a \<times> kmem) res) \<Rightarrow> kstate \<Rightarrow> ('a \<times> kstate) res" where
  "on_km f s = rmap (\<lambda>(x, m). (x, s\<lparr>km := m\<rparr>)) (f (km s))"

definition on_km1 :: "(kmem \<Rightarrow> kmem res) \<Rightarrow> kstate \<Rightarrow> kstate res" where
  "on_km1 f s = rmap (\<lambda>m. s\<lparr>km := m\<rparr>) (f (km s))"

definition kalloc_k :: "kstate \<Rightarrow> u64 \<times> kstate" where
  "kalloc_k s = (let (p, m) = kalloc (km s) in (p, s\<lparr>km := m\<rparr>))"

text \<open>Spin locks, as the CPU that runs sees them.\<close>

definition acquire_k :: "lockid \<Rightarrow> kstate \<Rightarrow> kstate res" where
  "acquire_k l s = (if l \<in> held s then Panic ''acquire'' else Ok (s\<lparr>held := insert l (held s)\<rparr>))"

definition release_k :: "lockid \<Rightarrow> kstate \<Rightarrow> kstate res" where
  "release_k l s = (if l \<notin> held s then Panic ''release'' else Ok (s\<lparr>held := held s - {l}\<rparr>))"

section \<open>Sleep locks\<close>

text \<open>\<^verbatim>\<open>kernel/sleeplock.c\<close>. Whoever finds the lock taken sleeps until it is released.\<close>

definition initsleeplock :: sleeplock where
  "initsleeplock = \<lparr>sl_locked = False, sl_pid = 0\<rparr>"

definition acquiresleep :: "nat \<Rightarrow> sleeplock \<Rightarrow> sleeplock res" where
  "acquiresleep pid lk = (if sl_locked lk then Blocked else Ok (lk\<lparr>sl_locked := True, sl_pid := pid\<rparr>))"

definition releasesleep :: "sleeplock \<Rightarrow> sleeplock" where
  "releasesleep lk = lk\<lparr>sl_locked := False, sl_pid := 0\<rparr>"

definition holdingsleep :: "nat \<Rightarrow> sleeplock \<Rightarrow> bool" where
  "holdingsleep pid lk \<longleftrightarrow> sl_locked lk \<and> sl_pid lk = pid"

section \<open>Strings in kernel arrays\<close>

text \<open>\<^verbatim>\<open>safestrcpy\<close> into an array of the kernel: the bytes it stores, and the array after it. When
  the string is short, a NUL follows the copied one.\<close>

definition safestrcpy_l :: "nat \<Rightarrow> u8 list \<Rightarrow> u8 list \<Rightarrow> u8 list" where
  "safestrcpy_l n t d =
     (if n = 0 then d
      else overwrite 0 (take (n - 1) (str_of t) @ (if length (str_of t) < n - 1 then [0, 0] else [0])) d)"

section \<open>The trap frame\<close>

text \<open>Offsets of the fields of \<^verbatim>\<open>struct trapframe\<close> in its page.\<close>

definition TF_kernel_satp :: u64 where "TF_kernel_satp = 0"
definition TF_kernel_sp :: u64 where "TF_kernel_sp = 8"
definition TF_kernel_trap :: u64 where "TF_kernel_trap = 16"
definition TF_epc :: u64 where "TF_epc = 24"
definition TF_kernel_hartid :: u64 where "TF_kernel_hartid = 32"
definition TF_sp :: u64 where "TF_sp = 48"
definition TF_a0 :: u64 where "TF_a0 = 112"
definition TF_a1 :: u64 where "TF_a1 = 120"
definition TF_a7 :: u64 where "TF_a7 = 168"
definition TF_bytes :: nat where "TF_bytes = 288"

definition TRAPFRAME :: u64 where "TRAPFRAME = TRAMPOLINE - PGSIZE"
definition KSTACK :: "nat \<Rightarrow> u64" where "KSTACK p = TRAMPOLINE - (of_nat p + 1) * 2 * PGSIZE"

definition tf_get :: "u64 \<Rightarrow> kstate \<Rightarrow> u64 res" where
  "tf_get off s = (let tf = p_trapframe (me s) in
     if in_ram tf then Ok (load64 (pmem (km s)) (tf + off)) else Fault ''trapframe'')"

definition tf_set_of :: "nat \<Rightarrow> u64 \<Rightarrow> u64 \<Rightarrow> kstate \<Rightarrow> kstate res" where
  "tf_set_of p off v s = (let tf = p_trapframe (proc_at s p) in
     if in_ram tf then Ok (s\<lparr>km := (km s)\<lparr>pmem := store64 (tf + off) v (pmem (km s))\<rparr>\<rparr>) else Fault ''trapframe'')"

definition tf_set :: "u64 \<Rightarrow> u64 \<Rightarrow> kstate \<Rightarrow> kstate res" where
  "tf_set off v s = tf_set_of (myproc s) off v s"

end
