(* ===== verification/Proc.thy ===== *)
theory Proc
  imports Kstate
begin

text \<open>
  \<^verbatim>\<open>kernel/proc.c\<close>: allocation and release of processes, sleeping and waking, the scheduler,
  \<^verbatim>\<open>wait\<close> and \<^verbatim>\<open>kill\<close>. A switch of threads (\<^verbatim>\<open>swtch\<close>) ends a definition: \<open>sleep_on\<close> is \<^verbatim>\<open>sleep\<close> up to
  the switch and \<open>sleep_resume\<close> what follows it, \<open>scheduler_from\<close> is the loop of \<^verbatim>\<open>scheduler\<close> up to
  the switch to a process and \<open>scheduler_back\<close> what follows. \<^verbatim>\<open>fork\<close>, \<^verbatim>\<open>exit\<close>, \<^verbatim>\<open>userinit\<close> and
  \<^verbatim>\<open>forkret\<close>, which call the file system, are in Proc_Calls.
\<close>

section \<open>Allocation\<close>

primrec procinit_loop :: "nat \<Rightarrow> nat \<Rightarrow> kstate \<Rightarrow> kstate res" where
  "procinit_loop 0 i s = Ok s"
| "procinit_loop (Suc k) i s =
     (let (pa, s) = kalloc_k s in
      if pa = 0 then Panic ''kalloc''
      else rbind (on_km1 (kvmmap (kc s) (kpgtbl s) (KSTACK i) pa PGSIZE (PTE_R OR PTE_W)) s) (\<lambda>s.
        procinit_loop k (Suc i) (upd_proc i (\<lambda>p. p\<lparr>p_kstack := KSTACK i\<rparr>) s)))"

definition procinit :: "kstate \<Rightarrow> kstate res" where
  "procinit s = procinit_loop NPROC 0 s"

definition allocpid :: "kstate \<Rightarrow> u32 \<times> kstate" where
  "allocpid s = (nextpid s, s\<lparr>nextpid := nextpid s + 1\<rparr>)"

definition proc_pagetable :: "kconf \<Rightarrow> u64 \<Rightarrow> kmem \<Rightarrow> (u64 \<times> kmem) res" where
  "proc_pagetable k tf m =
     (let (pt, m) = uvmcreate m in
      if pt = 0 then Ok (0, m)
      else rbind (mappages k pt TRAMPOLINE PGSIZE (k_trampoline k) (PTE_R OR PTE_X) m) (\<lambda>(r, m).
      if r < 0 then rmap (Pair 0) (uvmfree k pt 0 m)
      else rbind (mappages k pt TRAPFRAME PGSIZE tf (PTE_R OR PTE_W) m) (\<lambda>(r, m).
      if r < 0 then rbind (uvmunmap k pt TRAMPOLINE 1 False m) (\<lambda>m. rmap (Pair 0) (uvmfree k pt 0 m))
      else Ok (pt, m))))"

definition proc_freepagetable :: "kconf \<Rightarrow> u64 \<Rightarrow> u64 \<Rightarrow> kmem \<Rightarrow> kmem res" where
  "proc_freepagetable k pt sz m =
     rbind (uvmunmap k pt TRAMPOLINE 1 False m) (\<lambda>m.
     rbind (uvmunmap k pt TRAPFRAME 1 False m) (\<lambda>m.
     uvmfree k pt sz m))"

definition freeproc :: "nat \<Rightarrow> kstate \<Rightarrow> kstate res" where
  "freeproc i s =
     rbind (if p_trapframe (proc_at s i) \<noteq> 0 then on_km1 (kfree (k_end (kc s)) (p_trapframe (proc_at s i))) s
            else Ok s) (\<lambda>s.
     let s = upd_proc i (\<lambda>p. p\<lparr>p_trapframe := 0\<rparr>) s in
     rbind (if p_pagetable (proc_at s i) \<noteq> 0
            then on_km1 (proc_freepagetable (kc s) (p_pagetable (proc_at s i)) (p_sz (proc_at s i))) s
            else Ok s) (\<lambda>s.
     Ok (upd_proc i (\<lambda>p. p\<lparr>p_pagetable := 0, p_sz := 0, p_pid := 0, p_parent := None,
           p_name := (p_name p)[0 := 0], p_chan := None, p_killed := False, p_xstate := 0,
           p_state := UNUSED\<rparr>) s)))"

primrec allocproc_scan :: "nat \<Rightarrow> nat \<Rightarrow> kstate \<Rightarrow> (nat option \<times> kstate) res" where
  "allocproc_scan 0 i s = Ok (None, s)"
| "allocproc_scan (Suc k) i s =
     rbind (acquire_k (Lproc i) s) (\<lambda>s.
     if p_state (proc_at s i) = UNUSED then Ok (Some i, s)
     else rbind (release_k (Lproc i) s) (allocproc_scan k (Suc i)))"

definition allocproc_found :: "nat \<Rightarrow> kstate \<Rightarrow> (nat option \<times> kstate) res" where
  "allocproc_found i s =
     (let (pid, s) = allocpid s;
          s = upd_proc i (\<lambda>p. p\<lparr>p_pid := pid\<rparr>) s;
          (tf, s) = kalloc_k s;
          s = upd_proc i (\<lambda>p. p\<lparr>p_trapframe := tf\<rparr>) s in
      if tf = 0 then rmap (Pair None) (release_k (Lproc i) s)
      else rbind (on_km (proc_pagetable (kc s) tf) s) (\<lambda>(pt, s).
      let s = upd_proc i (\<lambda>p. p\<lparr>p_pagetable := pt\<rparr>) s in
      if pt = 0 then rbind (freeproc i s) (\<lambda>s. rmap (Pair None) (release_k (Lproc i) s))
      else Ok (Some i, upd_proc i (\<lambda>p. p\<lparr>p_context := \<lparr>ctx_ra = sym_forkret (ksym s),
             ctx_sp = p_kstack p + PGSIZE, ctx_s = replicate 12 0\<rparr>\<rparr>) s)))"

definition allocproc :: "kstate \<Rightarrow> (nat option \<times> kstate) res" where
  "allocproc s =
     rbind (allocproc_scan NPROC 0 s) (\<lambda>(r, s).
     case r of None \<Rightarrow> Ok (None, s) | Some i \<Rightarrow> allocproc_found i s)"

text \<open>\<^verbatim>\<open>growproc\<close> computes with a 32-bit \<^verbatim>\<open>sz\<close>.\<close>

definition growproc :: "u32 \<Rightarrow> kstate \<Rightarrow> (int \<times> kstate) res" where
  "growproc n s =
     (let i = myproc s; p = me s; sz = ucast (p_sz p) :: u32 in
      if sint n > 0 then
        rbind (on_km (uvmalloc (kc s) (p_pagetable p) (ucast sz) (ucast (sz + n))) s) (\<lambda>(r, s).
        let sz = ucast r :: u32 in
        if sz = 0 then Ok (- 1, s) else Ok (0, upd_proc i (\<lambda>p. p\<lparr>p_sz := ucast sz\<rparr>) s))
      else if sint n < 0 then
        rbind (on_km (uvmdealloc (kc s) (p_pagetable p) (ucast sz) (ucast (sz + n))) s) (\<lambda>(r, s).
        Ok (0, upd_proc i (\<lambda>p. p\<lparr>p_sz := ucast (ucast r :: u32)\<rparr>) s))
      else Ok (0, upd_proc i (\<lambda>p. p\<lparr>p_sz := ucast sz\<rparr>) s))"

section \<open>Switching\<close>

text \<open>\<^verbatim>\<open>sched\<close> up to the switch. With locks held interrupts are off, so its last check cannot fail.\<close>

definition sched :: "kstate \<Rightarrow> kstate res" where
  "sched s =
     (let p = myproc s in
      if Lproc p \<notin> held s then Panic ''sched p->lock''
      else if card (held s) \<noteq> 1 then Panic ''sched locks''
      else if p_state (proc_at s p) = RUNNING then Panic ''sched running''
      else Ok s)"

definition yield :: "kstate \<Rightarrow> kstate res" where
  "yield s =
     rbind (acquire_k (Lproc (myproc s)) s) (\<lambda>s.
     sched (upd_proc (myproc s) (\<lambda>p. p\<lparr>p_state := RUNNABLE\<rparr>) s))"

definition yield_resume :: "kstate \<Rightarrow> kstate res" where
  "yield_resume s = release_k (Lproc (myproc s)) s"

definition sleep_on :: "chan \<Rightarrow> lockid \<Rightarrow> kstate \<Rightarrow> kstate res" where
  "sleep_on ch lk s =
     (let p = myproc s in
      rbind (if lk \<noteq> Lproc p then rbind (acquire_k (Lproc p) s) (release_k lk) else Ok s) (\<lambda>s.
      sched (upd_proc p (\<lambda>x. x\<lparr>p_chan := Some ch, p_state := SLEEPING\<rparr>) s)))"

definition sleep_resume :: "lockid \<Rightarrow> kstate \<Rightarrow> kstate res" where
  "sleep_resume lk s =
     (let p = myproc s; s = upd_proc p (\<lambda>x. x\<lparr>p_chan := None\<rparr>) s in
      if lk \<noteq> Lproc p then rbind (release_k (Lproc p) s) (acquire_k lk) else Ok s)"

text \<open>The scheduler's pass over the table from process \<open>i\<close> on, up to the switch to the process it
  picks, and what it does when the process comes back.\<close>

definition run_pid :: "nat \<Rightarrow> kstate \<Rightarrow> kstate" where
  "run_pid pid s = s\<lparr>ls := (ls s)\<lparr>lbs := (lbs (ls s))\<lparr>curpid := pid\<rparr>\<rparr>\<rparr>"

primrec scheduler_from :: "nat \<Rightarrow> nat \<Rightarrow> kstate \<Rightarrow> (nat option \<times> kstate) res" where
  "scheduler_from 0 i s = Ok (None, s)"
| "scheduler_from (Suc k) i s =
     rbind (acquire_k (Lproc i) s) (\<lambda>s.
     if p_state (proc_at s i) = RUNNABLE
     then Ok (Some i, run_pid (unat (p_pid (proc_at s i)))
            ((upd_proc i (\<lambda>p. p\<lparr>p_state := RUNNING\<rparr>) s)\<lparr>cur := Some i\<rparr>))
     else rbind (release_k (Lproc i) s) (scheduler_from k (Suc i)))"

definition scheduler_back :: "nat \<Rightarrow> kstate \<Rightarrow> kstate res" where
  "scheduler_back i s = release_k (Lproc i) (s\<lparr>cur := None\<rparr>)"

text \<open>The body of the endless loop of \<^verbatim>\<open>scheduler\<close>: one pass over the table, with the processes it
  switched to. \<open>run i\<close> is what happens from the switch to process \<open>i\<close> until the CPU is back.\<close>

primrec scheduler_pass :: "(nat \<Rightarrow> kstate \<Rightarrow> kstate res) \<Rightarrow> nat \<Rightarrow> nat \<Rightarrow> kstate \<Rightarrow> (nat list \<times> kstate) res" where
  "scheduler_pass run 0 i s = Ok ([], s)"
| "scheduler_pass run (Suc k) i s =
     rbind (scheduler_from 1 i s) (\<lambda>(r, s).
     case r of
       None \<Rightarrow> scheduler_pass run k (Suc i) s
     | Some j \<Rightarrow>
         rbind (run j s) (\<lambda>s.
         rbind (scheduler_back j s) (\<lambda>s.
         rmap (\<lambda>(js, s). (j # js, s)) (scheduler_pass run k (Suc i) s))))"

section \<open>Waking\<close>

primrec wakeup_loop :: "nat \<Rightarrow> nat \<Rightarrow> chan \<Rightarrow> kstate \<Rightarrow> kstate res" where
  "wakeup_loop 0 i ch s = Ok s"
| "wakeup_loop (Suc k) i ch s =
     rbind (acquire_k (Lproc i) s) (\<lambda>s.
     let s = (if p_state (proc_at s i) = SLEEPING \<and> p_chan (proc_at s i) = Some ch
              then upd_proc i (\<lambda>p. p\<lparr>p_state := RUNNABLE\<rparr>) s else s) in
     rbind (release_k (Lproc i) s) (wakeup_loop k (Suc i) ch))"

definition wakeup :: "chan \<Rightarrow> kstate \<Rightarrow> kstate res" where
  "wakeup ch s = wakeup_loop NPROC 0 ch s"

definition wakeup1 :: "nat \<Rightarrow> kstate \<Rightarrow> kstate res" where
  "wakeup1 p s =
     (if Lproc p \<notin> held s then Panic ''wakeup1''
      else if p_chan (proc_at s p) = Some (Cproc p) \<and> p_state (proc_at s p) = SLEEPING
      then Ok (upd_proc p (\<lambda>x. x\<lparr>p_state := RUNNABLE\<rparr>) s)
      else Ok s)"

primrec kill_loop :: "nat \<Rightarrow> nat \<Rightarrow> u32 \<Rightarrow> kstate \<Rightarrow> (int \<times> kstate) res" where
  "kill_loop 0 i pid s = Ok (- 1, s)"
| "kill_loop (Suc k) i pid s =
     rbind (acquire_k (Lproc i) s) (\<lambda>s.
     if p_pid (proc_at s i) = pid then
       let s = upd_proc i (\<lambda>p. p\<lparr>p_killed := True\<rparr>) s;
           s = (if p_state (proc_at s i) = SLEEPING then upd_proc i (\<lambda>p. p\<lparr>p_state := RUNNABLE\<rparr>) s else s)
       in rmap (Pair 0) (release_k (Lproc i) s)
     else rbind (release_k (Lproc i) s) (kill_loop k (Suc i) pid))"

definition kill :: "u32 \<Rightarrow> kstate \<Rightarrow> (int \<times> kstate) res" where
  "kill pid s = kill_loop NPROC 0 pid s"

section \<open>Parents and children\<close>

primrec reparent_loop :: "nat \<Rightarrow> nat \<Rightarrow> nat \<Rightarrow> kstate \<Rightarrow> kstate res" where
  "reparent_loop 0 i p s = Ok s"
| "reparent_loop (Suc k) i p s =
     rbind (if p_parent (proc_at s i) = Some p then
              rbind (acquire_k (Lproc i) s) (\<lambda>s.
              release_k (Lproc i) (upd_proc i (\<lambda>x. x\<lparr>p_parent := initproc s\<rparr>) s))
            else Ok s)
       (reparent_loop k (Suc i) p)"

definition reparent :: "nat \<Rightarrow> kstate \<Rightarrow> kstate res" where
  "reparent p s = reparent_loop NPROC 0 p s"

text \<open>The end of \<^verbatim>\<open>exit\<close>, from the waking of \<^verbatim>\<open>init\<close> to the switch. A process that exits has a parent
  and there is an \<^verbatim>\<open>init\<close>; otherwise a null pointer is followed.\<close>

definition exit_zombie :: "u32 \<Rightarrow> kstate \<Rightarrow> kstate res" where
  "exit_zombie status s =
     (let p = myproc s in
      case (initproc s, p_parent (proc_at s p)) of
        (Some ini, Some par) \<Rightarrow>
          rbind (acquire_k (Lproc ini) s) (\<lambda>s.
          rbind (wakeup1 ini s) (\<lambda>s.
          rbind (release_k (Lproc ini) s) (\<lambda>s.
          rbind (acquire_k (Lproc par) s) (\<lambda>s.
          rbind (acquire_k (Lproc p) s) (\<lambda>s.
          rbind (reparent p s) (\<lambda>s.
          rbind (wakeup1 par s) (\<lambda>s.
          let s = upd_proc p (\<lambda>x. x\<lparr>p_xstate := status, p_state := ZOMBIE\<rparr>) s in
          rbind (release_k (Lproc par) s) sched)))))))
      | _ \<Rightarrow> Fault ''null process'')"

primrec wait_scan :: "nat \<Rightarrow> nat \<Rightarrow> u64 \<Rightarrow> bool \<Rightarrow> kstate \<Rightarrow> (int option \<times> bool \<times> kstate) res" where
  "wait_scan 0 i addr havekids s = Ok (None, havekids, s)"
| "wait_scan (Suc k) i addr havekids s =
     (let p = myproc s in
      if p_parent (proc_at s i) = Some p then
        rbind (acquire_k (Lproc i) s) (\<lambda>s.
        if p_state (proc_at s i) = ZOMBIE then
          let pid = p_pid (proc_at s i) in
          rbind (if addr \<noteq> 0
                 then on_km (copyout (kc s) (p_pagetable (proc_at s p)) addr (le_bytes 4 (p_xstate (proc_at s i)))) s
                 else Ok (0, s)) (\<lambda>(r, s).
          if r < 0 then
            rbind (release_k (Lproc i) s) (\<lambda>s. rmap (\<lambda>s. (Some (- 1), True, s)) (release_k (Lproc p) s))
          else
            rbind (freeproc i s) (\<lambda>s.
            rbind (release_k (Lproc i) s) (\<lambda>s. rmap (\<lambda>s. (Some (sint pid), True, s)) (release_k (Lproc p) s))))
        else rbind (release_k (Lproc i) s) (wait_scan k (Suc i) addr True))
      else wait_scan k (Suc i) addr havekids s)"

text \<open>One round of the loop of \<^verbatim>\<open>wait\<close>, with the caller's lock held: a result, or the caller asleep.
  After \<open>sleep_resume\<close> the next round starts.\<close>

definition wait_round :: "u64 \<Rightarrow> kstate \<Rightarrow> kstate io res" where
  "wait_round addr s =
     rbind (wait_scan NPROC 0 addr False s) (\<lambda>(r, havekids, s).
     case r of
       Some v \<Rightarrow> Ok (Ret v s)
     | None \<Rightarrow>
         let p = myproc s in
         if \<not> havekids \<or> p_killed (proc_at s p) then rmap (Ret (- 1)) (release_k (Lproc p) s)
         else rmap (Sleep 0) (sleep_on (Cproc p) (Lproc p) s))"

definition wait :: "u64 \<Rightarrow> kstate \<Rightarrow> kstate io res" where
  "wait addr s = rbind (acquire_k (Lproc (myproc s)) s) (wait_round addr)"

section \<open>Copying to and from either space\<close>

text \<open>A place that data is copied to or from: a user address, or an object of the kernel with the
  bytes that are read from it. What is copied to a kernel object is a result of the copy.\<close>

datatype place = User u64 | Kern "u8 list"

definition either_copyout :: "place \<Rightarrow> u8 list \<Rightarrow> kstate \<Rightarrow> (int \<times> u8 list \<times> kstate) res" where
  "either_copyout dst src s =
     (case dst of
        User a \<Rightarrow> rmap (\<lambda>(r, s). (r, [], s)) (on_km (copyout (kc s) (p_pagetable (me s)) a src) s)
      | Kern _ \<Rightarrow> Ok (0, src, s))"

text \<open>\<^verbatim>\<open>copyin\<close> fails only after it has copied the pages before the one it cannot read; this gives
  those bytes as well.\<close>

function copyin_part :: "kconf \<Rightarrow> u64 \<Rightarrow> u64 \<Rightarrow> nat \<Rightarrow> kmem \<Rightarrow> (int \<times> u8 list) res" where
  "copyin_part k pagetable srcva len s =
     (if len = 0 then Ok (0, [])
      else let va0 = PGROUNDDOWN srcva in
        rbind (walkaddr k pagetable va0 s) (\<lambda>pa0.
        if pa0 = 0 then Ok (- 1, [])
        else if \<not> in_ram pa0 then Fault ''page''
        else let n = min (page_room srcva) len in
          rmap (\<lambda>(r, rest). (r, bytes_at (pmem s) (pa0 + (srcva - va0)) n @ rest))
            (copyin_part k pagetable (va0 + PGSIZE) (len - n) s)))"
  by pat_completeness auto
termination
  by (relation "measure (\<lambda>(k, pt, va, len, s). len)") (auto simp: page_room_pos intro!: diff_less)

declare copyin_part.simps [simp del]

definition either_copyin :: "place \<Rightarrow> nat \<Rightarrow> kstate \<Rightarrow> (int \<times> u8 list) res" where
  "either_copyin src len s =
     (case src of
        User a \<Rightarrow> copyin_part (kc s) (p_pagetable (me s)) a len (km s)
      | Kern xs \<Rightarrow> if len \<le> length xs then Ok (0, take len xs) else Fault ''kernel object'')"

lemma copyin_part_eq:
  "copyin k pt va len s = rmap (\<lambda>(r, xs). if r = 0 then Some xs else None) (copyin_part k pt va len s)"
proof (induction k pt va len s rule: copyin_part.induct)
  case (1 k pt va len s)
  show ?case
  proof (cases "len = 0 \<or> (\<forall>pa. walkaddr k pt (PGROUNDDOWN va) s = Ok pa \<longrightarrow> pa = 0 \<or> \<not> in_ram pa)")
    case True
    then show ?thesis
      by (cases "walkaddr k pt (PGROUNDDOWN va) s")
        (auto simp: copyin.simps [of k pt va] copyin_part.simps [of k pt va] Let_def)
  next
    case False
    then obtain pa where pa: "len \<noteq> 0" "walkaddr k pt (PGROUNDDOWN va) s = Ok pa" "pa \<noteq> 0" "in_ram pa"
      by blast
    let ?n = "min (page_room va) len"
    have "copyin k pt (PGROUNDDOWN va + PGSIZE) (len - ?n) s =
        rmap (\<lambda>(r, xs). if r = 0 then Some xs else None) (copyin_part k pt (PGROUNDDOWN va + PGSIZE) (len - ?n) s)"
      using 1 [OF pa(1) refl pa(2,3)] pa(4) by blast
    then show ?thesis
      using pa by (cases "copyin_part k pt (PGROUNDDOWN va + PGSIZE) (len - ?n) s")
        (auto simp: copyin.simps [of k pt va] copyin_part.simps [of k pt va] Let_def)
  qed
qed

end
