(* ===== verification/Fs.thy ===== *)
theory Fs
  imports Proc
begin

text \<open>
  \<^verbatim>\<open>kernel/fs.c\<close>: blocks, inodes, file contents, directories and path names, on top of the log. An
  inode is named by its index in the cache. The bytes of \<^verbatim>\<open>struct dinode\<close>, \<^verbatim>\<open>struct dirent\<close> and
  \<^verbatim>\<open>struct superblock\<close> are laid out as the compiler lays them out for RISC-V, little-endian.
\<close>

section \<open>The layers below, on the kernel state\<close>

definition kbread :: "u32 \<Rightarrow> u32 \<Rightarrow> kstate \<Rightarrow> (nat \<times> kstate) res" where
  "kbread dev bn s = rmap (\<lambda>(b, c). (b, s\<lparr>ls := (ls s)\<lparr>lbs := c\<rparr>\<rparr>)) (bread dev bn (lbs (ls s)))"

definition kbrelse :: "nat \<Rightarrow> kstate \<Rightarrow> kstate res" where
  "kbrelse b s = rmap (\<lambda>c. s\<lparr>ls := (ls s)\<lparr>lbs := c\<rparr>\<rparr>) (brelse b (lbs (ls s)))"

definition klog_write :: "nat \<Rightarrow> kstate \<Rightarrow> kstate res" where
  "klog_write b s = rmap (\<lambda>l. s\<lparr>ls := l\<rparr>) (log_write b (ls s))"

definition kdata :: "kstate \<Rightarrow> nat \<Rightarrow> u8 list" where
  "kdata s b = bdata (lbs (ls s)) b"

definition set_kdata :: "nat \<Rightarrow> u8 list \<Rightarrow> kstate \<Rightarrow> kstate" where
  "set_kdata b d s = s\<lparr>ls := (ls s)\<lparr>lbs := set_bdata b d (lbs (ls s))\<rparr>\<rparr>"

definition kbegin_op :: "kstate \<Rightarrow> kstate res" where
  "kbegin_op s = rmap (\<lambda>l. s\<lparr>ls := l\<rparr>) (begin_op (ls s))"

definition kend_op :: "kstate \<Rightarrow> kstate res" where
  "kend_op s = rmap (\<lambda>l. s\<lparr>ls := l\<rparr>) (end_op (ls s))"

definition mypid :: "kstate \<Rightarrow> nat" where
  "mypid s = curpid (lbs (ls s))"

section \<open>Layout\<close>

definition ROOTINO :: u32 where "ROOTINO = 1"
definition FSMAGIC :: u32 where "FSMAGIC = 0x10203040"
definition NDIRECT :: nat where "NDIRECT = 12"
definition NINDIRECT :: nat where "NINDIRECT = BSIZE div 4"
definition MAXFILE :: nat where "MAXFILE = NDIRECT + NINDIRECT"
definition IPB :: nat where "IPB = BSIZE div 64"
definition BPB :: nat where "BPB = BSIZE * 8"
definition DIRSIZ :: nat where "DIRSIZ = 14"
definition T_DIR :: u16 where "T_DIR = 1"
definition T_FILE :: u16 where "T_FILE = 2"
definition T_DEVICE :: u16 where "T_DEVICE = 3"

definition IBLOCK :: "u32 \<Rightarrow> superblock \<Rightarrow> u32" where
  "IBLOCK i b = of_nat (unat i div IPB) + sb_inodestart b"

definition BBLOCK :: "nat \<Rightarrow> superblock \<Rightarrow> u32" where
  "BBLOCK n b = of_nat (n div BPB) + sb_bmapstart b"

definition word_at :: "nat \<Rightarrow> u8 list \<Rightarrow> u32" where
  "word_at off d = le_word (subarr off 4 d)"

definition half_at :: "nat \<Rightarrow> u8 list \<Rightarrow> u16" where
  "half_at off d = le_word (subarr off 2 d)"

definition superblock_of :: "u8 list \<Rightarrow> superblock" where
  "superblock_of d = \<lparr>sb_magic = word_at 0 d, sb_size = word_at 4 d, sb_nblocks = word_at 8 d,
     sb_ninodes = word_at 12 d, sb_nlog = word_at 16 d, sb_logstart = word_at 20 d,
     sb_inodestart = word_at 24 d, sb_bmapstart = word_at 28 d\<rparr>"

definition dinode_at :: "nat \<Rightarrow> u8 list \<Rightarrow> dinode" where
  "dinode_at off d = \<lparr>d_type = half_at off d, d_major = half_at (off + 2) d, d_minor = half_at (off + 4) d,
     d_nlink = half_at (off + 6) d, d_size = word_at (off + 8) d,
     d_addrs = map (\<lambda>i. word_at (off + 12 + 4 * i) d) [0..<NDIRECT + 1]\<rparr>"

definition dinode_bytes :: "dinode \<Rightarrow> u8 list" where
  "dinode_bytes x = le_bytes 2 (d_type x) @ le_bytes 2 (d_major x) @ le_bytes 2 (d_minor x) @
     le_bytes 2 (d_nlink x) @ le_bytes 4 (d_size x) @ concat (map (le_bytes 4) (d_addrs x))"

text \<open>Where the inode is in its block.\<close>

definition ioff :: "u32 \<Rightarrow> nat" where
  "ioff inum = 64 * (unat inum mod IPB)"

section \<open>Blocks\<close>

definition readsb :: "u32 \<Rightarrow> kstate \<Rightarrow> kstate res" where
  "readsb dev s =
     rbind (kbread dev 1 s) (\<lambda>(bp, s). kbrelse bp (s\<lparr>sb := superblock_of (kdata s bp)\<rparr>))"

definition fsinit :: "u32 \<Rightarrow> kstate \<Rightarrow> kstate res" where
  "fsinit dev s =
     rbind (readsb dev s) (\<lambda>s.
     if sb_magic (sb s) \<noteq> FSMAGIC then Panic ''invalid file system''
     else rmap (\<lambda>l. s\<lparr>ls := l\<rparr>) (initlog dev (sb_logstart (sb s)) (sb_nlog (sb s)) (lbs (ls s))))"

definition bzero :: "u32 \<Rightarrow> u32 \<Rightarrow> kstate \<Rightarrow> kstate res" where
  "bzero dev bno s =
     rbind (kbread dev bno s) (\<lambda>(bp, s).
     rbind (klog_write bp (set_kdata bp (replicate BSIZE 0) s)) (kbrelse bp))"

definition bit_mask :: "nat \<Rightarrow> u8" where
  "bit_mask bi = push_bit (bi mod 8) 1"

primrec balloc_scan :: "nat \<Rightarrow> nat \<Rightarrow> u8 list \<Rightarrow> nat option" where
  "balloc_scan 0 bi d = None"
| "balloc_scan (Suc k) bi d =
     (if d ! (bi div 8) AND bit_mask bi = 0 then Some bi else balloc_scan k (Suc bi) d)"

function balloc_loop :: "nat \<Rightarrow> u32 \<Rightarrow> nat \<Rightarrow> kstate \<Rightarrow> (u32 \<times> kstate) res" where
  "balloc_loop sz dev b s =
     (if b < sz then
        rbind (kbread dev (BBLOCK b (sb s)) s) (\<lambda>(bp, s).
        case balloc_scan (min BPB (sz - b)) 0 (kdata s bp) of
          Some bi \<Rightarrow>
            let d = kdata s bp;
                s = set_kdata bp (d[bi div 8 := d ! (bi div 8) OR bit_mask bi]) s in
            rbind (klog_write bp s) (\<lambda>s.
            rbind (kbrelse bp s) (\<lambda>s.
            rbind (bzero dev (of_nat (b + bi)) s) (\<lambda>s.
            Ok (of_nat (b + bi), s))))
        | None \<Rightarrow> rbind (kbrelse bp s) (balloc_loop sz dev (b + BPB)))
      else Panic ''balloc: out of blocks'')"
  by pat_completeness auto
termination
  by (relation "measure (\<lambda>(sz, dev, b, s). sz - b)") (auto simp: BPB_def BSIZE_def)

declare balloc_loop.simps [simp del]

definition balloc :: "u32 \<Rightarrow> kstate \<Rightarrow> (u32 \<times> kstate) res" where
  "balloc dev s = balloc_loop (unat (sb_size (sb s))) dev 0 s"

definition bfree :: "u32 \<Rightarrow> u32 \<Rightarrow> kstate \<Rightarrow> kstate res" where
  "bfree dev b s =
     rbind (kbread dev (BBLOCK (unat b) (sb s)) s) (\<lambda>(bp, s).
     let bi = unat b mod BPB; d = kdata s bp in
     if d ! (bi div 8) AND bit_mask bi = 0 then Panic ''freeing free block''
     else rbind (klog_write bp (set_kdata bp (d[bi div 8 := d ! (bi div 8) AND NOT (bit_mask bi)]) s)) (kbrelse bp))"

section \<open>Inodes\<close>

definition upd_inode :: "nat \<Rightarrow> (inode \<Rightarrow> inode) \<Rightarrow> kstate \<Rightarrow> kstate" where
  "upd_inode i f s = s\<lparr>icache := (icache s)[i := f (icache s ! i)]\<rparr>"

definition upd_d :: "nat \<Rightarrow> (dinode \<Rightarrow> dinode) \<Rightarrow> kstate \<Rightarrow> kstate" where
  "upd_d i f s = upd_inode i (\<lambda>x. x\<lparr>i_d := f (i_d x)\<rparr>) s"

abbreviation ino :: "kstate \<Rightarrow> nat \<Rightarrow> inode" where
  "ino s i \<equiv> icache s ! i"

definition iinit :: "kstate \<Rightarrow> kstate" where
  "iinit s = foldl (\<lambda>s i. upd_inode i (\<lambda>x. x\<lparr>i_lock := initsleeplock\<rparr>) s) s [0..<NINODE]"

text \<open>The loop of \<^verbatim>\<open>iget\<close>: the entry that has the inode (\<open>Inl\<close>), or the first free one (\<open>Inr\<close>).\<close>

primrec iget_scan :: "nat \<Rightarrow> nat \<Rightarrow> u32 \<Rightarrow> u32 \<Rightarrow> nat option \<Rightarrow> inode list \<Rightarrow> nat + nat option" where
  "iget_scan 0 i dev inum empt ics = Inr empt"
| "iget_scan (Suc k) i dev inum empt ics =
     (if i_ref (ics ! i) > 0 \<and> i_dev (ics ! i) = dev \<and> i_inum (ics ! i) = inum then Inl i
      else iget_scan k (Suc i) dev inum (if empt = None \<and> i_ref (ics ! i) = 0 then Some i else empt) ics)"

definition iget :: "u32 \<Rightarrow> u32 \<Rightarrow> kstate \<Rightarrow> (nat \<times> kstate) res" where
  "iget dev inum s =
     (case iget_scan NINODE 0 dev inum None (icache s) of
        Inl i \<Rightarrow> Ok (i, upd_inode i (\<lambda>x. x\<lparr>i_ref := i_ref x + 1\<rparr>) s)
      | Inr None \<Rightarrow> Panic ''iget: no inodes''
      | Inr (Some i) \<Rightarrow> Ok (i, upd_inode i (\<lambda>x. x\<lparr>i_dev := dev, i_inum := inum, i_ref := 1, i_valid := False\<rparr>) s))"

primrec ialloc_loop :: "nat \<Rightarrow> nat \<Rightarrow> u32 \<Rightarrow> u16 \<Rightarrow> kstate \<Rightarrow> (nat \<times> kstate) res" where
  "ialloc_loop 0 inum dev type s = Panic ''ialloc: no inodes''"
| "ialloc_loop (Suc k) inum dev type s =
     rbind (kbread dev (IBLOCK (of_nat inum) (sb s)) s) (\<lambda>(bp, s).
     let d = kdata s bp; off = ioff (of_nat inum) in
     if d_type (dinode_at off d) = 0 then
       rbind (klog_write bp (set_kdata bp (overwrite off (le_bytes 2 type @ replicate 62 0) d) s)) (\<lambda>s.
       rbind (kbrelse bp s) (iget dev (of_nat inum)))
     else rbind (kbrelse bp s) (ialloc_loop k (Suc inum) dev type))"

definition ialloc :: "u32 \<Rightarrow> u16 \<Rightarrow> kstate \<Rightarrow> (nat \<times> kstate) res" where
  "ialloc dev type s = ialloc_loop (unat (sb_ninodes (sb s)) - 1) 1 dev type s"

definition iupdate :: "nat \<Rightarrow> kstate \<Rightarrow> kstate res" where
  "iupdate ip s =
     rbind (kbread (i_dev (ino s ip)) (IBLOCK (i_inum (ino s ip)) (sb s)) s) (\<lambda>(bp, s).
     rbind (klog_write bp (set_kdata bp
       (overwrite (ioff (i_inum (ino s ip))) (dinode_bytes (i_d (ino s ip))) (kdata s bp)) s)) (kbrelse bp))"

definition idup :: "nat \<Rightarrow> kstate \<Rightarrow> kstate" where
  "idup ip s = upd_inode ip (\<lambda>x. x\<lparr>i_ref := i_ref x + 1\<rparr>) s"

definition ilock :: "nat \<Rightarrow> kstate \<Rightarrow> kstate res" where
  "ilock ip s =
     (if i_ref (ino s ip) < 1 then Panic ''ilock''
      else rbind (acquiresleep (mypid s) (i_lock (ino s ip))) (\<lambda>lk.
      let s = upd_inode ip (\<lambda>x. x\<lparr>i_lock := lk\<rparr>) s in
      if \<not> i_valid (ino s ip) then
        rbind (kbread (i_dev (ino s ip)) (IBLOCK (i_inum (ino s ip)) (sb s)) s) (\<lambda>(bp, s).
        let s = upd_d ip (\<lambda>_. dinode_at (ioff (i_inum (ino s ip))) (kdata s bp)) s in
        rbind (kbrelse bp s) (\<lambda>s.
        let s = upd_inode ip (\<lambda>x. x\<lparr>i_valid := True\<rparr>) s in
        if d_type (i_d (ino s ip)) = 0 then Panic ''ilock: no type'' else Ok s))
      else Ok s))"

definition iunlock :: "nat \<Rightarrow> kstate \<Rightarrow> kstate res" where
  "iunlock ip s =
     (if \<not> holdingsleep (mypid s) (i_lock (ino s ip)) \<or> i_ref (ino s ip) < 1 then Panic ''iunlock''
      else Ok (upd_inode ip (\<lambda>x. x\<lparr>i_lock := releasesleep (i_lock x)\<rparr>) s))"

section \<open>Contents\<close>

definition bmap :: "nat \<Rightarrow> u32 \<Rightarrow> kstate \<Rightarrow> (u32 \<times> kstate) res" where
  "bmap ip bn s =
     (let i = unat bn in
      if i < NDIRECT then
        let addr = d_addrs (i_d (ino s ip)) ! i in
        if addr = 0 then
          rbind (balloc (i_dev (ino s ip)) s) (\<lambda>(addr, s).
          Ok (addr, upd_d ip (\<lambda>x. x\<lparr>d_addrs := (d_addrs x)[i := addr]\<rparr>) s))
        else Ok (addr, s)
      else
        let i = i - NDIRECT in
        if i < NINDIRECT then
          rbind (let addr = d_addrs (i_d (ino s ip)) ! NDIRECT in
                 if addr = 0 then
                   rbind (balloc (i_dev (ino s ip)) s) (\<lambda>(addr, s).
                   Ok (addr, upd_d ip (\<lambda>x. x\<lparr>d_addrs := (d_addrs x)[NDIRECT := addr]\<rparr>) s))
                 else Ok (addr, s)) (\<lambda>(addr, s).
          rbind (kbread (i_dev (ino s ip)) addr s) (\<lambda>(bp, s).
          rbind (let addr = word_at (4 * i) (kdata s bp) in
                 if addr = 0 then
                   rbind (balloc (i_dev (ino s ip)) s) (\<lambda>(addr, s).
                   rmap (Pair addr) (klog_write bp (set_kdata bp (overwrite (4 * i) (le_bytes 4 addr) (kdata s bp)) s)))
                 else Ok (addr, s)) (\<lambda>(addr, s).
          rmap (Pair addr) (kbrelse bp s))))
        else Panic ''bmap: out of range'')"

primrec trunc_direct :: "nat \<Rightarrow> nat \<Rightarrow> nat \<Rightarrow> kstate \<Rightarrow> kstate res" where
  "trunc_direct 0 i ip s = Ok s"
| "trunc_direct (Suc k) i ip s =
     rbind (let a = d_addrs (i_d (ino s ip)) ! i in
            if a \<noteq> 0 then rmap (upd_d ip (\<lambda>x. x\<lparr>d_addrs := (d_addrs x)[i := 0]\<rparr>)) (bfree (i_dev (ino s ip)) a s)
            else Ok s)
       (trunc_direct k (Suc i) ip)"

primrec trunc_indirect :: "nat \<Rightarrow> nat \<Rightarrow> nat \<Rightarrow> nat \<Rightarrow> kstate \<Rightarrow> kstate res" where
  "trunc_indirect 0 j bp ip s = Ok s"
| "trunc_indirect (Suc k) j bp ip s =
     rbind (let a = word_at (4 * j) (kdata s bp) in if a \<noteq> 0 then bfree (i_dev (ino s ip)) a s else Ok s)
       (trunc_indirect k (Suc j) bp ip)"

definition itrunc :: "nat \<Rightarrow> kstate \<Rightarrow> kstate res" where
  "itrunc ip s =
     rbind (trunc_direct NDIRECT 0 ip s) (\<lambda>s.
     rbind (let a = d_addrs (i_d (ino s ip)) ! NDIRECT in
            if a \<noteq> 0 then
              rbind (kbread (i_dev (ino s ip)) a s) (\<lambda>(bp, s).
              rbind (trunc_indirect NINDIRECT 0 bp ip s) (\<lambda>s.
              rbind (kbrelse bp s) (\<lambda>s.
              rmap (upd_d ip (\<lambda>x. x\<lparr>d_addrs := (d_addrs x)[NDIRECT := 0]\<rparr>)) (bfree (i_dev (ino s ip)) a s))))
            else Ok s) (\<lambda>s.
     iupdate ip (upd_d ip (\<lambda>x. x\<lparr>d_size := 0\<rparr>) s)))"

definition iput :: "nat \<Rightarrow> kstate \<Rightarrow> kstate res" where
  "iput ip s =
     rbind (if i_ref (ino s ip) = 1 \<and> i_valid (ino s ip) \<and> d_nlink (i_d (ino s ip)) = 0 then
              rbind (acquiresleep (mypid s) (i_lock (ino s ip))) (\<lambda>lk.
              rbind (itrunc ip (upd_inode ip (\<lambda>x. x\<lparr>i_lock := lk\<rparr>) s)) (\<lambda>s.
              rbind (iupdate ip (upd_d ip (\<lambda>x. x\<lparr>d_type := 0\<rparr>) s)) (\<lambda>s.
              Ok (upd_inode ip (\<lambda>x. x\<lparr>i_valid := False, i_lock := releasesleep (i_lock x)\<rparr>) s))))
            else Ok s) (\<lambda>s.
     Ok (upd_inode ip (\<lambda>x. x\<lparr>i_ref := i_ref x - 1\<rparr>) s))"

definition iunlockput :: "nat \<Rightarrow> kstate \<Rightarrow> kstate res" where
  "iunlockput ip s = rbind (iunlock ip s) (iput ip)"

record stat =
  st_dev :: u32
  st_ino :: u32
  st_type :: u16
  st_nlink :: u16
  st_size :: u64

definition stati :: "nat \<Rightarrow> kstate \<Rightarrow> stat" where
  "stati ip s = \<lparr>st_dev = i_dev (ino s ip), st_ino = i_inum (ino s ip), st_type = d_type (i_d (ino s ip)),
     st_nlink = d_nlink (i_d (ino s ip)), st_size = ucast (d_size (i_d (ino s ip)))\<rparr>"

fun place_add :: "place \<Rightarrow> nat \<Rightarrow> place" where
  "place_add (User a) m = User (a + of_nat m)"
| "place_add (Kern xs) m = Kern (drop m xs)"

text \<open>The loops of \<^verbatim>\<open>readi\<close> and \<^verbatim>\<open>writei\<close>, with the bytes still to go and the offset. Their callers
  make sure that neither overflows. The results are the bytes that were copied (\<^verbatim>\<open>tot\<close>), and the
  offset at the end.\<close>

function readi_loop :: "nat \<Rightarrow> place \<Rightarrow> nat \<Rightarrow> nat \<Rightarrow> kstate \<Rightarrow> (nat \<times> u8 list \<times> kstate) res" where
  "readi_loop ip dst off n s =
     (if n = 0 then Ok (0, [], s)
      else
        rbind (bmap ip (of_nat (off div BSIZE)) s) (\<lambda>(addr, s).
        rbind (kbread (i_dev (ino s ip)) addr s) (\<lambda>(bp, s).
        let m = min n (BSIZE - off mod BSIZE) in
        rbind (either_copyout dst (subarr (off mod BSIZE) m (kdata s bp)) s) (\<lambda>(r, xs, s).
        if r = - 1 then rmap (\<lambda>s. (0, [], s)) (kbrelse bp s)
        else
          rbind (kbrelse bp s) (\<lambda>s.
          rmap (\<lambda>(tot, ys, s). (m + tot, xs @ ys, s)) (readi_loop ip (place_add dst m) (off + m) (n - m) s))))))"
  by pat_completeness auto
termination
  by (relation "measure (\<lambda>(ip, dst, off, n, s). n)") (auto simp: BSIZE_def intro!: diff_less)

declare readi_loop.simps [simp del]

definition readi :: "nat \<Rightarrow> place \<Rightarrow> u32 \<Rightarrow> u32 \<Rightarrow> kstate \<Rightarrow> (u32 \<times> u8 list \<times> kstate) res" where
  "readi ip dst off n s =
     (let size = d_size (i_d (ino s ip)) in
      if off > size \<or> off + n < off then Ok (0, [], s)
      else
        let n = (if off + n > size then size - off else n) in
        rmap (\<lambda>(tot, xs, s). (of_nat tot, xs, s)) (readi_loop ip dst (unat off) (unat n) s))"

function writei_loop :: "nat \<Rightarrow> place \<Rightarrow> nat \<Rightarrow> nat \<Rightarrow> kstate \<Rightarrow> (nat \<times> kstate) res" where
  "writei_loop ip src off n s =
     (if n = 0 then Ok (off, s)
      else
        rbind (bmap ip (of_nat (off div BSIZE)) s) (\<lambda>(addr, s).
        rbind (kbread (i_dev (ino s ip)) addr s) (\<lambda>(bp, s).
        let m = min n (BSIZE - off mod BSIZE) in
        rbind (either_copyin src m s) (\<lambda>(r, xs).
        let s = set_kdata bp (overwrite (off mod BSIZE) xs (kdata s bp)) s in
        if r = - 1 then rmap (Pair off) (kbrelse bp s)
        else
          rbind (klog_write bp s) (\<lambda>s.
          rbind (kbrelse bp s) (\<lambda>s.
          writei_loop ip (place_add src m) (off + m) (n - m) s))))))"
  by pat_completeness auto
termination
  by (relation "measure (\<lambda>(ip, src, off, n, s). n)") (auto simp: BSIZE_def intro!: diff_less)

declare writei_loop.simps [simp del]

definition writei :: "nat \<Rightarrow> place \<Rightarrow> u32 \<Rightarrow> u32 \<Rightarrow> kstate \<Rightarrow> (int \<times> kstate) res" where
  "writei ip src off n s =
     (if off > d_size (i_d (ino s ip)) \<or> off + n < off then Ok (- 1, s)
      else if unat (off + n) > MAXFILE * BSIZE then Ok (- 1, s)
      else
        rbind (writei_loop ip src (unat off) (unat n) s) (\<lambda>(off', s).
        rbind (if n > 0 then
                 iupdate ip (if off' > unat (d_size (i_d (ino s ip)))
                             then upd_d ip (\<lambda>x. x\<lparr>d_size := of_nat off'\<rparr>) s else s)
               else Ok s) (\<lambda>s.
        Ok (sint n, s))))"

section \<open>Directories\<close>

definition DIRENT :: nat where "DIRENT = 16"

definition de_inum :: "u8 list \<Rightarrow> u16" where "de_inum de = half_at 0 de"
definition de_name :: "u8 list \<Rightarrow> u8 list" where "de_name de = subarr 2 DIRSIZ de"

definition namecmp :: "u8 list \<Rightarrow> u8 list \<Rightarrow> int" where
  "namecmp s t = strncmp_l DIRSIZ s t"

text \<open>Both loops over a directory stop at the size, which a directory keeps below the maximal file
  size; \<open>k\<close> bounds their number of steps.\<close>

primrec dirlookup_loop :: "nat \<Rightarrow> nat \<Rightarrow> u8 list \<Rightarrow> u32 \<Rightarrow> kstate \<Rightarrow> ((nat \<times> u32) option \<times> kstate) res" where
  "dirlookup_loop 0 dp name off s = Fault ''dirlookup''"
| "dirlookup_loop (Suc k) dp name off s =
     (if off < d_size (i_d (ino s dp)) then
        rbind (readi dp (Kern []) off (of_nat DIRENT) s) (\<lambda>(r, de, s).
        if r \<noteq> of_nat DIRENT then Panic ''dirlookup read''
        else if de_inum de = 0 then dirlookup_loop k dp name (off + of_nat DIRENT) s
        else if namecmp name (de_name de) = 0 then
          rmap (\<lambda>(ip, s). (Some (ip, off), s)) (iget (i_dev (ino s dp)) (ucast (de_inum de)) s)
        else dirlookup_loop k dp name (off + of_nat DIRENT) s)
      else Ok (None, s))"

definition dir_steps :: "nat \<Rightarrow> kstate \<Rightarrow> nat" where
  "dir_steps dp s = Suc (unat (d_size (i_d (ino s dp))))"

definition dirlookup :: "nat \<Rightarrow> u8 list \<Rightarrow> kstate \<Rightarrow> ((nat \<times> u32) option \<times> kstate) res" where
  "dirlookup dp name s =
     (if d_type (i_d (ino s dp)) \<noteq> T_DIR then Panic ''dirlookup not DIR''
      else dirlookup_loop (dir_steps dp s) dp name 0 s)"

primrec dirlink_loop :: "nat \<Rightarrow> nat \<Rightarrow> u32 \<Rightarrow> kstate \<Rightarrow> (u32 \<times> kstate) res" where
  "dirlink_loop 0 dp off s = Fault ''dirlink''"
| "dirlink_loop (Suc k) dp off s =
     (if off < d_size (i_d (ino s dp)) then
        rbind (readi dp (Kern []) off (of_nat DIRENT) s) (\<lambda>(r, de, s).
        if r \<noteq> of_nat DIRENT then Panic ''dirlink read''
        else if de_inum de = 0 then Ok (off, s)
        else dirlink_loop k dp (off + of_nat DIRENT) s)
      else Ok (off, s))"

definition dirlink :: "nat \<Rightarrow> u8 list \<Rightarrow> u32 \<Rightarrow> kstate \<Rightarrow> (int \<times> kstate) res" where
  "dirlink dp name inum s =
     rbind (dirlookup dp name s) (\<lambda>(r, s).
     case r of
       Some (ip, _) \<Rightarrow> rmap (Pair (- 1)) (iput ip s)
     | None \<Rightarrow>
         rbind (dirlink_loop (dir_steps dp s) dp 0 s) (\<lambda>(off, s).
         let de = le_bytes 2 (ucast inum :: u16) @ strncpy_l DIRSIZ name in
         rbind (writei dp (Kern de) off (of_nat DIRENT) s) (\<lambda>(r, s).
         if r \<noteq> int DIRENT then Panic ''dirlink'' else Ok (0, s))))"

section \<open>Path names\<close>

text \<open>A path is its characters without the terminating NUL. \<open>None\<close> is the null pointer.\<close>

abbreviation slash :: u8 where "slash \<equiv> 47"

definition skipelem :: "u8 list \<Rightarrow> u8 list \<Rightarrow> (u8 list \<times> u8 list) option" where
  "skipelem path name =
     (let path = dropWhile (\<lambda>c. c = slash) path in
      if path = [] then None
      else
        let s = takeWhile (\<lambda>c. c \<noteq> slash) path;
            path = dropWhile (\<lambda>c. c \<noteq> slash) path;
            name = (if length s \<ge> DIRSIZ then overwrite 0 (take DIRSIZ s) name else overwrite 0 (s @ [0]) name)
        in Some (dropWhile (\<lambda>c. c = slash) path, name))"

lemma skipelem_shorter: "skipelem path name = Some (rest, name') \<Longrightarrow> length rest < length path"
proof -
  assume a: "skipelem path name = Some (rest, name')"
  let ?p = "dropWhile (\<lambda>c. c = slash) path"
  have ne: "?p \<noteq> []" and r: "rest = dropWhile (\<lambda>c. c = slash) (dropWhile (\<lambda>c. c \<noteq> slash) ?p)"
    using a by (auto simp: skipelem_def Let_def split: if_splits)
  have "hd ?p \<noteq> slash"
    using hd_dropWhile [OF ne] .
  then have "length (dropWhile (\<lambda>c. c \<noteq> slash) ?p) < length ?p"
    using ne by (cases ?p) (auto simp: length_dropWhile_le le_imp_less_Suc)
  moreover have "length rest \<le> length (dropWhile (\<lambda>c. c \<noteq> slash) ?p)" "length ?p \<le> length path"
    unfolding r by (rule length_dropWhile_le)+
  ultimately show ?thesis
    by linarith
qed

function namex_loop :: "nat \<Rightarrow> u8 list \<Rightarrow> bool \<Rightarrow> u8 list \<Rightarrow> kstate \<Rightarrow> (nat option \<times> u8 list \<times> kstate) res" where
  "namex_loop ip path parent name s =
     (case skipelem path name of
        None \<Rightarrow> if parent then rmap (\<lambda>s. (None, name, s)) (iput ip s) else Ok (Some ip, name, s)
      | Some (path', name) \<Rightarrow>
          rbind (ilock ip s) (\<lambda>s.
          if d_type (i_d (ino s ip)) \<noteq> T_DIR then rmap (\<lambda>s. (None, name, s)) (iunlockput ip s)
          else if parent \<and> path' = [] then rmap (\<lambda>s. (Some ip, name, s)) (iunlock ip s)
          else
            rbind (dirlookup ip name s) (\<lambda>(r, s).
            case r of
              None \<Rightarrow> rmap (\<lambda>s. (None, name, s)) (iunlockput ip s)
            | Some (next_ip, _) \<Rightarrow> rbind (iunlockput ip s) (namex_loop next_ip path' parent name))))"
  by pat_completeness auto
termination
  by (relation "measure (\<lambda>(ip, path, rest). length path)") (auto dest: skipelem_shorter)

declare namex_loop.simps [simp del]

definition namex :: "u8 list \<Rightarrow> bool \<Rightarrow> u8 list \<Rightarrow> kstate \<Rightarrow> (nat option \<times> u8 list \<times> kstate) res" where
  "namex path parent name s =
     rbind (if path \<noteq> [] \<and> hd path = slash then iget ROOTDEV ROOTINO s
            else case p_cwd (me s) of None \<Rightarrow> Fault ''idup'' | Some ip \<Rightarrow> Ok (ip, idup ip s)) (\<lambda>(ip, s).
     namex_loop ip path parent name s)"

definition namei :: "u8 list \<Rightarrow> kstate \<Rightarrow> (nat option \<times> kstate) res" where
  "namei path s = rmap (\<lambda>(r, name, s). (r, s)) (namex path False (replicate DIRSIZ 0) s)"

definition nameiparent :: "u8 list \<Rightarrow> kstate \<Rightarrow> (nat option \<times> u8 list \<times> kstate) res" where
  "nameiparent path s = namex path True (replicate DIRSIZ 0) s"

end
