(* ===== verification/Kfile.thy ===== *)
theory Kfile
  imports Fs
begin

text \<open>
  \<^verbatim>\<open>kernel/file.c\<close> and the allocation of pipes in \<^verbatim>\<open>kernel/pipe.c\<close>: the table of open files with its
  reference counts, and reading and writing through a file. A call that sleeps in a pipe or at the
  console ends in \<open>Sleep\<close> with the position it has reached.
\<close>

section \<open>The table\<close>

definition upd_file :: "nat \<Rightarrow> (kfile \<Rightarrow> kfile) \<Rightarrow> kstate \<Rightarrow> kstate" where
  "upd_file i f s = s\<lparr>ftable := (ftable s)[i := f (ftable s ! i)]\<rparr>"

abbreviation file_at :: "kstate \<Rightarrow> nat \<Rightarrow> kfile" where
  "file_at s i \<equiv> ftable s ! i"

primrec filealloc_scan :: "nat \<Rightarrow> nat \<Rightarrow> kfile list \<Rightarrow> nat option" where
  "filealloc_scan 0 i fs = None"
| "filealloc_scan (Suc k) i fs = (if f_ref (fs ! i) = 0 then Some i else filealloc_scan k (Suc i) fs)"

definition filealloc :: "kstate \<Rightarrow> nat option \<times> kstate" where
  "filealloc s =
     (case filealloc_scan NFILE 0 (ftable s) of
        None \<Rightarrow> (None, s)
      | Some i \<Rightarrow> (Some i, upd_file i (\<lambda>f. f\<lparr>f_ref := 1\<rparr>) s))"

definition filedup :: "nat \<Rightarrow> kstate \<Rightarrow> kstate res" where
  "filedup f s =
     (if f_ref (file_at s f) < 1 then Panic ''filedup''
      else Ok (upd_file f (\<lambda>x. x\<lparr>f_ref := f_ref x + 1\<rparr>) s))"

section \<open>Pipes\<close>

definition upd_pipe :: "u64 \<Rightarrow> pipe \<Rightarrow> kstate \<Rightarrow> kstate" where
  "upd_pipe pi p s = s\<lparr>pipes := (pipes s)(pi := p)\<rparr>"

definition pipeclose_k :: "u64 \<Rightarrow> bool \<Rightarrow> kstate \<Rightarrow> kstate res" where
  "pipeclose_k pi writable s =
     rbind (acquire_k (Lpipe pi) s) (\<lambda>s.
     let (closed, p) = pipeclose writable (pipes s pi) in
     rbind (wakeup (if writable then Cnread pi else Cnwrite pi) (upd_pipe pi p s)) (\<lambda>s.
     rbind (release_k (Lpipe pi) s) (\<lambda>s.
     if closed then on_km1 (kfree (k_end (kc s)) pi) s else Ok s)))"

text \<open>One byte of user memory, as the loops of pipes and console copy it.\<close>

definition user_in :: "kstate \<Rightarrow> u64 \<Rightarrow> u8 option" where
  "user_in s a =
     (case copyin (kc s) (p_pagetable (me s)) a 1 (km s) of Ok (Some [c]) \<Rightarrow> Some c | _ \<Rightarrow> None)"

definition user_out :: "kconf \<Rightarrow> u64 \<Rightarrow> u64 \<Rightarrow> u8 \<Rightarrow> kmem \<Rightarrow> kmem option" where
  "user_out k pt a c m = (case copyout k pt a [c] m of Ok (r, m) \<Rightarrow> (if r = 0 then Some m else None) | _ \<Rightarrow> None)"

definition pipewrite_k :: "u64 \<Rightarrow> u64 \<Rightarrow> u32 \<Rightarrow> kstate \<Rightarrow> kstate io res" where
  "pipewrite_k pi addr n s =
     rbind (acquire_k (Lpipe pi) s) (\<lambda>s.
     case pipewrite (user_in s) (p_killed (me s)) addr n (pipes s pi) of
       Sleep i p \<Rightarrow> rbind (wakeup (Cnread pi) (upd_pipe pi p s)) (\<lambda>s. rmap (Sleep i) (sleep_on (Cnwrite pi) (Lpipe pi) s))
     | Ret r p \<Rightarrow>
         rbind (if r = - 1 then Ok (upd_pipe pi p s) else wakeup (Cnread pi) (upd_pipe pi p s)) (\<lambda>s.
         rmap (Ret r) (release_k (Lpipe pi) s)))"

definition piperead_k :: "u64 \<Rightarrow> u64 \<Rightarrow> u32 \<Rightarrow> kstate \<Rightarrow> kstate io res" where
  "piperead_k pi addr n s =
     rbind (acquire_k (Lpipe pi) s) (\<lambda>s.
     case piperead (user_out (kc s) (p_pagetable (me s))) (p_killed (me s)) addr n (pipes s pi, km s) of
       Sleep i (p, m) \<Rightarrow> rmap (Sleep i) (sleep_on (Cnread pi) (Lpipe pi) (upd_pipe pi p (s\<lparr>km := m\<rparr>)))
     | Ret r (p, m) \<Rightarrow>
         let s = upd_pipe pi p (s\<lparr>km := m\<rparr>) in
         rbind (if r = - 1 then Ok s else wakeup (Cnwrite pi) s) (\<lambda>s.
         rmap (Ret r) (release_k (Lpipe pi) s)))"

section \<open>Closing\<close>

definition fileclose :: "nat \<Rightarrow> kstate \<Rightarrow> kstate res" where
  "fileclose f s =
     (if f_ref (file_at s f) < 1 then Panic ''fileclose''
      else
        let s = upd_file f (\<lambda>x. x\<lparr>f_ref := f_ref x - 1\<rparr>) s in
        if f_ref (file_at s f) > 0 then Ok s
        else
          let ff = file_at s f;
              s = upd_file f (\<lambda>x. x\<lparr>f_ref := 0, f_type := FD_NONE\<rparr>) s in
          case f_type ff of
            FD_PIPE \<Rightarrow> pipeclose_k (f_pipe ff) (f_writable ff) s
          | FD_NONE \<Rightarrow> Ok s
          | _ \<Rightarrow> rbind (kbegin_op s) (\<lambda>s. rbind (iput (f_ip ff) s) kend_op))"

text \<open>\<^verbatim>\<open>pipealloc\<close>: the two files, or \<open>None\<close> for -1. \<open>pipe_bad\<close> is the code at the label \<^verbatim>\<open>bad\<close>, which is
  only reached before the page is there or without one.\<close>

definition pipe_bad :: "nat option \<Rightarrow> nat option \<Rightarrow> kstate \<Rightarrow> ((nat \<times> nat) option \<times> kstate) res" where
  "pipe_bad f0 f1 s =
     rbind (case f0 of None \<Rightarrow> Ok s | Some f \<Rightarrow> fileclose f s) (\<lambda>s.
     rbind (case f1 of None \<Rightarrow> Ok s | Some f \<Rightarrow> fileclose f s) (\<lambda>s.
     Ok (None, s)))"

definition pipealloc :: "kstate \<Rightarrow> ((nat \<times> nat) option \<times> kstate) res" where
  "pipealloc s =
     (case filealloc s of
        (None, s) \<Rightarrow> pipe_bad None None s
      | (Some f0, s) \<Rightarrow>
          (case filealloc s of
             (None, s) \<Rightarrow> pipe_bad (Some f0) None s
           | (Some f1, s) \<Rightarrow>
               let (pi, s) = kalloc_k s in
               if pi = 0 then pipe_bad (Some f0) (Some f1) s
               else
                 let s = upd_pipe pi \<lparr>pi_data = replicate PIPESIZE 5, pi_nread = 0, pi_nwrite = 0,
                           pi_readopen = True, pi_writeopen = True\<rparr> s;
                     s = upd_file f0 (\<lambda>f. f\<lparr>f_type := FD_PIPE, f_readable := True, f_writable := False, f_pipe := pi\<rparr>) s;
                     s = upd_file f1 (\<lambda>f. f\<lparr>f_type := FD_PIPE, f_readable := False, f_writable := True, f_pipe := pi\<rparr>) s
                 in Ok (Some (f0, f1), s)))"

section \<open>Status, reading and writing\<close>

definition stat_bytes :: "u8 list \<Rightarrow> stat \<Rightarrow> u8 list" where
  "stat_bytes pad st = le_bytes 4 (st_dev st) @ le_bytes 4 (st_ino st) @ le_bytes 2 (st_type st) @
     le_bytes 2 (st_nlink st) @ pad @ le_bytes 8 (st_size st)"

definition filestat :: "nat \<Rightarrow> u64 \<Rightarrow> kstate \<Rightarrow> (int \<times> kstate) res" where
  "filestat f addr s =
     (if f_type (file_at s f) = FD_INODE \<or> f_type (file_at s f) = FD_DEVICE then
        let ip = f_ip (file_at s f) in
        rbind (ilock ip s) (\<lambda>s.
        let st = stati ip s in
        rbind (iunlock ip s) (\<lambda>s.
        rbind (on_km (copyout (kc s) (p_pagetable (me s)) addr (stat_bytes (kpad s) st)) s) (\<lambda>(r, s).
        Ok (if r < 0 then - 1 else 0, s))))
      else Ok (- 1, s))"

text \<open>The device switch: the console is the only device that registers itself.\<close>

definition CONSOLE :: int where "CONSOLE = 1"

definition has_device :: "u16 \<Rightarrow> bool" where
  "has_device major \<longleftrightarrow> 0 \<le> sint major \<and> sint major < int NDEV \<and> sint major = CONSOLE"

definition devread :: "u64 \<Rightarrow> u32 \<Rightarrow> kstate \<Rightarrow> kstate io res" where
  "devread addr n s =
     rbind (acquire_k Lcons s) (\<lambda>s.
     case consoleread (user_out (kc s) (p_pagetable (me s))) (p_killed (me s)) addr n (cons s, km s) of
       Sleep i (c, m) \<Rightarrow> rmap (Sleep i) (sleep_on Ccons Lcons (s\<lparr>cons := c, km := m\<rparr>))
     | Ret r (c, m) \<Rightarrow> rmap (Ret r) (release_k Lcons (s\<lparr>cons := c, km := m\<rparr>)))"

definition devwrite :: "u64 \<Rightarrow> u32 \<Rightarrow> kstate \<Rightarrow> kstate io res" where
  "devwrite addr n s =
     rbind (acquire_k Lcons s) (\<lambda>s.
     rbind (consolewrite (user_in s) addr n (cons s)) (\<lambda>(r, c).
     rmap (Ret r) (release_k Lcons (s\<lparr>cons := c\<rparr>))))"

definition fileread :: "nat \<Rightarrow> u64 \<Rightarrow> u32 \<Rightarrow> kstate \<Rightarrow> kstate io res" where
  "fileread f addr n s =
     (if \<not> f_readable (file_at s f) then Ok (Ret (- 1) s)
      else case f_type (file_at s f) of
        FD_PIPE \<Rightarrow> piperead_k (f_pipe (file_at s f)) addr n s
      | FD_DEVICE \<Rightarrow> if \<not> has_device (f_major (file_at s f)) then Ok (Ret (- 1) s) else devread addr n s
      | FD_INODE \<Rightarrow>
          let ip = f_ip (file_at s f) in
          rbind (ilock ip s) (\<lambda>s.
          rbind (readi ip (User addr) (f_off (file_at s f)) n s) (\<lambda>(r, _, s).
          let s = (if sint r > 0 then upd_file f (\<lambda>x. x\<lparr>f_off := f_off x + r\<rparr>) s else s) in
          rmap (Ret (sint r)) (iunlock ip s)))
      | FD_NONE \<Rightarrow> Panic ''fileread'')"

definition write_max :: nat where
  "write_max = (MAXOPBLOCKS - 1 - 1 - 2) div 2 * BSIZE"

function filewrite_loop :: "nat \<Rightarrow> u64 \<Rightarrow> nat \<Rightarrow> nat \<Rightarrow> kstate \<Rightarrow> (nat \<times> kstate) res" where
  "filewrite_loop f addr i n s =
     (if i < n then
        let n1 = min (n - i) write_max; ip = f_ip (file_at s f) in
        rbind (kbegin_op s) (\<lambda>s.
        rbind (ilock ip s) (\<lambda>s.
        rbind (writei ip (User (addr + of_nat i)) (f_off (file_at s f)) (of_nat n1) s) (\<lambda>(r, s).
        let s = (if r > 0 then upd_file f (\<lambda>x. x\<lparr>f_off := f_off x + of_int r\<rparr>) s else s) in
        rbind (iunlock ip s) (\<lambda>s.
        rbind (kend_op s) (\<lambda>s.
        if r < 0 then Ok (i, s)
        else if r \<noteq> int n1 then Panic ''short filewrite''
        else filewrite_loop f addr (i + n1) n s)))))
      else Ok (i, s))"
  by pat_completeness auto
termination
  by (relation "measure (\<lambda>(f, addr, i, n, s). n - i)") (auto simp: write_max_def MAXOPBLOCKS_def BSIZE_def)

declare filewrite_loop.simps [simp del]

definition filewrite :: "nat \<Rightarrow> u64 \<Rightarrow> u32 \<Rightarrow> kstate \<Rightarrow> kstate io res" where
  "filewrite f addr n s =
     (if \<not> f_writable (file_at s f) then Ok (Ret (- 1) s)
      else case f_type (file_at s f) of
        FD_PIPE \<Rightarrow> pipewrite_k (f_pipe (file_at s f)) addr n s
      | FD_DEVICE \<Rightarrow> if \<not> has_device (f_major (file_at s f)) then Ok (Ret (- 1) s) else devwrite addr n s
      | FD_INODE \<Rightarrow>
          rbind (filewrite_loop f addr 0 (nat (sint n)) s) (\<lambda>(i, s).
          Ok (Ret (if int i = sint n then sint n else - 1) s))
      | FD_NONE \<Rightarrow> Panic ''filewrite'')"

end
