(* ===== verification/Proc_Calls.thy ===== *)
theory Proc_Calls
  imports Kfile
begin

text \<open>
  The part of \<^verbatim>\<open>kernel/proc.c\<close> that uses the file system: the first process, \<^verbatim>\<open>fork\<close> and \<^verbatim>\<open>exit\<close>; and
  \<^verbatim>\<open>procdump\<close>.
\<close>

section \<open>The first process\<close>

definition initcode :: "u8 list" where
  "initcode = [
  0x17, 0x05, 0x00, 0x00, 0x13, 0x05, 0x45, 0x02,
  0x97, 0x05, 0x00, 0x00, 0x93, 0x85, 0x35, 0x02,
  0x93, 0x08, 0x70, 0x00, 0x73, 0x00, 0x00, 0x00,
  0x93, 0x08, 0x20, 0x00, 0x73, 0x00, 0x00, 0x00,
  0xef, 0xf0, 0x9f, 0xff, 0x2f, 0x69, 0x6e, 0x69,
  0x74, 0x00, 0x00, 0x24, 0x00, 0x00, 0x00, 0x00,
  0x00, 0x00, 0x00, 0x00]"

text \<open>\<^verbatim>\<open>userinit\<close> does not check that \<^verbatim>\<open>allocproc\<close> found a process: without one it follows a null pointer.\<close>

definition userinit :: "kstate \<Rightarrow> kstate res" where
  "userinit s =
     rbind (allocproc s) (\<lambda>(r, s).
     case r of
       None \<Rightarrow> Fault ''userinit''
     | Some i \<Rightarrow>
         let s = s\<lparr>initproc := Some i\<rparr> in
         rbind (on_km1 (uvminit (kc s) (p_pagetable (proc_at s i)) initcode) s) (\<lambda>s.
         let s = upd_proc i (\<lambda>p. p\<lparr>p_sz := PGSIZE\<rparr>) s in
         rbind (tf_set_of i TF_epc 0 s) (\<lambda>s.
         rbind (tf_set_of i TF_sp PGSIZE s) (\<lambda>s.
         let s = upd_proc i (\<lambda>p. p\<lparr>p_name := safestrcpy_l 16 (chars ''initcode'') (p_name p)\<rparr>) s in
         rbind (namei [slash] s) (\<lambda>(ip, s).
         let s = upd_proc i (\<lambda>p. p\<lparr>p_cwd := ip, p_state := RUNNABLE\<rparr>) s in
         release_k (Lproc i) s)))))"

section \<open>Fork\<close>

primrec dup_files :: "nat \<Rightarrow> nat \<Rightarrow> nat \<Rightarrow> nat \<Rightarrow> kstate \<Rightarrow> kstate res" where
  "dup_files 0 fd p np s = Ok s"
| "dup_files (Suc k) fd p np s =
     rbind (case p_ofile (proc_at s p) ! fd of
              None \<Rightarrow> Ok s
            | Some f \<Rightarrow> rmap (upd_proc np (\<lambda>x. x\<lparr>p_ofile := (p_ofile x)[fd := Some f]\<rparr>)) (filedup f s))
       (dup_files k (Suc fd) p np)"

definition copy_trapframe :: "nat \<Rightarrow> nat \<Rightarrow> kstate \<Rightarrow> kstate res" where
  "copy_trapframe np p s =
     (let dst = p_trapframe (proc_at s np); src = p_trapframe (proc_at s p) in
      if in_ram dst \<and> in_ram src
      then Ok (s\<lparr>km := (km s)\<lparr>pmem := store_bytes dst (bytes_at (pmem (km s)) src TF_bytes) (pmem (km s))\<rparr>\<rparr>)
      else Fault ''trapframe'')"

definition fork :: "kstate \<Rightarrow> (int \<times> kstate) res" where
  "fork s =
     (let p = myproc s in
      rbind (allocproc s) (\<lambda>(r, s).
      case r of
        None \<Rightarrow> Ok (- 1, s)
      | Some np \<Rightarrow>
          rbind (on_km (uvmcopy (kc s) (p_pagetable (proc_at s p)) (p_pagetable (proc_at s np)) (p_sz (proc_at s p))) s) (\<lambda>(r, s).
          if r < 0 then rbind (freeproc np s) (\<lambda>s. rmap (Pair (- 1)) (release_k (Lproc np) s))
          else
            let s = upd_proc np (\<lambda>x. x\<lparr>p_sz := p_sz (proc_at s p), p_parent := Some p\<rparr>) s in
            rbind (copy_trapframe np p s) (\<lambda>s.
            rbind (tf_set_of np TF_a0 0 s) (\<lambda>s.
            rbind (dup_files NOFILE 0 p np s) (\<lambda>s.
            case p_cwd (proc_at s p) of
              None \<Rightarrow> Fault ''idup''
            | Some ip \<Rightarrow>
                let s = upd_proc np (\<lambda>x. x\<lparr>p_cwd := Some ip\<rparr>) (idup ip s);
                    s = upd_proc np (\<lambda>x. x\<lparr>p_name := safestrcpy_l 16 (p_name (proc_at s p)) (p_name x)\<rparr>) s;
                    pid = p_pid (proc_at s np);
                    s = upd_proc np (\<lambda>x. x\<lparr>p_state := RUNNABLE\<rparr>) s in
                rmap (Pair (sint pid)) (release_k (Lproc np) s)))))))"

section \<open>Exit\<close>

primrec close_files :: "nat \<Rightarrow> nat \<Rightarrow> nat \<Rightarrow> kstate \<Rightarrow> kstate res" where
  "close_files 0 fd p s = Ok s"
| "close_files (Suc k) fd p s =
     rbind (case p_ofile (proc_at s p) ! fd of
              None \<Rightarrow> Ok s
            | Some f \<Rightarrow> rmap (upd_proc p (\<lambda>x. x\<lparr>p_ofile := (p_ofile x)[fd := None]\<rparr>)) (fileclose f s))
       (close_files k (Suc fd) p)"

definition exit_proc :: "u32 \<Rightarrow> kstate \<Rightarrow> kstate res" where
  "exit_proc status s =
     (let p = myproc s in
      if initproc s = Some p then Panic ''init exiting''
      else
        rbind (close_files NOFILE 0 p s) (\<lambda>s.
        rbind (kbegin_op s) (\<lambda>s.
        case p_cwd (proc_at s p) of
          None \<Rightarrow> Fault ''iput''
        | Some ip \<Rightarrow>
            rbind (iput ip s) (\<lambda>s.
            rbind (kend_op s) (\<lambda>s.
            exit_zombie status (upd_proc p (\<lambda>x. x\<lparr>p_cwd := None\<rparr>) s))))))"

section \<open>Listing the processes\<close>

fun state_text :: "procstate \<Rightarrow> u8 list" where
  "state_text UNUSED = chars ''unused''"
| "state_text SLEEPING = chars ''sleep ''"
| "state_text RUNNABLE = chars ''runble''"
| "state_text RUNNING = chars ''run   ''"
| "state_text ZOMBIE = chars ''zombie''"

primrec procdump_loop :: "nat \<Rightarrow> nat \<Rightarrow> kstate \<Rightarrow> u8 list res" where
  "procdump_loop 0 i s = Ok []"
| "procdump_loop (Suc k) i s =
     (if p_state (proc_at s i) = UNUSED then procdump_loop k (Suc i) s
      else
        rbind (printf_args (chars ''%d %s %s'') [Pint (p_pid (proc_at s i)),
          Pstr (Some (state_text (p_state (proc_at s i)))), Pstr (Some (p_name (proc_at s i)))]) (\<lambda>line.
        rmap (\<lambda>rest. line @ [10] @ rest) (procdump_loop k (Suc i) s)))"

definition procdump :: "kstate \<Rightarrow> u8 list res" where
  "procdump s = rmap ((#) 10) (procdump_loop NPROC 0 s)"

end
