(* ===== verification/Sysfile.thy ===== *)
theory Sysfile
  imports Proc_Calls
begin

text \<open>
  \<^verbatim>\<open>kernel/sysfile.c\<close> and the fetching of system call arguments in \<^verbatim>\<open>kernel/syscall.c\<close>. A system call
  returns its result, or sleeps (\<open>Sleep\<close>). A string that is fetched is its characters without the
  NUL.
\<close>

section \<open>Arguments\<close>

definition fetchaddr :: "u64 \<Rightarrow> kstate \<Rightarrow> u64 option res" where
  "fetchaddr addr s =
     (let p = me s in
      if addr \<ge> p_sz p \<or> addr + 8 > p_sz p then Ok None
      else rmap (map_option le_word) (copyin (kc s) (p_pagetable p) addr 8 (km s)))"

definition fetchstr :: "u64 \<Rightarrow> nat \<Rightarrow> kstate \<Rightarrow> u8 list option res" where
  "fetchstr addr mx s = copyinstr (kc s) (p_pagetable (me s)) addr mx (km s)"

definition argraw :: "nat \<Rightarrow> kstate \<Rightarrow> u64 res" where
  "argraw n s = (if n \<le> 5 then tf_get (TF_a0 + 8 * of_nat n) s else Panic ''argraw'')"

definition argint :: "nat \<Rightarrow> kstate \<Rightarrow> u32 res" where
  "argint n s = rmap ucast (argraw n s)"

definition argaddr :: "nat \<Rightarrow> kstate \<Rightarrow> u64 res" where
  "argaddr n s = argraw n s"

definition argstr :: "nat \<Rightarrow> nat \<Rightarrow> kstate \<Rightarrow> u8 list option res" where
  "argstr n mx s = rbind (argaddr n s) (\<lambda>addr. fetchstr addr mx s)"

definition argfd :: "nat \<Rightarrow> kstate \<Rightarrow> (nat \<times> nat) option res" where
  "argfd n s =
     rmap (\<lambda>fd.
       if sint fd < 0 \<or> sint fd \<ge> int NOFILE then None
       else map_option (Pair (nat (sint fd))) (p_ofile (me s) ! nat (sint fd)))
     (argint n s)"

primrec fdalloc_scan :: "nat \<Rightarrow> nat \<Rightarrow> nat option list \<Rightarrow> nat option" where
  "fdalloc_scan 0 fd fs = None"
| "fdalloc_scan (Suc k) fd fs = (if fs ! fd = None then Some fd else fdalloc_scan k (Suc fd) fs)"

definition set_ofile :: "nat \<Rightarrow> nat option \<Rightarrow> kstate \<Rightarrow> kstate" where
  "set_ofile fd f s = upd_proc (myproc s) (\<lambda>p. p\<lparr>p_ofile := (p_ofile p)[fd := f]\<rparr>) s"

definition fdalloc :: "nat \<Rightarrow> kstate \<Rightarrow> nat option \<times> kstate" where
  "fdalloc f s =
     (case fdalloc_scan NOFILE 0 (p_ofile (me s)) of
        None \<Rightarrow> (None, s)
      | Some fd \<Rightarrow> (Some fd, set_ofile fd (Some f) s))"

section \<open>Calls on open files\<close>

definition sys_dup :: "kstate \<Rightarrow> (int \<times> kstate) res" where
  "sys_dup s =
     rbind (argfd 0 s) (\<lambda>r.
     case r of
       None \<Rightarrow> Ok (- 1, s)
     | Some (_, f) \<Rightarrow>
         (case fdalloc f s of
            (None, s) \<Rightarrow> Ok (- 1, s)
          | (Some fd, s) \<Rightarrow> rmap (Pair (int fd)) (filedup f s)))"

definition sys_read :: "kstate \<Rightarrow> kstate io res" where
  "sys_read s =
     rbind (argfd 0 s) (\<lambda>r.
     case r of
       None \<Rightarrow> Ok (Ret (- 1) s)
     | Some (_, f) \<Rightarrow> rbind (argint 2 s) (\<lambda>n. rbind (argaddr 1 s) (\<lambda>p. fileread f p n s)))"

definition sys_write :: "kstate \<Rightarrow> kstate io res" where
  "sys_write s =
     rbind (argfd 0 s) (\<lambda>r.
     case r of
       None \<Rightarrow> Ok (Ret (- 1) s)
     | Some (_, f) \<Rightarrow> rbind (argint 2 s) (\<lambda>n. rbind (argaddr 1 s) (\<lambda>p. filewrite f p n s)))"

definition sys_close :: "kstate \<Rightarrow> (int \<times> kstate) res" where
  "sys_close s =
     rbind (argfd 0 s) (\<lambda>r.
     case r of
       None \<Rightarrow> Ok (- 1, s)
     | Some (fd, f) \<Rightarrow> rmap (Pair 0) (fileclose f (set_ofile fd None s)))"

definition sys_fstat :: "kstate \<Rightarrow> (int \<times> kstate) res" where
  "sys_fstat s =
     rbind (argfd 0 s) (\<lambda>r.
     case r of
       None \<Rightarrow> Ok (- 1, s)
     | Some (_, f) \<Rightarrow> rbind (argaddr 1 s) (\<lambda>st. filestat f st s))"

section \<open>Names\<close>

text \<open>Leaving a call with a result and the end of the transaction.\<close>

definition end_with :: "int \<Rightarrow> kstate \<Rightarrow> (int \<times> kstate) res" where
  "end_with r s = rmap (Pair r) (kend_op s)"

definition link_bad :: "nat \<Rightarrow> kstate \<Rightarrow> (int \<times> kstate) res" where
  "link_bad ip s =
     rbind (ilock ip s) (\<lambda>s.
     rbind (iupdate ip (upd_d ip (\<lambda>x. x\<lparr>d_nlink := d_nlink x - 1\<rparr>) s)) (\<lambda>s.
     rbind (iunlockput ip s) (end_with (- 1))))"

definition sys_link :: "kstate \<Rightarrow> (int \<times> kstate) res" where
  "sys_link s =
     rbind (argstr 0 MAXPATH s) (\<lambda>r. case r of None \<Rightarrow> Ok (- 1, s) | Some old \<Rightarrow>
     rbind (argstr 1 MAXPATH s) (\<lambda>r. case r of None \<Rightarrow> Ok (- 1, s) | Some new \<Rightarrow>
     rbind (kbegin_op s) (\<lambda>s.
     rbind (namei old s) (\<lambda>(r, s). case r of None \<Rightarrow> end_with (- 1) s | Some ip \<Rightarrow>
     rbind (ilock ip s) (\<lambda>s.
     if d_type (i_d (ino s ip)) = T_DIR then rbind (iunlockput ip s) (end_with (- 1))
     else
       rbind (iupdate ip (upd_d ip (\<lambda>x. x\<lparr>d_nlink := d_nlink x + 1\<rparr>) s)) (\<lambda>s.
       rbind (iunlock ip s) (\<lambda>s.
       rbind (nameiparent new s) (\<lambda>(r, name, s). case r of None \<Rightarrow> link_bad ip s | Some dp \<Rightarrow>
       rbind (ilock dp s) (\<lambda>s.
       rbind (if i_dev (ino s dp) \<noteq> i_dev (ino s ip) then Ok (- 1, s)
              else dirlink dp name (i_inum (ino s ip)) s) (\<lambda>(r, s).
       rbind (iunlockput dp s) (\<lambda>s.
       if r < 0 then link_bad ip s
       else rbind (iput ip s) (end_with 0))))))))))))"

primrec isdirempty_loop :: "nat \<Rightarrow> nat \<Rightarrow> u32 \<Rightarrow> kstate \<Rightarrow> (bool \<times> kstate) res" where
  "isdirempty_loop 0 dp off s = Fault ''isdirempty''"
| "isdirempty_loop (Suc k) dp off s =
     (if off < d_size (i_d (ino s dp)) then
        rbind (readi dp (Kern []) off (of_nat DIRENT) s) (\<lambda>(r, de, s).
        if r \<noteq> of_nat DIRENT then Panic ''isdirempty: readi''
        else if de_inum de \<noteq> 0 then Ok (False, s)
        else isdirempty_loop k dp (off + of_nat DIRENT) s)
      else Ok (True, s))"

definition isdirempty :: "nat \<Rightarrow> kstate \<Rightarrow> (bool \<times> kstate) res" where
  "isdirempty dp s = isdirempty_loop (dir_steps dp s) dp (2 * of_nat DIRENT) s"

definition dot :: "u8 list" where "dot = [46, 0]"
definition dotdot :: "u8 list" where "dotdot = [46, 46, 0]"

definition unlink_bad :: "nat \<Rightarrow> kstate \<Rightarrow> (int \<times> kstate) res" where
  "unlink_bad dp s = rbind (iunlockput dp s) (end_with (- 1))"

definition unlink_entry :: "nat \<Rightarrow> nat \<Rightarrow> u32 \<Rightarrow> kstate \<Rightarrow> (int \<times> kstate) res" where
  "unlink_entry dp ip off s =
     rbind (writei dp (Kern (replicate DIRENT 0)) off (of_nat DIRENT) s) (\<lambda>(r, s).
     if r \<noteq> int DIRENT then Panic ''unlink: writei''
     else
       rbind (if d_type (i_d (ino s ip)) = T_DIR
              then iupdate dp (upd_d dp (\<lambda>x. x\<lparr>d_nlink := d_nlink x - 1\<rparr>) s) else Ok s) (\<lambda>s.
       rbind (iunlockput dp s) (\<lambda>s.
       rbind (iupdate ip (upd_d ip (\<lambda>x. x\<lparr>d_nlink := d_nlink x - 1\<rparr>) s)) (\<lambda>s.
       rbind (iunlockput ip s) (end_with 0)))))"

definition sys_unlink :: "kstate \<Rightarrow> (int \<times> kstate) res" where
  "sys_unlink s =
     rbind (argstr 0 MAXPATH s) (\<lambda>r. case r of None \<Rightarrow> Ok (- 1, s) | Some path \<Rightarrow>
     rbind (kbegin_op s) (\<lambda>s.
     rbind (nameiparent path s) (\<lambda>(r, name, s). case r of None \<Rightarrow> end_with (- 1) s | Some dp \<Rightarrow>
     rbind (ilock dp s) (\<lambda>s.
     if namecmp name dot = 0 \<or> namecmp name dotdot = 0 then unlink_bad dp s
     else
       rbind (dirlookup dp name s) (\<lambda>(r, s). case r of None \<Rightarrow> unlink_bad dp s | Some (ip, off) \<Rightarrow>
       rbind (ilock ip s) (\<lambda>s.
       if sint (d_nlink (i_d (ino s ip))) < 1 then Panic ''unlink: nlink < 1''
       else if d_type (i_d (ino s ip)) = T_DIR then
         rbind (isdirempty ip s) (\<lambda>(emp, s).
         if \<not> emp then rbind (iunlockput ip s) (unlink_bad dp) else unlink_entry dp ip off s)
       else unlink_entry dp ip off s))))))"

definition create :: "u8 list \<Rightarrow> u16 \<Rightarrow> u16 \<Rightarrow> u16 \<Rightarrow> kstate \<Rightarrow> (nat option \<times> kstate) res" where
  "create path type major minor s =
     rbind (nameiparent path s) (\<lambda>(r, name, s). case r of None \<Rightarrow> Ok (None, s) | Some dp \<Rightarrow>
     rbind (ilock dp s) (\<lambda>s.
     rbind (dirlookup dp name s) (\<lambda>(r, s).
     case r of
       Some (ip, _) \<Rightarrow>
         rbind (iunlockput dp s) (\<lambda>s.
         rbind (ilock ip s) (\<lambda>s.
         if type = T_FILE \<and> (d_type (i_d (ino s ip)) = T_FILE \<or> d_type (i_d (ino s ip)) = T_DEVICE)
         then Ok (Some ip, s)
         else rmap (Pair None) (iunlockput ip s)))
     | None \<Rightarrow>
         rbind (ialloc (i_dev (ino s dp)) type s) (\<lambda>(ip, s).
         rbind (ilock ip s) (\<lambda>s.
         rbind (iupdate ip (upd_d ip (\<lambda>x. x\<lparr>d_major := major, d_minor := minor, d_nlink := 1\<rparr>) s)) (\<lambda>s.
         rbind (if type = T_DIR then
                  rbind (iupdate dp (upd_d dp (\<lambda>x. x\<lparr>d_nlink := d_nlink x + 1\<rparr>) s)) (\<lambda>s.
                  rbind (dirlink ip dot (i_inum (ino s ip)) s) (\<lambda>(r, s).
                  if r < 0 then Panic ''create dots''
                  else
                    rbind (dirlink ip dotdot (i_inum (ino s dp)) s) (\<lambda>(r, s).
                    if r < 0 then Panic ''create dots'' else Ok s)))
                else Ok s) (\<lambda>s.
         rbind (dirlink dp name (i_inum (ino s ip)) s) (\<lambda>(r, s).
         if r < 0 then Panic ''create: dirlink''
         else rmap (Pair (Some ip)) (iunlockput dp s)))))))))"

section \<open>Opening\<close>

definition O_RDONLY :: u32 where "O_RDONLY = 0x000"
definition O_WRONLY :: u32 where "O_WRONLY = 0x001"
definition O_RDWR :: u32 where "O_RDWR = 0x002"
definition O_CREATE :: u32 where "O_CREATE = 0x200"
definition O_TRUNC :: u32 where "O_TRUNC = 0x400"

definition open_file :: "nat \<Rightarrow> u32 \<Rightarrow> kstate \<Rightarrow> (int \<times> kstate) res" where
  "open_file ip omode s =
     (if d_type (i_d (ino s ip)) = T_DEVICE \<and>
         (sint (d_major (i_d (ino s ip))) < 0 \<or> sint (d_major (i_d (ino s ip))) \<ge> int NDEV)
      then rbind (iunlockput ip s) (end_with (- 1))
      else case filealloc s of
        (None, s) \<Rightarrow> rbind (iunlockput ip s) (end_with (- 1))
      | (Some f, s) \<Rightarrow>
          (case fdalloc f s of
             (None, s) \<Rightarrow> rbind (fileclose f s) (\<lambda>s. rbind (iunlockput ip s) (end_with (- 1)))
           | (Some fd, s) \<Rightarrow>
               let s = (if d_type (i_d (ino s ip)) = T_DEVICE
                        then upd_file f (\<lambda>x. x\<lparr>f_type := FD_DEVICE, f_major := d_major (i_d (ino s ip))\<rparr>) s
                        else upd_file f (\<lambda>x. x\<lparr>f_type := FD_INODE, f_off := 0\<rparr>) s);
                   s = upd_file f (\<lambda>x. x\<lparr>f_ip := ip, f_readable := (omode AND O_WRONLY = 0),
                         f_writable := (omode AND O_WRONLY \<noteq> 0 \<or> omode AND O_RDWR \<noteq> 0)\<rparr>) s in
               rbind (if omode AND O_TRUNC \<noteq> 0 \<and> d_type (i_d (ino s ip)) = T_FILE then itrunc ip s else Ok s) (\<lambda>s.
               rbind (iunlock ip s) (end_with (int fd)))))"

definition sys_open :: "kstate \<Rightarrow> (int \<times> kstate) res" where
  "sys_open s =
     rbind (argstr 0 MAXPATH s) (\<lambda>r. case r of None \<Rightarrow> Ok (- 1, s) | Some path \<Rightarrow>
     rbind (argint 1 s) (\<lambda>omode.
     rbind (kbegin_op s) (\<lambda>s.
     if omode AND O_CREATE \<noteq> 0 then
       rbind (create path T_FILE 0 0 s) (\<lambda>(r, s).
       case r of None \<Rightarrow> end_with (- 1) s | Some ip \<Rightarrow> open_file ip omode s)
     else
       rbind (namei path s) (\<lambda>(r, s). case r of None \<Rightarrow> end_with (- 1) s | Some ip \<Rightarrow>
       rbind (ilock ip s) (\<lambda>s.
       if d_type (i_d (ino s ip)) = T_DIR \<and> omode \<noteq> O_RDONLY
       then rbind (iunlockput ip s) (end_with (- 1))
       else open_file ip omode s)))))"

definition sys_mkdir :: "kstate \<Rightarrow> (int \<times> kstate) res" where
  "sys_mkdir s =
     rbind (kbegin_op s) (\<lambda>s.
     rbind (argstr 0 MAXPATH s) (\<lambda>r. case r of None \<Rightarrow> end_with (- 1) s | Some path \<Rightarrow>
     rbind (create path T_DIR 0 0 s) (\<lambda>(r, s).
     case r of None \<Rightarrow> end_with (- 1) s | Some ip \<Rightarrow> rbind (iunlockput ip s) (end_with 0))))"

definition sys_mknod :: "kstate \<Rightarrow> (int \<times> kstate) res" where
  "sys_mknod s =
     rbind (kbegin_op s) (\<lambda>s.
     rbind (argstr 0 MAXPATH s) (\<lambda>r. case r of None \<Rightarrow> end_with (- 1) s | Some path \<Rightarrow>
     rbind (argint 1 s) (\<lambda>major.
     rbind (argint 2 s) (\<lambda>minor.
     rbind (create path T_DEVICE (ucast major) (ucast minor) s) (\<lambda>(r, s).
     case r of None \<Rightarrow> end_with (- 1) s | Some ip \<Rightarrow> rbind (iunlockput ip s) (end_with 0))))))"

definition sys_chdir :: "kstate \<Rightarrow> (int \<times> kstate) res" where
  "sys_chdir s =
     rbind (kbegin_op s) (\<lambda>s.
     rbind (argstr 0 MAXPATH s) (\<lambda>r. case r of None \<Rightarrow> end_with (- 1) s | Some path \<Rightarrow>
     rbind (namei path s) (\<lambda>(r, s). case r of None \<Rightarrow> end_with (- 1) s | Some ip \<Rightarrow>
     rbind (ilock ip s) (\<lambda>s.
     if d_type (i_d (ino s ip)) \<noteq> T_DIR then rbind (iunlockput ip s) (end_with (- 1))
     else
       rbind (iunlock ip s) (\<lambda>s.
       case p_cwd (me s) of
         None \<Rightarrow> Fault ''iput''
       | Some old \<Rightarrow>
           rbind (iput old s) (\<lambda>s.
           rbind (kend_op s) (\<lambda>s.
           Ok (0, upd_proc (myproc s) (\<lambda>p. p\<lparr>p_cwd := Some ip\<rparr>) s))))))))"

section \<open>Pipes\<close>

definition pipe_fail :: "nat \<Rightarrow> nat \<Rightarrow> kstate \<Rightarrow> (int \<times> kstate) res" where
  "pipe_fail fr fw s = rbind (fileclose fr s) (\<lambda>s. rmap (Pair (- 1)) (fileclose fw s))"

definition sys_pipe :: "kstate \<Rightarrow> (int \<times> kstate) res" where
  "sys_pipe s =
     rbind (argaddr 0 s) (\<lambda>fdarray.
     rbind (pipealloc s) (\<lambda>(r, s). case r of None \<Rightarrow> Ok (- 1, s) | Some (fr, fw) \<Rightarrow>
     (case fdalloc fr s of
        (None, s) \<Rightarrow> pipe_fail fr fw s
      | (Some fd0, s) \<Rightarrow>
          (case fdalloc fw s of
             (None, s) \<Rightarrow> pipe_fail fr fw (set_ofile fd0 None s)
           | (Some fd1, s) \<Rightarrow>
               let pt = p_pagetable (me s); undo = \<lambda>s. pipe_fail fr fw (set_ofile fd1 None (set_ofile fd0 None s)) in
               rbind (on_km (copyout (kc s) pt fdarray (le_bytes 4 (of_nat fd0 :: u32))) s) (\<lambda>(r, s).
               if r < 0 then undo s
               else
                 rbind (on_km (copyout (kc s) pt (fdarray + 4) (le_bytes 4 (of_nat fd1 :: u32))) s) (\<lambda>(r, s).
                 if r < 0 then undo s else Ok (0, s)))))))"

end
