(* ===== verification/Kexec.thy ===== *)
theory Kexec
  imports Sysfile
begin

text \<open>
  \<^verbatim>\<open>kernel/exec.c\<close> and \<^verbatim>\<open>sys_exec\<close>: replacing the memory of a process by a program. The argument strings
  are kept as their characters beside the page that \<^verbatim>\<open>sys_exec\<close> allocates for each.
\<close>

section \<open>The headers\<close>

definition ELF_MAGIC :: u32 where "ELF_MAGIC = 0x464C457F"
definition ELF_PROG_LOAD :: u32 where "ELF_PROG_LOAD = 1"
definition ELFHDR :: nat where "ELFHDR = 64"
definition PROGHDR :: nat where "PROGHDR = 56"

definition dword_at :: "nat \<Rightarrow> u8 list \<Rightarrow> u64" where
  "dword_at off d = le_word (subarr off 8 d)"

record elfhdr =
  e_magic :: u32
  e_entry :: u64
  e_phoff :: u64
  e_phnum :: u16

definition elfhdr_of :: "u8 list \<Rightarrow> elfhdr" where
  "elfhdr_of d = \<lparr>e_magic = word_at 0 d, e_entry = dword_at 24 d, e_phoff = dword_at 32 d, e_phnum = half_at 56 d\<rparr>"

record proghdr =
  ph_type :: u32
  ph_off :: u64
  ph_vaddr :: u64
  ph_filesz :: u64
  ph_memsz :: u64

definition proghdr_of :: "u8 list \<Rightarrow> proghdr" where
  "proghdr_of d = \<lparr>ph_type = word_at 0 d, ph_off = dword_at 8 d, ph_vaddr = dword_at 16 d,
     ph_filesz = dword_at 32 d, ph_memsz = dword_at 40 d\<rparr>"

section \<open>Loading\<close>

text \<open>\<^verbatim>\<open>loadseg\<close> reads into the physical page. A read past the largest file panics in \<^verbatim>\<open>bmap\<close> long before
  the 32-bit counter could wrap.\<close>

function loadseg_loop :: "u64 \<Rightarrow> u64 \<Rightarrow> nat \<Rightarrow> u32 \<Rightarrow> nat \<Rightarrow> nat \<Rightarrow> kstate \<Rightarrow> (int \<times> kstate) res" where
  "loadseg_loop pt va ip offset i sz s =
     (if i < sz then
        rbind (walkaddr (kc s) pt (va + of_nat i) (km s)) (\<lambda>pa.
        if pa = 0 then Panic ''loadseg: address should exist''
        else if \<not> in_ram pa then Fault ''page''
        else
          let n = min (sz - i) (unat PGSIZE) in
          rbind (readi ip (Kern []) (offset + of_nat i) (of_nat n) s) (\<lambda>(r, xs, s).
          let s = s\<lparr>km := (km s)\<lparr>pmem := store_bytes pa xs (pmem (km s))\<rparr>\<rparr> in
          if r \<noteq> of_nat n then Ok (- 1, s)
          else loadseg_loop pt va ip offset (i + unat PGSIZE) sz s))
      else Ok (0, s))"
  by pat_completeness auto
termination
  by (relation "measure (\<lambda>(pt, va, ip, off, i, sz, s). sz - i)") (auto simp: PGSIZE_nat)

declare loadseg_loop.simps [simp del]

definition loadseg :: "u64 \<Rightarrow> u64 \<Rightarrow> nat \<Rightarrow> u32 \<Rightarrow> u32 \<Rightarrow> kstate \<Rightarrow> (int \<times> kstate) res" where
  "loadseg pt va ip offset sz s =
     (if va mod PGSIZE \<noteq> 0 then Panic ''loadseg: va must be page aligned''
      else loadseg_loop pt va ip offset 0 (unat sz) s)"

text \<open>The loop over the program headers: the new size, and whether it got to the end.\<close>

primrec exec_load :: "nat \<Rightarrow> u32 \<Rightarrow> u64 \<Rightarrow> u64 \<Rightarrow> nat \<Rightarrow> kstate \<Rightarrow> (bool \<times> u64 \<times> kstate) res" where
  "exec_load 0 off pt sz ip s = Ok (True, sz, s)"
| "exec_load (Suc k) off pt sz ip s =
     rbind (readi ip (Kern []) off (of_nat PROGHDR) s) (\<lambda>(r, d, s).
     let ph = proghdr_of d in
     if r \<noteq> of_nat PROGHDR then Ok (False, sz, s)
     else if ph_type ph \<noteq> ELF_PROG_LOAD then exec_load k (off + of_nat PROGHDR) pt sz ip s
     else if ph_memsz ph < ph_filesz ph then Ok (False, sz, s)
     else if ph_vaddr ph + ph_memsz ph < ph_vaddr ph then Ok (False, sz, s)
     else
       rbind (on_km (uvmalloc (kc s) pt sz (ph_vaddr ph + ph_memsz ph)) s) (\<lambda>(sz1, s).
       if sz1 = 0 then Ok (False, sz, s)
       else if ph_vaddr ph mod PGSIZE \<noteq> 0 then Ok (False, sz1, s)
       else
         rbind (loadseg pt (ph_vaddr ph) ip (ucast (ph_off ph)) (ucast (ph_filesz ph)) s) (\<lambda>(r, s).
         if r < 0 then Ok (False, sz1, s)
         else exec_load k (off + of_nat PROGHDR) pt sz1 ip s)))"

section \<open>The stack\<close>

definition align_sp :: "u64 \<Rightarrow> u64" where
  "align_sp sp = sp - sp mod 16"

text \<open>The argument strings go to the stack, the last one lowest; \<^verbatim>\<open>ustack\<close> collects their addresses.
  \<open>None\<close> leads to the label \<^verbatim>\<open>bad\<close>.\<close>

fun push_args :: "u8 list list \<Rightarrow> nat \<Rightarrow> u64 \<Rightarrow> u64 \<Rightarrow> u64 \<Rightarrow> u64 list \<Rightarrow> kstate \<Rightarrow> ((u64 \<times> u64 list) option \<times> kstate) res" where
  "push_args [] argc sp stackbase pt ustack s = Ok (Some (sp, ustack), s)"
| "push_args (arg # argv) argc sp stackbase pt ustack s =
     (if argc \<ge> MAXARG then Ok (None, s)
      else
        let sp = align_sp (sp - (of_nat (length arg) + 1)) in
        if sp < stackbase then Ok (None, s)
        else
          rbind (on_km (copyout (kc s) pt sp (arg @ [0])) s) (\<lambda>(r, s).
          if r < 0 then Ok (None, s)
          else push_args argv (Suc argc) sp stackbase pt (ustack @ [sp]) s))"

definition exec_bad :: "u64 \<Rightarrow> u64 \<Rightarrow> nat option \<Rightarrow> kstate \<Rightarrow> (int \<times> kstate) res" where
  "exec_bad pt sz ip s =
     rbind (if pt \<noteq> 0 then on_km1 (proc_freepagetable (kc s) pt sz) s else Ok s) (\<lambda>s.
     case ip of
       None \<Rightarrow> Ok (- 1, s)
     | Some i \<Rightarrow> rbind (iunlockput i s) (\<lambda>s. rmap (Pair (- 1)) (kend_op s)))"

text \<open>The last component of a path, from the loop with \<^verbatim>\<open>last\<close>.\<close>

definition last_elem :: "u8 list \<Rightarrow> u8 list" where
  "last_elem path = rev (takeWhile (\<lambda>c. c \<noteq> slash) (rev path))"

definition exec_commit :: "u8 list \<Rightarrow> nat \<Rightarrow> u64 \<Rightarrow> u64 \<Rightarrow> u64 \<Rightarrow> u64 \<Rightarrow> kstate \<Rightarrow> (int \<times> kstate) res" where
  "exec_commit path argc entry pt sz sp s =
     (let p = myproc s; oldpt = p_pagetable (me s); oldsz = p_sz (me s) in
      rbind (tf_set TF_a1 sp s) (\<lambda>s.
      let s = upd_proc p (\<lambda>x. x\<lparr>p_name := safestrcpy_l 16 (last_elem path) (p_name x), p_pagetable := pt, p_sz := sz\<rparr>) s in
      rbind (tf_set TF_epc entry s) (\<lambda>s.
      rbind (tf_set TF_sp sp s) (\<lambda>s.
      rmap (Pair (int argc)) (on_km1 (proc_freepagetable (kc s) oldpt oldsz) s)))))"

definition exec_stack :: "u8 list \<Rightarrow> u8 list list \<Rightarrow> u64 \<Rightarrow> u64 \<Rightarrow> u64 \<Rightarrow> kstate \<Rightarrow> (int \<times> kstate) res" where
  "exec_stack path argv entry pt sz s =
     (let sz = PGROUNDUP sz in
      rbind (on_km (uvmalloc (kc s) pt sz (sz + 2 * PGSIZE)) s) (\<lambda>(sz1, s).
      if sz1 = 0 then exec_bad pt sz None s
      else
        rbind (on_km1 (uvmclear (kc s) pt (sz1 - 2 * PGSIZE)) s) (\<lambda>s.
        let stackbase = sz1 - PGSIZE in
        rbind (push_args argv 0 sz1 stackbase pt [] s) (\<lambda>(r, s).
        case r of
          None \<Rightarrow> exec_bad pt sz1 None s
        | Some (sp, ustack) \<Rightarrow>
            let argc = length ustack;
                sp = align_sp (sp - (of_nat argc + 1) * 8) in
            if sp < stackbase then exec_bad pt sz1 None s
            else
              rbind (on_km (copyout (kc s) pt sp (concat (map (le_bytes 8) (ustack @ [0])))) s) (\<lambda>(r, s).
              if r < 0 then exec_bad pt sz1 None s
              else exec_commit path argc entry pt sz1 sp s)))))"

definition exec_image :: "u8 list \<Rightarrow> u8 list list \<Rightarrow> nat \<Rightarrow> kstate \<Rightarrow> (int \<times> kstate) res" where
  "exec_image path argv ip s =
     rbind (readi ip (Kern []) 0 (of_nat ELFHDR) s) (\<lambda>(r, d, s).
     let elf = elfhdr_of d in
     if r \<noteq> of_nat ELFHDR then exec_bad 0 0 (Some ip) s
     else if e_magic elf \<noteq> ELF_MAGIC then exec_bad 0 0 (Some ip) s
     else
       rbind (on_km (proc_pagetable (kc s) (p_trapframe (me s))) s) (\<lambda>(pt, s).
       if pt = 0 then exec_bad 0 0 (Some ip) s
       else
         rbind (exec_load (unat (e_phnum elf)) (ucast (e_phoff elf)) pt 0 ip s) (\<lambda>(ok, sz, s).
         if \<not> ok then exec_bad pt sz (Some ip) s
         else
           rbind (iunlockput ip s) (\<lambda>s.
           rbind (kend_op s) (\<lambda>s.
           exec_stack path argv (e_entry elf) pt sz s)))))"

definition exec :: "u8 list \<Rightarrow> u8 list list \<Rightarrow> kstate \<Rightarrow> (int \<times> kstate) res" where
  "exec path argv s =
     rbind (kbegin_op s) (\<lambda>s.
     rbind (namei path s) (\<lambda>(r, s).
     case r of
       None \<Rightarrow> rmap (Pair (- 1)) (kend_op s)
     | Some ip \<Rightarrow> rbind (ilock ip s) (exec_image path argv ip)))"

section \<open>The system call\<close>

text \<open>The loop that fetches the argument vector: the pages with their strings, and whether the
  terminating null pointer was found.\<close>

primrec fetch_args :: "nat \<Rightarrow> nat \<Rightarrow> u64 \<Rightarrow> (u64 \<times> u8 list) list \<Rightarrow> kstate \<Rightarrow> (bool \<times> (u64 \<times> u8 list) list \<times> kstate) res" where
  "fetch_args 0 i uargv argv s = Ok (False, argv, s)"
| "fetch_args (Suc k) i uargv argv s =
     rbind (fetchaddr (uargv + 8 * of_nat i) s) (\<lambda>r.
     case r of
       None \<Rightarrow> Ok (False, argv, s)
     | Some uarg \<Rightarrow>
         if uarg = 0 then Ok (True, argv, s)
         else
           let (pg, s) = kalloc_k s in
           if pg = 0 then Ok (False, argv, s)
           else
             rbind (fetchstr uarg (unat PGSIZE) s) (\<lambda>r.
             case r of
               None \<Rightarrow> Ok (False, argv @ [(pg, [])], s)
             | Some str \<Rightarrow> fetch_args k (Suc i) uargv (argv @ [(pg, str)]) s))"

primrec free_args :: "u64 list \<Rightarrow> kstate \<Rightarrow> kstate res" where
  "free_args [] s = Ok s"
| "free_args (pg # pgs) s = rbind (on_km1 (kfree (k_end (kc s)) pg) s) (free_args pgs)"

definition sys_exec :: "kstate \<Rightarrow> (int \<times> kstate) res" where
  "sys_exec s =
     rbind (argstr 0 MAXPATH s) (\<lambda>r.
     case r of
       None \<Rightarrow> Ok (- 1, s)
     | Some path \<Rightarrow>
         rbind (argaddr 1 s) (\<lambda>uargv.
         rbind (fetch_args MAXARG 0 uargv [] s) (\<lambda>(ok, argv, s).
         if ok then
           rbind (exec path (map snd argv) s) (\<lambda>(ret, s). rmap (Pair ret) (free_args (map fst argv) s))
         else rmap (Pair (- 1)) (free_args (map fst argv) s))))"

end
