(* ===== verification/Trap.thy ===== *)
theory Trap
  imports Kexec
begin

text \<open>
  \<^verbatim>\<open>kernel/sysproc.c\<close>, the dispatch of \<^verbatim>\<open>kernel/syscall.c\<close>, \<^verbatim>\<open>kernel/plic.c\<close> and \<^verbatim>\<open>kernel/trap.c\<close>: what the
  kernel does when a process traps or a device interrupts. A system call that switches away in the
  middle ends in \<open>Sleep\<close>; so does \<^verbatim>\<open>exit\<close>, from which no call returns.
\<close>

section \<open>System calls on processes\<close>

definition returning :: "(int \<times> kstate) res \<Rightarrow> kstate io res" where
  "returning m = rmap (\<lambda>(r, s). Ret r s) m"

definition sys_exit :: "kstate \<Rightarrow> kstate io res" where
  "sys_exit s = rbind (argint 0 s) (\<lambda>n. rmap (Sleep 0) (exit_proc n s))"

definition sys_getpid :: "kstate \<Rightarrow> (int \<times> kstate) res" where
  "sys_getpid s = Ok (sint (p_pid (me s)), s)"

definition sys_fork :: "kstate \<Rightarrow> (int \<times> kstate) res" where
  "sys_fork s = fork s"

definition sys_wait :: "kstate \<Rightarrow> kstate io res" where
  "sys_wait s = rbind (argaddr 0 s) (\<lambda>p. wait p s)"

definition sys_sbrk :: "kstate \<Rightarrow> (int \<times> kstate) res" where
  "sys_sbrk s =
     rbind (argint 0 s) (\<lambda>n.
     let addr = ucast (p_sz (me s)) :: u32 in
     rbind (growproc n s) (\<lambda>(r, s). Ok (if r < 0 then - 1 else sint addr, s)))"

text \<open>The comparison of \<^verbatim>\<open>sys_sleep\<close> is one of unsigned numbers. \<open>sleep_round\<close> is one round of its
  loop, with \<^verbatim>\<open>tickslock\<close> held.\<close>

definition sleep_round :: "u32 \<Rightarrow> u32 \<Rightarrow> kstate \<Rightarrow> kstate io res" where
  "sleep_round n ticks0 s =
     (if ticks s - ticks0 < n then
        if p_killed (me s) then rmap (Ret (- 1)) (release_k Lticks s)
        else rmap (Sleep 0) (sleep_on Cticks Lticks s)
      else rmap (Ret 0) (release_k Lticks s))"

definition sys_sleep :: "kstate \<Rightarrow> kstate io res" where
  "sys_sleep s = rbind (argint 0 s) (\<lambda>n. rbind (acquire_k Lticks s) (\<lambda>s. sleep_round n (ticks s) s))"

definition sys_kill :: "kstate \<Rightarrow> (int \<times> kstate) res" where
  "sys_kill s = rbind (argint 0 s) (\<lambda>pid. kill pid s)"

definition sys_uptime :: "kstate \<Rightarrow> (int \<times> kstate) res" where
  "sys_uptime s = Ok (uint (ticks s), s)"

section \<open>Dispatch\<close>

definition kprint :: "string \<Rightarrow> parg list \<Rightarrow> kstate \<Rightarrow> kstate res" where
  "kprint fmt ap s = rmap (\<lambda>c. s\<lparr>cons := c\<rparr>) (kprintf (chars fmt) ap (cons s))"

definition syscalls :: "(kstate \<Rightarrow> kstate io res) option list" where
  "syscalls = [None,
     Some (\<lambda>s. returning (sys_fork s)), Some sys_exit, Some sys_wait, Some (\<lambda>s. returning (sys_pipe s)),
     Some sys_read, Some (\<lambda>s. returning (sys_kill s)), Some (\<lambda>s. returning (sys_exec s)),
     Some (\<lambda>s. returning (sys_fstat s)), Some (\<lambda>s. returning (sys_chdir s)), Some (\<lambda>s. returning (sys_dup s)),
     Some (\<lambda>s. returning (sys_getpid s)), Some (\<lambda>s. returning (sys_sbrk s)), Some sys_sleep,
     Some (\<lambda>s. returning (sys_uptime s)), Some (\<lambda>s. returning (sys_open s)), Some sys_write,
     Some (\<lambda>s. returning (sys_mknod s)), Some (\<lambda>s. returning (sys_unlink s)),
     Some (\<lambda>s. returning (sys_link s)), Some (\<lambda>s. returning (sys_mkdir s)), Some (\<lambda>s. returning (sys_close s))]"

definition syscall :: "kstate \<Rightarrow> kstate io res" where
  "syscall s =
     rbind (tf_get TF_a7 s) (\<lambda>a7.
     let num = ucast a7 :: u32 in
     case (if sint num > 0 \<and> sint num < int (length syscalls) then syscalls ! nat (sint num) else None) of
       Some f \<Rightarrow>
         rbind (f s) (\<lambda>r.
         case r of
           Ret v s \<Rightarrow> rmap (Ret v) (tf_set TF_a0 (of_int v) s)
         | Sleep i s \<Rightarrow> Ok (Sleep i s))
     | None \<Rightarrow>
         rbind (kprint ''%d %s: unknown sys call %d\<newline>'' [Pint (p_pid (me s)), Pstr (Some (p_name (me s))), Pint num] s) (\<lambda>s.
         rmap (Ret (- 1)) (tf_set TF_a0 (- 1) s)))"

section \<open>The interrupt controller\<close>

definition UART0_IRQ :: nat where "UART0_IRQ = 10"
definition VIRTIO0_IRQ :: nat where "VIRTIO0_IRQ = 1"

definition PLIC_SENABLE :: "u64 \<Rightarrow> u64" where "PLIC_SENABLE hart = PLIC + 0x2080 + hart * 0x100"
definition PLIC_SPRIORITY :: "u64 \<Rightarrow> u64" where "PLIC_SPRIORITY hart = PLIC + 0x201000 + hart * 0x2000"
definition PLIC_SCLAIM :: "u64 \<Rightarrow> u64" where "PLIC_SCLAIM hart = PLIC + 0x201004 + hart * 0x2000"

definition plic_write :: "u64 \<Rightarrow> u32 \<Rightarrow> kstate \<Rightarrow> kstate" where
  "plic_write a v s = s\<lparr>plic := (plic s)\<lparr>pl_writes := pl_writes (plic s) @ [(a, v)]\<rparr>\<rparr>"

definition cpuid :: "kstate \<Rightarrow> u64" where
  "cpuid s = tp (csr s)"

definition plicinit :: "kstate \<Rightarrow> kstate" where
  "plicinit s = plic_write (PLIC + of_nat (VIRTIO0_IRQ * 4)) 1 (plic_write (PLIC + of_nat (UART0_IRQ * 4)) 1 s)"

definition plicinithart :: "kstate \<Rightarrow> kstate" where
  "plicinithart s =
     plic_write (PLIC_SPRIORITY (cpuid s)) 0
       (plic_write (PLIC_SENABLE (cpuid s)) (push_bit UART0_IRQ 1 OR push_bit VIRTIO0_IRQ 1) s)"

definition plic_claim :: "kstate \<Rightarrow> u32" where
  "plic_claim s = pl_claim (plic s)"

definition plic_complete :: "u32 \<Rightarrow> kstate \<Rightarrow> kstate" where
  "plic_complete irq s = plic_write (PLIC_SCLAIM (cpuid s)) irq s"

section \<open>Interrupts\<close>

definition clockintr :: "kstate \<Rightarrow> kstate res" where
  "clockintr s =
     rbind (acquire_k Lticks s) (\<lambda>s.
     rbind (wakeup Cticks (s\<lparr>ticks := ticks s + 1\<rparr>)) (release_k Lticks))"

text \<open>The handlers of the devices, with the wakeups they make: of readers when a line is complete, of
  writers when the transmit buffer has room, of the threads whose transfers are done.\<close>

definition uart_handler :: "kstate \<Rightarrow> kstate res" where
  "uart_handler s =
     rbind (procdump s) (\<lambda>text.
     rbind (uartintr text (cons s)) (\<lambda>c.
     rbind (if c_w c \<noteq> c_w (cons s) then wakeup Ccons (s\<lparr>cons := c\<rparr>) else Ok (s\<lparr>cons := c\<rparr>)) (\<lambda>s'.
     if tx_r (c_uart c) \<noteq> tx_r (c_uart (cons s)) then wakeup Cuart s' else Ok s')))"

primrec wake_buffers :: "nat list \<Rightarrow> kstate \<Rightarrow> kstate res" where
  "wake_buffers [] s = Ok s"
| "wake_buffers (b # bs) s = rbind (wakeup (Cbuf b) s) (wake_buffers bs)"

definition disk_handler :: "kstate \<Rightarrow> kstate res" where
  "disk_handler s =
     rbind (acquire_k Ldisk s) (\<lambda>s.
     rbind (virtio_disk_intr (vdisk s)) (\<lambda>(bs, d).
     rbind (wake_buffers bs (s\<lparr>vdisk := d\<rparr>)) (release_k Ldisk)))"

definition devintr :: "kstate \<Rightarrow> (nat \<times> kstate) res" where
  "devintr s =
     (let cause = scause (csr s) in
      if cause AND 0x8000000000000000 \<noteq> 0 \<and> cause AND 0xff = 9 then
        let irq = plic_claim s in
        rbind (if unat irq = UART0_IRQ then uart_handler s
               else if unat irq = VIRTIO0_IRQ then disk_handler s
               else if irq \<noteq> 0 then kprint ''unexpected interrupt irq=%d\<newline>'' [Pint irq] s
               else Ok s) (\<lambda>s.
        Ok (1, if irq \<noteq> 0 then plic_complete irq s else s))
      else if cause = 0x8000000000000001 then
        rbind (if cpuid s = 0 then clockintr s else Ok s) (\<lambda>s.
        Ok (2, s\<lparr>csr := (csr s)\<lparr>sip := sip (csr s) AND NOT 2\<rparr>\<rparr>))
      else Ok (0, s))"

section \<open>Traps\<close>

definition SSTATUS_SPP :: u64 where "SSTATUS_SPP = push_bit 8 1"
definition SSTATUS_SPIE :: u64 where "SSTATUS_SPIE = push_bit 5 1"
definition SSTATUS_SIE :: u64 where "SSTATUS_SIE = push_bit 1 1"
definition SATP_SV39 :: u64 where "SATP_SV39 = push_bit 60 8"

definition MAKE_SATP :: "u64 \<Rightarrow> u64" where
  "MAKE_SATP pt = SATP_SV39 OR drop_bit 12 pt"

definition intr_on :: "kstate \<Rightarrow> kstate" where
  "intr_on s = s\<lparr>csr := (csr s)\<lparr>sstatus := sstatus (csr s) OR SSTATUS_SIE\<rparr>\<rparr>"

definition intr_off :: "kstate \<Rightarrow> kstate" where
  "intr_off s = s\<lparr>csr := (csr s)\<lparr>sstatus := sstatus (csr s) AND NOT SSTATUS_SIE\<rparr>\<rparr>"

definition intr_get :: "kstate \<Rightarrow> bool" where
  "intr_get s \<longleftrightarrow> sstatus (csr s) AND SSTATUS_SIE \<noteq> 0"

text \<open>\<^verbatim>\<open>usertrapret\<close> up to the jump to the trampoline; the result is the page table it switches to.\<close>

definition usertrapret :: "kstate \<Rightarrow> (u64 \<times> kstate) res" where
  "usertrapret s =
     (let s = intr_off s;
          s = s\<lparr>csr := (csr s)\<lparr>stvec := TRAMPOLINE + (sym_uservec (ksym s) - k_trampoline (kc s))\<rparr>\<rparr> in
      rbind (tf_set TF_kernel_satp (satp (csr s)) s) (\<lambda>s.
      rbind (tf_set TF_kernel_sp (p_kstack (me s) + PGSIZE) s) (\<lambda>s.
      rbind (tf_set TF_kernel_trap (sym_usertrap (ksym s)) s) (\<lambda>s.
      rbind (tf_set TF_kernel_hartid (tp (csr s)) s) (\<lambda>s.
      let s = s\<lparr>csr := (csr s)\<lparr>sstatus := sstatus (csr s) AND NOT SSTATUS_SPP OR SSTATUS_SPIE\<rparr>\<rparr> in
      rbind (tf_get TF_epc s) (\<lambda>epc.
      Ok (MAKE_SATP (p_pagetable (me s)), s\<lparr>csr := (csr s)\<lparr>sepc := epc\<rparr>\<rparr>)))))))"

text \<open>How a trap ends: back in user space with a page table, or switched away.\<close>

datatype trapend = Touser u64 | Away

definition trap_exit :: "kstate \<Rightarrow> (trapend \<times> kstate) res" where
  "trap_exit s = rmap (Pair Away) (exit_proc (- 1) s)"

text \<open>The end of \<^verbatim>\<open>usertrap\<close>: a killed process exits, a timer interrupt gives up the CPU.\<close>

definition usertrap_end :: "nat \<Rightarrow> kstate \<Rightarrow> (trapend \<times> kstate) res" where
  "usertrap_end which_dev s =
     (if p_killed (me s) then trap_exit s
      else if which_dev = 2 then rmap (Pair Away) (yield s)
      else rmap (\<lambda>(pt, s). (Touser pt, s)) (usertrapret s))"

definition usertrap :: "kstate \<Rightarrow> (trapend \<times> kstate) res" where
  "usertrap s =
     (if sstatus (csr s) AND SSTATUS_SPP \<noteq> 0 then Panic ''usertrap: not from user mode''
      else
        let s = s\<lparr>csr := (csr s)\<lparr>stvec := sym_kernelvec (ksym s)\<rparr>\<rparr> in
        rbind (tf_set TF_epc (sepc (csr s)) s) (\<lambda>s.
        if scause (csr s) = 8 then
          if p_killed (me s) then trap_exit s
          else
            rbind (tf_get TF_epc s) (\<lambda>epc.
            rbind (tf_set TF_epc (epc + 4) s) (\<lambda>s.
            rbind (syscall (intr_on s)) (\<lambda>r.
            case r of
              Ret v s \<Rightarrow> usertrap_end 0 s
            | Sleep i s \<Rightarrow> Ok (Away, s))))
        else
          rbind (devintr s) (\<lambda>(which_dev, s).
          if which_dev \<noteq> 0 then usertrap_end which_dev s
          else
            rbind (kprint ''usertrap(): unexpected scause %p pid=%d\<newline>'' [Plong (scause (csr s)), Pint (p_pid (me s))] s) (\<lambda>s.
            rbind (kprint ''            sepc=%p stval=%p\<newline>'' [Plong (sepc (csr s)), Plong (stval (csr s))] s) (\<lambda>s.
            usertrap_end 0 (upd_proc (myproc s) (\<lambda>p. p\<lparr>p_killed := True\<rparr>) s))))))"

text \<open>\<^verbatim>\<open>kerneltrap\<close> up to a switch; without one it restores the registers of the trap.\<close>

definition kerneltrap :: "kstate \<Rightarrow> (bool \<times> kstate) res" where
  "kerneltrap s =
     (let pc = sepc (csr s); status = sstatus (csr s) in
      if status AND SSTATUS_SPP = 0 then Panic ''kerneltrap: not from supervisor mode''
      else if intr_get s then Panic ''kerneltrap: interrupts enabled''
      else
        rbind (devintr s) (\<lambda>(which_dev, s).
        if which_dev = 0 then
          rbind (kprint ''scause %p\<newline>'' [Plong (scause (csr s))] s) (\<lambda>s.
          rbind (kprint ''sepc=%p stval=%p\<newline>'' [Plong (sepc (csr s)), Plong (stval (csr s))] s) (\<lambda>s.
          Panic ''kerneltrap''))
        else if which_dev = 2 \<and> cur s \<noteq> None \<and> p_state (me s) = RUNNING then rmap (Pair True) (yield s)
        else Ok (False, s\<lparr>csr := (csr s)\<lparr>sepc := pc, sstatus := status\<rparr>\<rparr>)))"

definition forkret :: "kstate \<Rightarrow> (u64 \<times> kstate) res" where
  "forkret s =
     rbind (release_k (Lproc (myproc s)) s) (\<lambda>s.
     rbind (if forkret_first s then fsinit ROOTDEV (s\<lparr>forkret_first := False\<rparr>) else Ok s) usertrapret)"

section \<open>Starting the machine\<close>

definition kvminithart :: "kstate \<Rightarrow> kstate" where
  "kvminithart s = s\<lparr>csr := (csr s)\<lparr>satp := MAKE_SATP (kpgtbl s)\<rparr>\<rparr>"

definition trapinithart :: "kstate \<Rightarrow> kstate" where
  "trapinithart s = s\<lparr>csr := (csr s)\<lparr>stvec := sym_kernelvec (ksym s)\<rparr>\<rparr>"

text \<open>\<^verbatim>\<open>main\<close> on the first hart, up to the scheduler. The arguments are the answers of the disk's
  registers and the address of its rings.\<close>

definition main_boot :: "(nat \<Rightarrow> u32) \<Rightarrow> u64 \<Rightarrow> kstate \<Rightarrow> kstate res" where
  "main_boot reg pages s =
     rbind (kprint ''\<newline>'' [] (s\<lparr>cons := consoleinit (cons s)\<rparr>)) (\<lambda>s.
     rbind (kprint ''xv6 kernel is booting\<newline>'' [] s) (\<lambda>s.
     rbind (kprint ''\<newline>'' [] s) (\<lambda>s.
     rbind (kinit (k_end (kc s)) (pmem (km s))) (\<lambda>m.
     rbind (kvminit (kc s) m) (\<lambda>(pt, m).
     rbind (procinit (kvminithart (s\<lparr>km := m, kpgtbl := pt\<rparr>))) (\<lambda>s.
     let s = plicinithart (plicinit (trapinithart (kvminithart s)));
         s = s\<lparr>ls := (ls s)\<lparr>lbs := (lbs (ls s))\<lparr>bufs := binit (bufs (lbs (ls s)))\<rparr>\<rparr>\<rparr>;
         s = iinit s in
     rbind (virtio_disk_init reg pages (vdisk s)) (\<lambda>(writes, d).
     userinit (s\<lparr>vdisk := d\<rparr>))))))))"

text \<open>\<^verbatim>\<open>kernel/start.c\<close> runs in machine mode.\<close>

record mregs =
  mstatus :: u64
  mepc :: u64
  m_satp :: u64
  medeleg :: u64
  mideleg :: u64
  m_sie :: u64
  mie :: u64
  mscratch :: u64
  mtvec :: u64
  m_tp :: u64
  mtimecmp :: "u64 \<Rightarrow> u64"
  scratch :: "u64 \<Rightarrow> u64"

definition CLINT_MTIMECMP :: "u64 \<Rightarrow> u64" where "CLINT_MTIMECMP hart = CLINT + 0x4000 + 8 * hart"

definition timerinit :: "u64 \<Rightarrow> u64 \<Rightarrow> u64 \<Rightarrow> u64 \<Rightarrow> mregs \<Rightarrow> mregs" where
  "timerinit hart mtime mscratch0 timervec m =
     (let sc = mscratch0 + 8 * (32 * hart) in
      m\<lparr>mtimecmp := (mtimecmp m)(CLINT_MTIMECMP hart := mtime + 1000000),
        scratch := (scratch m)(sc + 8 * 4 := CLINT_MTIMECMP hart, sc + 8 * 5 := 1000000),
        mscratch := sc, mtvec := timervec, mstatus := mstatus m OR push_bit 3 1, mie := mie m OR push_bit 7 1\<rparr>)"

definition start :: "u64 \<Rightarrow> u64 \<Rightarrow> u64 \<Rightarrow> u64 \<Rightarrow> u64 \<Rightarrow> mregs \<Rightarrow> mregs" where
  "start hart mtime mscratch0 timervec main_addr m =
     (let m = m\<lparr>mstatus := mstatus m AND NOT (push_bit 11 3) OR push_bit 11 1, mepc := main_addr, m_satp := 0,
                medeleg := 0xffff, mideleg := 0xffff,
                m_sie := m_sie m OR push_bit 9 1 OR push_bit 5 1 OR push_bit 1 1\<rparr>;
          m = timerinit hart mtime mscratch0 timervec m
      in m\<lparr>m_tp := hart\<rparr>)"

end
