(* ===== verification/Sleep_Wakeup.thy ===== *)
theory Sleep_Wakeup
  imports Kstate
begin

text \<open>
  \<^verbatim>\<open>sleep\<close> and \<^verbatim>\<open>wakeup\<close> of \<^verbatim>\<open>kernel/proc.c\<close> run by any number of processes on any number of CPUs. Some
  processes wait for a condition under a lock, as \<^verbatim>\<open>acquire(lk); while(!cond) sleep(chan, lk); ...;
  release(lk)\<close>; others make it true, as \<^verbatim>\<open>acquire(lk); cond = 1; wakeup(chan); release(lk)\<close>. The steps
  are the acquisitions and releases of locks and the assignments they protect, each by one process
  and in any order. The property of interest is that no wakeup is lost.
\<close>

section \<open>The system\<close>

text \<open>Where a process is. \<open>S1\<close>: it tests the condition, holding \<^verbatim>\<open>lk\<close>; \<open>S2\<close>: in \<^verbatim>\<open>sleep\<close>, before
  \<^verbatim>\<open>acquire(&p->lock)\<close>; \<open>S3\<close>: before \<^verbatim>\<open>release(lk)\<close>; \<open>S4\<close>: before it marks itself as asleep; \<open>S5\<close>: in \<^verbatim>\<open>sched\<close>,
  until the scheduler releases its lock; \<open>S6\<close>: off the CPU; \<open>S7\<close>: running again, before it returns
  from \<^verbatim>\<open>sleep\<close>. \<open>W1\<close>: it sets the condition, holding \<^verbatim>\<open>lk\<close>; \<open>W2 i\<close>: in \<^verbatim>\<open>wakeup\<close>, before the lock of
  process \<open>i\<close> is acquired; \<open>W3 i\<close>: with that lock.\<close>

datatype swpc = Idle | S0 | S1 | S2 | S3 | S4 | S5 | S6 | S7 | W0 | W1 | W2 nat | W3 nat

record sw =
  sw_lk :: "nat option"
  sw_plk :: "nat \<Rightarrow> nat option"
  sw_st :: "nat \<Rightarrow> procstate"
  sw_ch :: "nat \<Rightarrow> bool"
  sw_cond :: bool
  sw_pc :: "nat \<Rightarrow> swpc"

definition goto :: "nat \<Rightarrow> swpc \<Rightarrow> sw \<Rightarrow> sw" where
  "goto p c s = s\<lparr>sw_pc := (sw_pc s)(p := c)\<rparr>"

definition set_plk :: "nat \<Rightarrow> nat option \<Rightarrow> sw \<Rightarrow> sw" where
  "set_plk i o' s = s\<lparr>sw_plk := (sw_plk s)(i := o')\<rparr>"

inductive sw_step :: "sw \<Rightarrow> sw \<Rightarrow> bool" where
  want_sleep: "p < NPROC \<Longrightarrow> sw_pc s p = Idle \<Longrightarrow> sw_step s (goto p S0 s)"
| s_lock: "sw_pc s p = S0 \<Longrightarrow> sw_lk s = None \<Longrightarrow> sw_step s (goto p S1 (s\<lparr>sw_lk := Some p\<rparr>))"
| s_go: "sw_pc s p = S1 \<Longrightarrow> sw_cond s \<Longrightarrow> sw_step s (goto p Idle (s\<lparr>sw_cond := c, sw_lk := None\<rparr>))"
| s_wait: "sw_pc s p = S1 \<Longrightarrow> \<not> sw_cond s \<Longrightarrow> sw_step s (goto p S2 s)"
| s_plock: "sw_pc s p = S2 \<Longrightarrow> sw_plk s p = None \<Longrightarrow> sw_step s (goto p S3 (set_plk p (Some p) s))"
| s_release: "sw_pc s p = S3 \<Longrightarrow> sw_step s (goto p S4 (s\<lparr>sw_lk := None\<rparr>))"
| s_mark: "sw_pc s p = S4 \<Longrightarrow>
    sw_step s (goto p S5 (s\<lparr>sw_ch := (sw_ch s)(p := True), sw_st := (sw_st s)(p := SLEEPING)\<rparr>))"
| s_switch: "sw_pc s p = S5 \<Longrightarrow> sw_step s (goto p S6 (set_plk p None s))"
| s_run: "sw_pc s p = S6 \<Longrightarrow> sw_st s p = RUNNABLE \<Longrightarrow> sw_plk s p = None \<Longrightarrow>
    sw_step s (goto p S7 (set_plk p (Some p) (s\<lparr>sw_st := (sw_st s)(p := RUNNING)\<rparr>)))"
| s_back: "sw_pc s p = S7 \<Longrightarrow> sw_step s (goto p S0 (set_plk p None (s\<lparr>sw_ch := (sw_ch s)(p := False)\<rparr>)))"
| want_wake: "p < NPROC \<Longrightarrow> sw_pc s p = Idle \<Longrightarrow> sw_step s (goto p W0 s)"
| w_lock: "sw_pc s p = W0 \<Longrightarrow> sw_lk s = None \<Longrightarrow> sw_step s (goto p W1 (s\<lparr>sw_lk := Some p\<rparr>))"
| w_set: "sw_pc s p = W1 \<Longrightarrow> sw_step s (goto p (W2 0) (s\<lparr>sw_cond := True\<rparr>))"
| w_plock: "sw_pc s p = W2 i \<Longrightarrow> i < NPROC \<Longrightarrow> sw_plk s i = None \<Longrightarrow>
    sw_step s (goto p (W3 i) (set_plk i (Some p) s))"
| w_wake: "sw_pc s p = W3 i \<Longrightarrow>
    sw_step s (goto p (W2 (Suc i)) (set_plk i None
      (s\<lparr>sw_st := (sw_st s)(i := if sw_st s i = SLEEPING \<and> sw_ch s i then RUNNABLE else sw_st s i)\<rparr>)))"
| w_done: "sw_pc s p = W2 NPROC \<Longrightarrow> sw_step s (goto p Idle (s\<lparr>sw_lk := None\<rparr>))"
| killed: "sw_st s p = SLEEPING \<Longrightarrow> sw_plk s p = None \<Longrightarrow> sw_step s (s\<lparr>sw_st := (sw_st s)(p := RUNNABLE)\<rparr>)"

definition sw_init :: "sw \<Rightarrow> bool" where
  "sw_init s \<longleftrightarrow> sw_lk s = None \<and> (\<forall>p. sw_plk s p = None \<and> sw_st s p = RUNNING \<and> \<not> sw_ch s p \<and> sw_pc s p = Idle) \<and>
     \<not> sw_cond s"

section \<open>The invariant\<close>

text \<open>Who holds which lock at which point.\<close>

fun holds_lk :: "swpc \<Rightarrow> bool" where
  "holds_lk S1 = True" | "holds_lk S2 = True" | "holds_lk S3 = True" | "holds_lk W1 = True"
| "holds_lk (W2 i) = True" | "holds_lk (W3 i) = True" | "holds_lk _ = False"

fun holds_own :: "swpc \<Rightarrow> bool" where
  "holds_own S3 = True" | "holds_own S4 = True" | "holds_own S5 = True" | "holds_own S7 = True"
| "holds_own _ = False"

fun has_plk :: "swpc \<Rightarrow> nat \<Rightarrow> nat \<Rightarrow> bool" where
  "has_plk (W3 i) w j = (j = i)"
| "has_plk c w j = (holds_own c \<and> j = w)"

text \<open>A process that has decided to sleep, or sleeps, and has not been woken.\<close>

definition dozing :: "sw \<Rightarrow> nat \<Rightarrow> bool" where
  "dozing s p \<longleftrightarrow> sw_pc s p = S4 \<or> sw_pc s p \<in> {S5, S6} \<and> sw_st s p = SLEEPING"

text \<open>Somebody in \<^verbatim>\<open>wakeup\<close> has yet to come to process \<open>p\<close>.\<close>

definition coming :: "sw \<Rightarrow> nat \<Rightarrow> bool" where
  "coming s p \<longleftrightarrow> (\<exists>w i. (sw_pc s w = W2 i \<or> sw_pc s w = W3 i) \<and> i \<le> p)"

definition lock_inv :: "sw \<Rightarrow> bool" where
  "lock_inv s \<longleftrightarrow>
     (\<forall>p. holds_lk (sw_pc s p) \<longleftrightarrow> sw_lk s = Some p) \<and>
     (\<forall>w i. has_plk (sw_pc s w) w i \<longrightarrow> sw_plk s i = Some w)"

definition state_inv :: "sw \<Rightarrow> bool" where
  "state_inv s \<longleftrightarrow>
     (\<forall>p. sw_pc s p = S2 \<or> sw_pc s p = S3 \<longrightarrow> \<not> sw_cond s) \<and>
     (\<forall>p. sw_pc s p = S5 \<or> sw_pc s p = S6 \<longrightarrow> sw_ch s p) \<and>
     (\<forall>p. sw_st s p = SLEEPING \<longrightarrow> sw_pc s p = S5 \<or> sw_pc s p = S6) \<and>
     (\<forall>p. sw_pc s p \<noteq> Idle \<longrightarrow> p < NPROC)"

definition wake_inv :: "sw \<Rightarrow> bool" where
  "wake_inv s \<longleftrightarrow> (sw_cond s \<longrightarrow> (\<forall>p. dozing s p \<longrightarrow> coming s p))"

definition sw_inv :: "sw \<Rightarrow> bool" where
  "sw_inv s \<longleftrightarrow> lock_inv s \<and> state_inv s \<and> wake_inv s"

lemma sw_sel [simp]:
  "sw_lk (goto p c s) = sw_lk s" "sw_plk (goto p c s) = sw_plk s" "sw_st (goto p c s) = sw_st s"
  "sw_ch (goto p c s) = sw_ch s" "sw_cond (goto p c s) = sw_cond s" "sw_pc (goto p c s) = (sw_pc s)(p := c)"
  "sw_lk (set_plk i x s) = sw_lk s" "sw_plk (set_plk i x s) = (sw_plk s)(i := x)" "sw_st (set_plk i x s) = sw_st s"
  "sw_ch (set_plk i x s) = sw_ch s" "sw_cond (set_plk i x s) = sw_cond s" "sw_pc (set_plk i x s) = sw_pc s"
  by (simp_all add: goto_def set_plk_def)

lemma lk_unique: "lock_inv s \<Longrightarrow> holds_lk (sw_pc s p) \<Longrightarrow> holds_lk (sw_pc s q) \<Longrightarrow> p = q"
  by (metis lock_inv_def option.inject)

lemma own_plk: "lock_inv s \<Longrightarrow> holds_own (sw_pc s i) \<Longrightarrow> sw_plk s i = Some i"
proof -
  assume "lock_inv s" "holds_own (sw_pc s i)"
  then have "has_plk (sw_pc s i) i i"
    by (cases "sw_pc s i") auto
  then show ?thesis
    using \<open>lock_inv s\<close> unfolding lock_inv_def by blast
qed

text \<open>A step keeps the locks of a process, takes one that is free, or gives one up.\<close>

lemma lk_keep:
  "\<forall>p. holds_lk (pc p) = (lk = Some p) \<Longrightarrow> holds_lk c = holds_lk (pc q) \<Longrightarrow>
   \<forall>p. holds_lk ((pc(q := c)) p) = (lk = Some p)"
  by (simp add: fun_upd_apply)

lemma lk_take:
  "\<forall>p. holds_lk (pc p) = (lk = Some p) \<Longrightarrow> lk = None \<Longrightarrow> holds_lk c \<Longrightarrow>
   \<forall>p. holds_lk ((pc(q := c)) p) = (Some q = Some p)"
  by (simp add: fun_upd_apply)

lemma lk_drop:
  "\<forall>p. holds_lk (pc p) = (lk = Some p) \<Longrightarrow> holds_lk (pc q) \<Longrightarrow> \<not> holds_lk c \<Longrightarrow>
   \<forall>p. holds_lk ((pc(q := c)) p) = (None = Some p)"
  by (simp add: fun_upd_apply)

lemma plk_keep:
  "\<forall>w i. has_plk (pc w) w i \<longrightarrow> plk i = Some w \<Longrightarrow> \<forall>i. has_plk c q i \<longrightarrow> has_plk (pc q) q i \<Longrightarrow>
   \<forall>w i. has_plk ((pc(q := c)) w) w i \<longrightarrow> plk i = Some w"
  by (simp add: fun_upd_apply)

lemma plk_take:
  "\<forall>w i. has_plk (pc w) w i \<longrightarrow> plk i = Some w \<Longrightarrow> plk j = None \<Longrightarrow> \<forall>i. has_plk c q i \<longrightarrow> i = j \<Longrightarrow>
   \<forall>w i. has_plk ((pc(q := c)) w) w i \<longrightarrow> (plk(j := Some q)) i = Some w"
  by (auto simp: fun_upd_apply)

lemma plk_drop:
  "\<forall>w i. has_plk (pc w) w i \<longrightarrow> plk i = Some w \<Longrightarrow> has_plk (pc q) q j \<Longrightarrow> \<forall>i. \<not> has_plk c q i \<Longrightarrow>
   \<forall>w i. has_plk ((pc(q := c)) w) w i \<longrightarrow> (plk(j := None)) i = Some w"
  by (auto simp: fun_upd_apply) (metis option.inject)

lemma lock_step:
  assumes "sw_step s t" "lock_inv s"
  shows "lock_inv t"
proof -
  have l: "\<forall>p. holds_lk (sw_pc s p) = (sw_lk s = Some p)" and w: "\<forall>w i. has_plk (sw_pc s w) w i \<longrightarrow> sw_plk s i = Some w"
    using assms(2) by (auto simp: lock_inv_def)
  from assms(1) show ?thesis
    by cases (simp_all add: lock_inv_def l w lk_keep [OF l] lk_take [OF l] lk_drop [OF l] del: fun_upd_apply,
      (rule plk_keep [OF w] plk_take [OF w] plk_drop [OF w]; simp)+)
qed

lemma state_step:
  assumes "sw_step s t" "lock_inv s" "state_inv s"
  shows "state_inv t"
  using assms(1)
proof cases
  case (w_set p)
  then have "\<not> (sw_pc s q = S2 \<or> sw_pc s q = S3)" for q
    using lk_unique [OF assms(2), of p q] by auto
  then show ?thesis
    using w_set assms(3) by (auto simp: state_inv_def fun_upd_apply)
next
  case (s_go p c)
  then have "\<not> (sw_pc s q = S2 \<or> sw_pc s q = S3)" for q
    using lk_unique [OF assms(2), of p q] by auto
  then show ?thesis
    using s_go assms(3) by (auto simp: state_inv_def fun_upd_apply)
qed (use assms(3) in \<open>auto simp: state_inv_def fun_upd_apply\<close>)

text \<open>A step of a process that is not in \<^verbatim>\<open>wakeup\<close>.\<close>

lemma wake_keep:
  assumes "wake_inv s" "\<forall>q. q \<noteq> p \<longrightarrow> sw_pc t q = sw_pc s q" "\<forall>i. sw_pc s p \<noteq> W2 i \<and> sw_pc s p \<noteq> W3 i"
    "sw_cond t \<longrightarrow> sw_cond s" "dozing t p \<longrightarrow> dozing s p" "\<forall>q. q \<noteq> p \<longrightarrow> sw_st t q = sw_st s q"
  shows "wake_inv t"
  unfolding wake_inv_def
proof (intro impI allI)
  fix q assume c: "sw_cond t" and d: "dozing t q"
  have "dozing s q"
    using d assms(2,5,6) by (cases "q = p") (auto simp: dozing_def)
  then have "coming s q"
    using c assms(1,4) by (simp add: wake_inv_def)
  then obtain w i where w: "sw_pc s w = W2 i \<or> sw_pc s w = W3 i" "i \<le> q"
    unfolding coming_def by blast
  then have "w \<noteq> p"
    using assms(3) by blast
  then show "coming t q"
    using w assms(2) unfolding coming_def by (intro exI [of _ w] exI [of _ i]) simp
qed

lemma wake_step:
  assumes "sw_step s t" "lock_inv s" "state_inv s" "wake_inv s"
  shows "wake_inv t"
  using assms(1)
proof cases
  case (s_release p)
  then have "\<not> sw_cond s"
    using assms(3) by (auto simp: state_inv_def)
  then show ?thesis
    using s_release by (simp add: wake_inv_def)
next
  case (w_set p)
  then have "coming t q" for q
    unfolding coming_def by (intro exI [of _ p] exI [of _ 0]) simp
  then show ?thesis
    by (simp add: wake_inv_def)
next
  case (w_plock p i)
  have "coming t q" if c: "coming s q" for q
  proof -
    obtain w j where w: "sw_pc s w = W2 j \<or> sw_pc s w = W3 j" "j \<le> q"
      using c unfolding coming_def by blast
    then have "w = p"
      using lk_unique [OF assms(2), of w p] w_plock by auto
    then show ?thesis
      using w w_plock unfolding coming_def by (intro exI [of _ p] exI [of _ i]) auto
  qed
  moreover have "dozing s q" if "dozing t q" for q
    using that w_plock by (auto simp: dozing_def fun_upd_apply split: if_splits)
  ultimately show ?thesis
    using assms(4) w_plock by (simp add: wake_inv_def)
next
  case (w_wake p i)
  have pi: "sw_plk s i = Some p"
    using assms(2) w_wake by (auto simp: lock_inv_def)
  have d: "dozing s q \<and> q \<noteq> i" if "dozing t q" for q
  proof -
    have q: "dozing s q"
      using that w_wake by (auto simp: dozing_def fun_upd_apply split: if_splits)
    have "q \<noteq> i"
    proof
      assume "q = i"
      have "\<not> holds_own (sw_pc s i)"
        using own_plk [OF assms(2), of i] pi w_wake by auto
      then have "sw_pc s i = S6" "sw_st s i = SLEEPING" "sw_ch s i"
        using q \<open>q = i\<close> assms(3) unfolding dozing_def state_inv_def by auto
      then show False
        using that \<open>q = i\<close> w_wake by (auto simp: dozing_def fun_upd_apply split: if_splits)
    qed
    then show ?thesis
      using q by simp
  qed
  have "coming t q" if c: "coming s q" and ne: "q \<noteq> i" for q
  proof -
    obtain w j where w: "sw_pc s w = W2 j \<or> sw_pc s w = W3 j" "j \<le> q"
      using c unfolding coming_def by blast
    then have "w = p"
      using lk_unique [OF assms(2), of w p] w_wake by auto
    then have "Suc i \<le> q"
      using w w_wake ne by auto
    then show ?thesis
      using w_wake unfolding coming_def by (intro exI [of _ p] exI [of _ "Suc i"]) auto
  qed
  then show ?thesis
    using d assms(4) w_wake by (simp add: wake_inv_def)
next
  case (w_done p)
  have "\<not> coming s q" if "q < NPROC" for q
  proof
    assume "coming s q"
    then obtain w j where w: "sw_pc s w = W2 j \<or> sw_pc s w = W3 j" "j \<le> q"
      unfolding coming_def by blast
    then have "w = p"
      using lk_unique [OF assms(2), of w p] w_done by auto
    then show False
      using w w_done that by auto
  qed
  moreover have "q < NPROC" if "dozing t q" for q
    using that assms(3) w_done by (auto simp: dozing_def state_inv_def fun_upd_apply split: if_splits)
  moreover have "dozing s q" if "dozing t q" for q
    using that w_done by (auto simp: dozing_def fun_upd_apply split: if_splits)
  moreover have "sw_cond t = sw_cond s"
    using w_done by simp
  ultimately show ?thesis
    using assms(4) unfolding wake_inv_def by blast
next
  case (killed p)
  have "dozing s q" if "dozing t q" for q
    using that killed by (auto simp: dozing_def split: if_splits)
  then show ?thesis
    using assms(4) killed by (auto simp: wake_inv_def coming_def)
next
  case (want_sleep p)
  then show ?thesis
    by (intro wake_keep [OF assms(4), where p = p]) (simp_all add: dozing_def)
next
  case (s_lock p)
  then show ?thesis
    by (intro wake_keep [OF assms(4), where p = p]) (simp_all add: dozing_def)
next
  case (s_go p c)
  then show ?thesis
    by (intro wake_keep [OF assms(4), where p = p]) (simp_all add: dozing_def)
next
  case (s_wait p)
  then show ?thesis
    by (intro wake_keep [OF assms(4), where p = p]) (simp_all add: dozing_def)
next
  case (s_plock p)
  then show ?thesis
    by (intro wake_keep [OF assms(4), where p = p]) (simp_all add: dozing_def)
next
  case (s_mark p)
  then show ?thesis
    by (intro wake_keep [OF assms(4), where p = p]) (simp_all add: dozing_def)
next
  case (s_switch p)
  then show ?thesis
    by (intro wake_keep [OF assms(4), where p = p]) (simp_all add: dozing_def)
next
  case (s_run p)
  then show ?thesis
    by (intro wake_keep [OF assms(4), where p = p]) (simp_all add: dozing_def)
next
  case (s_back p)
  then show ?thesis
    by (intro wake_keep [OF assms(4), where p = p]) (simp_all add: dozing_def)
next
  case (want_wake p)
  then show ?thesis
    by (intro wake_keep [OF assms(4), where p = p]) (simp_all add: dozing_def)
next
  case (w_lock p)
  then show ?thesis
    by (intro wake_keep [OF assms(4), where p = p]) (simp_all add: dozing_def)
qed

lemma sw_inv_reachable:
  assumes "sw_step\<^sup>*\<^sup>* s t" "sw_init s"
  shows "sw_inv t"
  using assms
proof (induction rule: rtranclp_induct)
  case base
  then show ?case
    by (simp add: sw_inv_def sw_init_def lock_inv_def state_inv_def wake_inv_def)
next
  case (step t u)
  then show ?case
    using lock_step [OF step.hyps(2)] state_step [OF step.hyps(2)] wake_step [OF step.hyps(2)]
    unfolding sw_inv_def by blast
qed

section \<open>Properties\<close>

text \<open>C3: No wakeup is lost. In every state that any number of processes sleeping and waking can reach,
  if the condition holds and some process is asleep waiting for it, then a process is in the middle
  of \<^verbatim>\<open>wakeup\<close>, holds the condition's lock, and has not passed the sleeper's entry of the process table
  yet; so when no \<^verbatim>\<open>wakeup\<close> is under way nobody sleeps while the condition holds.\<close>

theorem no_lost_wakeup:
  assumes "sw_init s" "sw_step\<^sup>*\<^sup>* s t" "sw_cond t" "sw_st t p = SLEEPING"
  shows "\<exists>w i. sw_lk t = Some w \<and> (sw_pc t w = W2 i \<or> sw_pc t w = W3 i) \<and> i \<le> p"
proof -
  have inv: "sw_inv t"
    using sw_inv_reachable assms(1,2) by blast
  then have "dozing t p"
    using assms(4) by (auto simp: dozing_def sw_inv_def state_inv_def)
  then have "coming t p"
    using inv assms(3) by (simp add: sw_inv_def wake_inv_def)
  then obtain w i where w: "sw_pc t w = W2 i \<or> sw_pc t w = W3 i" "i \<le> p"
    unfolding coming_def by blast
  then have "holds_lk (sw_pc t w)"
    by auto
  then have "sw_lk t = Some w"
    using inv unfolding sw_inv_def lock_inv_def by blast
  then show ?thesis
    using w by blast
qed

text \<open>Process 0 has gone to sleep and process 1 has just made the condition true.\<close>

definition sw0 :: sw where
  "sw0 = \<lparr>sw_lk = None, sw_plk = (\<lambda>_. None), sw_st = (\<lambda>_. RUNNING), sw_ch = (\<lambda>_. False), sw_cond = False,
     sw_pc = (\<lambda>_. Idle)\<rparr>"

lemma sw_run:
  "\<exists>t. sw_step\<^sup>*\<^sup>* sw0 t \<and> sw_cond t \<and> sw_st t 0 = SLEEPING \<and> sw_pc t 1 = W2 0"
proof -
  let ?s1 = "goto 0 S0 sw0"
  let ?s2 = "goto 0 S1 (?s1\<lparr>sw_lk := Some 0\<rparr>)"
  let ?s3 = "goto 0 S2 ?s2"
  let ?s4 = "goto 0 S3 (set_plk 0 (Some 0) ?s3)"
  let ?s5 = "goto 0 S4 (?s4\<lparr>sw_lk := None\<rparr>)"
  let ?s6 = "goto 0 S5 (?s5\<lparr>sw_ch := (sw_ch ?s5)(0 := True), sw_st := (sw_st ?s5)(0 := SLEEPING)\<rparr>)"
  let ?s7 = "goto 0 S6 (set_plk 0 None ?s6)"
  let ?s8 = "goto 1 W0 ?s7"
  let ?s9 = "goto 1 W1 (?s8\<lparr>sw_lk := Some 1\<rparr>)"
  let ?t = "goto 1 (W2 0) (?s9\<lparr>sw_cond := True\<rparr>)"
  have sl: "sw_step sw0 ?s1" "sw_step ?s1 ?s2" "sw_step ?s2 ?s3" "sw_step ?s3 ?s4" "sw_step ?s4 ?s5" "sw_step ?s5 ?s6" "sw_step ?s6 ?s7"
    by (rule want_sleep s_lock s_wait s_plock s_release s_mark s_switch; simp add: sw0_def NPROC_def)+
  have wk: "sw_step ?s7 ?s8" "sw_step ?s8 ?s9" "sw_step ?s9 ?t"
    by (rule want_wake w_lock w_set; simp add: sw0_def NPROC_def)+
  have "sw_step\<^sup>*\<^sup>* sw0 ?s7"
    using sl by (meson converse_rtranclp_into_rtranclp rtranclp.rtrancl_refl)
  then have "sw_step\<^sup>*\<^sup>* sw0 ?t"
    using wk by (meson rtranclp.rtrancl_into_rtrancl)
  then show ?thesis
    by (intro exI [of _ ?t] conjI) simp_all
qed

theorem no_lost_wakeup_witness:
  "\<exists>t. sw_step\<^sup>*\<^sup>* sw0 t \<and> sw_cond t \<and> sw_st t 0 = SLEEPING \<and>
    (\<exists>w i. sw_lk t = Some w \<and> (sw_pc t w = W2 i \<or> sw_pc t w = W3 i) \<and> i \<le> 0)"
proof -
  obtain t where t: "sw_step\<^sup>*\<^sup>* sw0 t" "sw_cond t" "sw_st t 0 = SLEEPING"
    using sw_run by blast
  have "sw_init sw0"
    by (simp add: sw_init_def sw0_def)
  from no_lost_wakeup [OF this t] show ?thesis
    using t by blast
qed

end
