(* ===== verification/Kernel_Image.thy ===== *)
theory Kernel_Image
  imports Kstate Vm_Copy
begin

text \<open>
  The kernel's variables as they stand when it is loaded, before \<^verbatim>\<open>main\<close> runs: zero, apart from
  \<^verbatim>\<open>nextpid\<close> and the \<^verbatim>\<open>first\<close> of \<^verbatim>\<open>forkret\<close>. The concrete instances of the development are built from it.
\<close>

definition zero_inode :: inode where
  "zero_inode = \<lparr>i_dev = 0, i_inum = 0, i_ref = 0, i_lock = \<lparr>sl_locked = False, sl_pid = 0\<rparr>, i_valid = False,
     i_d = \<lparr>d_type = 0, d_major = 0, d_minor = 0, d_nlink = 0, d_size = 0, d_addrs = replicate 13 0\<rparr>\<rparr>"

definition zero_file :: kfile where
  "zero_file = \<lparr>f_type = FD_NONE, f_ref = 0, f_readable = False, f_writable = False, f_pipe = 0, f_ip = 0,
     f_off = 0, f_major = 0\<rparr>"

definition zero_pipe :: pipe where
  "zero_pipe = \<lparr>pi_data = replicate PIPESIZE 0, pi_nread = 0, pi_nwrite = 0, pi_readopen = False, pi_writeopen = False\<rparr>"

definition zero_disk :: disk where
  "zero_disk = \<lparr>dk_desc = replicate NUM zero_desc, dk_avail_idx = 0, dk_avail = replicate NUM 0, dk_used_id = 0,
     dk_used = replicate NUM 0, dk_free = replicate NUM False, dk_used_idx = 0, dk_b = replicate NUM None,
     dk_status = replicate NUM 0, dk_busy = (\<lambda>_. False), dk_hdr = (\<lambda>_. \<lparr>h_type = 0, h_reserved = 0, h_sector = 0\<rparr>)\<rparr>"

definition kernel_bss :: kstate where
  "kernel_bss =
     \<lparr>kc = kex,
      ksym = \<lparr>sym_forkret = 0x80001a00, sym_kernelvec = 0x80005b00, sym_usertrap = 0x80002700,
        sym_uservec = 0x80007000, sym_userret = 0x80007090\<rparr>,
      km = \<lparr>pmem = (\<lambda>_. 0), freelist = 0\<rparr>, kpgtbl = 0,
      ls = \<lparr>lbs = \<lparr>bufs = bcache_bss, medium = blank, wtrace = [], curpid = 0\<rparr>, lg = log_bss\<rparr>,
      sb = \<lparr>sb_magic = 0, sb_size = 0, sb_nblocks = 0, sb_ninodes = 0, sb_nlog = 0, sb_logstart = 0,
        sb_inodestart = 0, sb_bmapstart = 0\<rparr>,
      icache = replicate NINODE zero_inode, ftable = replicate NFILE zero_file, pipes = (\<lambda>_. zero_pipe),
      cons = console_reset [], ptable = replicate NPROC zero_proc, initproc = None, nextpid = 1, cur = None,
      held = {}, ticks = 0,
      csr = \<lparr>sstatus = 0, sepc = 0, scause = 0, stval = 0, stvec = 0, satp = 0, sip = 0, tp = 0\<rparr>,
      plic = \<lparr>pl_claim = 0, pl_writes = []\<rparr>, vdisk = zero_disk, kpad = replicate 4 0, forkret_first = True\<rparr>"

lemma kernel_bss_sel [simp]:
  "kc kernel_bss = kex" "cur kernel_bss = None" "held kernel_bss = {}" "initproc kernel_bss = None"
  "ptable kernel_bss = replicate NPROC zero_proc" "ftable kernel_bss = replicate NFILE zero_file"
  "icache kernel_bss = replicate NINODE zero_inode"
  by (simp_all add: kernel_bss_def)

text \<open>A small system: \<^verbatim>\<open>init\<close> asleep in \<^verbatim>\<open>wait\<close>, its child 1 on the CPU, and a grandchild 2 that is ready.\<close>

definition three_procs :: "proc list" where
  "three_procs = (replicate NPROC zero_proc)
     [0 := zero_proc\<lparr>p_state := SLEEPING, p_chan := Some (Cproc 0), p_pid := 1\<rparr>,
      1 := zero_proc\<lparr>p_state := RUNNING, p_parent := Some 0, p_pid := 2\<rparr>,
      2 := zero_proc\<lparr>p_state := RUNNABLE, p_parent := Some 1, p_pid := 3\<rparr>]"

definition kernel_three :: kstate where
  "kernel_three = kernel_bss\<lparr>ptable := three_procs, initproc := Some 0, cur := Some 1, nextpid := 4\<rparr>"

lemma kernel_three_sel [simp]:
  "length (ptable kernel_three) = NPROC" "initproc kernel_three = Some 0" "cur kernel_three = Some 1" "held kernel_three = {}"
  by (simp_all add: kernel_three_def three_procs_def)

lemma kernel_three_procs:
  "proc_at kernel_three 0 = zero_proc\<lparr>p_state := SLEEPING, p_chan := Some (Cproc 0), p_pid := 1\<rparr>"
  "proc_at kernel_three (Suc 0) = zero_proc\<lparr>p_state := RUNNING, p_parent := Some 0, p_pid := 2\<rparr>"
  "proc_at kernel_three 2 = zero_proc\<lparr>p_state := RUNNABLE, p_parent := Some 1, p_pid := 3\<rparr>"
  "3 \<le> i \<Longrightarrow> i < NPROC \<Longrightarrow> proc_at kernel_three i = zero_proc"
  by (simp_all add: kernel_three_def three_procs_def NPROC_def nth_list_update)

end
