(* ===== verification/Proc_Table.thy ===== *)
theory Proc_Table
  imports Proc Kernel_Image
begin

text \<open>
  What the loops of \<^verbatim>\<open>kernel/proc.c\<close> over the process table do, and what follows for waking, killing,
  exiting and scheduling.
\<close>

section \<open>Locks and updates of one entry\<close>

lemma upd_proc_sel [simp]:
  "length (ptable (upd_proc i f s)) = length (ptable s)" "held (upd_proc i f s) = held s"
  "cur (upd_proc i f s) = cur s" "initproc (upd_proc i f s) = initproc s" "km (upd_proc i f s) = km s"
  "nextpid (upd_proc i f s) = nextpid s" "kc (upd_proc i f s) = kc s" "myproc (upd_proc i f s) = myproc s"
  "ls (upd_proc i f s) = ls s"
  by (simp_all add: upd_proc_def myproc_def)

lemma proc_at_upd: "i < length (ptable s) \<Longrightarrow> proc_at (upd_proc i f s) j = (if j = i then f (proc_at s i) else proc_at s j)"
  by (simp add: upd_proc_def nth_list_update)

lemma acquire_k_eq: "l \<notin> held s \<Longrightarrow> acquire_k l s = Ok (s\<lparr>held := insert l (held s)\<rparr>)"
  by (simp add: acquire_k_def)

lemma release_k_eq: "l \<in> held s \<Longrightarrow> release_k l s = Ok (s\<lparr>held := held s - {l}\<rparr>)"
  by (simp add: release_k_def)

text \<open>A critical section on one entry: take its lock, change it, release the lock.\<close>

lemma locked_update:
  assumes "Lproc i \<notin> held s"
  shows "rbind (acquire_k (Lproc i) s) (\<lambda>s. rbind (release_k (Lproc i) (upd_proc i (f s) s)) g) =
    g (upd_proc i (f (s\<lparr>held := insert (Lproc i) (held s)\<rparr>)) s)"
  using assms by (simp add: acquire_k_def release_k_def upd_proc_def)

text \<open>The whole table changed by a function of the index and the entry.\<close>

definition map_procs :: "nat \<Rightarrow> nat \<Rightarrow> (nat \<Rightarrow> proc \<Rightarrow> proc) \<Rightarrow> kstate \<Rightarrow> kstate" where
  "map_procs i k f s = s\<lparr>ptable := map (\<lambda>j. if i \<le> j \<and> j < i + k then f j (proc_at s j) else proc_at s j) [0..<length (ptable s)]\<rparr>"

lemma map_procs_0 [simp]: "map_procs i 0 f s = s"
proof -
  have "map_procs i 0 f s = s\<lparr>ptable := map ((!) (ptable s)) [0..<length (ptable s)]\<rparr>"
    unfolding map_procs_def by (intro arg_cong [where f = "\<lambda>t. s\<lparr>ptable := t\<rparr>"] map_cong refl) auto
  then show ?thesis
    by (simp add: map_nth)
qed

lemma map_procs_Suc:
  assumes "i < length (ptable s)"
  shows "map_procs (Suc i) k f (upd_proc i (f i) s) = map_procs i (Suc k) f s"
proof -
  have "map (\<lambda>j. if Suc i \<le> j \<and> j < Suc i + k then f j (proc_at (upd_proc i (f i) s) j) else proc_at (upd_proc i (f i) s) j)
      [0..<length (ptable s)] =
    map (\<lambda>j. if i \<le> j \<and> j < i + Suc k then f j (proc_at s j) else proc_at s j) [0..<length (ptable s)]"
    using assms by (intro map_cong refl) (auto simp: proc_at_upd)
  then show ?thesis
    by (simp add: map_procs_def) (simp add: upd_proc_def)
qed

lemma map_procs_sel [simp]:
  "length (ptable (map_procs i k f s)) = length (ptable s)" "held (map_procs i k f s) = held s"
  "cur (map_procs i k f s) = cur s" "initproc (map_procs i k f s) = initproc s" "myproc (map_procs i k f s) = myproc s"
  "km (map_procs i k f s) = km s" "kc (map_procs i k f s) = kc s"
  by (simp_all add: map_procs_def myproc_def)

lemma proc_at_map_procs:
  "j < length (ptable s) \<Longrightarrow> proc_at (map_procs i k f s) j = (if i \<le> j \<and> j < i + k then f j (proc_at s j) else proc_at s j)"
  by (simp add: map_procs_def)

section \<open>Waking and killing\<close>

definition wake :: "chan \<Rightarrow> proc \<Rightarrow> proc" where
  "wake ch p = (if p_state p = SLEEPING \<and> p_chan p = Some ch then p\<lparr>p_state := RUNNABLE\<rparr> else p)"

lemma wakeup_loop_eq:
  "i + k \<le> length (ptable s) \<Longrightarrow> \<forall>j. i \<le> j \<and> j < i + k \<longrightarrow> Lproc j \<notin> held s \<Longrightarrow>
   wakeup_loop k i ch s = Ok (map_procs i k (\<lambda>_. wake ch) s)"
proof (induction k arbitrary: i s)
  case (Suc k)
  have l: "Lproc i \<notin> held s" and i: "i < length (ptable s)"
    using Suc.prems by auto
  have e: "(if p_state (proc_at t i) = SLEEPING \<and> p_chan (proc_at t i) = Some ch
      then upd_proc i (\<lambda>p. p\<lparr>p_state := RUNNABLE\<rparr>) t else t) = upd_proc i (wake ch) t" for t
    by (simp add: upd_proc_def wake_def)
  have "wakeup_loop (Suc k) i ch s = wakeup_loop k (Suc i) ch (upd_proc i (wake ch) s)"
    using locked_update [OF l, of "\<lambda>_. wake ch" "wakeup_loop k (Suc i) ch"] by (simp add: e)
  also have "\<dots> = Ok (map_procs (Suc i) k (\<lambda>_. wake ch) (upd_proc i (wake ch) s))"
    using Suc.prems by (intro Suc.IH) auto
  finally show ?case
    using map_procs_Suc [OF i, of k "\<lambda>_. wake ch"] by simp
qed simp

lemma wakeup_eq:
  assumes "length (ptable s) = NPROC" "\<forall>j < NPROC. Lproc j \<notin> held s"
  shows "wakeup ch s = Ok (map_procs 0 NPROC (\<lambda>_. wake ch) s)"
  unfolding wakeup_def using assms by (intro wakeup_loop_eq) auto

definition slay :: "proc \<Rightarrow> proc" where
  "slay p = p\<lparr>p_killed := True, p_state := (if p_state p = SLEEPING then RUNNABLE else p_state p)\<rparr>"

lemma kill_loop_eq:
  "i + k \<le> length (ptable s) \<Longrightarrow> \<forall>j. i \<le> j \<and> j < i + k \<longrightarrow> Lproc j \<notin> held s \<Longrightarrow>
   kill_loop k i pid s =
     (case find (\<lambda>j. p_pid (proc_at s j) = pid) [i..<i + k] of
        None \<Rightarrow> Ok (- 1, s)
      | Some j \<Rightarrow> Ok (0, upd_proc j slay s))"
proof (induction k arbitrary: i s)
  case (Suc k)
  have l: "Lproc i \<notin> held s" and i: "i < length (ptable s)"
    using Suc.prems by auto
  have u: "[i..<i + Suc k] = i # [Suc i..<Suc i + k]"
    by (simp add: upt_conv_Cons del: upt_Suc)
  show ?case
  proof (cases "p_pid (proc_at s i) = pid")
    case True
    have "upd_proc i (\<lambda>p. p\<lparr>p_state := RUNNABLE\<rparr>) (upd_proc i (\<lambda>p. p\<lparr>p_killed := True\<rparr>) t) = upd_proc i slay t"
      if "p_state (proc_at t i) = SLEEPING" "i < length (ptable t)" for t
      using that by (simp add: upd_proc_def slay_def)
    moreover have "upd_proc i (\<lambda>p. p\<lparr>p_killed := True\<rparr>) t = upd_proc i slay t"
      if "p_state (proc_at t i) \<noteq> SLEEPING" for t
      using that by (simp add: upd_proc_def slay_def)
    ultimately show ?thesis
      using True l i unfolding u by (simp add: acquire_k_def release_k_def proc_at_upd Let_def) (simp add: upd_proc_def)
  next
    case False
    have "kill_loop (Suc k) i pid s = kill_loop k (Suc i) pid s"
      using l False by (simp add: acquire_k_def release_k_def)
    also have "\<dots> = (case find (\<lambda>j. p_pid (proc_at s j) = pid) [Suc i..<Suc i + k] of
        None \<Rightarrow> Ok (- 1, s) | Some j \<Rightarrow> Ok (0, upd_proc j slay s))"
      using Suc.prems by (intro Suc.IH) auto
    finally show ?thesis
      using False unfolding u by simp
  qed
qed simp

lemma kill_eq:
  assumes "length (ptable s) = NPROC" "\<forall>j < NPROC. Lproc j \<notin> held s"
  shows "kill pid s = (case find (\<lambda>j. p_pid (proc_at s j) = pid) [0..<NPROC] of
     None \<Rightarrow> Ok (- 1, s) | Some j \<Rightarrow> Ok (0, upd_proc j slay s))"
  unfolding kill_def using kill_loop_eq [of 0 NPROC s pid] assms by simp

section \<open>Exit\<close>

definition adopt :: "nat option \<Rightarrow> nat \<Rightarrow> proc \<Rightarrow> proc" where
  "adopt ini p x = (if p_parent x = Some p then x\<lparr>p_parent := ini\<rparr> else x)"

lemma reparent_loop_eq:
  "i + k \<le> length (ptable s) \<Longrightarrow> \<forall>j. i \<le> j \<and> j < i + k \<and> p_parent (proc_at s j) = Some p \<longrightarrow> Lproc j \<notin> held s \<Longrightarrow>
   reparent_loop k i p s = Ok (map_procs i k (\<lambda>_. adopt (initproc s) p) s)"
proof (induction k arbitrary: i s)
  case (Suc k)
  have i: "i < length (ptable s)"
    using Suc.prems by auto
  have "reparent_loop (Suc k) i p s = reparent_loop k (Suc i) p (upd_proc i (adopt (initproc s) p) s)"
  proof (cases "p_parent (proc_at s i) = Some p")
    case True
    then have "Lproc i \<notin> held s"
      using Suc.prems(2) by simp
    then show ?thesis
      using True by (simp add: acquire_k_def release_k_def) (simp add: upd_proc_def adopt_def)
  next
    case False
    then have "upd_proc i (adopt (initproc s) p) s = s"
      by (simp add: upd_proc_def adopt_def)
    then show ?thesis
      using False by simp
  qed
  also have "\<dots> = Ok (map_procs (Suc i) k (\<lambda>_. adopt (initproc s) p) (upd_proc i (adopt (initproc s) p) s))"
    using Suc.prems Suc.IH [of "Suc i" "upd_proc i (adopt (initproc s) p) s"] i by (auto simp: proc_at_upd)
  finally show ?case
    using map_procs_Suc [OF i, of k "\<lambda>_. adopt (initproc s) p"] by simp
qed simp

lemma wakeup1_eq: "Lproc p \<in> held s \<Longrightarrow> p < length (ptable s) \<Longrightarrow> wakeup1 p s = Ok (upd_proc p (wake (Cproc p)) s)"
  by (simp add: wakeup1_def upd_proc_def wake_def)

text \<open>What \<^verbatim>\<open>exit\<close> leaves of the entry of another process \<open>q\<close>: children go to \<^verbatim>\<open>init\<close>, and parent and \<^verbatim>\<open>init\<close>
  are woken if they wait for a child.\<close>

definition after_exit :: "nat \<Rightarrow> nat \<Rightarrow> nat \<Rightarrow> nat \<Rightarrow> proc \<Rightarrow> proc" where
  "after_exit ini par p q x =
     x\<lparr>p_parent := (if p_parent x = Some p then Some ini else p_parent x),
       p_state := (if (q = par \<or> q = ini) \<and> p_state x = SLEEPING \<and> p_chan x = Some (Cproc q) then RUNNABLE else p_state x)\<rparr>"



end
