(* ===== verification/Proc_Props.thy ===== *)
theory Proc_Props
  imports Proc_Table
begin

text \<open>Allocation after \<^verbatim>\<open>kill\<close>, the fairness of the scheduler, and \<^verbatim>\<open>wait\<close>.\<close>

section \<open>Killing an unused entry\<close>

lemma on_km_sel: "on_km f s = Ok (x, s') \<Longrightarrow> \<exists>m. s' = s\<lparr>km := m\<rparr>"
  by (auto simp: on_km_def res_simps)

lemma allocproc_scan_eq:
  "i + k \<le> length (ptable s) \<Longrightarrow> \<forall>j. i \<le> j \<and> j < i + k \<longrightarrow> Lproc j \<notin> held s \<Longrightarrow>
   allocproc_scan k i s =
     (case find (\<lambda>j. p_state (proc_at s j) = UNUSED) [i..<i + k] of
        None \<Rightarrow> Ok (None, s)
      | Some j \<Rightarrow> Ok (Some j, s\<lparr>held := insert (Lproc j) (held s)\<rparr>))"
proof (induction k arbitrary: i)
  case (Suc k)
  have l: "Lproc i \<notin> held s"
    using Suc.prems by auto
  have u: "[i..<i + Suc k] = i # [Suc i..<Suc i + k]"
    by (simp add: upt_conv_Cons del: upt_Suc)
  have "allocproc_scan k (Suc i) s = (case find (\<lambda>j. p_state (proc_at s j) = UNUSED) [Suc i..<Suc i + k] of
      None \<Rightarrow> Ok (None, s) | Some j \<Rightarrow> Ok (Some j, s\<lparr>held := insert (Lproc j) (held s)\<rparr>))"
    using Suc.prems by (intro Suc.IH) auto
  then show ?case
    using l unfolding u by (simp add: acquire_k_def release_k_def)
qed simp

lemma allocproc_found_killed:
  assumes "allocproc_found i s = Ok (Some j, s')" "i < length (ptable s)"
  shows "j = i \<and> p_killed (proc_at s' i) = p_killed (proc_at s i)"
proof -
  obtain pid s1 where a: "allocpid s = (pid, s1)" "ptable s1 = ptable s"
    by (simp add: allocpid_def)
  define s2 where "s2 = upd_proc i (\<lambda>p. p\<lparr>p_pid := pid\<rparr>) s1"
  obtain tf s3 where k: "kalloc_k s2 = (tf, s3)" "ptable s3 = ptable s2"
    by (simp add: kalloc_k_def split_def Let_def)
  define s4 where "s4 = upd_proc i (\<lambda>p. p\<lparr>p_trapframe := tf\<rparr>) s3"
  have tf: "tf \<noteq> 0" and m: "rbind (on_km (proc_pagetable (kc s4) tf) s4) (\<lambda>(pt, s).
      let s = upd_proc i (\<lambda>p. p\<lparr>p_pagetable := pt\<rparr>) s in
      if pt = 0 then rbind (freeproc i s) (\<lambda>s. rmap (Pair None) (release_k (Lproc i) s))
      else Ok (Some i, upd_proc i (\<lambda>p. p\<lparr>p_context := \<lparr>ctx_ra = sym_forkret (ksym s),
             ctx_sp = p_kstack p + PGSIZE, ctx_s = replicate 12 0\<rparr>\<rparr>) s)) = Ok (Some j, s')"
    using assms(1) by (auto simp: allocproc_found_def a k Let_def s4_def res_simps simp flip: s2_def split: if_splits)
  then obtain pt s5 where p: "on_km (proc_pagetable (kc s4) tf) s4 = Ok (pt, s5)" "pt \<noteq> 0"
    "Ok (Some i, upd_proc i (\<lambda>p. p\<lparr>p_context := \<lparr>ctx_ra = sym_forkret (ksym (upd_proc i (\<lambda>p. p\<lparr>p_pagetable := pt\<rparr>) s5)),
       ctx_sp = p_kstack p + PGSIZE, ctx_s = replicate 12 0\<rparr>\<rparr>) (upd_proc i (\<lambda>p. p\<lparr>p_pagetable := pt\<rparr>) s5)) = Ok (Some j, s')"
    by (auto simp: res_simps Let_def split: if_splits)
  obtain m where "s5 = s4\<lparr>km := m\<rparr>"
    using on_km_sel [OF p(1)] by blast
  then have "ptable s5 = ptable s4"
    by simp
  then show ?thesis
    using p(3) assms(2) a(2) k(2) by (auto simp: s4_def s2_def upd_proc_def)
qed

text \<open>C38: \<^verbatim>\<open>kill(0)\<close> succeeds although no process has the number 0: it marks the first unused entry of the
  table, and the next process that is created in this entry starts out killed.\<close>

theorem kill_unused:
  assumes "length (ptable s) = NPROC" "held s = {}" "j < NPROC" "p_state (proc_at s j) = UNUSED" "p_pid (proc_at s j) = 0"
    "\<forall>i < j. p_state (proc_at s i) \<noteq> UNUSED \<and> p_pid (proc_at s i) \<noteq> 0"
  shows "\<exists>s'. kill 0 s = Ok (0, s') \<and> allocproc s' = allocproc_found j (s'\<lparr>held := {Lproc j}\<rparr>) \<and>
    (\<forall>i s''. allocproc s' = Ok (Some i, s'') \<longrightarrow> i = j \<and> p_killed (proc_at s'' j))"
proof -
  have f: "find P [0..<NPROC] = Some j" if "P j" "\<forall>i < j. \<not> P i" for P
    using that assms(3) by (auto simp: find_Some_iff intro!: exI [of _ j])
  let ?s = "upd_proc j slay s"
  have k: "kill 0 s = Ok (0, ?s)"
    using kill_eq [of s 0] f [of "\<lambda>j. p_pid (proc_at s j) = 0"] assms by simp
  have st: "p_state (proc_at ?s i) = p_state (proc_at s i)" for i
    using assms(1,3,4) by (simp add: proc_at_upd slay_def)
  have "find (\<lambda>j. p_state (proc_at ?s j) = UNUSED) [0..<NPROC] = Some j"
    using assms(4,6) by (intro f) (auto simp: st)
  then have a: "allocproc ?s = allocproc_found j (?s\<lparr>held := {Lproc j}\<rparr>)"
    using allocproc_scan_eq [of 0 NPROC ?s] assms(1,2) by (simp add: allocproc_def)
  have "i = j \<and> p_killed (proc_at s'' j)" if r: "allocproc ?s = Ok (Some i, s'')" for i s''
    using allocproc_found_killed [OF r [unfolded a]] assms(1,3) by (simp add: proc_at_upd slay_def)
  then show ?thesis
    using k a by blast
qed

theorem kill_unused_witness:
  "\<exists>s'. kill 0 kernel_three = Ok (0, s') \<and> allocproc s' = allocproc_found 3 (s'\<lparr>held := {Lproc 3}\<rparr>)"
proof -
  have "\<forall>i < 3. p_state (proc_at kernel_three i) \<noteq> UNUSED \<and> p_pid (proc_at kernel_three i) \<noteq> 0"
    by (auto simp: less_Suc_eq numeral_3_eq_3 kernel_three_procs kernel_three_procs(3) [simplified numeral_2_eq_2])
  then show ?thesis
    using kill_unused [of kernel_three 3] by (auto simp: kernel_three_procs NPROC_def zero_proc_def)
qed

section \<open>The scheduler\<close>

text \<open>What a process does with its time slice is not for the scheduler to say; it must give the CPU
  back through \<^verbatim>\<open>sched\<close>, that is with only its own lock held, and it cannot take another process off
  the queue of the ready ones.\<close>

definition slice_ok :: "(nat \<Rightarrow> kstate \<Rightarrow> kstate res) \<Rightarrow> bool" where
  "slice_ok run \<longleftrightarrow> (\<forall>j s. j < NPROC \<and> length (ptable s) = NPROC \<and> held s = {Lproc j} \<and> cur s = Some j \<and>
     p_state (proc_at s j) = RUNNING \<longrightarrow>
     (\<exists>s'. run j s = Ok s' \<and> held s' = {Lproc j} \<and> length (ptable s') = NPROC \<and>
        (\<forall>q < NPROC. q \<noteq> j \<and> p_state (proc_at s q) = RUNNABLE \<longrightarrow> p_state (proc_at s' q) = RUNNABLE)))"

lemma run_pid_sel [simp]: "ptable (run_pid n s) = ptable s" "held (run_pid n s) = held s" "cur (run_pid n s) = cur s"
  by (simp_all add: run_pid_def)

lemma scheduler_pass_from:
  "slice_ok run \<Longrightarrow> i + k = NPROC \<Longrightarrow> length (ptable s) = NPROC \<Longrightarrow> held s = {} \<Longrightarrow>
   \<exists>js s'. scheduler_pass run k i s = Ok (js, s') \<and> held s' = {} \<and> length (ptable s') = NPROC \<and>
     sorted_wrt (<) js \<and> set js \<subseteq> {i..<NPROC} \<and>
     (\<forall>q. i \<le> q \<and> q < NPROC \<and> p_state (proc_at s q) = RUNNABLE \<longrightarrow> q \<in> set js)"
proof (induction k arbitrary: i s)
  case (Suc k)
  have i: "i < NPROC" "Suc i + k = NPROC"
    using Suc.prems(2) by auto
  show ?case
  proof (cases "p_state (proc_at s i) = RUNNABLE")
    case False
    then have "scheduler_pass run (Suc k) i s = scheduler_pass run k (Suc i) s"
      using Suc.prems(4) by (simp add: acquire_k_def release_k_def) (simp flip: Suc.prems(4))
    moreover obtain js s' where js: "scheduler_pass run k (Suc i) s = Ok (js, s')" "held s' = {}" "length (ptable s') = NPROC"
      "sorted_wrt (<) js" "set js \<subseteq> {Suc i..<NPROC}" "\<forall>q. Suc i \<le> q \<and> q < NPROC \<and> p_state (proc_at s q) = RUNNABLE \<longrightarrow> q \<in> set js"
      using Suc.IH [OF Suc.prems(1) i(2) Suc.prems(3,4)] by blast
    moreover have "q \<in> set js" if "i \<le> q" "q < NPROC" "p_state (proc_at s q) = RUNNABLE" for q
      using js(6) that False by (metis le_neq_implies_less Suc_leI)
    moreover have "set js \<subseteq> {i..<NPROC}"
      using js(5) by (auto dest: Suc_leD)
    ultimately show ?thesis
      using js by simp
  next
    case True
    define s1 where "s1 = run_pid (unat (p_pid (proc_at s i)))
        ((upd_proc i (\<lambda>p. p\<lparr>p_state := RUNNING\<rparr>) (s\<lparr>held := {Lproc i}\<rparr>))\<lparr>cur := Some i\<rparr>)"
    have f: "scheduler_from 1 i s = Ok (Some i, s1)"
      using True Suc.prems(4) by (simp add: acquire_k_def s1_def)
    have s1: "length (ptable s1) = NPROC" "held s1 = {Lproc i}" "cur s1 = Some i" "p_state (proc_at s1 i) = RUNNING"
      using Suc.prems i by (simp_all add: s1_def upd_proc_def)
    have other: "p_state (proc_at s1 q) = p_state (proc_at s q)" if "q \<noteq> i" for q
      using that by (simp add: s1_def upd_proc_def)
    have "j < NPROC \<Longrightarrow> length (ptable s) = NPROC \<Longrightarrow> held s = {Lproc j} \<Longrightarrow> cur s = Some j \<Longrightarrow>
       p_state (proc_at s j) = RUNNING \<Longrightarrow>
       \<exists>s'. run j s = Ok s' \<and> held s' = {Lproc j} \<and> length (ptable s') = NPROC \<and>
         (\<forall>q < NPROC. q \<noteq> j \<and> p_state (proc_at s q) = RUNNABLE \<longrightarrow> p_state (proc_at s' q) = RUNNABLE)" for j s
      using Suc.prems(1) unfolding slice_ok_def by blast
    from this [OF i(1) s1(1,2,3,4)]
    obtain s2 where s2: "run i s1 = Ok s2" "held s2 = {Lproc i}" "length (ptable s2) = NPROC"
      "\<forall>q < NPROC. q \<noteq> i \<and> p_state (proc_at s1 q) = RUNNABLE \<longrightarrow> p_state (proc_at s2 q) = RUNNABLE"
      by blast
    define s3 where "s3 = s2\<lparr>cur := None, held := {}\<rparr>"
    have b: "scheduler_back i s2 = Ok s3"
      using s2(2) by (simp add: scheduler_back_def release_k_def s3_def)
    obtain js s' where js: "scheduler_pass run k (Suc i) s3 = Ok (js, s')" "held s' = {}" "length (ptable s') = NPROC"
      "sorted_wrt (<) js" "set js \<subseteq> {Suc i..<NPROC}" "\<forall>q. Suc i \<le> q \<and> q < NPROC \<and> p_state (proc_at s3 q) = RUNNABLE \<longrightarrow> q \<in> set js"
      using Suc.IH [OF Suc.prems(1) i(2), of s3] s2(3) by (auto simp: s3_def)
    have "q \<in> set (i # js)" if "i \<le> q" "q < NPROC" "p_state (proc_at s q) = RUNNABLE" for q
    proof (cases "q = i")
      case False
      then have "p_state (proc_at s3 q) = RUNNABLE"
        using s2(4) other that by (simp add: s3_def)
      then show ?thesis
        using js(6) False that by (simp add: Suc_le_eq)
    qed simp
    moreover have "sorted_wrt (<) (i # js)"
      using js(4,5) by auto
    moreover have "scheduler_pass run (Suc k) i s = Ok (i # js, s')"
      using f s2(1) b js(1) by simp
    ultimately show ?thesis
      using js i by (intro exI [of _ "i # js"] exI [of _ s']) auto
  qed
qed simp

text \<open>C20: the scheduler starves nobody: one pass over the table comes to its end, and every process that is
  ready when the pass begins gets the CPU in it, whatever the processes before it do with theirs; no
  process gets it twice, and no lock is held at the end.\<close>

theorem scheduler_pass_live:
  assumes "slice_ok run" "length (ptable s) = NPROC" "held s = {}"
  shows "\<exists>js s'. scheduler_pass run NPROC 0 s = Ok (js, s') \<and> held s' = {} \<and> length (ptable s') = NPROC \<and>
    sorted_wrt (<) js \<and> (\<forall>q < NPROC. p_state (proc_at s q) = RUNNABLE \<longrightarrow> q \<in> set js)"
  using scheduler_pass_from [OF assms(1) _ assms(2,3), of 0 NPROC] by auto

text \<open>A process that computes until the timer interrupts it: \<^verbatim>\<open>yield\<close> returns in it, and is called again.\<close>

definition busy_slice :: "nat \<Rightarrow> kstate \<Rightarrow> kstate res" where
  "busy_slice j s = rbind (yield_resume s) yield"

lemma busy_slice_ok: "slice_ok busy_slice"
proof -
  have "busy_slice j s = Ok (upd_proc j (\<lambda>p. p\<lparr>p_state := RUNNABLE\<rparr>) s)"
    if "j < NPROC" "length (ptable s) = NPROC" "held s = {Lproc j}" "cur s = Some j" for j s
    using that by (simp add: busy_slice_def yield_resume_def yield_def myproc_def release_k_def acquire_k_def sched_def)
      (simp add: upd_proc_def)
  then show ?thesis
    by (auto simp: slice_ok_def proc_at_upd)
qed

theorem scheduler_pass_live_witness:
  "\<exists>js s'. scheduler_pass busy_slice NPROC 0 kernel_three = Ok (js, s') \<and> 2 \<in> set js"
proof -
  have "(2::nat) < NPROC" "p_state (proc_at kernel_three 2) = RUNNABLE"
    by (simp_all add: NPROC_def kernel_three_procs zero_proc_def)
  then show ?thesis
    using scheduler_pass_live [OF busy_slice_ok, of kernel_three] by auto
qed

section \<open>Wait\<close>

definition child_of :: "nat \<Rightarrow> kstate \<Rightarrow> nat \<Rightarrow> bool" where
  "child_of p s i \<longleftrightarrow> p_parent (proc_at s i) = Some p"

definition zombie_child :: "nat \<Rightarrow> kstate \<Rightarrow> nat \<Rightarrow> bool" where
  "zombie_child p s i \<longleftrightarrow> child_of p s i \<and> p_state (proc_at s i) = ZOMBIE"

lemma on_km1_sel: "on_km1 f s = Ok s' \<Longrightarrow> \<exists>m. s' = s\<lparr>km := m\<rparr>"
  by (cases "f (km s)") (auto simp: on_km1_def)

lemma freeproc_sel:
  assumes "freeproc i s = Ok s'"
  shows "held s' = held s \<and> cur s' = cur s \<and> length (ptable s') = length (ptable s)"
  using assms unfolding freeproc_def Let_def
  by (auto simp: res_simps dest!: on_km1_sel split: if_split_asm)

lemma wait_scan_none:
  "myproc s = p \<Longrightarrow> i + k \<le> length (ptable s) \<Longrightarrow> held s = {Lproc p} \<Longrightarrow> \<not> child_of p s p \<Longrightarrow>
   \<forall>j\<in>{i..<i + k}. \<not> zombie_child p s j \<Longrightarrow>
   wait_scan k i addr kids s = Ok (None, kids \<or> (\<exists>j\<in>{i..<i + k}. child_of p s j), s)"
proof (induction k arbitrary: i kids)
  case (Suc k)
  have ex: "{i..<i + Suc k} = insert i {Suc i..<Suc i + k}"
    by auto
  have IH: "wait_scan k (Suc i) addr b s = Ok (None, b \<or> (\<exists>j\<in>{Suc i..<Suc i + k}. child_of p s j), s)" for b
    using Suc.prems by (intro Suc.IH) auto
  show ?case
  proof (cases "child_of p s i")
    case True
    then have "i \<noteq> p" "p_state (proc_at s i) \<noteq> ZOMBIE"
      using Suc.prems by (auto simp: zombie_child_def)
    then have "wait_scan (Suc k) i addr kids s = wait_scan k (Suc i) addr True s"
      using True Suc.prems(1,3) by (simp add: child_of_def acquire_k_def release_k_def insert_Diff_if) (simp flip: Suc.prems(3))
    then show ?thesis
      using True unfolding ex by (simp add: IH)
  next
    case False
    then have "wait_scan (Suc k) i addr kids s = wait_scan k (Suc i) addr kids s"
      using Suc.prems(1) by (simp add: child_of_def)
    then show ?thesis
      using False unfolding ex by (simp add: IH)
  qed
qed auto

lemma wait_scan_zombie:
  "myproc s = p \<Longrightarrow> i + k \<le> length (ptable s) \<Longrightarrow> held s = {Lproc p} \<Longrightarrow> \<not> child_of p s p \<Longrightarrow>
   i \<le> z \<Longrightarrow> z < i + k \<Longrightarrow> zombie_child p s z \<Longrightarrow> \<forall>j. i \<le> j \<and> j < z \<longrightarrow> \<not> zombie_child p s j \<Longrightarrow>
   wait_scan k i 0 kids s =
     rmap (\<lambda>s'. (Some (sint (p_pid (proc_at s z))), True, s'\<lparr>held := {}\<rparr>)) (freeproc z (s\<lparr>held := {Lproc p, Lproc z}\<rparr>))"
proof (induction k arbitrary: i kids)
  case (Suc k)
  show ?case
  proof (cases "i = z")
    case True
    let ?s = "s\<lparr>held := {Lproc p, Lproc z}\<rparr>"
    have z: "z \<noteq> p" "p_parent (proc_at s z) = Some p" "p_state (proc_at s z) = ZOMBIE"
      using Suc.prems(4,7) by (auto simp: zombie_child_def child_of_def)
    have rel: "rbind (release_k (Lproc z) s') (\<lambda>s. rmap (\<lambda>s. (v, True, s)) (release_k (Lproc p) s)) = Ok (v, True, s'\<lparr>held := {}\<rparr>)"
      if "freeproc z ?s = Ok s'" for s' and v :: "int option"
    proof -
      have "held s' = {Lproc p, Lproc z}"
        using freeproc_sel [OF that] by simp
      then show ?thesis
        using z(1) by (simp add: release_k_def insert_Diff_if)
    qed
    show ?thesis
    proof (cases "freeproc z ?s")
      case (Ok s')
      then show ?thesis
        using True z Suc.prems(1,3) rel [OF Ok]
        by (simp add: acquire_k_def insert_commute)
    qed (use True z Suc.prems(1,3) in \<open>simp_all add: acquire_k_def insert_commute\<close>)
  next
    case False
    then have i: "\<not> zombie_child p s i" "Suc i \<le> z"
      using Suc.prems by auto
    have IH: "wait_scan k (Suc i) 0 b s = rmap (\<lambda>s'. (Some (sint (p_pid (proc_at s z))), True, s'\<lparr>held := {}\<rparr>))
        (freeproc z (s\<lparr>held := {Lproc p, Lproc z}\<rparr>))" for b
      using Suc.prems i by (intro Suc.IH) auto
    show ?thesis
    proof (cases "child_of p s i")
      case True
      then have "i \<noteq> p" "p_state (proc_at s i) \<noteq> ZOMBIE"
        using Suc.prems(4) i by (auto simp: zombie_child_def)
      then have "wait_scan (Suc k) i 0 kids s = wait_scan k (Suc i) 0 True s"
        using True Suc.prems(1,3) by (simp add: child_of_def acquire_k_def release_k_def insert_Diff_if) (simp flip: Suc.prems(3))
      then show ?thesis
        unfolding IH .
    next
      case False
      then have "wait_scan (Suc k) i 0 kids s = wait_scan k (Suc i) 0 kids s"
        using Suc.prems(1) by (simp add: child_of_def)
      then show ?thesis
        unfolding IH .
    qed
  qed
qed simp

lemma wait_zombie:
  assumes "length (ptable s) = NPROC" "cur s = Some p" "p < NPROC" "held s = {}" "\<not> child_of p s p"
    "z < NPROC" "zombie_child p s z" "\<forall>j < z. \<not> zombie_child p s j"
  shows "wait 0 s = rmap (\<lambda>s'. Ret (sint (p_pid (proc_at s z))) (s'\<lparr>held := {}\<rparr>)) (freeproc z (s\<lparr>held := {Lproc p, Lproc z}\<rparr>))"
proof -
  let ?s = "s\<lparr>held := {Lproc p}\<rparr>"
  have me: "myproc s = p" "myproc ?s = p"
    using assms(2) by (simp_all add: myproc_def)
  have same: "child_of p ?s = child_of p s" "zombie_child p ?s = zombie_child p s"
    by (simp_all add: fun_eq_iff child_of_def zombie_child_def)
  have w: "wait addr s = wait_round addr ?s" for addr
    using assms(4) by (simp add: wait_def me acquire_k_def)
  show ?thesis
    using wait_scan_zombie [of ?s p 0 NPROC z False] assms me
    by (cases "freeproc z (s\<lparr>held := {Lproc p, Lproc z}\<rparr>)") (simp_all add: same w wait_round_def)
qed

lemma wait_live:
  assumes "length (ptable s) = NPROC" "cur s = Some p" "p < NPROC" "held s = {}" "\<not> child_of p s p"
    "\<forall>j < NPROC. \<not> zombie_child p s j"
  shows "wait addr s =
    (if (\<exists>j < NPROC. child_of p s j) \<and> \<not> p_killed (proc_at s p)
     then Ok (Sleep 0 (upd_proc p (\<lambda>x. x\<lparr>p_chan := Some (Cproc p), p_state := SLEEPING\<rparr>) (s\<lparr>held := {Lproc p}\<rparr>)))
     else Ok (Ret (- 1) s))"
proof -
  let ?s = "s\<lparr>held := {Lproc p}\<rparr>"
  have me: "myproc s = p" "myproc ?s = p"
    using assms(2) by (simp_all add: myproc_def)
  have same: "child_of p ?s = child_of p s" "zombie_child p ?s = zombie_child p s"
    by (simp_all add: fun_eq_iff child_of_def zombie_child_def)
  have w: "wait addr s = wait_round addr ?s" for addr
    using assms(4) by (simp add: wait_def me acquire_k_def)
  have unlock: "release_k (Lproc p) ?s = Ok s"
    using assms(4) by (simp add: release_k_def flip: assms(4))
  have none: "wait_scan NPROC 0 addr False ?s = Ok (None, \<exists>j < NPROC. child_of p s j, ?s)"
    using wait_scan_none [of ?s p 0 NPROC addr False] assms me by (simp add: same Bex_def)
  have "sched (upd_proc p (\<lambda>x. x\<lparr>p_chan := Some (Cproc p), p_state := SLEEPING\<rparr>) ?s) =
      Ok (upd_proc p (\<lambda>x. x\<lparr>p_chan := Some (Cproc p), p_state := SLEEPING\<rparr>) ?s)"
    using assms by (simp add: sched_def myproc_def proc_at_upd)
  then show ?thesis
    using none by (simp add: w wait_round_def me unlock sleep_on_def)
qed


lemma three_children: "j < NPROC \<Longrightarrow> child_of (Suc 0) kernel_three j \<longleftrightarrow> j = 2"
  by (cases "j < 3")
    (auto simp: child_of_def less_Suc_eq numeral_3_eq_3 kernel_three_procs kernel_three_procs(3) [simplified numeral_2_eq_2] zero_proc_def)


end
