(* ===== verification/Ulib.thy ===== *)
theory Ulib
  imports Printf
begin

text \<open>
  What user programs stand on: the string routines of \<^verbatim>\<open>user/ulib.c\<close> on the contents of strings (without
  the closing NUL, which is the end of the list), and the system calls for files as a program sees them.

  A world has, for every file that can be opened, what successive reads of it will find, and the same
  for every open descriptor: data in the portions in which it arrives, or an error. A read gets at most
  one portion and at most as many bytes as it asks for; when there is nothing more it gets 0. What was
  written to a descriptor is kept; \<open>uw_ok\<close> says whether a descriptor takes one more write that would make
  its output the given text.
\<close>

section \<open>Strings\<close>

fun strchr :: "string \<Rightarrow> char \<Rightarrow> nat option" where
  "strchr [] c = None"
| "strchr (s # ss) c =
     (if s = CHR 0x00 then None else if s = c then Some 0 else map_option Suc (strchr ss c))"

fun ustrcmp :: "string \<Rightarrow> string \<Rightarrow> int" where
  "ustrcmp (p # ps) (q # qs) = (if p = q then ustrcmp ps qs else of_char p - of_char q)"
| "ustrcmp [] (q # qs) = - of_char q"
| "ustrcmp (p # ps) [] = of_char p"
| "ustrcmp [] [] = 0"

lemma strchr_None: "CHR 0x00 \<notin> set s \<Longrightarrow> strchr s c = None \<longleftrightarrow> c \<notin> set s"
  by (induction s) auto

lemma strchr_Some: "strchr s c = Some i \<Longrightarrow> i < length s \<and> s ! i = c \<and> c \<notin> set (take i s) \<and> CHR 0x00 \<notin> set (take i s) \<and> c \<noteq> CHR 0x00"
  by (induction s arbitrary: i) (auto split: if_splits)

lemma strchr_first: "c \<noteq> CHR 0x00 \<Longrightarrow> CHR 0x00 \<notin> set xs \<Longrightarrow> c \<notin> set xs \<Longrightarrow> strchr (xs @ c # ys) c = Some (length xs)"
  by (induction xs) auto

lemma of_char_int_eq: "(of_char c :: int) = of_char d \<longleftrightarrow> c = d" "(of_char c :: int) = 0 \<longleftrightarrow> c = CHR 0x00"
proof -
  show eq: "(of_char c :: int) = of_char d \<longleftrightarrow> c = d" for c d
    by (metis char_of_char)
  show "(of_char c :: int) = 0 \<longleftrightarrow> c = CHR 0x00"
    using eq [of c "CHR 0x00"] by simp
qed

lemma ustrcmp_eq: "CHR 0x00 \<notin> set p \<Longrightarrow> CHR 0x00 \<notin> set q \<Longrightarrow> ustrcmp p q = 0 \<longleftrightarrow> p = q"
  by (induction p q rule: ustrcmp.induct) (auto simp: of_char_int_eq)

section \<open>Files\<close>

datatype arrival = Data string | Rerr

record uworld =
  uw_files :: "string \<Rightarrow> arrival list option"
  uw_fds :: "nat \<Rightarrow> arrival list option"
  uw_out :: "nat \<Rightarrow> string"
  uw_ok :: "nat \<Rightarrow> string \<Rightarrow> bool"

text \<open>A part of a program ends normally, or the program exits.\<close>

datatype 'a run = Go 'a uworld | Exit int uworld

fun arrive :: "nat \<Rightarrow> arrival list \<Rightarrow> int \<times> string \<times> arrival list" where
  "arrive n [] = (0, [], [])"
| "arrive n (Rerr # as) = (- 1, [], as)"
| "arrive n (Data s # as) =
     (int (min n (length s)), take n s, if length s \<le> n then as else Data (drop n s) # as)"

definition read_u :: "nat \<Rightarrow> nat \<Rightarrow> uworld \<Rightarrow> int \<times> string \<times> uworld" where
  "read_u fd n w =
     (case uw_fds w fd of
        None \<Rightarrow> (- 1, [], w)
      | Some as \<Rightarrow> let (r, s, as) = arrive n as in (r, s, w\<lparr>uw_fds := (uw_fds w)(fd \<mapsto> as)\<rparr>))"

definition write_u :: "nat \<Rightarrow> string \<Rightarrow> uworld \<Rightarrow> int \<times> uworld" where
  "write_u fd s w =
     (if uw_ok w fd (uw_out w fd @ s)
      then (int (length s), w\<lparr>uw_out := (uw_out w)(fd := uw_out w fd @ s)\<rparr>)
      else (- 1, w))"

definition lowest_fd :: "uworld \<Rightarrow> nat option" where
  "lowest_fd w = find (\<lambda>fd. uw_fds w fd = None) [0..<16]"

definition open_u :: "string \<Rightarrow> uworld \<Rightarrow> int \<times> uworld" where
  "open_u path w =
     (case (uw_files w path, lowest_fd w) of
        (Some as, Some fd) \<Rightarrow> (int fd, w\<lparr>uw_fds := (uw_fds w)(fd \<mapsto> as)\<rparr>)
      | _ \<Rightarrow> (- 1, w))"

definition close_u :: "nat \<Rightarrow> uworld \<Rightarrow> uworld" where
  "close_u fd w = w\<lparr>uw_fds := (uw_fds w)(fd := None)\<rparr>"

text \<open>\<^verbatim>\<open>fprintf\<close> writes one character at a time and does not look at the results.\<close>

definition fprintf :: "nat \<Rightarrow> string \<Rightarrow> parg list \<Rightarrow> uworld \<Rightarrow> uworld" where
  "fprintf fd fmt args w =
     (case uprintf (chars fmt) args of
        Ok out \<Rightarrow> fold (\<lambda>c w. snd (write_u fd [char_of (unat c)] w)) out w
      | _ \<Rightarrow> w)"

abbreviation (input) Ps :: "string \<Rightarrow> parg" where
  "Ps s \<equiv> Pstr (Some (chars s))"

section \<open>Reading\<close>

primrec bytes_left :: "arrival list \<Rightarrow> nat" where
  "bytes_left [] = 0"
| "bytes_left (a # as) = (case a of Data s \<Rightarrow> length s | Rerr \<Rightarrow> 0) + bytes_left as"

definition fd_left :: "nat \<Rightarrow> uworld \<Rightarrow> nat" where
  "fd_left fd w = (case uw_fds w fd of None \<Rightarrow> 0 | Some as \<Rightarrow> bytes_left as)"

lemma arrive_left: "arrive n as = (r, s, as') \<Longrightarrow> r > 0 \<Longrightarrow> bytes_left as = length s + bytes_left as' \<and> s \<noteq> [] \<and> r = int (length s)"
  by (cases "(n, as)" rule: arrive.cases) (auto split: if_splits)

lemma read_u_less:
  assumes "read_u fd n w = (r, s, w')" "r > 0"
  shows "fd_left fd w' < fd_left fd w"
proof (cases "uw_fds w fd")
  case (Some as)
  obtain as' where a: "arrive n as = (r, s, as')" "w' = w\<lparr>uw_fds := (uw_fds w)(fd \<mapsto> as')\<rparr>"
    using assms(1) Some by (auto simp: read_u_def split: prod.splits)
  then show ?thesis
    using arrive_left [OF a(1) assms(2)] Some by (auto simp: fd_left_def)
qed (use assms in \<open>simp add: read_u_def\<close>)

text \<open>Input without errors, ended only by its end.\<close>

definition clean :: "arrival list \<Rightarrow> bool" where
  "clean as \<longleftrightarrow> (\<forall>a\<in>set as. \<exists>s. a = Data s \<and> s \<noteq> [])"

primrec text_of :: "arrival list \<Rightarrow> string" where
  "text_of [] = []"
| "text_of (a # as) = (case a of Data s \<Rightarrow> s | Rerr \<Rightarrow> []) @ text_of as"

lemma arrive_clean:
  assumes "clean as" "arrive n as = (r, s, as')" "n > 0"
  shows "clean as' \<and> text_of as = s @ text_of as' \<and> r = int (length s) \<and> (r = 0 \<longleftrightarrow> as = []) \<and> length s \<le> n"
  using assms by (cases "(n, as)" rule: arrive.cases) (auto simp: clean_def split: if_splits)

section \<open>What changes\<close>

text \<open>Text added to the standard output, and input consumed.\<close>

definition prints :: "uworld \<Rightarrow> string \<Rightarrow> uworld" where
  "prints w s = w\<lparr>uw_out := (uw_out w)(1 := uw_out w 1 @ s)\<rparr>"

lemma prints_simps [simp]:
  "prints w [] = w" "prints (prints w s) t = prints w (s @ t)" "uw_ok (prints w s) = uw_ok w" "uw_fds (prints w s) = uw_fds w"
  by (simp_all add: prints_def)

definition reads :: "nat \<Rightarrow> arrival list \<Rightarrow> uworld \<Rightarrow> uworld" where
  "reads fd as w = w\<lparr>uw_fds := (uw_fds w)(fd \<mapsto> as)\<rparr>"

lemma reads_simps [simp]:
  "uw_fds (reads fd as w) = (uw_fds w)(fd \<mapsto> as)" "uw_ok (reads fd as w) = uw_ok w" "uw_out (reads fd as w) = uw_out w"
  "reads fd as (reads fd bs w) = reads fd as w" "prints (reads fd as w) s = reads fd as (prints w s)"
  by (simp_all add: reads_def prints_def)

definition example_world :: "arrival list \<Rightarrow> uworld" where
  "example_world as = \<lparr>uw_files = (\<lambda>_. None), uw_fds = [0 \<mapsto> as], uw_out = (\<lambda>_. []), uw_ok = (\<lambda>_ _. True)\<rparr>"

lemma read_u_clean:
  assumes "uw_fds w fd = Some as" "clean as" "n > 0"
  obtains s as' where "read_u fd n w = (int (length s), s, reads fd as' w)" "clean as'" "text_of as = s @ text_of as'"
    "s = [] \<longleftrightarrow> as = []" "as = [] \<Longrightarrow> as' = []" "length s \<le> n"
proof -
  obtain r s as' where "arrive n as = (r, s, as')"
    by (cases "arrive n as") auto
  then show ?thesis
    using that [of s as'] arrive_clean [OF assms(2) _ assms(3)] assms(1) by (fastforce simp: read_u_def reads_def)
qed

section \<open>Words\<close>

text \<open>The words of a text are its maximal runs of characters that are not separators.\<close>

function words_by :: "(char \<Rightarrow> bool) \<Rightarrow> string \<Rightarrow> string list" where
  "words_by sep [] = []"
| "words_by sep (c # s) =
     (if sep c then words_by sep s
      else (c # takeWhile (\<lambda>c. \<not> sep c) s) # words_by sep (dropWhile (\<lambda>c. \<not> sep c) s))"
  by pat_completeness auto
termination
  by (relation "measure (\<lambda>(sep, s). length s)") (auto simp: less_Suc_eq_le length_dropWhile_le)

end
