(* ===== verification/Grep.thy ===== *)
theory Grep
  imports Ulib
begin

text \<open>
  \<^verbatim>\<open>user/grep.c\<close>: the matcher of regular expressions and the loop over the lines of the input. A
  pattern and a text are lists of their characters; the end of the list is the NUL that the code tests.
\<close>

section \<open>The matcher\<close>

definition starred :: "string \<Rightarrow> bool" where
  "starred re \<longleftrightarrow> (case re of [] \<Rightarrow> False | c # _ \<Rightarrow> c = CHR ''*'')"

lemma starred_simps [simp]: "\<not> starred []" "starred (c # re) \<longleftrightarrow> c = CHR ''*''"
  by (simp_all add: starred_def)

lemma starred_tl: "starred re \<Longrightarrow> length re = Suc (length (tl re))"
  by (cases re) auto

function matchhere :: "string \<Rightarrow> string \<Rightarrow> bool"
  and matchstar :: "char \<Rightarrow> string \<Rightarrow> string \<Rightarrow> bool" where
  "matchhere re tx =
     (case re of
        [] \<Rightarrow> True
      | c # re1 \<Rightarrow>
          if starred re1 then matchstar c (tl re1) tx
          else if c = CHR ''$'' \<and> re1 = [] then tx = []
          else case tx of
            [] \<Rightarrow> False
          | t # ts \<Rightarrow> if c = CHR ''.'' \<or> c = t then matchhere re1 ts else False)"
| "matchstar c re tx =
     (if matchhere re tx then True
      else case tx of
        [] \<Rightarrow> False
      | t # ts \<Rightarrow> if t = c \<or> c = CHR ''.'' then matchstar c re ts else False)"
  by pat_completeness auto
termination
  by (relation "measure (\<lambda>x. case x of Inl (re, tx) \<Rightarrow> 2 * (length re + length tx)
        | Inr (c, re, tx) \<Rightarrow> 2 * (length re + length tx) + 1)") (auto dest: starred_tl)

declare matchhere.simps [simp del] matchstar.simps [simp del]

primrec match_from :: "string \<Rightarrow> string \<Rightarrow> bool" where
  "match_from re [] = matchhere re []"
| "match_from re (t # ts) = (if matchhere re (t # ts) then True else match_from re ts)"

definition match :: "string \<Rightarrow> string \<Rightarrow> bool" where
  "match re tx =
     (case re of
        [] \<Rightarrow> match_from re tx
      | c # re1 \<Rightarrow> if c = CHR ''^'' then matchhere re1 tx else match_from re tx)"

section \<open>The loop\<close>

function grep_lines :: "string \<Rightarrow> string \<Rightarrow> uworld \<Rightarrow> string \<times> uworld" where
  "grep_lines pattern p w =
     (case strchr p CHR 0x0A of
        None \<Rightarrow> (p, w)
      | Some q \<Rightarrow>
          let w = (if match pattern (take q p) then snd (write_u 1 (take (q + 1) p) w) else w)
          in grep_lines pattern (drop (q + 1) p) w)"
  by pat_completeness auto
termination
  by (relation "measure (\<lambda>(pattern, p, w). length p)") (auto dest: strchr_Some)

declare grep_lines.simps [simp del]

lemma grep_lines_fds: "grep_lines pattern p w = (r, w') \<Longrightarrow> uw_fds w' = uw_fds w"
proof (induction pattern p w rule: grep_lines.induct)
  case (1 pattern p w)
  show ?case
    using "1.prems" "1.IH" unfolding grep_lines.simps [of pattern p w]
    by (auto simp: write_u_def Let_def split: option.splits if_splits)
qed

text \<open>\<open>buf\<close> is what is kept of the previous reads, the first \<^verbatim>\<open>m\<close> bytes of the buffer.\<close>

function grep :: "string \<Rightarrow> nat \<Rightarrow> string \<Rightarrow> uworld \<Rightarrow> uworld" where
  "grep pattern fd buf w =
     (let (n, s, w) = read_u fd (1024 - length buf - 1) w in
      if n > 0 then
        let (buf, w) = grep_lines pattern (buf @ s) w in grep pattern fd buf w
      else w)"
  by pat_completeness auto
termination
proof (relation "measure (\<lambda>(pattern, fd, buf, w). fd_left fd w)")
  fix pattern fd buf and w :: uworld and x n y s w1 z buf' w2
  assume "x = read_u fd (1024 - length buf - 1) w" "(n, y) = x" "(s, w1) = y" "0 < n" "z = grep_lines pattern (buf @ s) w1"
    "(buf', w2) = z"
  then have "read_u fd (1024 - length buf - 1) w = (n, s, w1)" "uw_fds w2 = uw_fds w1"
    using grep_lines_fds [of pattern "buf @ s" w1 buf' w2] by auto
  then show "((pattern, fd, buf', w2), pattern, fd, buf, w) \<in> measure (\<lambda>(pattern, fd, buf, w). fd_left fd w)"
    using read_u_less [of fd "1024 - length buf - 1" w n s w1] \<open>0 < n\<close> by (simp add: fd_left_def)
qed simp

declare grep.simps [simp del]

fun grep_files :: "string \<Rightarrow> string list \<Rightarrow> uworld \<Rightarrow> unit run" where
  "grep_files pattern [] w = Exit 0 w"
| "grep_files pattern (a # argv) w =
     (let (fd, w) = open_u a w in
      if fd < 0 then Exit 1 (fprintf 1 ''grep: cannot open %s\<newline>'' [Ps a] w)
      else grep_files pattern argv (close_u (nat fd) (grep pattern (nat fd) [] w)))"

definition grep_main :: "string list \<Rightarrow> uworld \<Rightarrow> unit run" where
  "grep_main argv w =
     (if length argv \<le> 1 then Exit 1 (fprintf 2 ''usage: grep pattern [file ...]\<newline>'' [] w)
      else if length argv \<le> 2 then Exit 0 (grep (argv ! 1) 0 [] w)
      else grep_files (argv ! 1) (drop 2 argv) w)"

section \<open>Regular expressions\<close>

text \<open>The language of a pattern: its items, and whether it ends in a \<^verbatim>\<open>$\<close> that is not starred.\<close>

datatype item = One char | Many char

fun items :: "string \<Rightarrow> item list \<times> bool" where
  "items [] = ([], False)"
| "items [c] = (if c = CHR ''$'' then ([], True) else ([One c], False))"
| "items (c # d # re) =
     (if d = CHR ''*'' then apfst ((#) (Many c)) (items re) else apfst ((#) (One c)) (items (d # re)))"

definition fits :: "char \<Rightarrow> char \<Rightarrow> bool" where
  "fits c t \<longleftrightarrow> c = CHR ''.'' \<or> c = t"

fun lang :: "item list \<Rightarrow> string set" where
  "lang [] = {[]}"
| "lang (One c # is) = {t # w |t w. fits c t \<and> w \<in> lang is}"
| "lang (Many c # is) = {u @ w |u w. (\<forall>t\<in>set u. fits c t) \<and> w \<in> lang is}"

definition heads :: "item list \<Rightarrow> bool \<Rightarrow> string \<Rightarrow> bool" where
  "heads is whole tx \<longleftrightarrow> (\<exists>w post. tx = w @ post \<and> w \<in> lang is \<and> (whole \<longrightarrow> post = []))"

definition prefix_match :: "string \<Rightarrow> string \<Rightarrow> bool" where
  "prefix_match re tx \<longleftrightarrow> heads (fst (items re)) (snd (items re)) tx"

definition search_match :: "string \<Rightarrow> string \<Rightarrow> bool" where
  "search_match re tx \<longleftrightarrow> (\<exists>pre post. tx = pre @ post \<and> prefix_match re post)"

lemma items_Cons:
  "items (c # re) =
     (if starred re then apfst ((#) (Many c)) (items (tl re))
      else if c = CHR ''$'' \<and> re = [] then ([], True) else apfst ((#) (One c)) (items re))"
  by (cases re) auto

lemma heads_Many:
  "heads (Many c # is) b tx \<longleftrightarrow> (\<exists>u v. tx = u @ v \<and> (\<forall>t\<in>set u. fits c t) \<and> heads is b v)" (is "?l \<longleftrightarrow> ?r")
proof
  assume ?l
  then obtain u w post where "tx = (u @ w) @ post" "\<forall>t\<in>set u. fits c t" "w \<in> lang is" "b \<longrightarrow> post = []"
    unfolding heads_def lang.simps by blast
  then have "tx = u @ (w @ post)" "\<forall>t\<in>set u. fits c t" "heads is b (w @ post)"
    unfolding heads_def by auto
  then show ?r
    by blast
next
  assume ?r
  then obtain u w post where "tx = u @ w @ post" "\<forall>t\<in>set u. fits c t" "w \<in> lang is" "b \<longrightarrow> post = []"
    unfolding heads_def by blast
  then have "tx = (u @ w) @ post" "u @ w \<in> lang (Many c # is)" "b \<longrightarrow> post = []"
    by auto
  then show ?l
    unfolding heads_def by blast
qed

lemma heads_One: "heads (One c # is) b tx \<longleftrightarrow> (\<exists>t ts. tx = t # ts \<and> fits c t \<and> heads is b ts)" (is "?l \<longleftrightarrow> ?r")
proof
  assume ?l
  then obtain t w post where "tx = (t # w) @ post" "fits c t" "w \<in> lang is" "b \<longrightarrow> post = []"
    unfolding heads_def lang.simps by blast
  then have "tx = t # (w @ post)" "fits c t" "heads is b (w @ post)"
    unfolding heads_def by auto
  then show ?r
    by blast
next
  assume ?r
  then obtain t w post where "tx = t # w @ post" "fits c t" "w \<in> lang is" "b \<longrightarrow> post = []"
    unfolding heads_def by blast
  then have "tx = (t # w) @ post" "t # w \<in> lang (One c # is)" "b \<longrightarrow> post = []"
    by auto
  then show ?l
    unfolding heads_def by blast
qed

lemma prefix_match_simps:
  "prefix_match [] tx"
  "starred re \<Longrightarrow> prefix_match (c # re) tx \<longleftrightarrow> (\<exists>u v. tx = u @ v \<and> (\<forall>t\<in>set u. fits c t) \<and> prefix_match (tl re) v)"
  "prefix_match [CHR ''$''] tx \<longleftrightarrow> tx = []"
  "\<not> starred re \<Longrightarrow> \<not> (c = CHR ''$'' \<and> re = []) \<Longrightarrow>
   prefix_match (c # re) tx \<longleftrightarrow> (\<exists>t ts. tx = t # ts \<and> fits c t \<and> prefix_match re ts)"
  by (auto simp: prefix_match_def items_Cons heads_Many heads_One) (auto simp: heads_def)

lemma star_unfold:
  "(\<exists>u v. tx = u @ v \<and> (\<forall>t\<in>set u. fits c t) \<and> P v) \<longleftrightarrow>
     P tx \<or> (\<exists>t ts. tx = t # ts \<and> fits c t \<and> (\<exists>u v. ts = u @ v \<and> (\<forall>t\<in>set u. fits c t) \<and> P v))" (is "?l \<longleftrightarrow> ?r")
proof
  assume ?l
  then obtain u v where u: "tx = u @ v" "\<forall>t\<in>set u. fits c t" "P v"
    by blast
  show ?r
  proof (cases u)
    case (Cons t ts)
    then have "tx = t # (ts @ v)" "fits c t" "\<forall>t\<in>set ts. fits c t"
      using u by auto
    then show ?thesis
      using u(3) by blast
  qed (use u in simp)
next
  assume ?r
  then consider "P tx" | t u v where "tx = t # u @ v" "fits c t" "\<forall>t\<in>set u. fits c t" "P v"
    by blast
  then show ?l
  proof cases
    case 1
    then show ?thesis
      by (intro exI [where x = "[]"] exI [where x = tx]) simp
  next
    case 2
    then show ?thesis
      by (intro exI [where x = "t # u"] exI [where x = v]) simp
  qed
qed

lemma matchhere_matchstar:
  "matchhere re tx \<longleftrightarrow> prefix_match re tx"
  "matchstar c re tx \<longleftrightarrow> (\<exists>u v. tx = u @ v \<and> (\<forall>t\<in>set u. fits c t) \<and> prefix_match re v)"
proof (induction re tx and c re tx rule: matchhere_matchstar.induct)
  case (1 re tx)
  show ?case
  proof (cases re)
    case (Cons c re1)
    consider "starred re1" | "\<not> starred re1" "c = CHR ''$'' \<and> re1 = []" | "\<not> starred re1" "\<not> (c = CHR ''$'' \<and> re1 = [])"
      by blast
    then show ?thesis
    proof cases
      case 1
      then show ?thesis
        using "1.IH"(1) [OF Cons] Cons by (simp add: matchhere.simps [of "c # re1"] prefix_match_simps(2))
    next
      case 2
      then show ?thesis
        using Cons by (simp add: matchhere.simps [of "[CHR ''$'']"] prefix_match_simps(3))
    next
      case 3
      then show ?thesis
        using "1.IH"(2) [OF Cons 3] Cons
        by (cases tx) (auto simp: matchhere.simps [of "c # re1"] prefix_match_simps(4) fits_def)
    qed
  qed (simp add: matchhere.simps prefix_match_simps)
next
  case (2 c re tx)
  show ?case
    using 2 unfolding star_unfold [of tx c]
    by (cases tx) (auto simp: matchstar.simps [of c re] fits_def)
qed

lemma match_from_search: "match_from re tx \<longleftrightarrow> search_match re tx"
proof (induction tx)
  case (Cons t ts)
  have "search_match re (t # ts) \<longleftrightarrow> prefix_match re (t # ts) \<or> search_match re ts"
    unfolding search_match_def by (auto simp: Cons_eq_append_conv)
  then show ?case
    using Cons by (simp add: matchhere_matchstar)
qed (simp add: matchhere_matchstar search_match_def)

text \<open>C31: the matcher of \<^verbatim>\<open>grep\<close>, with its two mutually recursive routines and their backtracking, decides the
  regular language that the pattern describes: some part of the text (the beginning after a \<^verbatim>\<open>^\<close>, up to
  the end before a final \<^verbatim>\<open>$\<close>) is a word of the pattern, where \<^verbatim>\<open>.\<close> stands for any character and \<^verbatim>\<open>*\<close> for any
  number of repetitions.\<close>

theorem match_correct:
  "match re tx \<longleftrightarrow> (if re \<noteq> [] \<and> hd re = CHR ''^'' then prefix_match (tl re) tx else search_match re tx)"
  by (cases re) (simp_all add: match_def match_from_search matchhere_matchstar)

section \<open>Lines\<close>

primrec nl_split :: "string \<Rightarrow> string list \<times> string" where
  "nl_split [] = ([], [])"
| "nl_split (c # cs) =
     (case nl_split cs of
        (ls, r) \<Rightarrow> if c = CHR 0x0A then ([] # ls, r) else case ls of [] \<Rightarrow> ([], c # r) | l # ls \<Rightarrow> ((c # l) # ls, r))"

lemma nl_split_line: "CHR 0x0A \<notin> set xs \<Longrightarrow> nl_split (xs @ CHR 0x0A # ys) = (xs # fst (nl_split ys), snd (nl_split ys))"
  by (induction xs) (auto split: prod.splits)

lemma nl_split_none: "CHR 0x0A \<notin> set xs \<Longrightarrow> nl_split xs = ([], xs)"
  by (induction xs) auto

lemma nl_split_first:
  "CHR 0x0A \<notin> set xs \<Longrightarrow> fst (nl_split (xs @ ys)) = l # ls \<Longrightarrow> length xs \<le> length l"
  by (induction xs arbitrary: l ls) (auto split: prod.splits list.splits if_splits)

lemma nl_split_append:
  "nl_split (xs @ ys) = (fst (nl_split xs) @ fst (nl_split (snd (nl_split xs) @ ys)), snd (nl_split (snd (nl_split xs) @ ys)))"
  by (induction xs) (auto split: prod.splits list.splits)

lemma nl_split_rest: "CHR 0x0A \<notin> set (snd (nl_split xs))"
  by (induction xs) (auto split: prod.splits list.splits)

lemma nl_split_rest_set: "set (snd (nl_split xs)) \<subseteq> set xs"
  by (induction xs) (auto split: prod.splits list.splits)

lemma nl_split_rest_length: "length (snd (nl_split xs)) \<le> length xs"
  by (induction xs) (auto split: prod.splits list.splits)

definition selected :: "string \<Rightarrow> string list \<Rightarrow> string" where
  "selected pattern ls = concat (map (\<lambda>l. l @ [CHR 0x0A]) (filter (match pattern) ls))"

lemma selected_simps [simp]:
  "selected pattern [] = []"
  "selected pattern (l # ls) = (if match pattern l then l @ CHR 0x0A # selected pattern ls else selected pattern ls)"
  "selected pattern (ls @ ls') = selected pattern ls @ selected pattern ls'"
  by (simp_all add: selected_def)

lemma grep_lines_eq:
  "CHR 0x00 \<notin> set p \<Longrightarrow> \<forall>t. uw_ok w 1 t \<Longrightarrow>
   grep_lines pattern p w = (snd (nl_split p), prints w (selected pattern (fst (nl_split p))))"
proof (induction pattern p w rule: grep_lines.induct)
  case (1 pattern p w)
  show ?case
  proof (cases "strchr p CHR 0x0A")
    case None
    then have "CHR 0x0A \<notin> set p"
      using 1 by (simp add: strchr_None)
    then show ?thesis
      using None by (simp add: grep_lines.simps [of pattern p] nl_split_none)
  next
    case (Some q)
    let ?w = "if match pattern (take q p) then snd (write_u 1 (take (q + 1) p) w) else w"
    have q: "q < length p" "p ! q = CHR 0x0A" "CHR 0x0A \<notin> set (take q p)"
      using strchr_Some [OF Some] by auto
    then have p: "p = take q p @ CHR 0x0A # drop (Suc q) p" "take (q + 1) p = take q p @ [CHR 0x0A]"
      using id_take_nth_drop [OF q(1)] by (simp_all add: take_Suc_conv_app_nth)
    have w: "?w = prints w (if match pattern (take q p) then take q p @ [CHR 0x0A] else [])"
      using "1.prems"(2) p(2) by (simp add: write_u_def prints_def)
    have "CHR 0x00 \<notin> set (drop (q + 1) p)" "\<forall>t. uw_ok ?w 1 t"
      using "1.prems" unfolding w by (auto dest: in_set_dropD)
    then have "grep_lines pattern (drop (q + 1) p) ?w =
        (snd (nl_split (drop (q + 1) p)), prints ?w (selected pattern (fst (nl_split (drop (q + 1) p)))))"
      using "1.IH" [OF Some refl] by blast
    moreover have "grep_lines pattern p w = grep_lines pattern (drop (q + 1) p) ?w"
      using Some by (simp add: grep_lines.simps [of pattern p] Let_def)
    moreover have "nl_split p = (take q p # fst (nl_split (drop (q + 1) p)), snd (nl_split (drop (q + 1) p)))"
      using nl_split_line [OF q(3), of "drop (Suc q) p"] p(1) by simp
    ultimately show ?thesis
      unfolding w by simp
  qed
qed

lemma grep_eq:
  assumes "uw_fds w fd = Some as" "clean as" "\<forall>t. uw_ok w 1 t" "CHR 0x00 \<notin> set (buf @ text_of as)"
    "CHR 0x0A \<notin> set buf" "length buf \<le> 1023" "\<forall>l \<in> set (fst (nl_split (buf @ text_of as))). length l \<le> 1022"
  shows "\<exists>as'. grep pattern fd buf w = reads fd as' (prints w (selected pattern (fst (nl_split (buf @ text_of as)))))"
  using assms
proof (induction pattern fd buf w arbitrary: as rule: grep.induct)
  case (1 pattern fd buf w)
  let ?n = "1024 - length buf - 1"
  obtain n s as1 where a: "arrive ?n as = (n, s, as1)"
    by (cases "arrive ?n as") auto
  have r: "read_u fd ?n w = (n, s, reads fd as1 w)"
    using a "1.prems"(1) by (simp add: read_u_def reads_def)
  show ?case
  proof (cases "length buf = 1023")
    case True
    then have n: "n = 0 \<or> n = - 1"
      using a by (cases "(?n, as)" rule: arrive.cases) auto
    have "fst (nl_split (buf @ text_of as)) = []"
      using nl_split_first [OF "1.prems"(5), of "text_of as"] "1.prems"(7) True
      by (cases "fst (nl_split (buf @ text_of as))") auto
    then show ?thesis
      using n r by (intro exI [of _ as1]) (auto simp: grep.simps [of pattern fd buf])
  next
    case False
    then have c: "clean as1" "text_of as = s @ text_of as1" "n = int (length s)" "n = 0 \<longleftrightarrow> as = []" "length s \<le> ?n"
      using arrive_clean [OF "1.prems"(2) a] "1.prems"(6) by auto
    show ?thesis
    proof (cases "n = 0")
      case True
      then have "fst (nl_split (buf @ text_of as)) = []"
        using c "1.prems"(5) by (simp add: nl_split_none)
      then show ?thesis
        using True r by (intro exI [of _ as1]) (simp add: grep.simps [of pattern fd buf])
    next
      case False
      let ?ls = "fst (nl_split (buf @ s))" and ?rest = "snd (nl_split (buf @ s))"
      let ?w = "reads fd as1 (prints w (selected pattern ?ls))"
      have g: "grep_lines pattern (buf @ s) (reads fd as1 w) = (?rest, ?w)"
        using "1.prems"(3,4) c(2) by (subst grep_lines_eq) auto
      have sp: "nl_split (buf @ text_of as) = (?ls @ fst (nl_split (?rest @ text_of as1)), snd (nl_split (?rest @ text_of as1)))"
        using nl_split_append [of "buf @ s" "text_of as1"] c(2) by simp
      have "\<exists>as'. grep pattern fd ?rest ?w =
          reads fd as' (prints ?w (selected pattern (fst (nl_split (?rest @ text_of as1)))))"
      proof (rule "1.IH" [OF r [symmetric] refl refl _ g [symmetric] refl])
        show "0 < n" "uw_fds ?w fd = Some as1" "clean as1" "\<forall>t. uw_ok ?w 1 t"
          using False c "1.prems"(3) by auto
        show "CHR 0x00 \<notin> set (?rest @ text_of as1)"
          using "1.prems"(4) c(2) nl_split_rest_set [of "buf @ s"] by auto
        show "CHR 0x0A \<notin> set ?rest"
          by (rule nl_split_rest)
        show "length ?rest \<le> 1023"
          using nl_split_rest_length [of "buf @ s"] c(5) "1.prems"(6) by simp
        show "\<forall>l \<in> set (fst (nl_split (?rest @ text_of as1))). length l \<le> 1022"
          using "1.prems"(7) sp by simp
      qed
      then obtain as' where "grep pattern fd ?rest ?w = reads fd as' (prints ?w (selected pattern (fst (nl_split (?rest @ text_of as1)))))"
        by blast
      moreover have "grep pattern fd buf w = grep pattern fd ?rest ?w"
        using False c(3) r g by (simp add: grep.simps [of pattern fd buf])
      ultimately show ?thesis
        using sp by (intro exI [of _ as']) simp
    qed
  qed
qed

text \<open>C32: \<^verbatim>\<open>grep\<close> prints exactly the lines that match, whole and in order, however the input is cut into the
  portions that the reads get, if no line is longer than its buffer; what follows the last newline is
  not looked at.\<close>

theorem grep_correct:
  assumes "uw_fds w fd = Some as" "clean as" "CHR 0x00 \<notin> set (text_of as)"
    "\<forall>l \<in> set (fst (nl_split (text_of as))). length l \<le> 1022" "\<forall>t. uw_ok w 1 t"
  shows "uw_out (grep pattern fd [] w) 1 = uw_out w 1 @ selected pattern (fst (nl_split (text_of as)))"
proof -
  obtain as' where "grep pattern fd [] w = reads fd as' (prints w (selected pattern (fst (nl_split ([] @ text_of as)))))"
    using grep_eq [of w fd as "[]" pattern] assms by fastforce
  then show ?thesis
    by (simp add: prints_def)
qed

theorem grep_correct_witness:
  "uw_out (grep ''a*c$'' 0 [] (example_world [Data ''abc\<newline>x'', Data ''y\<newline>aac'', Data ''\<newline>c''])) 1 =
     selected ''a*c$'' [''abc'', ''xy'', ''aac'']"
proof -
  let ?as = "[Data ''abc\<newline>x'', Data ''y\<newline>aac'', Data ''\<newline>c'']"
  have "uw_out (grep ''a*c$'' 0 [] (example_world ?as)) 1 =
      uw_out (example_world ?as) 1 @ selected ''a*c$'' (fst (nl_split (text_of ?as)))"
    by (rule grep_correct) (simp_all add: example_world_def clean_def)
  then show ?thesis
    by (simp add: example_world_def)
qed

end
