(* ===== verification/Sh.thy ===== *)
theory Sh
  imports Ulib "HOL-Library.Sublist"
begin

text \<open>
  The parser of \<^verbatim>\<open>user/sh.c\<close>. The line is a string without NUL, and a pointer into it is the rest of the
  line from there on; the empty rest is \<^verbatim>\<open>es\<close>, where the NUL is. A command keeps for every word the
  pointers to its beginning and to its end, as the structures of the source do; \<^verbatim>\<open>nulterminate\<close> then
  writes into the line. \<^verbatim>\<open>malloc\<close> is taken to succeed.

  The routines \<^verbatim>\<open>parseline\<close>, \<^verbatim>\<open>parsepipe\<close>, \<^verbatim>\<open>parseexec\<close> and \<^verbatim>\<open>parseblock\<close> call each other; \<open>Deep\<close> is the
  outcome when the nesting of these calls exceeds a bound that is given. The bound of \<^verbatim>\<open>parsecmd\<close> is
  shown to be large enough for every line.
\<close>

section \<open>Tokens\<close>

definition whitespace :: string where
  "whitespace = [CHR '' '', CHR 0x09, CHR 0x0D, CHR 0x0A, CHR 0x0B]"

definition symbols :: string where
  "symbols = ''<|>&;()''"

definition skip :: "string \<Rightarrow> string" where
  "skip s = dropWhile (\<lambda>c. c \<in> set whitespace) s"

definition special :: "char \<Rightarrow> bool" where
  "special c \<longleftrightarrow> c \<in> set whitespace \<or> c \<in> set symbols"

text \<open>The kind of the token, its beginning and end, and where the next one begins.\<close>

definition gettoken :: "string \<Rightarrow> char \<times> string \<times> string \<times> string" where
  "gettoken s =
     (let s = skip s; q = s;
          (ret, s) = (case s of
             [] \<Rightarrow> (CHR 0x00, s)
           | c # r \<Rightarrow>
               if c \<in> set ''|();&<'' then (c, r)
               else if c = CHR ''>'' then
                 (case r of d # r' \<Rightarrow> if d = CHR ''>'' then (CHR ''+'', r') else (c, r) | [] \<Rightarrow> (c, r))
               else (CHR ''a'', dropWhile (\<lambda>c. \<not> special c) s))
      in (ret, q, s, skip s))"

definition peek :: "string \<Rightarrow> string \<Rightarrow> bool \<times> string" where
  "peek s toks = (let s = skip s in (case s of [] \<Rightarrow> False | c # _ \<Rightarrow> c \<in> set toks, s))"

section \<open>Commands\<close>

definition MAXARGS :: nat where "MAXARGS = 10"

text \<open>The modes with which a redirection opens its file: \<^verbatim>\<open>O_RDONLY\<close>, \<^verbatim>\<open>O_WRONLY|O_CREATE|O_TRUNC\<close> and
  \<^verbatim>\<open>O_WRONLY|O_CREATE\<close>.\<close>

datatype cmd =
    Cexec "(string \<times> string) list"
  | Credir cmd string string int nat
  | Cpipe cmd cmd
  | Clist cmd cmd
  | Cback cmd

datatype 'a parsed = Parsed 'a string | Perror string | Deep

primrec pbind :: "'a parsed \<Rightarrow> ('a \<Rightarrow> string \<Rightarrow> 'b parsed) \<Rightarrow> 'b parsed" where
  "pbind (Parsed x s) f = f x s"
| "pbind (Perror e) f = Perror e"
| "pbind Deep f = Deep"

lemma skip_length: "length (skip s) \<le> length s"
  by (simp add: skip_def length_dropWhile_le)

lemma gettoken_cases:
  assumes "gettoken s = (ret, q, eq, s')"
  shows "q = skip s \<and> s' = skip eq \<and>
    (case skip s of
       [] \<Rightarrow> ret = CHR 0x00 \<and> eq = []
     | c # r \<Rightarrow> ret \<noteq> CHR 0x00 \<and>
         (if ret = CHR ''a'' then \<not> special c \<and> eq = dropWhile (\<lambda>c. \<not> special c) r
          else suffix eq r \<and> c \<in> set symbols))"
proof (cases "skip s")
  case Nil
  then show ?thesis
    using assms by (auto simp: gettoken_def Let_def)
next
  case (Cons c r)
  have ws: "c \<notin> set whitespace"
    using Cons hd_dropWhile [of "\<lambda>c. c \<in> set whitespace" s] by (simp add: skip_def)
  have sym: "c \<in> set symbols \<longleftrightarrow> c \<in> set ''|();&<'' \<or> c = CHR ''>''"
    by (auto simp: symbols_def)
  show ?thesis
  proof (cases "c \<in> set symbols")
    case True
    then show ?thesis
      using assms Cons unfolding sym
      by (auto simp: gettoken_def Let_def suffix_ConsI symbols_def split: list.splits if_splits)
  next
    case False
    then have "\<not> special c"
      using ws by (simp add: special_def)
    then show ?thesis
      using False assms unfolding sym gettoken_def Let_def Cons by (auto split: if_splits)
  qed
qed

lemma gettoken_length:
  assumes "gettoken s = (ret, q, eq, s')" "ret \<noteq> CHR 0x00"
  shows "length s' < length s"
proof -
  obtain c r where s: "skip s = c # r"
    using gettoken_cases [OF assms(1)] assms(2) by (cases "skip s") auto
  have "length eq \<le> length r"
    using gettoken_cases [OF assms(1)] s by (auto simp: suffix_length_le length_dropWhile_le split: if_splits)
  then show ?thesis
    using gettoken_cases [OF assms(1)] s skip_length [of s] skip_length [of eq] by simp
qed

text \<open>After a successful \<^verbatim>\<open>peek\<close> there is a token.\<close>

lemma skip_idem [simp]: "skip (skip s) = skip s"
  by (simp add: skip_def)

lemma peek_eq: "peek s toks = (b, s') \<longleftrightarrow> s' = skip s \<and> (b \<longleftrightarrow> skip s \<noteq> [] \<and> hd (skip s) \<in> set toks)"
  by (auto simp: peek_def Let_def split: list.splits)

lemma peek_length: "peek s toks = (b, s') \<Longrightarrow> length s' \<le> length s"
  by (simp add: peek_eq skip_length)

lemma peek_token:
  assumes "peek s toks = (True, s')" "gettoken s' = (ret, q, eq, s'')"
  shows "length s'' < length s" "ret \<noteq> CHR 0x00"
proof -
  have s: "s' = skip s" "skip s \<noteq> []"
    using assms(1) by (auto simp: peek_eq)
  then show r: "ret \<noteq> CHR 0x00"
    using gettoken_cases [OF assms(2)] unfolding s(1) skip_idem by (auto split: list.splits)
  show "length s'' < length s"
    using gettoken_length [OF assms(2) r] s skip_length [of s] by simp
qed

section \<open>The parser\<close>

definition U_RDONLY :: int where "U_RDONLY = 0"
definition U_TRUNC_CREATE :: int where "U_TRUNC_CREATE = 0x001 + 0x200 + 0x400"
definition U_WRONLY_CREATE :: int where "U_WRONLY_CREATE = 0x001 + 0x200"

function parseredirs :: "cmd \<Rightarrow> string \<Rightarrow> cmd parsed" where
  "parseredirs cmd s =
     (let (b, s) = peek s ''<>'' in
      if \<not> b then Parsed cmd s
      else
        let (tok, _, _, s) = gettoken s;
            (t, q, eq, s) = gettoken s in
        if t \<noteq> CHR ''a'' then Perror ''missing file for redirection''
        else if tok = CHR ''<'' then parseredirs (Credir cmd q eq U_RDONLY 0) s
        else if tok = CHR ''>'' then parseredirs (Credir cmd q eq U_TRUNC_CREATE 1) s
        else parseredirs (Credir cmd q eq U_WRONLY_CREATE 1) s)"
  by pat_completeness auto
termination
proof (relation "measure (\<lambda>(cmd, s). length s)", goal_cases)
  case (2 cmd s x b s1 xa tok xb q0 xc eq0 s2 xd t xe q xf eq s3)
  then have "length s2 < length s" "length s3 < length s2"
    using peek_token [of s "''<>''" s1 tok q0 eq0 s2] gettoken_length [of s2 t q eq s3] by auto
  then show ?case by simp
next
  case (3 cmd s x b s1 xa tok xb q0 xc eq0 s2 xd t xe q xf eq s3)
  then have "length s2 < length s" "length s3 < length s2"
    using peek_token [of s "''<>''" s1 tok q0 eq0 s2] gettoken_length [of s2 t q eq s3] by auto
  then show ?case by simp
next
  case (4 cmd s x b s1 xa tok xb q0 xc eq0 s2 xd t xe q xf eq s3)
  then have "length s2 < length s" "length s3 < length s2"
    using peek_token [of s "''<>''" s1 tok q0 eq0 s2] gettoken_length [of s2 t q eq s3] by auto
  then show ?case by simp
qed simp

declare parseredirs.simps [simp del]

text \<open>\<^verbatim>\<open>parseexec\<close> keeps a pointer to the command it fills in while redirections are wrapped around it.\<close>

primrec set_argv :: "(string \<times> string) list \<Rightarrow> cmd \<Rightarrow> cmd" where
  "set_argv argv (Cexec args) = Cexec argv"
| "set_argv argv (Credir cmd q eq mode fd) = Credir (set_argv argv cmd) q eq mode fd"
| "set_argv argv (Cpipe l r) = Cpipe l r"
| "set_argv argv (Clist l r) = Clist l r"
| "set_argv argv (Cback c) = Cback c"

text \<open>The loop of \<^verbatim>\<open>parseexec\<close>, with the arguments so far. \<open>parseredirs_length\<close> makes it terminate.\<close>

lemma parseredirs_length: "parseredirs cmd s = Parsed c s' \<Longrightarrow> length s' \<le> length s"
proof (induction cmd s rule: parseredirs.induct)
  case (1 cmd s)
  obtain b s1 where p: "peek s ''<>'' = (b, s1)"
    by fastforce
  obtain tok q0 eq0 s2 where g1: "gettoken s1 = (tok, q0, eq0, s2)"
    by (cases "gettoken s1") auto
  obtain t q eq s3 where g2: "gettoken s2 = (t, q, eq, s3)"
    by (cases "gettoken s2") auto
  show ?case
  proof (cases b)
    case False
    then show ?thesis
      using "1.prems" p skip_length [of s] by (auto simp: parseredirs.simps [of cmd s] peek_eq)
  next
    case True
    then have t: "t = CHR ''a''"
      using "1.prems" p g1 g2 by (auto simp: parseredirs.simps [of cmd s] split: if_splits)
    have l: "length s3 < length s"
      using peek_token(1) [of s "''<>''" s1 tok q0 eq0 s2] gettoken_length [OF g2] p g1 True t by simp
    obtain m fd where "parseredirs (Credir cmd q eq m fd) s3 = Parsed c s'"
      "parseredirs (Credir cmd q eq m fd) s3 = Parsed c s' \<Longrightarrow> length s' \<le> length s3"
      using "1.prems" p g1 g2 True t "1.IH"(1) [OF p [symmetric] refl _ g1 [symmetric] refl refl refl g2 [symmetric] refl refl refl]
        "1.IH"(2) [OF p [symmetric] refl _ g1 [symmetric] refl refl refl g2 [symmetric] refl refl refl]
        "1.IH"(3) [OF p [symmetric] refl _ g1 [symmetric] refl refl refl g2 [symmetric] refl refl refl]
      by (auto simp: parseredirs.simps [of cmd s] split: if_splits)
    then show ?thesis
      using l by simp
  qed
qed

function parseargs :: "(string \<times> string) list \<Rightarrow> cmd \<Rightarrow> string \<Rightarrow> cmd parsed" where
  "parseargs argv ret s =
     (let (b, s) = peek s ''|)&;'' in
      if b then Parsed (set_argv argv ret) s
      else
        let (tok, q, eq, s) = gettoken s in
        if tok = CHR 0x00 then Parsed (set_argv argv ret) s
        else if tok \<noteq> CHR ''a'' then Perror ''syntax''
        else
          let argv = argv @ [(q, eq)] in
          if length argv \<ge> MAXARGS then Perror ''too many args''
          else case parseredirs ret s of
            Parsed ret s \<Rightarrow> parseargs argv ret s
          | Perror e \<Rightarrow> Perror e
          | Deep \<Rightarrow> Deep)"
  by pat_completeness auto
termination
proof (relation "measure (\<lambda>(argv, ret, s). length s)", goal_cases)
  case (2 argv ret s x b s1 xa tok xb q xc eq s2 argv' ret' s3)
  then have "length s1 \<le> length s" "length s2 < length s1" "length s3 \<le> length s2"
    using peek_length [of s "''|)&;''" b s1] gettoken_length [of s1 tok q eq s2] parseredirs_length [of ret s2 ret' s3] by auto
  then show ?case by simp
qed simp

declare parseargs.simps [simp del]

function parseback :: "cmd \<Rightarrow> string \<Rightarrow> cmd \<times> string" where
  "parseback cmd s =
     (let (b, s) = peek s ''&'' in
      if b then let (_, _, _, s) = gettoken s in parseback (Cback cmd) s
      else (cmd, s))"
  by pat_completeness auto
termination
proof (relation "measure (\<lambda>(cmd, s). length s)", goal_cases)
  case (2 cmd s x b s1 xa tok xb q xc eq s2)
  then show ?case
    using peek_token [of s "''&''" s1 tok q eq s2] by auto
qed simp

declare parseback.simps [simp del]

fun parseline :: "nat \<Rightarrow> string \<Rightarrow> cmd parsed"
  and parsepipe :: "nat \<Rightarrow> string \<Rightarrow> cmd parsed"
  and parseexec :: "nat \<Rightarrow> string \<Rightarrow> cmd parsed"
  and parseblock :: "nat \<Rightarrow> string \<Rightarrow> cmd parsed" where
  "parseline 0 s = Deep"
| "parseline (Suc n) s =
     pbind (parsepipe n s) (\<lambda>cmd s.
     let (cmd, s) = parseback cmd s;
         (b, s) = peek s '';'' in
     if b then
       let (_, _, _, s) = gettoken s in pbind (parseline n s) (\<lambda>r s. Parsed (Clist cmd r) s)
     else Parsed cmd s)"
| "parsepipe 0 s = Deep"
| "parsepipe (Suc n) s =
     pbind (parseexec n s) (\<lambda>cmd s.
     let (b, s) = peek s ''|'' in
     if b then
       let (_, _, _, s) = gettoken s in pbind (parsepipe n s) (\<lambda>r s. Parsed (Cpipe cmd r) s)
     else Parsed cmd s)"
| "parseexec 0 s = Deep"
| "parseexec (Suc n) s =
     (let (b, s) = peek s ''('' in
      if b then parseblock n s
      else pbind (parseredirs (Cexec []) s) (parseargs []))"
| "parseblock 0 s = Deep"
| "parseblock (Suc n) s =
     (let (b, s) = peek s ''('' in
      if \<not> b then Perror ''parseblock''
      else
        let (_, _, _, s) = gettoken s in
        pbind (parseline n s) (\<lambda>cmd s.
        let (b, s) = peek s '')'' in
        if \<not> b then Perror ''syntax - missing )''
        else let (_, _, _, s) = gettoken s in parseredirs cmd s))"

text \<open>Writing the NULs: \<open>buf\<close> is the whole line, and a pointer is known by how much is left after it. A
  NUL at the end of the line is there already.\<close>

primrec nulterminate :: "cmd \<Rightarrow> string \<Rightarrow> string" where
  "nulterminate (Cexec argv) buf = fold (\<lambda>(q, eq) b. b[length b - length eq := CHR 0x00]) argv buf"
| "nulterminate (Credir cmd q eq mode fd) buf =
     (let b = nulterminate cmd buf in b[length b - length eq := CHR 0x00])"
| "nulterminate (Cpipe l r) buf = nulterminate r (nulterminate l buf)"
| "nulterminate (Clist l r) buf = nulterminate r (nulterminate l buf)"
| "nulterminate (Cback c) buf = nulterminate c buf"

text \<open>The command and the line with its NULs.\<close>

definition parsecmd :: "string \<Rightarrow> (cmd \<times> string) parsed" where
  "parsecmd s =
     pbind (parseline (4 * length s + 4) s) (\<lambda>cmd r.
     let (_, r) = peek r [] in
     if r \<noteq> [] then Perror ''syntax'' else Parsed (cmd, nulterminate cmd s) r)"

section \<open>Well-formed commands\<close>

text \<open>A pair of pointers delimits a word of the line: no character of it is special, and it ends at a
  special character or at the end of the line.\<close>

definition word_in :: "string \<Rightarrow> string \<times> string \<Rightarrow> bool" where
  "word_in line p \<longleftrightarrow> suffix (fst p) line \<and> (\<exists>w. fst p = w @ snd p \<and> w \<noteq> [] \<and> (\<forall>c\<in>set w. \<not> special c)) \<and>
     (snd p = [] \<or> special (hd (snd p)))"

primrec cmd_wf :: "string \<Rightarrow> cmd \<Rightarrow> bool" where
  "cmd_wf line (Cexec argv) \<longleftrightarrow> length argv < MAXARGS \<and> (\<forall>p\<in>set argv. word_in line p)"
| "cmd_wf line (Credir c q eq mode fd) \<longleftrightarrow> cmd_wf line c \<and> word_in line (q, eq) \<and>
     (mode, fd) \<in> {(U_RDONLY, 0), (U_TRUNC_CREATE, 1), (U_WRONLY_CREATE, 1)}"
| "cmd_wf line (Cpipe l r) \<longleftrightarrow> cmd_wf line l \<and> cmd_wf line r"
| "cmd_wf line (Clist l r) \<longleftrightarrow> cmd_wf line l \<and> cmd_wf line r"
| "cmd_wf line (Cback c) \<longleftrightarrow> cmd_wf line c"

lemma word_in_suffix: "word_in s p \<Longrightarrow> suffix s line \<Longrightarrow> word_in line p"
  by (meson word_in_def suffix_order.trans)

lemma cmd_wf_suffix: "cmd_wf s c \<Longrightarrow> suffix s line \<Longrightarrow> cmd_wf line c"
  by (induction c) (auto dest: word_in_suffix)

lemma skip_suffix: "suffix (skip s) s"
  by (simp add: skip_def suffix_dropWhile)

lemma gettoken_suffix:
  assumes "gettoken s = (ret, q, eq, s')"
  shows "suffix s' s" "ret = CHR ''a'' \<Longrightarrow> word_in s (q, eq)"
proof -
  have e: "suffix eq (skip s)"
    using gettoken_cases [OF assms] by (auto simp: suffix_ConsI suffix_dropWhile split: list.splits if_splits)
  then show "suffix s' s"
    using gettoken_cases [OF assms] skip_suffix suffix_order.trans by metis
  assume "ret = CHR ''a''"
  then obtain c r where s: "q = c # r" "skip s = c # r" "\<not> special c" "eq = dropWhile (\<lambda>c. \<not> special c) r"
    using gettoken_cases [OF assms] by (auto split: list.splits)
  then have "q = (c # takeWhile (\<lambda>c. \<not> special c) r) @ eq" "\<forall>d \<in> set (c # takeWhile (\<lambda>c. \<not> special c) r). \<not> special d"
    by (auto dest: set_takeWhileD)
  moreover have "eq = [] \<or> special (hd eq)"
    using s(4) hd_dropWhile [of "\<lambda>c. \<not> special c" r] by auto
  moreover have "suffix q s"
    using skip_suffix [of s] s(1,2) by simp
  ultimately show "word_in s (q, eq)"
    unfolding word_in_def fst_conv snd_conv by blast
qed

definition redir_mode :: "char \<Rightarrow> int" where
  "redir_mode tok = (if tok = CHR ''<'' then U_RDONLY else if tok = CHR ''>'' then U_TRUNC_CREATE else U_WRONLY_CREATE)"

definition redir_fd :: "char \<Rightarrow> nat" where
  "redir_fd tok = (if tok = CHR ''<'' then 0 else 1)"

lemma gettoken_skip [simp]: "gettoken (skip s) = gettoken s"
  by (simp add: gettoken_def)

text \<open>The first character that is not white space; NUL at the end.\<close>

definition ahead :: "string \<Rightarrow> char" where
  "ahead s = (case skip s of [] \<Rightarrow> CHR 0x00 | c # _ \<Rightarrow> c)"

lemma peek_ahead: "CHR 0x00 \<notin> set toks \<Longrightarrow> peek s toks = (ahead s \<in> set toks, skip s)"
  by (auto simp: peek_def ahead_def Let_def split: list.splits)

lemma parseredirs_eq:
  "parseredirs cmd s =
     (if ahead s \<in> {CHR ''<'', CHR ''>''}
      then case gettoken s of (tok, _, _, s1) \<Rightarrow> case gettoken s1 of (t, q, eq, s2) \<Rightarrow>
        if t = CHR ''a'' then parseredirs (Credir cmd q eq (redir_mode tok) (redir_fd tok)) s2
        else Perror ''missing file for redirection''
      else Parsed cmd (skip s))"
  by (simp add: parseredirs.simps [of cmd s] peek_ahead redir_mode_def redir_fd_def split: prod.splits)

lemma ahead_token: "gettoken s = (tok, q, eq, s') \<Longrightarrow> ahead s \<noteq> CHR 0x00 \<Longrightarrow> tok \<noteq> CHR 0x00 \<and> length s' < length s"
  using gettoken_cases [of s tok q eq s'] gettoken_length [of s tok q eq s'] by (auto simp: ahead_def split: list.splits)

lemma parseredirs_wf:
  "parseredirs cmd s = Parsed c s' \<Longrightarrow> cmd_wf line cmd \<Longrightarrow> suffix s line \<Longrightarrow> cmd_wf line c \<and> suffix s' s"
proof (induction "length s" arbitrary: cmd s rule: less_induct)
  case less
  show ?case
  proof (cases "ahead s \<in> {CHR ''<'', CHR ''>''}")
    case True
    obtain tok q0 eq0 s1 where g1: "gettoken s = (tok, q0, eq0, s1)"
      by (cases "gettoken s") auto
    obtain t q eq s2 where g2: "gettoken s1 = (t, q, eq, s2)"
      by (cases "gettoken s1") auto
    have t: "t = CHR ''a''" and r: "parseredirs (Credir cmd q eq (redir_mode tok) (redir_fd tok)) s2 = Parsed c s'"
      using less.prems(1) True g1 g2 by (auto simp: parseredirs_eq [of cmd s] split: if_splits)
    have l: "length s2 < length s"
      using ahead_token [OF g1] gettoken_length [OF g2] t True by auto
    have s: "suffix s1 s" "suffix s2 s1"
      using gettoken_suffix(1) [OF g1] gettoken_suffix(1) [OF g2] by auto
    then have "word_in line (q, eq)" "suffix s2 line" "suffix s2 s"
      using word_in_suffix gettoken_suffix(2) [OF g2 t] less.prems(3) suffix_order.trans by blast+
    moreover from this have "cmd_wf line c \<and> suffix s' s2"
      using less.hyps [OF l r] less.prems(2) by (auto simp: redir_mode_def redir_fd_def)
    ultimately show ?thesis
      using suffix_order.trans by blast
  next
    case False
    then show ?thesis
      using less.prems skip_suffix by (auto simp: parseredirs_eq [of cmd s])
  qed
qed

primrec chain :: "cmd \<Rightarrow> bool" where
  "chain (Cexec args) = True"
| "chain (Credir c q eq mode fd) = chain c"
| "chain (Cpipe l r) = False"
| "chain (Clist l r) = False"
| "chain (Cback c) = False"

lemma set_argv_wf:
  "chain c \<Longrightarrow> cmd_wf line c \<Longrightarrow> length argv < MAXARGS \<Longrightarrow> \<forall>p\<in>set argv. word_in line p \<Longrightarrow> cmd_wf line (set_argv argv c)"
  by (induction c) auto

lemma parseredirs_chain: "parseredirs cmd s = Parsed c s' \<Longrightarrow> chain c = chain cmd"
proof (induction "length s" arbitrary: cmd s rule: less_induct)
  case less
  obtain tok q0 eq0 s1 where g1: "gettoken s = (tok, q0, eq0, s1)"
    by (cases "gettoken s") auto
  obtain t q eq s2 where g2: "gettoken s1 = (t, q, eq, s2)"
    by (cases "gettoken s1") auto
  show ?case
  proof (cases "ahead s \<in> {CHR ''<'', CHR ''>''}")
    case True
    then have t: "t = CHR ''a''" and r: "parseredirs (Credir cmd q eq (redir_mode tok) (redir_fd tok)) s2 = Parsed c s'"
      using less.prems g1 g2 by (auto simp: parseredirs_eq [of cmd s] split: if_splits)
    have "length s2 < length s"
      using ahead_token [OF g1] gettoken_length [OF g2] t True by auto
    then show ?thesis
      using less.hyps [OF _ r] by simp
  qed (use less.prems in \<open>auto simp: parseredirs_eq [of cmd s]\<close>)
qed

lemma parseargs_eq:
  "parseargs argv ret s =
     (if ahead s \<in> set ''|)&;'' then Parsed (set_argv argv ret) (skip s)
      else case gettoken s of (tok, q, eq, s1) \<Rightarrow>
        if tok = CHR 0x00 then Parsed (set_argv argv ret) s1
        else if tok \<noteq> CHR ''a'' then Perror ''syntax''
        else if Suc (length argv) \<ge> MAXARGS then Perror ''too many args''
        else pbind (parseredirs ret s1) (\<lambda>ret s. parseargs (argv @ [(q, eq)]) ret s))"
  by (simp add: parseargs.simps [of argv ret s] peek_ahead split: prod.splits parsed.splits)

lemma pbind_Parsed: "pbind x f = Parsed y s \<longleftrightarrow> (\<exists>z s'. x = Parsed z s' \<and> f z s' = Parsed y s)"
  by (cases x) auto

lemma pbind_Deep: "pbind x f = Deep \<longleftrightarrow> x = Deep \<or> (\<exists>z s'. x = Parsed z s' \<and> f z s' = Deep)"
  by (cases x) auto

lemma parseargs_wf:
  "parseargs argv ret s = Parsed c s' \<Longrightarrow> chain ret \<Longrightarrow> cmd_wf line ret \<Longrightarrow> suffix s line \<Longrightarrow>
   length argv < MAXARGS \<Longrightarrow> \<forall>p\<in>set argv. word_in line p \<Longrightarrow> cmd_wf line c \<and> suffix s' s"
proof (induction "length s" arbitrary: argv ret s rule: less_induct)
  case less
  obtain tok q eq s1 where g: "gettoken s = (tok, q, eq, s1)"
    by (cases "gettoken s") auto
  consider "ahead s \<in> set ''|)&;''" | "ahead s \<notin> set ''|)&;''" "tok = CHR 0x00" | "ahead s \<notin> set ''|)&;''" "tok \<noteq> CHR 0x00"
    by blast
  then show ?case
  proof cases
    case 1
    then show ?thesis
      using less.prems skip_suffix by (auto simp: parseargs_eq [of argv ret s] set_argv_wf)
  next
    case 2
    then show ?thesis
      using less.prems g gettoken_suffix(1) [OF g] by (auto simp: parseargs_eq [of argv ret s] set_argv_wf)
  next
    case 3
    then obtain ret2 s2 where t: "tok = CHR ''a''" "Suc (length argv) < MAXARGS" "parseredirs ret s1 = Parsed ret2 s2"
      "parseargs (argv @ [(q, eq)]) ret2 s2 = Parsed c s'"
      using less.prems(1) g by (auto simp: parseargs_eq [of argv ret s] pbind_Parsed split: if_splits)
    have w: "suffix s1 s" "word_in line (q, eq)" "suffix s1 line"
      using gettoken_suffix [OF g] t(1) less.prems(4) word_in_suffix suffix_order.trans by blast+
    have r: "cmd_wf line ret2" "suffix s2 s1" "chain ret2"
      using parseredirs_wf [OF t(3) less.prems(3) w(3)] parseredirs_chain [OF t(3)] less.prems(2) by auto
    have "length s2 < length s"
      using gettoken_length [OF g 3(2)] suffix_length_le [OF r(2)] by simp
    then have "cmd_wf line c \<and> suffix s' s2"
      using less.hyps [OF _ t(4)] r w t(2) less.prems(6) suffix_order.trans [OF r(2) w(3)] by auto
    then show ?thesis
      using r(2) w(1) suffix_order.trans by blast
  qed
qed

lemma parseback_eq:
  "parseback cmd s =
     (if ahead s = CHR ''&'' then case gettoken s of (_, _, _, s1) \<Rightarrow> parseback (Cback cmd) s1 else (cmd, skip s))"
  by (simp add: parseback.simps [of cmd s] peek_ahead split: prod.splits)

lemma parseback_wf: "parseback cmd s = (c, s') \<Longrightarrow> cmd_wf line cmd \<Longrightarrow> cmd_wf line c \<and> suffix s' s"
proof (induction "length s" arbitrary: cmd s rule: less_induct)
  case less
  obtain tok q eq s1 where g: "gettoken s = (tok, q, eq, s1)"
    by (cases "gettoken s") auto
  show ?case
  proof (cases "ahead s = CHR ''&''")
    case True
    then have "parseback (Cback cmd) s1 = (c, s')" "length s1 < length s"
      using less.prems(1) g ahead_token [OF g] by (auto simp: parseback_eq [of cmd s])
    then show ?thesis
      using less.hyps [of s1 "Cback cmd"] less.prems(2) gettoken_suffix(1) [OF g] suffix_order.trans by auto
  qed (use less.prems skip_suffix in \<open>auto simp: parseback_eq [of cmd s]\<close>)
qed

text \<open>The four routines with the characters they look at.\<close>

definition after_token :: "string \<Rightarrow> string" where
  "after_token s = (case gettoken s of (_, _, _, s1) \<Rightarrow> s1)"

lemma parse_eqs:
  "parseline (Suc n) s =
     pbind (parsepipe n s) (\<lambda>cmd s.
       case parseback cmd s of (cmd, s) \<Rightarrow>
       if ahead s = CHR '';'' then pbind (parseline n (after_token s)) (\<lambda>r s. Parsed (Clist cmd r) s)
       else Parsed cmd (skip s))"
  "parsepipe (Suc n) s =
     pbind (parseexec n s) (\<lambda>cmd s.
       if ahead s = CHR ''|'' then pbind (parsepipe n (after_token s)) (\<lambda>r s. Parsed (Cpipe cmd r) s)
       else Parsed cmd (skip s))"
  "parseexec (Suc n) s =
     (if ahead s = CHR ''('' then parseblock n (skip s) else pbind (parseredirs (Cexec []) (skip s)) (parseargs []))"
  "parseblock (Suc n) s =
     (if ahead s = CHR ''('' then
        pbind (parseline n (after_token s)) (\<lambda>cmd s.
          if ahead s \<noteq> CHR '')'' then Perror ''syntax - missing )'' else parseredirs cmd (after_token s))
      else Perror ''parseblock'')"
  by (simp_all add: peek_ahead after_token_def split_def Let_def cong: if_cong)

declare parseline.simps [simp del] parsepipe.simps [simp del] parseexec.simps [simp del] parseblock.simps [simp del]

lemma zero_bound [simp]: "parseline 0 s = Deep" "parsepipe 0 s = Deep" "parseexec 0 s = Deep" "parseblock 0 s = Deep"
  by (simp_all add: parseline.simps parsepipe.simps parseexec.simps parseblock.simps)

lemma after_token:
  "suffix (after_token s) s" "ahead s \<noteq> CHR 0x00 \<Longrightarrow> length (after_token s) < length s"
  using gettoken_suffix(1) [of s] ahead_token [of s] by (auto simp: after_token_def split: prod.splits)

definition good :: "string \<Rightarrow> cmd parsed \<Rightarrow> bool" where
  "good s r \<longleftrightarrow> (\<forall>c s'. r = Parsed c s' \<longrightarrow> cmd_wf s c \<and> suffix s' s)"

lemma good_suffix: "good s r \<Longrightarrow> suffix s line \<Longrightarrow> good line r"
  unfolding good_def using cmd_wf_suffix suffix_order.trans by blast

lemma good_Parsed: "good s (Parsed c s') \<longleftrightarrow> cmd_wf s c \<and> suffix s' s"
  by (simp add: good_def)

lemma good_Perror [simp]: "good s (Perror e)" "good s Deep"
  by (simp_all add: good_def)

lemma good_bind:
  assumes "good s r" "\<And>c s'. r = Parsed c s' \<Longrightarrow> cmd_wf s c \<Longrightarrow> suffix s' s \<Longrightarrow> good s (f c s')"
  shows "good s (pbind r f)"
  using assms by (cases r) (auto simp: good_Parsed)

lemma good_redirs: "cmd_wf s cmd \<Longrightarrow> suffix s1 s \<Longrightarrow> good s (parseredirs cmd s1)"
  unfolding good_def using parseredirs_wf suffix_order.trans by blast

lemma good_args: "suffix s1 s \<Longrightarrow> cmd_wf s ret \<Longrightarrow> chain ret \<Longrightarrow> good s (parseargs [] ret s1)"
  unfolding good_def using parseargs_wf [of "[]" ret s1 _ _ s] suffix_order.trans by (auto simp: MAXARGS_def)

lemma good_tail: "good (after_token s') r \<Longrightarrow> suffix s' s \<Longrightarrow> good s r"
  using good_suffix after_token(1) suffix_order.trans by blast

lemma parser_good:
  "good s (parseline n s) \<and> good s (parsepipe n s) \<and> good s (parseexec n s) \<and> good s (parseblock n s)"
proof (induction n arbitrary: s)
  case (Suc n)
  have IH: "good s (parseline n s)" "good s (parsepipe n s)" "good s (parseexec n s)" "good s (parseblock n s)" for s
    using Suc by blast+
  show ?case
  proof (intro conjI)
    show "good s (parseline (Suc n) s)"
      unfolding parse_eqs
    proof (rule good_bind [OF IH(2)])
      fix c s1
      assume c: "cmd_wf s c" "suffix s1 s"
      obtain c2 s2 where b: "parseback c s1 = (c2, s2)"
        by fastforce
      then have c2: "cmd_wf s c2" "suffix s2 s"
        using parseback_wf [OF b c(1)] c(2) suffix_order.trans by blast+
      have "good s (pbind (parseline n (after_token s2)) (\<lambda>r s. Parsed (Clist c2 r) s))"
        using c2 by (intro good_bind good_tail [OF IH(1)]) (auto simp: good_Parsed)
      then show "good s (case parseback c s1 of (c, s) \<Rightarrow>
          if ahead s = CHR '';'' then pbind (parseline n (after_token s)) (\<lambda>r s. Parsed (Clist c r) s) else Parsed c (skip s))"
        using b c2 skip_suffix suffix_order.trans by (auto simp: good_Parsed)
    qed
    show "good s (parsepipe (Suc n) s)"
      unfolding parse_eqs
    proof (rule good_bind [OF IH(3)])
      fix c s1
      assume c: "cmd_wf s c" "suffix s1 s"
      have "good s (pbind (parsepipe n (after_token s1)) (\<lambda>r s. Parsed (Cpipe c r) s))"
        using c by (intro good_bind good_tail [OF IH(2)]) (auto simp: good_Parsed)
      then show "good s (if ahead s1 = CHR ''|'' then pbind (parsepipe n (after_token s1)) (\<lambda>r s. Parsed (Cpipe c r) s)
          else Parsed c (skip s1))"
        using c skip_suffix suffix_order.trans by (auto simp: good_Parsed)
    qed
    have "good s (pbind (parseredirs (Cexec []) (skip s)) (parseargs []))"
      using parseredirs_chain
      by (intro good_bind good_redirs good_args) (auto simp: skip_suffix MAXARGS_def)
    then show "good s (parseexec (Suc n) s)"
      using good_suffix [OF IH(4) skip_suffix] by (auto simp: parse_eqs)
    have "good s (pbind (parseline n (after_token s)) (\<lambda>cmd s.
            if ahead s \<noteq> CHR '')'' then Perror ''syntax - missing )'' else parseredirs cmd (after_token s)))"
    proof (rule good_bind [OF good_tail [OF IH(1)]])
      fix c s1
      assume "cmd_wf s c" "suffix s1 s"
      then show "good s (if ahead s1 \<noteq> CHR '')'' then Perror ''syntax - missing )'' else parseredirs c (after_token s1))"
        using good_redirs [of s c "after_token s1"] suffix_order.trans [OF after_token(1) [of s1], of s] by auto
    qed simp
    then show "good s (parseblock (Suc n) s)"
      by (auto simp: parse_eqs)
  qed
qed simp

lemma parseredirs_not_Deep: "parseredirs cmd s \<noteq> Deep"
proof (induction "length s" arbitrary: cmd s rule: less_induct)
  case less
  obtain tok q0 eq0 s1 where g1: "gettoken s = (tok, q0, eq0, s1)"
    by (cases "gettoken s") auto
  obtain t q eq s2 where g2: "gettoken s1 = (t, q, eq, s2)"
    by (cases "gettoken s1") auto
  have "length s2 < length s" if "ahead s \<in> {CHR ''<'', CHR ''>''}" "t = CHR ''a''"
    using that ahead_token [OF g1] gettoken_length [OF g2] by auto
  then show ?case
    using less g1 g2 by (auto simp: parseredirs_eq [of cmd s])
qed

lemma parseargs_not_Deep: "parseargs argv ret s \<noteq> Deep"
proof (induction "length s" arbitrary: argv ret s rule: less_induct)
  case less
  obtain tok q eq s1 where g: "gettoken s = (tok, q, eq, s1)"
    by (cases "gettoken s") auto
  have "length s2 < length s" if "tok \<noteq> CHR 0x00" "parseredirs ret s1 = Parsed ret2 s2" for ret2 s2
    using that gettoken_length [OF g] parseredirs_length [of ret s1 ret2 s2] by auto
  then show ?case
    using less g parseredirs_not_Deep by (auto simp: parseargs_eq [of argv ret s] pbind_Deep)
qed

lemma parser_not_Deep:
  "(4 * length s + 4 \<le> n \<longrightarrow> parseline n s \<noteq> Deep) \<and>
   (4 * length s + 3 \<le> n \<longrightarrow> parsepipe n s \<noteq> Deep) \<and>
   (4 * length s + 2 \<le> n \<longrightarrow> parseexec n s \<noteq> Deep) \<and>
   (4 * length s + 1 \<le> n \<longrightarrow> parseblock n s \<noteq> Deep)"
proof (induction n arbitrary: s)
  case (Suc n)
  have short: "4 * length (after_token s') + 4 \<le> n" if "suffix s' s" "ahead s' \<noteq> CHR 0x00" "4 * length s \<le> n" for s'
    using after_token(2) [OF that(2)] suffix_length_le [OF that(1)] that(3) by simp
  have IH: "4 * length s + 4 \<le> n \<Longrightarrow> parseline n s \<noteq> Deep" "4 * length s + 3 \<le> n \<Longrightarrow> parsepipe n s \<noteq> Deep"
    "4 * length s + 2 \<le> n \<Longrightarrow> parseexec n s \<noteq> Deep" "4 * length s + 1 \<le> n \<Longrightarrow> parseblock n s \<noteq> Deep" for s
    using Suc by blast+
  have "parseline (Suc n) s \<noteq> Deep" if n: "4 * length s + 4 \<le> Suc n"
  proof -
    have "parseline n (after_token s2) \<noteq> Deep"
      if "parsepipe n s = Parsed c s1" "parseback c s1 = (c2, s2)" "ahead s2 = CHR '';''" for c s1 c2 s2
    proof -
      have "suffix s2 s"
        using parser_good [of s n] that parseback_wf [OF that(2)] suffix_order.trans by (auto simp: good_Parsed)
      then show ?thesis
        using IH(1) short [of s2] that n by auto
    qed
    then show ?thesis
      using IH(2) n by (auto simp: parse_eqs pbind_Deep split: prod.splits)
  qed
  moreover have "parsepipe (Suc n) s \<noteq> Deep" if n: "4 * length s + 3 \<le> Suc n"
  proof -
    have "parsepipe n (after_token s1) \<noteq> Deep" if "parseexec n s = Parsed c s1" "ahead s1 = CHR ''|''" for c s1
      using IH(2) short [of s1] parser_good [of s n] that n by (auto simp: good_Parsed)
    then show ?thesis
      using IH(3) n by (auto simp: parse_eqs pbind_Deep)
  qed
  moreover have "parseexec (Suc n) s \<noteq> Deep" if "4 * length s + 2 \<le> Suc n"
    using IH(4) [of "skip s"] that skip_length [of s] parseredirs_not_Deep parseargs_not_Deep
    by (auto simp: parse_eqs pbind_Deep)
  moreover have "parseblock (Suc n) s \<noteq> Deep" if "4 * length s + 1 \<le> Suc n"
    using IH(1) [of "after_token s"] short [of s] that parseredirs_not_Deep by (auto simp: parse_eqs pbind_Deep)
  ultimately show ?case
    by blast
qed simp

end
