(* ===== verification/Sh_Print.thy ===== *)
theory Sh_Print
  imports Sh
begin

text \<open>
  What the parser of the shell makes of a line: the strings that the commands hold once \<^verbatim>\<open>nulterminate\<close> has
  written its NULs, and that every command can be written as a line from which the parser gets it back.
\<close>

section \<open>The strings of a command\<close>

datatype scmd =
    Sexec "string list"
  | Sredir scmd string int nat
  | Spipe scmd scmd
  | Slist scmd scmd
  | Sback scmd

text \<open>The C string that a pointer into the line stands for.\<close>

definition cstr :: "string \<Rightarrow> string \<Rightarrow> string" where
  "cstr buf q = takeWhile (\<lambda>c. c \<noteq> CHR 0x00) (drop (length buf - length q) buf)"

primrec cmd_view :: "string \<Rightarrow> cmd \<Rightarrow> scmd" where
  "cmd_view buf (Cexec argv) = Sexec (map (\<lambda>(q, eq). cstr buf q) argv)"
| "cmd_view buf (Credir c q eq mode fd) = Sredir (cmd_view buf c) (cstr buf q) mode fd"
| "cmd_view buf (Cpipe l r) = Spipe (cmd_view buf l) (cmd_view buf r)"
| "cmd_view buf (Clist l r) = Slist (cmd_view buf l) (cmd_view buf r)"
| "cmd_view buf (Cback c) = Sback (cmd_view buf c)"

text \<open>What lies between the two pointers of a word.\<close>

definition between :: "string \<times> string \<Rightarrow> string" where
  "between p = take (length (fst p) - length (snd p)) (fst p)"

primrec texts :: "cmd \<Rightarrow> scmd" where
  "texts (Cexec argv) = Sexec (map between argv)"
| "texts (Credir c q eq mode fd) = Sredir (texts c) (between (q, eq)) mode fd"
| "texts (Cpipe l r) = Spipe (texts l) (texts r)"
| "texts (Clist l r) = Slist (texts l) (texts r)"
| "texts (Cback c) = Sback (texts c)"

primrec word_ptrs :: "cmd \<Rightarrow> (string \<times> string) set" where
  "word_ptrs (Cexec argv) = set argv"
| "word_ptrs (Credir c q eq mode fd) = insert (q, eq) (word_ptrs c)"
| "word_ptrs (Cpipe l r) = word_ptrs l \<union> word_ptrs r"
| "word_ptrs (Clist l r) = word_ptrs l \<union> word_ptrs r"
| "word_ptrs (Cback c) = word_ptrs c"

lemma cmd_wf_ptrs: "cmd_wf line c \<Longrightarrow> p \<in> word_ptrs c \<Longrightarrow> word_in line p"
  by (induction c) auto

definition ends :: "nat \<Rightarrow> (string \<times> string) set \<Rightarrow> nat set" where
  "ends n ps = (\<lambda>p. n - length (snd p)) ` ps"

lemma ends_mem: "(q, eq) \<in> ps \<Longrightarrow> n - length eq \<in> ends n ps"
  by (force simp: ends_def)

text \<open>The line with NULs at some places.\<close>

definition nul_at :: "nat set \<Rightarrow> string \<Rightarrow> string" where
  "nul_at I buf = map (\<lambda>i. if i \<in> I then CHR 0x00 else buf ! i) [0..<length buf]"

lemma nul_at_simps [simp]: "length (nul_at I buf) = length buf" "i < length buf \<Longrightarrow> nul_at I buf ! i = (if i \<in> I then CHR 0x00 else buf ! i)"
  by (simp_all add: nul_at_def)

lemma nul_at_empty [simp]: "nul_at {} buf = buf"
  by (simp add: nul_at_def map_nth)

lemma nul_at_nul_at [simp]: "nul_at I (nul_at J buf) = nul_at (I \<union> J) buf"
  by (rule nth_equalityI) auto

lemma nul_at_insert: "(nul_at I buf)[k := CHR 0x00] = nul_at (insert k I) buf"
proof (rule nth_equalityI)
  fix i assume "i < length ((nul_at I buf)[k := CHR 0x00])"
  then show "(nul_at I buf)[k := CHR 0x00] ! i = nul_at (insert k I) buf ! i"
    by (cases "i = k") auto
qed simp

lemma nulterminate_nul_at: "nulterminate c buf = nul_at (ends (length buf) (word_ptrs c)) buf"
proof (induction c arbitrary: buf)
  case (Cexec argv)
  have "fold (\<lambda>(q, eq) b. b[length b - length eq := CHR 0x00]) argv (nul_at I buf) =
      nul_at (ends (length buf) (set argv) \<union> I) buf" for I
    by (induction argv arbitrary: I) (auto simp: ends_def nul_at_insert)
  from this [of "{}"] show ?case
    by simp
next
  case (Credir c q eq mode fd)
  then show ?case
    by (simp add: nul_at_insert ends_def)
qed (simp_all add: ends_def image_Un Un_commute)

lemma ends_special:
  assumes "word_in line p" "length line - length (snd p) < length line"
  shows "special (line ! (length line - length (snd p)))"
proof -
  obtain w where w: "fst p = w @ snd p" "suffix (fst p) line" "snd p = [] \<or> special (hd (snd p))"
    using assms(1) unfolding word_in_def by blast
  then obtain pre where "line = pre @ w @ snd p"
    unfolding suffix_def by auto
  moreover have "snd p \<noteq> []"
    using assms(2) by auto
  ultimately show ?thesis
    using w(3) by (simp add: nth_append hd_conv_nth)
qed

lemma cstr_word:
  assumes "word_in line (q, eq)" "length line - length eq \<in> I" "CHR 0x00 \<notin> set line"
    "\<And>i. i \<in> I \<Longrightarrow> i < length line \<Longrightarrow> special (line ! i)"
  shows "cstr (nul_at I line) q = between (q, eq)"
proof -
  obtain w pre where w: "q = w @ eq" "line = pre @ w @ eq" "\<forall>c\<in>set w. \<not> special c"
    using assms(1) unfolding word_in_def suffix_def by auto
  let ?b = "nul_at I line"
  have "drop (length pre) ?b = w @ drop (length pre + length w) ?b"
  proof (rule nth_equalityI)
    fix i assume i: "i < length (drop (length pre) ?b)"
    show "drop (length pre) ?b ! i = (w @ drop (length pre + length w) ?b) ! i"
    proof (cases "i < length w")
      case True
      then have l: "length pre + i < length line" "line ! (length pre + i) = w ! i"
        using w(2) by (simp_all add: nth_append)
      then have "length pre + i \<notin> I"
        using assms(4) w(3) True nth_mem by metis
      then show ?thesis
        using True l i by (simp add: nth_append)
    qed (use i in \<open>simp add: nth_append\<close>)
  qed (simp add: w(2))
  moreover have "drop (length pre + length w) ?b = [] \<or> hd (drop (length pre + length w) ?b) = CHR 0x00"
    using assms(2) w(2) by (cases eq) (auto simp: hd_drop_conv_nth)
  moreover have "length ?b - length q = length pre"
    using w by simp
  ultimately have "cstr ?b q = takeWhile (\<lambda>c. c \<noteq> CHR 0x00) (w @ drop (length pre + length w) ?b)"
    "takeWhile (\<lambda>c. c \<noteq> CHR 0x00) (drop (length pre + length w) ?b) = []"
    by (auto simp: cstr_def takeWhile_eq_Nil_iff)
  moreover have "CHR 0x00 \<notin> set w"
    using assms(3) w(2) by auto
  ultimately show ?thesis
    using w(1) by (auto simp: takeWhile_append between_def)
qed

lemma cmd_view_nulterminate:
  assumes "cmd_wf line c" "CHR 0x00 \<notin> set line"
  shows "cmd_view (nulterminate c line) c = texts c"
proof -
  let ?I = "ends (length line) (word_ptrs c)"
  have sp: "special (line ! i)" if i: "i \<in> ?I" "i < length line" for i
  proof -
    obtain p where "p \<in> word_ptrs c" "i = length line - length (snd p)"
      using i(1) by (auto simp: ends_def)
    then show ?thesis
      using i(2) ends_special [OF cmd_wf_ptrs [OF assms(1)]] by blast
  qed
  have "cmd_view (nul_at ?I line) d = texts d" if "cmd_wf line d" "word_ptrs d \<subseteq> word_ptrs c" for d
    using that
  proof (induction d)
    case (Cexec argv)
    have "cstr (nul_at ?I line) q = between (q, eq)" if "(q, eq) \<in> set argv" for q eq
      using that Cexec assms(2) sp by (intro cstr_word ends_mem) auto
    then show ?case
      by auto
  next
    case (Credir d q eq mode fd)
    have "cstr (nul_at ?I line) q = between (q, eq)"
      using Credir.prems assms(2) sp by (intro cstr_word ends_mem) auto
    then show ?case
      using Credir by auto
  qed auto
  then show ?thesis
    using assms(1) by (simp add: nulterminate_nul_at)
qed

primrec scmd_ok :: "scmd \<Rightarrow> bool" where
  "scmd_ok (Sexec ws) \<longleftrightarrow> length ws < MAXARGS \<and> (\<forall>w\<in>set ws. w \<noteq> [] \<and> (\<forall>c\<in>set w. \<not> special c))"
| "scmd_ok (Sredir c f mode fd) \<longleftrightarrow> scmd_ok c \<and> f \<noteq> [] \<and> (\<forall>c\<in>set f. \<not> special c) \<and>
     (mode, fd) \<in> {(U_RDONLY, 0), (U_TRUNC_CREATE, 1), (U_WRONLY_CREATE, 1)}"
| "scmd_ok (Spipe l r) \<longleftrightarrow> scmd_ok l \<and> scmd_ok r"
| "scmd_ok (Slist l r) \<longleftrightarrow> scmd_ok l \<and> scmd_ok r"
| "scmd_ok (Sback c) \<longleftrightarrow> scmd_ok c"

lemma word_in_between: "word_in line p \<Longrightarrow> between p \<noteq> [] \<and> (\<forall>c\<in>set (between p). \<not> special c)"
  by (cases p) (auto simp: word_in_def between_def)

lemma cmd_wf_texts: "cmd_wf line c \<Longrightarrow> scmd_ok (texts c)"
  by (induction c) (auto dest: word_in_between)

lemma parsecmd_Parsed:
  assumes "parsecmd line = Parsed (c, buf) r"
  shows "cmd_wf line c \<and> buf = nulterminate c line \<and> (\<exists>s. parseline (4 * length line + 4) line = Parsed c s)"
  using assms parser_good [of line "4 * length line + 4"]
  by (auto simp: parsecmd_def peek_ahead pbind_Parsed good_Parsed split: if_splits)

text \<open>C24: whatever line is typed, a command that the shell gets from it is well-formed: it has fewer than
  \<^verbatim>\<open>MAXARGS\<close> arguments, every redirection has one of the three modes and the descriptor that goes with it,
  and every argument and file name, as a C string in the line after \<^verbatim>\<open>nulterminate\<close>, is exactly the word that
  stood there, not empty and without blanks or operators.\<close>

theorem sh_parse_wf:
  assumes "parsecmd line = Parsed (c, buf) r" "CHR 0x00 \<notin> set line"
  shows "scmd_ok (cmd_view buf c) \<and> cmd_view buf c = texts c \<and> length buf = length line"
proof -
  have c: "cmd_wf line c" "buf = nulterminate c line"
    using parsecmd_Parsed [OF assms(1)] by auto
  then have "cmd_view buf c = texts c"
    using cmd_view_nulterminate [OF c(1) assms(2)] by simp
  then show ?thesis
    using c cmd_wf_texts [OF c(1)] by (simp add: nulterminate_nul_at)
qed

theorem sh_parse_wf_witness:
  "\<exists>c buf r. parsecmd ''ls>f'' = Parsed (c, buf) r \<and> cmd_view buf c = Sredir (Sexec [''ls'']) ''f'' U_TRUNC_CREATE 1 \<and> scmd_ok (cmd_view buf c)"
proof -
  have "parseline 20 ''ls>f'' = Parsed (Credir (Cexec [(''ls>f'', ''>f'')]) ''f'' [] U_TRUNC_CREATE 1) []"
    by code_simp
  then have p: "parsecmd ''ls>f'' = Parsed (Credir (Cexec [(''ls>f'', ''>f'')]) ''f'' [] U_TRUNC_CREATE 1,
      nulterminate (Credir (Cexec [(''ls>f'', ''>f'')]) ''f'' [] U_TRUNC_CREATE 1) ''ls>f'') []"
    by (simp add: parsecmd_def peek_def skip_def)
  then show ?thesis
    using sh_parse_wf [OF p] by (simp add: between_def)
qed

text \<open>C25: the parser of the shell comes to an end on every line: the nesting of its calls stays within four
  for each character, so it always returns a command or one of its error messages.\<close>

theorem sh_parser_terminates:
  "parsecmd line \<noteq> Deep \<and> parseline (4 * length line + 4 + k) line \<noteq> Deep"
  using parser_not_Deep [of line "4 * length line + 4 + k"] parser_not_Deep [of line "4 * length line + 4"]
  by (auto simp: parsecmd_def peek_ahead pbind_Deep)

end
