(* ===== verification/Sh_Roundtrip.thy ===== *)
theory Sh_Roundtrip
  imports Sh_Print
begin

text \<open>
  A printer for commands, and that the parser of the shell inverts it. Every command that obeys the
  limits of the parser can be printed; parentheses go where the grammar needs them.
\<close>

section \<open>Printing\<close>

definition redir_op :: "int \<Rightarrow> nat \<Rightarrow> string" where
  "redir_op mode fd = (if mode = U_RDONLY then '' <'' else if mode = U_TRUNC_CREATE then '' >'' else '' >>'')"

definition paren :: "bool \<Rightarrow> string \<Rightarrow> string" where
  "paren b s = (if b then '' ('' @ s @ '' )'' else s)"

text \<open>The second argument is the place in the grammar: a line (0), what can be sent to the background (1),
  a pipeline (2), or a part of a pipeline (3).\<close>

primrec show_cmd :: "scmd \<Rightarrow> nat \<Rightarrow> string" where
  "show_cmd (Sexec ws) lv = concat (map (\<lambda>w. CHR '' '' # w) ws)"
| "show_cmd (Sredir c f mode fd) lv = show_cmd c 3 @ redir_op mode fd @ CHR '' '' # f"
| "show_cmd (Spipe l r) lv = paren (lv > 2) (show_cmd l 3 @ '' |'' @ show_cmd r 2)"
| "show_cmd (Slist l r) lv = paren (lv > 0) (show_cmd l 1 @ '' ;'' @ show_cmd r 0)"
| "show_cmd (Sback c) lv = paren (lv > 1) (show_cmd c 1 @ '' &'')"

definition wordy :: "string \<Rightarrow> bool" where
  "wordy w \<longleftrightarrow> w \<noteq> [] \<and> (\<forall>c\<in>set w. \<not> special c)"

text \<open>Where a word ends, and which operator may follow.\<close>

definition delim :: "string \<Rightarrow> bool" where
  "delim t \<longleftrightarrow> t = [] \<or> special (hd t)"

definition stops :: "string \<Rightarrow> string \<Rightarrow> bool" where
  "stops cs t \<longleftrightarrow> skip t = [] \<or> hd (skip t) \<in> set cs"

section \<open>Tokens\<close>

lemma blank_char: "CHR '' '' \<in> set whitespace" "special CHR '' ''"
  by (simp_all add: whitespace_def special_def)

lemma not_blank: "\<not> special c \<Longrightarrow> c \<notin> set whitespace" "c \<in> set symbols \<Longrightarrow> c \<notin> set whitespace" "c \<in> set symbols \<Longrightarrow> special c"
  by (auto simp: special_def whitespace_def symbols_def)

lemma skip_simps: "skip (CHR '' '' # s) = skip s" "c \<notin> set whitespace \<Longrightarrow> skip (c # s) = c # s" "skip [] = []"
  using blank_char by (simp_all add: skip_def)

lemma delim_blank [simp]: "delim (CHR '' '' # t)" "delim []"
  by (simp_all add: delim_def blank_char)

lemma ahead_simps: "ahead (CHR '' '' # s) = ahead s" "c \<notin> set whitespace \<Longrightarrow> ahead (c # s) = c" "ahead [] = CHR 0x00"
  by (simp_all add: ahead_def skip_simps)

lemma ahead_skip [simp]: "ahead (skip s) = ahead s"
  by (simp add: ahead_def)

lemma gettoken_blank: "gettoken (CHR '' '' # s) = gettoken s"
  by (simp add: gettoken_def skip_simps)

lemma gettoken_word:
  assumes "wordy w" "delim t"
  shows "gettoken (w @ t) = (CHR ''a'', w @ t, t, skip t)"
proof -
  obtain c r where w: "w = c # r" "\<not> special c"
    using assms(1) by (cases w) (auto simp: wordy_def)
  then have s: "skip (w @ t) = c # (r @ t)"
    by (simp add: skip_simps not_blank)
  have d: "dropWhile (\<lambda>c. \<not> special c) (w @ t) = t"
    using assms by (cases t) (auto simp: wordy_def delim_def dropWhile_append3 dropWhile_append)
  have "c \<notin> set symbols"
    using w(2) by (simp add: special_def)
  then show ?thesis
    using s d w by (simp add: gettoken_def symbols_def)
qed

lemma gettoken_sym: "c \<in> set ''|();&<'' \<Longrightarrow> gettoken (c # s) = (c, c # s, s, skip s)"
  using not_blank(2) [of c] by (auto simp: gettoken_def skip_simps symbols_def)

lemma gettoken_redirs:
  "gettoken (CHR ''>'' # CHR '' '' # s) = (CHR ''>'', CHR ''>'' # CHR '' '' # s, CHR '' '' # s, skip s)"
  "gettoken (CHR ''>'' # CHR ''>'' # s) = (CHR ''+'', CHR ''>'' # CHR ''>'' # s, s, skip s)"
  using not_blank(2) [of "CHR ''>''"] by (auto simp: gettoken_def skip_simps symbols_def)

lemma symbol_blank: "c \<in> set ''|();&<>'' \<Longrightarrow> c \<notin> set whitespace"
  by (auto simp: whitespace_def)

lemma after_sym: "c \<in> set ''|();&<'' \<Longrightarrow> after_token (CHR '' '' # c # s) = skip s" "c \<in> set ''|();&<'' \<Longrightarrow> after_token (c # s) = skip s"
  by (simp_all add: after_token_def gettoken_blank gettoken_sym)

lemma ahead_sym: "c \<in> set ''|();&<>'' \<Longrightarrow> ahead (CHR '' '' # c # s) = c" "c \<in> set ''|();&<>'' \<Longrightarrow> ahead (c # s) = c"
  using symbol_blank [of c] by (simp_all add: ahead_simps)

lemma ahead_word: "wordy w \<Longrightarrow> \<not> special (ahead (w @ t))"
  by (cases w) (auto simp: wordy_def ahead_simps not_blank)

text \<open>Blanks at the beginning make no difference.\<close>

lemma parse_skip:
  "parseredirs c (skip s) = parseredirs c s" "parseargs argv ret (skip s) = parseargs argv ret s"
  "parseback c (skip s) = parseback c s" "parseblock n (skip s) = parseblock n s" "parseexec n (skip s) = parseexec n s"
  "after_token (skip s) = after_token s"
proof -
  show a: "after_token (skip s) = after_token s"
    by (simp add: after_token_def)
  show "parseredirs c (skip s) = parseredirs c s"
    by (simp add: parseredirs_eq [of c s] parseredirs_eq [of c "skip s"])
  show "parseargs argv ret (skip s) = parseargs argv ret s"
    by (simp add: parseargs_eq [of argv ret s] parseargs_eq [of argv ret "skip s"])
  show "parseback c (skip s) = parseback c s"
    by (simp add: parseback_eq [of c s] parseback_eq [of c "skip s"])
  show "parseblock n (skip s) = parseblock n s"
    by (cases n) (simp_all add: parse_eqs a)
  show "parseexec n (skip s) = parseexec n s"
    by (cases n) (simp_all add: parse_eqs)
qed

lemma parse_skip': "parsepipe n (skip s) = parsepipe n s" "parseline n (skip s) = parseline n s"
proof -
  show p: "parsepipe n (skip s) = parsepipe n s" for n
    by (cases n) (simp_all add: parse_eqs parse_skip)
  show "parseline n (skip s) = parseline n s"
    by (cases n) (simp_all add: parse_eqs p)
qed

lemma stops_ahead: "stops cs t \<Longrightarrow> ahead t = CHR 0x00 \<or> ahead t \<in> set cs"
  by (auto simp: stops_def ahead_def split: list.splits)

lemma stops_mono: "stops cs t \<Longrightarrow> set cs \<subseteq> set ds \<Longrightarrow> stops ds t"
  by (auto simp: stops_def)

section \<open>Redirections and arguments\<close>

lemma parseredirs_op:
  assumes "wordy f" "delim t" "(mode, fd) \<in> {(U_RDONLY, 0), (U_TRUNC_CREATE, 1), (U_WRONLY_CREATE, 1)}"
  shows "parseredirs c (redir_op mode fd @ CHR '' '' # f @ t) = parseredirs (Credir c (f @ t) t mode fd) t"
proof -
  have w: "gettoken (skip (f @ t)) = (CHR ''a'', f @ t, t, skip t)"
    using gettoken_word [OF assms(1,2)] by simp
  have n: "U_RDONLY \<noteq> U_TRUNC_CREATE" "U_RDONLY \<noteq> U_WRONLY_CREATE" "U_TRUNC_CREATE \<noteq> U_WRONLY_CREATE"
    by (simp_all add: U_RDONLY_def U_TRUNC_CREATE_def U_WRONLY_CREATE_def)
  consider "mode = U_RDONLY" "fd = 0" | "mode = U_TRUNC_CREATE" "fd = 1" | "mode = U_WRONLY_CREATE" "fd = 1"
    using assms(3) by auto
  then show ?thesis
    using n w
    by cases (simp_all add: redir_op_def parseredirs_eq [of c] ahead_sym gettoken_blank gettoken_sym gettoken_redirs
        skip_simps redir_mode_def redir_fd_def parse_skip)
qed

lemma parseredirs_stop: "ahead t \<notin> {CHR ''<'', CHR ''>''} \<Longrightarrow> parseredirs c t = Parsed c (skip t)"
  by (simp add: parseredirs_eq [of c t])

lemma parseargs_words:
  "ws \<noteq> [] \<Longrightarrow> \<forall>w\<in>set ws. wordy w \<Longrightarrow> delim t \<Longrightarrow> length argv + length ws < MAXARGS \<Longrightarrow>
   \<exists>ps. parseargs argv ret (concat (map (\<lambda>w. CHR '' '' # w) ws) @ t) = pbind (parseredirs ret t) (parseargs (argv @ ps)) \<and>
     map between ps = ws"
proof (induction ws arbitrary: argv)
  case (Cons w ws)
  let ?t = "concat (map (\<lambda>w. CHR '' '' # w) ws) @ t"
  have w: "wordy w" "delim ?t"
    using Cons.prems by (cases ws; simp)+
  let ?p = "(w @ ?t, ?t)"
  have a: "ahead (w @ ?t) \<notin> set ''|)&;''"
    using ahead_word [OF w(1), of ?t] not_blank(3) by (auto simp: symbols_def)
  have l: "Suc (length argv) < MAXARGS"
    using Cons.prems(4) by simp
  have one: "parseargs argv ret (CHR '' '' # w @ ?t) = pbind (parseredirs ret ?t) (parseargs (argv @ [?p]))"
    using a l gettoken_word [OF w] by (simp add: parseargs_eq [of argv] ahead_simps gettoken_blank parse_skip)
  have b: "between ?p = w"
    by (simp add: between_def)
  show ?case
  proof (cases ws)
    case Nil
    then show ?thesis
      using one b by (intro exI [of _ "[?p]"]) simp
  next
    case (Cons v vs)
    then have "wordy v" "?t = CHR '' '' # v @ (concat (map (\<lambda>w. CHR '' '' # w) vs) @ t)"
      using Cons.prems(2) by simp_all
    then have "\<not> special (ahead ?t)"
      using ahead_word [of v] by (simp add: ahead_simps)
    then have "parseredirs ret ?t = Parsed ret (skip ?t)"
      using not_blank(3) by (intro parseredirs_stop) (auto simp: symbols_def)
    moreover obtain ps where "parseargs (argv @ [?p]) ret ?t = pbind (parseredirs ret t) (parseargs ((argv @ [?p]) @ ps))"
      "map between ps = ws"
      using Cons.IH [of "argv @ [?p]"] Cons.prems \<open>ws = v # vs\<close> by auto
    ultimately show ?thesis
      using one b by (intro exI [of _ "?p # ps"]) (simp add: parse_skip)
  qed
qed simp

section \<open>The round trip\<close>

text \<open>A part of a pipeline is read up to its last redirection; \<open>t\<close> is what follows.\<close>

definition reads_part :: "scmd \<Rightarrow> bool" where
  "reads_part a \<longleftrightarrow> (\<forall>n t. 4 * length (show_cmd a 3 @ t) + 2 \<le> n \<and> delim t \<and> stops ''<>|)&;'' t \<longrightarrow>
     (\<exists>c. parseexec n (show_cmd a 3 @ t) = parseredirs c t \<and> texts c = a) \<or>
     (\<exists>c ps. parseexec n (show_cmd a 3 @ t) = pbind (parseredirs c t) (parseargs ps) \<and> chain c \<and> texts (set_argv ps c) = a))"

definition reads_pipe :: "scmd \<Rightarrow> bool" where
  "reads_pipe a \<longleftrightarrow> (\<forall>n t. 4 * length (show_cmd a 2 @ t) + 3 \<le> n \<and> delim t \<and> stops '')&;'' t \<longrightarrow>
     (\<exists>c. parsepipe n (show_cmd a 2 @ t) = Parsed c (skip t) \<and> texts c = a))"

definition reads_back :: "scmd \<Rightarrow> bool" where
  "reads_back a \<longleftrightarrow> (\<forall>n t. 4 * length (show_cmd a 1 @ t) + 3 \<le> n \<and> delim t \<and> stops '')&;'' t \<longrightarrow>
     (\<exists>c c' s. parsepipe n (show_cmd a 1 @ t) = Parsed c s \<and> parseback c s = parseback c' t \<and> texts c' = a))"

definition reads_line :: "scmd \<Rightarrow> bool" where
  "reads_line a \<longleftrightarrow> (\<forall>n t. 4 * length (show_cmd a 0 @ t) + 4 \<le> n \<and> delim t \<and> stops '')'' t \<longrightarrow>
     (\<exists>c. parseline n (show_cmd a 0 @ t) = Parsed c (skip t) \<and> texts c = a))"

lemma reads_part_exec:
  assumes "length ws < MAXARGS" "\<forall>w\<in>set ws. wordy w"
  shows "reads_part (Sexec ws)"
  unfolding reads_part_def
proof (intro allI impI disjI2)
  fix n t
  assume n: "4 * length (show_cmd (Sexec ws) 3 @ t) + 2 \<le> n \<and> delim t \<and> stops ''<>|)&;'' t"
  then obtain n' where n': "n = Suc n'"
    by (cases n) auto
  let ?s = "show_cmd (Sexec ws) 3 @ t"
  have a: "ahead t \<noteq> CHR ''(''"
    using n stops_ahead [of "''<>|)&;''" t] by auto
  show "\<exists>c ps. parseexec n ?s = pbind (parseredirs c t) (parseargs ps) \<and> chain c \<and> texts (set_argv ps c) = Sexec ws"
  proof (cases ws)
    case Nil
    then show ?thesis
      using a n' by (intro exI [of _ "Cexec []"] exI [of _ "[]"]) (simp add: parse_eqs parse_skip)
  next
    case (Cons w ws')
    then have "\<not> special (ahead ?s)"
      using ahead_word [of w] assms(2) by (simp add: ahead_simps)
    then have h: "ahead ?s \<noteq> CHR ''(''" "parseredirs (Cexec []) ?s = Parsed (Cexec []) (skip ?s)"
      using not_blank(3) by (auto simp: symbols_def intro!: parseredirs_stop)
    obtain ps where "parseargs [] (Cexec []) ?s = pbind (parseredirs (Cexec []) t) (parseargs ps)" "map between ps = ws"
      using parseargs_words [of ws t "[]" "Cexec []"] assms n Cons by auto
    then show ?thesis
      using h n' by (intro exI [of _ "Cexec []"] exI [of _ ps]) (simp add: parse_eqs parse_skip)
  qed
qed

lemma reads_part_redir:
  assumes "reads_part a" "wordy f" "(mode, fd) \<in> {(U_RDONLY, 0), (U_TRUNC_CREATE, 1), (U_WRONLY_CREATE, 1)}"
  shows "reads_part (Sredir a f mode fd)"
  unfolding reads_part_def
proof (intro allI impI)
  fix n t
  assume n: "4 * length (show_cmd (Sredir a f mode fd) 3 @ t) + 2 \<le> n \<and> delim t \<and> stops ''<>|)&;'' t"
  let ?t = "redir_op mode fd @ CHR '' '' # f @ t"
  have s: "show_cmd (Sredir a f mode fd) 3 @ t = show_cmd a 3 @ ?t"
    by simp
  have d: "delim ?t" "stops ''<>|)&;'' ?t"
    using symbol_blank by (auto simp: redir_op_def stops_def skip_simps)
  have r: "parseredirs c ?t = parseredirs (Credir c (f @ t) t mode fd) t" for c
    using parseredirs_op assms n by blast
  have b: "between (f @ t, t) = f"
    by (simp add: between_def)
  have "4 * length (show_cmd a 3 @ ?t) + 2 \<le> n"
    using n s by simp
  then consider c where "parseexec n (show_cmd a 3 @ ?t) = parseredirs c ?t" "texts c = a"
    | c ps where "parseexec n (show_cmd a 3 @ ?t) = pbind (parseredirs c ?t) (parseargs ps)" "chain c" "texts (set_argv ps c) = a"
    using assms(1) d unfolding reads_part_def by blast
  then show "(\<exists>c. parseexec n (show_cmd (Sredir a f mode fd) 3 @ t) = parseredirs c t \<and> texts c = Sredir a f mode fd) \<or>
     (\<exists>c ps. parseexec n (show_cmd (Sredir a f mode fd) 3 @ t) = pbind (parseredirs c t) (parseargs ps) \<and> chain c \<and>
       texts (set_argv ps c) = Sredir a f mode fd)"
  proof cases
    case 1
    then show ?thesis
      unfolding s r using b by (intro disjI1 exI [of _ "Credir c (f @ t) t mode fd"]) simp
  next
    case 2
    then show ?thesis
      unfolding s r using b by (intro disjI2 exI [of _ "Credir c (f @ t) t mode fd"] exI [of _ ps]) simp
  qed
qed

lemma reads_part_block:
  assumes "reads_line a" "show_cmd a 3 = paren True (show_cmd a 0)"
  shows "reads_part a"
  unfolding reads_part_def
proof (intro allI impI disjI1)
  fix n t
  assume n: "4 * length (show_cmd a 3 @ t) + 2 \<le> n \<and> delim t \<and> stops ''<>|)&;'' t"
  let ?in = "show_cmd a 0 @ CHR '' '' # CHR '')'' # t"
  have s: "show_cmd a 3 @ t = CHR '' '' # CHR ''('' # ?in"
    using assms(2) by (simp add: paren_def)
  have "length (show_cmd a 3 @ t) = Suc (Suc (length ?in))"
    unfolding s by simp
  then have "n = Suc (Suc (n - 2))" "4 * length ?in + 4 \<le> n - 2"
    using n by linarith+
  then obtain m where m: "n = Suc (Suc m)" "4 * length ?in + 4 \<le> m"
    by blast
  have st: "stops '')'' (CHR '' '' # CHR '')'' # t)"
    using symbol_blank by (simp add: stops_def skip_simps)
  obtain c where c: "parseline m ?in = Parsed c (skip (CHR '' '' # CHR '')'' # t))" "texts c = a"
    using assms(1) m(2) st unfolding reads_line_def by (metis delim_blank(1))
  have "parseexec n (show_cmd a 3 @ t) = parseredirs c t"
    using c(1) unfolding s m(1) parse_eqs
    by (simp add: ahead_sym after_sym parse_skip parse_skip' skip_simps symbol_blank)
  then show "\<exists>c. parseexec n (show_cmd a 3 @ t) = parseredirs c t \<and> texts c = a"
    using c(2) by blast
qed

lemma reads_part_stop:
  assumes "reads_part a" "4 * length (show_cmd a 3 @ t) + 2 \<le> n" "delim t" "stops ''|)&;'' t"
  shows "\<exists>c. parseexec n (show_cmd a 3 @ t) = Parsed c (skip t) \<and> texts c = a"
proof -
  have r: "parseredirs c t = Parsed c (skip t)" for c
    using stops_ahead [OF assms(4)] by (intro parseredirs_stop) auto
  have p: "parseargs ps c t = Parsed (set_argv ps c) (skip t)" for ps c
  proof (cases "skip t")
    case Nil
    then have "ahead t = CHR 0x00" "gettoken t = (CHR 0x00, [], [], [])"
      by (simp_all add: ahead_def gettoken_def skip_simps)
    then show ?thesis
      using Nil by (simp add: parseargs_eq [of ps])
  next
    case (Cons d r)
    then show ?thesis
      using assms(4) by (auto simp: parseargs_eq [of ps] ahead_def stops_def)
  qed
  have "stops ''<>|)&;'' t"
    using stops_mono [OF assms(4)] by simp
  then consider c where "parseexec n (show_cmd a 3 @ t) = parseredirs c t" "texts c = a"
    | c ps where "parseexec n (show_cmd a 3 @ t) = pbind (parseredirs c t) (parseargs ps)" "texts (set_argv ps c) = a"
    using assms(1,2,3) unfolding reads_part_def by blast
  then show ?thesis
    by cases (auto simp: r p parse_skip)
qed

lemma reads_pipe_part:
  assumes "reads_part a" "show_cmd a 2 = show_cmd a 3"
  shows "reads_pipe a"
  unfolding reads_pipe_def
proof (intro allI impI)
  fix n t
  assume n: "4 * length (show_cmd a 2 @ t) + 3 \<le> n \<and> delim t \<and> stops '')&;'' t"
  then obtain m where m: "n = Suc m" "4 * length (show_cmd a 3 @ t) + 2 \<le> m"
    using assms(2) by (cases n) auto
  have st: "stops ''|)&;'' t"
    using n stops_mono [of "'')&;''" t "''|)&;''"] by simp
  obtain c where c: "parseexec m (show_cmd a 3 @ t) = Parsed c (skip t)" "texts c = a"
    using reads_part_stop [OF assms(1) m(2) _ st] n by blast
  have "ahead t \<noteq> CHR ''|''"
    using n stops_ahead [of "'')&;''" t] by auto
  then show "\<exists>c. parsepipe n (show_cmd a 2 @ t) = Parsed c (skip t) \<and> texts c = a"
    using c assms(2) m(1) by (intro exI [of _ c]) (simp add: parse_eqs)
qed

lemma reads_pipe_pipe:
  assumes "reads_part a" "reads_pipe b"
  shows "reads_pipe (Spipe a b)"
  unfolding reads_pipe_def
proof (intro allI impI)
  fix n t
  assume n: "4 * length (show_cmd (Spipe a b) 2 @ t) + 3 \<le> n \<and> delim t \<and> stops '')&;'' t"
  let ?b = "show_cmd b 2 @ t" and ?t = "CHR '' '' # CHR ''|'' # show_cmd b 2 @ t"
  have s: "show_cmd (Spipe a b) 2 @ t = show_cmd a 3 @ ?t"
    by (simp add: paren_def)
  have l: "4 * length (show_cmd a 3 @ ?t) + 3 \<le> n"
    using n unfolding s by simp
  then obtain m where m: "n = Suc m" "4 * length (show_cmd a 3 @ ?t) + 2 \<le> m" "4 * length ?b + 3 \<le> m"
    by (cases n) auto
  have "stops ''|)&;'' ?t"
    using symbol_blank by (simp add: stops_def skip_simps)
  then obtain c where c: "parseexec m (show_cmd a 3 @ ?t) = Parsed c (skip ?t)" "texts c = a"
    using reads_part_stop [OF assms(1) m(2)] by auto
  obtain d where d: "parsepipe m ?b = Parsed d (skip t)" "texts d = b"
    using assms(2) m(3) n unfolding reads_pipe_def by blast
  have "parsepipe n (show_cmd a 3 @ ?t) = Parsed (Cpipe c d) (skip t)"
    using c(1) d(1) unfolding m(1) by (simp add: parse_eqs ahead_sym after_sym parse_skip parse_skip')
  then show "\<exists>c. parsepipe n (show_cmd (Spipe a b) 2 @ t) = Parsed c (skip t) \<and> texts c = Spipe a b"
    unfolding s using c(2) d(2) by (intro exI [of _ "Cpipe c d"]) simp
qed

lemma reads_back_pipe:
  assumes "reads_pipe a" "show_cmd a 1 = show_cmd a 2"
  shows "reads_back a"
  unfolding reads_back_def assms(2)
proof (intro allI impI)
  fix n t
  assume "4 * length (show_cmd a 2 @ t) + 3 \<le> n \<and> delim t \<and> stops '')&;'' t"
  then obtain c where "parsepipe n (show_cmd a 2 @ t) = Parsed c (skip t)" "texts c = a"
    using assms(1) unfolding reads_pipe_def by blast
  then show "\<exists>c c' s. parsepipe n (show_cmd a 2 @ t) = Parsed c s \<and> parseback c s = parseback c' t \<and> texts c' = a"
    using parse_skip(3) by blast
qed

lemma reads_back_back:
  assumes "reads_back a"
  shows "reads_back (Sback a)"
  unfolding reads_back_def
proof (intro allI impI)
  fix n t
  assume n: "4 * length (show_cmd (Sback a) 1 @ t) + 3 \<le> n \<and> delim t \<and> stops '')&;'' t"
  let ?t = "CHR '' '' # CHR ''&'' # t"
  have s: "show_cmd (Sback a) 1 @ t = show_cmd a 1 @ ?t"
    by (simp add: paren_def)
  have "stops '')&;'' ?t"
    using symbol_blank by (simp add: stops_def skip_simps)
  then obtain c c' s' where c: "parsepipe n (show_cmd a 1 @ ?t) = Parsed c s'" "parseback c s' = parseback c' ?t" "texts c' = a"
    using assms n unfolding s reads_back_def by (metis delim_blank(1))
  have "parseback c' ?t = parseback (Cback c') (after_token ?t)"
    by (simp add: parseback_eq [of c'] ahead_sym after_token_def split_def)
  then have "parseback c s' = parseback (Cback c') t"
    using c(2) by (simp add: after_sym parse_skip)
  then show "\<exists>c c' s. parsepipe n (show_cmd (Sback a) 1 @ t) = Parsed c s \<and> parseback c s = parseback c' t \<and> texts c' = Sback a"
    unfolding s using c(1,3) by (intro exI [of _ c] exI [of _ "Cback c'"] exI [of _ s']) simp
qed

lemma reads_line_back:
  assumes "reads_back a" "show_cmd a 0 = show_cmd a 1"
  shows "reads_line a"
  unfolding reads_line_def assms(2)
proof (intro allI impI)
  fix n t
  assume n: "4 * length (show_cmd a 1 @ t) + 4 \<le> n \<and> delim t \<and> stops '')'' t"
  then obtain m where m: "n = Suc m" "4 * length (show_cmd a 1 @ t) + 3 \<le> m"
    by (cases n) auto
  have "stops '')&;'' t"
    using n stops_mono [of "'')''" t "'')&;''"] by simp
  then obtain c c' s where c: "parsepipe m (show_cmd a 1 @ t) = Parsed c s" "parseback c s = parseback c' t" "texts c' = a"
    using assms(1) m(2) n unfolding reads_back_def by blast
  have "ahead t \<noteq> CHR ''&''" "ahead t \<noteq> CHR '';''"
    using n stops_ahead [of "'')''" t] by auto
  then show "\<exists>c. parseline n (show_cmd a 1 @ t) = Parsed c (skip t) \<and> texts c = a"
    using c m(1) by (intro exI [of _ c']) (simp add: parse_eqs parseback_eq [of c'])
qed

lemma reads_line_list:
  assumes "reads_back a" "reads_line b"
  shows "reads_line (Slist a b)"
  unfolding reads_line_def
proof (intro allI impI)
  fix n t
  assume n: "4 * length (show_cmd (Slist a b) 0 @ t) + 4 \<le> n \<and> delim t \<and> stops '')'' t"
  let ?b = "show_cmd b 0 @ t" and ?t = "CHR '' '' # CHR '';'' # show_cmd b 0 @ t"
  have s: "show_cmd (Slist a b) 0 @ t = show_cmd a 1 @ ?t"
    by (simp add: paren_def)
  have "4 * length (show_cmd a 1 @ ?t) + 4 \<le> n"
    using n unfolding s by simp
  then obtain m where m: "n = Suc m" "4 * length (show_cmd a 1 @ ?t) + 3 \<le> m" "4 * length ?b + 4 \<le> m"
    by (cases n) auto
  have "stops '')&;'' ?t"
    using symbol_blank by (simp add: stops_def skip_simps)
  then obtain c c' s' where c: "parsepipe m (show_cmd a 1 @ ?t) = Parsed c s'" "parseback c s' = parseback c' ?t" "texts c' = a"
    using assms(1) m(2) unfolding reads_back_def by (metis delim_blank(1))
  obtain d where d: "parseline m ?b = Parsed d (skip t)" "texts d = b"
    using assms(2) m(3) n unfolding reads_line_def by blast
  have "parseback c' ?t = (c', skip ?t)"
    by (simp add: parseback_eq [of c'] ahead_sym)
  then have "parseline n (show_cmd a 1 @ ?t) = Parsed (Clist c' d) (skip t)"
    using c(1,2) d(1) unfolding m(1) by (simp add: parse_eqs ahead_sym after_sym parse_skip parse_skip')
  then show "\<exists>c. parseline n (show_cmd (Slist a b) 0 @ t) = Parsed c (skip t) \<and> texts c = Slist a b"
    unfolding s using c(3) d(2) by (intro exI [of _ "Clist c' d"]) simp
qed

lemma reads_all: "scmd_ok a \<Longrightarrow> reads_part a \<and> reads_pipe a \<and> reads_back a \<and> reads_line a"
proof (induction a)
  case (Sexec ws)
  then have "reads_part (Sexec ws)"
    by (intro reads_part_exec) (auto simp: wordy_def)
  then show ?case
    using reads_pipe_part reads_back_pipe reads_line_back by (metis show_cmd.simps(1))
next
  case (Sredir a f mode fd)
  then have "reads_part (Sredir a f mode fd)"
    by (intro reads_part_redir) (auto simp: wordy_def)
  then show ?case
    using reads_pipe_part reads_back_pipe reads_line_back by (metis show_cmd.simps(2))
next
  case (Spipe a b)
  then have "reads_pipe (Spipe a b)"
    using reads_pipe_pipe by simp
  moreover from this have "reads_back (Spipe a b)"
    by (rule reads_back_pipe) (simp add: paren_def)
  moreover from this have "reads_line (Spipe a b)"
    by (rule reads_line_back) (simp add: paren_def)
  moreover from this have "reads_part (Spipe a b)"
    by (rule reads_part_block) (simp add: paren_def)
  ultimately show ?case
    by blast
next
  case (Slist a b)
  then have l: "reads_line (Slist a b)"
    using reads_line_list by simp
  then have p: "reads_part (Slist a b)"
    by (rule reads_part_block) (simp add: paren_def)
  then have "reads_pipe (Slist a b)"
    by (rule reads_pipe_part) (simp add: paren_def)
  moreover from this have "reads_back (Slist a b)"
    by (rule reads_back_pipe) (simp add: paren_def)
  ultimately show ?case
    using l p by blast
next
  case (Sback a)
  then have b: "reads_back (Sback a)"
    using reads_back_back by simp
  then have l: "reads_line (Sback a)"
    by (rule reads_line_back) (simp add: paren_def)
  then have p: "reads_part (Sback a)"
    by (rule reads_part_block) (simp add: paren_def)
  then have "reads_pipe (Sback a)"
    by (rule reads_pipe_part) (simp add: paren_def)
  then show ?case
    using b l p by blast
qed

text \<open>C23: the shell understands every command that it can represent: the line that the printer makes of a
  command, with parentheses where the grammar needs them, is parsed without error, and the strings that
  the resulting command holds after \<^verbatim>\<open>nulterminate\<close> are those of the command that was printed.\<close>

theorem sh_parse_show:
  assumes "scmd_ok a" "CHR 0x00 \<notin> set (show_cmd a 0)"
  shows "\<exists>c buf. parsecmd (show_cmd a 0) = Parsed (c, buf) [] \<and> cmd_view buf c = a"
proof -
  let ?s = "show_cmd a 0"
  obtain c where c: "parseline (4 * length ?s + 4) ?s = Parsed c []" "texts c = a"
    using reads_all [OF assms(1)] unfolding reads_line_def
    by (metis append_Nil2 delim_blank(2) skip_simps(3) stops_def order_refl)
  then have "cmd_wf ?s c"
    using parser_good [of ?s "4 * length ?s + 4"] by (simp add: good_Parsed)
  then have "cmd_view (nulterminate c ?s) c = a"
    using cmd_view_nulterminate [OF _ assms(2)] c(2) by simp
  then show ?thesis
    using c(1) by (simp add: parsecmd_def peek_ahead skip_simps)
qed

theorem sh_parse_show_witness:
  "\<exists>c buf. parsecmd '' ( ls ; echo hi ) | wc > out &'' = Parsed (c, buf) [] \<and>
     cmd_view buf c = Sback (Spipe (Slist (Sexec [''ls'']) (Sexec [''echo'', ''hi''])) (Sredir (Sexec [''wc'']) ''out'' U_TRUNC_CREATE 1))"
proof -
  let ?a = "Sback (Spipe (Slist (Sexec [''ls'']) (Sexec [''echo'', ''hi''])) (Sredir (Sexec [''wc'']) ''out'' U_TRUNC_CREATE 1))"
  have "show_cmd ?a 0 = '' ( ls ; echo hi ) | wc > out &''"
    by (simp add: paren_def redir_op_def U_RDONLY_def U_TRUNC_CREATE_def)
  moreover have "scmd_ok ?a"
    by (simp add: MAXARGS_def special_def whitespace_def symbols_def)
  ultimately show ?thesis
    using sh_parse_show [of ?a] by simp
qed

end
