(* ===== verification/Descriptors.thy ===== *)
theory Descriptors
  imports Main
begin

text \<open>
  The table of descriptors of a process as the programs see it through \<^verbatim>\<open>open\<close>, \<^verbatim>\<open>close\<close>, \<^verbatim>\<open>dup\<close> and \<^verbatim>\<open>pipe\<close>: a
  new descriptor is the lowest free one of the \<^verbatim>\<open>NOFILE\<close> of \<^verbatim>\<open>kernel/param.h\<close>. Pipes are numbered. \<^verbatim>\<open>fork\<close>
  copies the table.
\<close>

datatype object = Console | Ofile string int | Rend nat | Wend nat

type_synonym fdtable = "nat \<Rightarrow> object option"

definition lowest :: "fdtable \<Rightarrow> nat option" where
  "lowest t = find (\<lambda>k. t k = None) [0..<16]"

definition fd_open :: "object \<Rightarrow> fdtable \<Rightarrow> (nat \<times> fdtable) option" where
  "fd_open x t = map_option (\<lambda>k. (k, t(k \<mapsto> x))) (lowest t)"

definition fd_close :: "nat \<Rightarrow> fdtable \<Rightarrow> fdtable" where
  "fd_close k t = t(k := None)"

definition fd_dup :: "nat \<Rightarrow> fdtable \<Rightarrow> fdtable" where
  "fd_dup k t =
     (case t k of
        None \<Rightarrow> t
      | Some x \<Rightarrow> case fd_open x t of None \<Rightarrow> t | Some (_, t) \<Rightarrow> t)"

text \<open>\<^verbatim>\<open>pipe\<close> takes two descriptors or none.\<close>

definition fd_pipe :: "nat \<Rightarrow> fdtable \<Rightarrow> (nat \<times> nat \<times> fdtable) option" where
  "fd_pipe n t =
     (case fd_open (Rend n) t of
        None \<Rightarrow> None
      | Some (i, t) \<Rightarrow> case fd_open (Wend n) t of None \<Rightarrow> None | Some (j, t) \<Rightarrow> Some (i, j, t))"

lemma lowest_free:
  assumes "lowest t = Some k"
  shows "t k = None" "k < 16" "j < k \<Longrightarrow> t j \<noteq> None"
proof -
  from assms obtain i where i: "i < 16" "t ([0..<16] ! i) = None" "k = [0..<16] ! i" "\<forall>j<i. t ([0..<16] ! j) \<noteq> None"
    unfolding lowest_def find_Some_iff by auto
  then show "t k = None" "k < 16"
    by auto
  show "t j \<noteq> None" if "j < k"
    using i that by auto
qed

definition std :: "object \<times> object \<times> object \<Rightarrow> fdtable" where
  "std io = (case io of (i, out, err) \<Rightarrow> [0 \<mapsto> i, 1 \<mapsto> out, 2 \<mapsto> err])"

lemma upt16: "[0..<16] = [0, 1, 2, 3, 4, 5, 6, 7, 8, 9, 10, 11, 12, 13, 14, 15::nat]"
  by (simp add: upt_conv_Cons)

end
