(* ===== verification/Sh_Run.thy ===== *)
theory Sh_Run
  imports Sh_Roundtrip Descriptors
begin

text \<open>
  The rest of \<^verbatim>\<open>user/sh.c\<close>: \<^verbatim>\<open>runcmd\<close>, with what it does to the descriptors of each process it makes, and the
  loop that reads commands. The commands are those of the parser with their strings in place. A table
  says what each descriptor refers to; \<^verbatim>\<open>fork\<close> copies it, so every process of a command is determined by
  the table it starts with, and the result of \<^verbatim>\<open>runcmd\<close> is the list of the programs that are executed, each
  with its table. A counter numbers the pipes and the forks of a command, so that any of the forks may fail.
\<close>

section \<open>Running commands\<close>

text \<open>What the rest of the system answers: whether a file can be opened, and which of the forks succeed
  (\<^verbatim>\<open>fork1\<close> ends the process that calls it when its fork fails).\<close>

record senv =
  e_open :: "string \<Rightarrow> int \<Rightarrow> bool"
  e_fork :: "nat \<Rightarrow> bool"

datatype launch = Launch "string list" fdtable

primrec runcmd :: "senv \<Rightarrow> scmd \<Rightarrow> fdtable \<Rightarrow> nat \<Rightarrow> launch list \<times> nat" where
  "runcmd env (Sexec argv) t n = (if argv = [] then ([], n) else ([Launch argv t], n))"
| "runcmd env (Sredir c file mode fd) t n =
     (let t = fd_close fd t in
      if \<not> e_open env file mode then ([], n)
      else case fd_open (Ofile file mode) t of
        None \<Rightarrow> ([], n)
      | Some (_, t) \<Rightarrow> runcmd env c t n)"
| "runcmd env (Spipe l r) t n =
     (case fd_pipe n t of
        None \<Rightarrow> ([], n)
      | Some (p0, p1, t) \<Rightarrow>
          if \<not> e_fork env (Suc n) then ([], n + 2)
          else
            let (as, m) = runcmd env l (fd_close p1 (fd_close p0 (fd_dup p1 (fd_close 1 t)))) (n + 2) in
            if \<not> e_fork env m then (as, Suc m)
            else
              let (bs, m) = runcmd env r (fd_close p1 (fd_close p0 (fd_dup p0 (fd_close 0 t)))) (Suc m)
              in (as @ bs, m))"
| "runcmd env (Slist l r) t n =
     (if \<not> e_fork env n then ([], Suc n)
      else let (as, n) = runcmd env l t (Suc n); (bs, n) = runcmd env r t n in (as @ bs, n))"
| "runcmd env (Sback c) t n = (if \<not> e_fork env n then ([], Suc n) else runcmd env c t (Suc n))"

section \<open>Reading commands\<close>

text \<open>\<^verbatim>\<open>gets\<close> of \<^verbatim>\<open>user/ulib.c\<close>: \<open>k\<close> characters still fit.\<close>

primrec gets_loop :: "nat \<Rightarrow> uworld \<Rightarrow> string \<times> uworld" where
  "gets_loop 0 w = ([], w)"
| "gets_loop (Suc k) w =
     (let (cc, s, w) = read_u 0 1 w in
      if cc < 1 then ([], w)
      else if hd s = CHR 0x0A \<or> hd s = CHR 0x0D then (s, w)
      else let (r, w) = gets_loop k w in (s @ r, w))"

definition gets :: "nat \<Rightarrow> uworld \<Rightarrow> string \<times> uworld" where
  "gets m w = gets_loop (m - 1) w"

definition getcmd :: "nat \<Rightarrow> uworld \<Rightarrow> (string \<times> uworld) option" where
  "getcmd nbuf w =
     (let w = fprintf 2 ''$ '' [] w;
          (buf, w) = gets nbuf w;
          buf = takeWhile (\<lambda>c. c \<noteq> CHR 0x00) buf
      in if buf = [] then None else Some (buf, w))"

text \<open>What the main loop does with a line.\<close>

datatype shaction = Chdir string | Run "(cmd \<times> string) parsed"

definition sh_line :: "string \<Rightarrow> shaction" where
  "sh_line buf = (if take 3 buf = ''cd '' then Chdir (drop 3 (butlast buf)) else Run (parsecmd buf))"

definition U_RDWR :: int where "U_RDWR = 2"

text \<open>The loop that makes sure that three descriptors are open, with at most one turn for each.\<close>

primrec open_console :: "senv \<Rightarrow> nat \<Rightarrow> fdtable \<Rightarrow> fdtable" where
  "open_console env 0 t = t"
| "open_console env (Suc k) t =
     (if \<not> e_open env ''console'' U_RDWR then t
      else case fd_open Console t of
        None \<Rightarrow> t
      | Some (fd, t) \<Rightarrow> if fd \<ge> 3 then fd_close fd t else open_console env k t)"

definition sh_main :: "senv \<Rightarrow> fdtable \<Rightarrow> fdtable" where
  "sh_main env t = open_console env 4 t"

text \<open>Four turns are enough: a fourth descriptor cannot be below 3.\<close>

lemma open_console_low:
  assumes "e_open env ''console'' U_RDWR" and "card {j. j < 3 \<and> t j = None} < k" and "j < 3"
  shows "open_console env k t j \<noteq> None"
  using assms(2)
proof (induction k arbitrary: t)
  case (Suc k)
  show ?case
  proof (cases "lowest t")
    case None
    then have "t j \<noteq> None"
      using assms(3) unfolding lowest_def find_None_iff by auto
    then show ?thesis
      using None by (simp add: fd_open_def)
  next
    case (Some f)
    note free = lowest_free [OF Some]
    show ?thesis
    proof (cases "f < 3")
      case True
      have "{j. j < 3 \<and> (t(f \<mapsto> Console)) j = None} = {j. j < 3 \<and> t j = None} - {f}"
        by auto
      moreover have "f \<in> {j. j < 3 \<and> t j = None}"
        using True free(1) by simp
      then have "card ({j. j < 3 \<and> t j = None} - {f}) < card {j. j < 3 \<and> t j = None}"
        by (intro card_Diff1_less) auto
      ultimately have "card {j. j < 3 \<and> (t(f \<mapsto> Console)) j = None} < k"
        using Suc.prems by simp
      then show ?thesis
        using Suc.IH True Some assms(1) by (simp add: fd_open_def)
    next
      case False
      then show ?thesis
        using Some assms(1,3) free(3) [of j] by (simp add: fd_open_def fd_close_def)
    qed
  qed
qed simp

lemma sh_main_std:
  assumes "e_open env ''console'' U_RDWR" and "j < 3"
  shows "sh_main env t j \<noteq> None"
proof -
  have "card {j. j < 3 \<and> t j = None} \<le> card {j. j < (3::nat)}"
    by (rule card_mono) auto
  then show ?thesis
    unfolding sh_main_def using assms by (intro open_console_low) auto
qed

section \<open>\<^verbatim>\<open>init\<close>\<close>

text \<open>\<^verbatim>\<open>user/init.c\<close>: the descriptors of the first process, which opens the console, making its device file when there is
  none (\<open>made\<close> says whether the console can be opened then), and the loop that starts the shell again whenever
  it has exited. A turn of the loop has the result of \<^verbatim>\<open>fork\<close> and the results of the calls of \<^verbatim>\<open>wait\<close> so far.\<close>

definition init_fds :: "senv \<Rightarrow> bool \<Rightarrow> fdtable \<Rightarrow> fdtable" where
  "init_fds env made t =
     (let t = (if e_open env ''console'' U_RDWR \<or> made then case fd_open Console t of None \<Rightarrow> t | Some (_, t) \<Rightarrow> t else t)
      in fd_dup 0 (fd_dup 0 t))"

fun init_wait :: "int \<Rightarrow> int list \<Rightarrow> bool option" where
  "init_wait pid [] = None"
| "init_wait pid (wpid # ws) = (if wpid = pid then Some True else if wpid < 0 then Some False else init_wait pid ws)"

fun init_loop :: "(int \<times> int list) list \<Rightarrow> uworld \<Rightarrow> int option \<times> uworld" where
  "init_loop [] w = (None, w)"
| "init_loop ((pid, ws) # turns) w =
     (let w = fprintf 1 ''init: starting sh\<newline>'' [] w in
      if pid < 0 then (Some 1, fprintf 1 ''init: fork failed\<newline>'' [] w)
      else case init_wait pid ws of
        None \<Rightarrow> (None, w)
      | Some False \<Rightarrow> (Some 1, fprintf 1 ''init: wait returned an error\<newline>'' [] w)
      | Some True \<Rightarrow> init_loop turns w)"

section \<open>Routing\<close>

text \<open>What a command means: every program gets an input, an output and an error output.\<close>

primrec route :: "senv \<Rightarrow> scmd \<Rightarrow> object \<times> object \<times> object \<Rightarrow> nat \<Rightarrow> (string list \<times> object \<times> object \<times> object) list \<times> nat" where
  "route env (Sexec argv) io n = (if argv = [] then ([], n) else ([(argv, io)], n))"
| "route env (Sredir c file mode fd) io n =
     (case io of (i, out, err) \<Rightarrow>
      if e_open env file mode
      then route env c (if fd = 0 then (Ofile file mode, out, err) else (i, Ofile file mode, err)) n
      else ([], n))"
| "route env (Spipe l r) io n =
     (case io of (i, out, err) \<Rightarrow>
      if e_fork env (Suc n) then
        let (as, m) = route env l (i, Wend n, err) (n + 2) in
        if e_fork env m then let (bs, m) = route env r (Rend n, out, err) (Suc m) in (as @ bs, m)
        else (as, Suc m)
      else ([], n + 2))"
| "route env (Slist l r) io n =
     (if e_fork env n then let (as, n) = route env l io (Suc n); (bs, n) = route env r io n in (as @ bs, n)
      else ([], Suc n))"
| "route env (Sback c) io n = (if e_fork env n then route env c io (Suc n) else ([], Suc n))"

lemma redirect:
  assumes "fd = 0 \<or> fd = 1"
  shows "fd_open x (fd_close fd (std (i, out, err))) = Some (fd, std (if fd = 0 then (x, out, err) else (i, x, err)))"
  using assms by (auto simp: fd_open_def lowest_def upt16 fd_close_def std_def fun_eq_iff)

lemma make_pipe: "fd_pipe n (std (i, out, err)) = Some (3, 4, (std (i, out, err))(3 \<mapsto> Rend n, 4 \<mapsto> Wend n))"
  by (simp add: fd_pipe_def fd_open_def lowest_def upt16 std_def)

lemma pipe_ends:
  "fd_close 4 (fd_close 3 (fd_dup 4 (fd_close 1 ((std (i, out, err))(3 \<mapsto> Rend n, 4 \<mapsto> Wend n))))) = std (i, Wend n, err)"
  "fd_close 4 (fd_close 3 (fd_dup 3 (fd_close 0 ((std (i, out, err))(3 \<mapsto> Rend n, 4 \<mapsto> Wend n))))) = std (Rend n, out, err)"
  by (auto simp: fd_close_def fd_dup_def fd_open_def lowest_def upt16 std_def fun_eq_iff)

text \<open>The shell that \<^verbatim>\<open>init\<close> starts has the console as its three descriptors.\<close>

lemma init_std:
  assumes "e_open env ''console'' U_RDWR"
  shows "sh_main env (init_fds env made (\<lambda>_. None)) = std (Console, Console, Console)"
proof -
  have "init_fds env made (\<lambda>_. None) = std (Console, Console, Console)"
    using assms by (auto simp: init_fds_def fd_open_def fd_dup_def lowest_def upt16 std_def fun_eq_iff)
  moreover have "open_console env (Suc 3) (std (Console, Console, Console)) = std (Console, Console, Console)"
    unfolding open_console.simps using assms by (auto simp: fd_open_def fd_close_def lowest_def upt16 std_def fun_eq_iff)
  ultimately show ?thesis
    by (simp add: sh_main_def)
qed

text \<open>C6: the shell connects programs as a command says: \<^verbatim>\<open>runcmd\<close>, with its sequence of \<^verbatim>\<open>close\<close>, \<^verbatim>\<open>open\<close>, \<^verbatim>\<open>pipe\<close>
  and \<^verbatim>\<open>dup\<close>, executes exactly the programs of the command, each with its input, output and error output as
  routed and no other descriptor open. In particular no process keeps an end of a pipe that it does not
  use, so that a reader sees the end of its input when the writer exits.\<close>

theorem runcmd_routes:
  assumes "scmd_ok c"
  shows "runcmd env c (std io) n = (map (\<lambda>(argv, io). Launch argv (std io)) (fst (route env c io n)), snd (route env c io n))"
  using assms
proof (induction c arbitrary: io n)
  case (Sredir c f mode fd)
  obtain i out err where io: "io = (i, out, err)"
    by (cases io)
  have "fd = 0 \<or> fd = 1"
    using Sredir.prems by auto
  then show ?case
    using Sredir redirect [of fd "Ofile f mode" i out err] by (simp add: io)
next
  case (Spipe l r)
  obtain i out err where io: "io = (i, out, err)"
    by (cases io)
  show ?case
    using Spipe by (simp add: io make_pipe pipe_ends [unfolded One_nat_def] split_def Let_def)
qed (simp_all add: split_def Let_def)

theorem runcmd_routes_witness:
  "runcmd \<lparr>e_open = (\<lambda>_ _. True), e_fork = (\<lambda>_. True)\<rparr> (Spipe (Sexec [''ls'']) (Sredir (Sexec [''wc'']) ''f'' U_TRUNC_CREATE 1))
     (std (Console, Console, Console)) 0 =
   ([Launch [''ls''] (std (Console, Wend 0, Console)), Launch [''wc''] (std (Rend 0, Ofile ''f'' U_TRUNC_CREATE, Console))], 3)"
proof -
  let ?c = "Spipe (Sexec [''ls'']) (Sredir (Sexec [''wc'']) ''f'' U_TRUNC_CREATE 1)"
  have "scmd_ok ?c"
    by (simp add: MAXARGS_def special_def whitespace_def symbols_def)
  then show ?thesis
    using runcmd_routes [of ?c "\<lparr>e_open = (\<lambda>_ _. True), e_fork = (\<lambda>_. True)\<rparr>" "(Console, Console, Console)" 0]
    by (simp del: runcmd.simps)
qed

end
