(* ===== verification/Fs_Read.thy ===== *)
theory Fs_Read
  imports Fs Kernel_Image
begin

text \<open>
  The contents of a file, as they follow from its inode and the blocks of the device, and that \<^verbatim>\<open>readi\<close>
  returns them. The reads go through \<^verbatim>\<open>bmap\<close> and the block cache, which is known here only by its
  contract: the interpretation \<open>bcache\<close> of Bio.
\<close>

section \<open>Looking at blocks\<close>

text \<open>Two states of the kernel that differ only in the order and the contents of the buffers, not in
  anything that a client of the cache can observe.\<close>

definition quiet :: "kstate \<Rightarrow> kstate \<Rightarrow> bool" where
  "quiet s s' \<longleftrightarrow> (\<exists>c. s' = s\<lparr>ls := (ls s)\<lparr>lbs := c\<rparr>\<rparr>) \<and> lbinv (ls s') \<and> lobs (ls s') = lobs (ls s)"

lemma quiet_refl: "lbinv (ls s) \<Longrightarrow> quiet s s"
  unfolding quiet_def by (intro conjI exI [of _ "lbs (ls s)"]) simp_all

lemma quiet_trans: "quiet s s1 \<Longrightarrow> quiet s1 s2 \<Longrightarrow> quiet s s2"
  unfolding quiet_def by auto

lemma quietD:
  assumes "quiet s s'"
  shows "icache s' = icache s" "lg (ls s') = lg (ls s)" "lobs (ls s') = lobs (ls s)" "lbinv (ls s')" "sb s' = sb s"
    "ptable s' = ptable s" "cur s' = cur s"
  using assms by (auto simp: quiet_def)

lemma look:
  assumes "lbinv (ls s)" "a_readable (lobs (ls s)) n" "dev = l_dev (lg (ls s))"
  shows "\<exists>bp s1 s2. kbread dev n s = Ok (bp, s1) \<and> kdata s1 bp = a_view (lobs (ls s)) n \<and> kbrelse bp s1 = Ok s2 \<and>
    quiet s s2 \<and> (\<exists>c. s1 = s\<lparr>ls := (ls s)\<lparr>lbs := c\<rparr>\<rparr>)"
proof -
  obtain bp c1 c2 where c: "bread dev n (lbs (ls s)) = Ok (bp, c1)" "bdata c1 bp = a_view (lobs (ls s)) n"
    "brelse bp c1 = Ok c2" "binv dev c2" "bobs_of dev c2 = lobs (ls s)"
    using bcache.read_release [of dev "lbs (ls s)" n] assms by (auto simp: lbinv_def lobs_def)
  let ?s1 = "s\<lparr>ls := (ls s)\<lparr>lbs := c1\<rparr>\<rparr>" and ?s2 = "s\<lparr>ls := (ls s)\<lparr>lbs := c2\<rparr>\<rparr>"
  have "kbread dev n s = Ok (bp, ?s1)" "kdata ?s1 bp = a_view (lobs (ls s)) n" "kbrelse bp ?s1 = Ok ?s2"
    using c by (simp_all add: kbread_def kdata_def kbrelse_def)
  moreover have "quiet s ?s2"
    using c(4,5) assms(3) by (auto simp: quiet_def lbinv_def lobs_def)
  ultimately show ?thesis
    by blast
qed

section \<open>Contents\<close>

definition file_block :: "(u32 \<Rightarrow> u8 list) \<Rightarrow> dinode \<Rightarrow> nat \<Rightarrow> u32" where
  "file_block V d i =
     (if i < NDIRECT then d_addrs d ! i else word_at (4 * (i - NDIRECT)) (V (d_addrs d ! NDIRECT)))"

definition file_bytes :: "(u32 \<Rightarrow> u8 list) \<Rightarrow> dinode \<Rightarrow> u8 list" where
  "file_bytes V d = map (\<lambda>j. V (file_block V d (j div BSIZE)) ! (j mod BSIZE)) [0..<unat (d_size d)]"

text \<open>The inode is sound and its blocks can be read.\<close>

definition file_ready :: "bobs \<Rightarrow> dinode \<Rightarrow> bool" where
  "file_ready w d \<longleftrightarrow> unat (d_size d) \<le> MAXFILE * BSIZE \<and>
     (\<forall>i. i * BSIZE < unat (d_size d) \<longrightarrow> file_block (a_view w) d i \<noteq> 0 \<and> a_readable w (file_block (a_view w) d i) \<and>
        (NDIRECT \<le> i \<longrightarrow> d_addrs d ! NDIRECT \<noteq> 0 \<and> a_readable w (d_addrs d ! NDIRECT)))"

lemma length_file_bytes [simp]: "length (file_bytes V d) = unat (d_size d)"
  by (simp add: file_bytes_def)

lemma BSIZE_pos: "0 < BSIZE"
  by (simp add: BSIZE_def)

lemma file_chunk:
  assumes "\<forall>n. length (V n) = BSIZE" "off + m \<le> unat (d_size d)" "m \<le> BSIZE - off mod BSIZE"
  shows "subarr off m (file_bytes V d) = subarr (off mod BSIZE) m (V (file_block V d (off div BSIZE)))"
proof (rule nth_equalityI)
  have "off mod BSIZE < BSIZE"
    using BSIZE_pos by simp
  then have l: "length (subarr off m (file_bytes V d)) = m" "off mod BSIZE + m \<le> BSIZE"
    using assms by (simp_all add: length_subarr)
  then show "length (subarr off m (file_bytes V d)) = length (subarr (off mod BSIZE) m (V (file_block V d (off div BSIZE))))"
    using assms(1) by (simp add: length_subarr)
  fix i assume "i < length (subarr off m (file_bytes V d))"
  then have i: "i < m" "off mod BSIZE + i < BSIZE"
    using l by simp_all
  have "off + i = off div BSIZE * BSIZE + (off mod BSIZE + i)"
    by simp
  then have "(off + i) div BSIZE = off div BSIZE" "(off + i) mod BSIZE = off mod BSIZE + i"
    using i(2) BSIZE_pos by (metis div_mult_self3 div_less add_0_right less_irrefl, metis mod_mult_self3 mod_less)
  then show "subarr off m (file_bytes V d) ! i = subarr (off mod BSIZE) m (V (file_block V d (off div BSIZE))) ! i"
    using i assms by (simp add: nth_subarr file_bytes_def)
qed

lemma subarr_split: "m \<le> n \<Longrightarrow> subarr off n xs = subarr off m xs @ subarr (off + m) (n - m) xs"
  by (simp add: subarr_def) (metis add.commute drop_drop le_add_diff_inverse take_add)

lemma unat_block: "i < MAXFILE \<Longrightarrow> unat (of_nat i :: u32) = i"
  by (simp add: MAXFILE_def NDIRECT_def NINDIRECT_def BSIZE_def unsigned_of_nat take_bit_nat_eq_self)

lemma bmap_mapped:
  assumes "lbinv (ls s)" "i_dev (ino s ip) = l_dev (lg (ls s))" "file_ready (lobs (ls s)) (i_d (ino s ip))"
    "i * BSIZE < unat (d_size (i_d (ino s ip)))"
  shows "\<exists>s'. bmap ip (of_nat i) s = Ok (file_block (a_view (lobs (ls s))) (i_d (ino s ip)) i, s') \<and> quiet s s'"
proof -
  let ?d = "i_d (ino s ip)" and ?V = "a_view (lobs (ls s))"
  have f: "file_block ?V ?d i \<noteq> 0" "NDIRECT \<le> i \<Longrightarrow> d_addrs ?d ! NDIRECT \<noteq> 0 \<and> a_readable (lobs (ls s)) (d_addrs ?d ! NDIRECT)"
    using assms(3,4) unfolding file_ready_def by blast+
  have "i * BSIZE < MAXFILE * BSIZE"
    using assms(3,4) unfolding file_ready_def by linarith
  then have i: "i < MAXFILE" "unat (of_nat i :: u32) = i"
    using unat_block by simp_all
  show ?thesis
  proof (cases "i < NDIRECT")
    case True
    then show ?thesis
      using f(1) quiet_refl [OF assms(1)] i by (simp add: bmap_def file_block_def Let_def)
  next
    case False
    then obtain bp s1 s2 where r: "kbread (i_dev (ino s ip)) (d_addrs ?d ! NDIRECT) s = Ok (bp, s1)"
      "kdata s1 bp = ?V (d_addrs ?d ! NDIRECT)" "kbrelse bp s1 = Ok s2" "quiet s s2"
      using look [OF assms(1), of "d_addrs ?d ! NDIRECT"] f(2) assms(2) by auto
    have "word_at (4 * (i - NDIRECT)) (kdata s1 bp) = file_block ?V ?d i" "i - NDIRECT < NINDIRECT"
      using False i(1) by (simp_all add: r(2) file_block_def MAXFILE_def)
    then show ?thesis
      using False f r i by (simp add: bmap_def Let_def)
  qed
qed

lemma readi_loop_law:
  assumes "lbinv (ls s)" "i_dev (ino s ip) = l_dev (lg (ls s))" "file_ready (lobs (ls s)) (i_d (ino s ip))"
    "off + n \<le> unat (d_size (i_d (ino s ip)))"
  shows "\<exists>s'. readi_loop ip (Kern ys) off n s = Ok (n, subarr off n (file_bytes (a_view (lobs (ls s))) (i_d (ino s ip))), s') \<and> quiet s s'"
  using assms
proof (induction n arbitrary: off ys s rule: less_induct)
  case (less n)
  let ?V = "a_view (lobs (ls s))" and ?d = "i_d (ino s ip)" and ?i = "off div BSIZE"
  show ?case
  proof (cases "n = 0")
    case True
    then show ?thesis
      using quiet_refl [OF less.prems(1)] by (simp add: readi_loop.simps [of ip _ off] subarr_def)
  next
    case False
    let ?m = "min n (BSIZE - off mod BSIZE)"
    have "off mod BSIZE < BSIZE" "?i * BSIZE \<le> off"
      using BSIZE_pos by simp_all
    then have m: "0 < ?m" "?m \<le> n" "?i * BSIZE < unat (d_size ?d)" "off + ?m \<le> unat (d_size ?d)"
      using False less.prems(4) by linarith+
    obtain s1 where s1: "bmap ip (of_nat ?i) s = Ok (file_block ?V ?d ?i, s1)" "quiet s s1"
      using bmap_mapped [OF less.prems(1-3) m(3)] by blast
    have "a_readable (lobs (ls s1)) (file_block ?V ?d ?i)"
      using less.prems(3) m(3) quietD(3) [OF s1(2)] by (auto simp: file_ready_def)
    then obtain bp s2 s3 where s2: "kbread (i_dev (ino s1 ip)) (file_block ?V ?d ?i) s1 = Ok (bp, s2)"
      "kdata s2 bp = ?V (file_block ?V ?d ?i)" "kbrelse bp s2 = Ok s3" "quiet s1 s3"
      using look [of s1 "file_block ?V ?d ?i"] quietD [OF s1(2)] less.prems(2) by auto
    note q = quietD [OF quiet_trans [OF s1(2) s2(4)]]
    obtain s' where s': "readi_loop ip (Kern (drop ?m ys)) (off + ?m) (n - ?m) s3 = Ok (n - ?m, subarr (off + ?m) (n - ?m) (file_bytes ?V ?d), s')"
      "quiet s3 s'"
      using less.IH [of "n - ?m" s3 "off + ?m" "drop ?m ys"] less.prems m q by auto
    have len: "\<forall>n. length (?V n) = BSIZE"
      using bcache.size_law [of "l_dev (lg (ls s))" "lbs (ls s)"] less.prems(1) by (auto simp: lbinv_def lobs_def)
    have "subarr off n (file_bytes ?V ?d) = subarr (off mod BSIZE) ?m (?V (file_block ?V ?d ?i)) @ subarr (off + ?m) (n - ?m) (file_bytes ?V ?d)"
      using subarr_split [OF m(2), of off "file_bytes ?V ?d"] unfolding file_chunk [OF len m(4) min.cobounded2] .
    moreover have "readi_loop ip (Kern ys) off n s =
        Ok (n, subarr (off mod BSIZE) ?m (?V (file_block ?V ?d ?i)) @ subarr (off + ?m) (n - ?m) (file_bytes ?V ?d), s')"
      using False s1(1) s2 s' m by (simp add: readi_loop.simps [of ip _ off] either_copyout_def Let_def)
    ultimately show ?thesis
      using quiet_trans [OF quiet_trans [OF s1(2) s2(4)] s'(2)] by simp
  qed
qed

lemma readi_law:
  assumes "lbinv (ls s)" "i_dev (ino s ip) = l_dev (lg (ls s))" "file_ready (lobs (ls s)) (i_d (ino s ip))"
    "off \<le> d_size (i_d (ino s ip))" "unat off + unat n < 2 ^ 32"
  shows "\<exists>s'. readi ip (Kern []) off n s =
      Ok (of_nat (length (subarr (unat off) (unat n) (file_bytes (a_view (lobs (ls s))) (i_d (ino s ip))))),
        subarr (unat off) (unat n) (file_bytes (a_view (lobs (ls s))) (i_d (ino s ip))), s') \<and> quiet s s'"
proof -
  let ?d = "i_d (ino s ip)" and ?F = "file_bytes (a_view (lobs (ls s))) (i_d (ino s ip))"
  have a: "unat (off + n) = unat off + unat n"
    using assms(5) by (simp add: unat_add_nowrap)
  then have o: "\<not> off + n < off" "\<not> off > d_size ?d"
    using assms(4) by (simp_all add: word_less_nat_alt word_le_nat_alt not_less)
  let ?n = "if off + n > d_size ?d then d_size ?d - off else n"
  have n: "unat ?n = min (unat n) (unat (d_size ?d) - unat off)"
    using a assms(4) by (auto simp: word_less_nat_alt unat_sub word_le_nat_alt)
  then have "unat off + unat ?n \<le> unat (d_size ?d)"
    using assms(4) by (simp add: word_le_nat_alt)
  then obtain s' where s': "readi_loop ip (Kern []) (unat off) (unat ?n) s = Ok (unat ?n, subarr (unat off) (unat ?n) ?F, s')" "quiet s s'"
    using readi_loop_law [OF assms(1-3)] by blast
  have "subarr (unat off) (unat ?n) ?F = subarr (unat off) (unat n) ?F" "unat ?n = length (subarr (unat off) (unat n) ?F)"
    unfolding n by (simp_all add: subarr_def min_def)
  then show ?thesis
    using s' o unfolding readi_def Let_def by auto
qed

text \<open>C5: \<^verbatim>\<open>readi\<close> into the kernel returns exactly the part of the file's contents that was asked for and that
  is there, across direct and indirect blocks, and changes nothing that can be observed of the block
  cache and nothing else in the kernel.\<close>

theorem readi_correct:
  assumes "lbinv (ls s)" "i_dev (ino s ip) = l_dev (lg (ls s))" "file_ready (lobs (ls s)) (i_d (ino s ip))"
    "off \<le> d_size (i_d (ino s ip))" "unat off + unat n < 2 ^ 32"
  shows "\<exists>s'. readi ip (Kern []) off n s =
      Ok (of_nat (length (subarr (unat off) (unat n) (file_bytes (a_view (lobs (ls s))) (i_d (ino s ip))))),
        subarr (unat off) (unat n) (file_bytes (a_view (lobs (ls s))) (i_d (ino s ip))), s') \<and> quiet s s'"
  by (rule readi_law [OF assms])

text \<open>A file of 2000 bytes whose inode is in the first entry of the cache: its blocks are 100 and 101.\<close>

definition small_file :: dinode where
  "small_file = \<lparr>d_type = T_FILE, d_major = 0, d_minor = 0, d_nlink = 1, d_size = 2000,
     d_addrs = [100, 101] @ replicate 11 0\<rparr>"

definition kernel_file :: kstate where
  "kernel_file = kernel_bss\<lparr>ls := log_example, sb := (sb kernel_bss)\<lparr>sb_inodestart := 32\<rparr>,
     icache := (replicate NINODE zero_inode)[0 := zero_inode\<lparr>i_dev := 1, i_inum := 5, i_ref := 1, i_valid := True, i_d := small_file\<rparr>]\<rparr>"

lemma kernel_file_simps [simp]:
  "ls kernel_file = log_example" "ino kernel_file 0 = zero_inode\<lparr>i_dev := 1, i_inum := 5, i_ref := 1, i_valid := True, i_d := small_file\<rparr>"
  "sb_inodestart (sb kernel_file) = 32"
  by (simp_all add: kernel_file_def NINODE_def)

lemma example_readable: "a_readable (lobs log_example) n"
  by (simp add: log_example_obs a_readable_def a_steady_def NBUF_def MAXOPBLOCKS_def)

lemma small_file_block: "i * BSIZE < 2000 \<Longrightarrow> file_block V small_file i = (if i = 0 then 100 else 101) \<and> i < NDIRECT \<and> i < 2"
  by (cases i) (auto simp: file_block_def small_file_def NDIRECT_def BSIZE_def nth_Cons split: nat.splits)

lemma small_file_ready: "file_ready (lobs log_example) small_file"
proof -
  have sz: "unat (d_size small_file) = 2000" "2000 \<le> MAXFILE * BSIZE"
    by (simp_all add: small_file_def MAXFILE_def NDIRECT_def NINDIRECT_def BSIZE_def)
  have "file_block V small_file i \<noteq> 0 \<and> \<not> NDIRECT \<le> i" if "i * BSIZE < 2000" for i V
    using small_file_block [OF that, of V] by simp
  then show ?thesis
    using example_readable sz unfolding file_ready_def by metis
qed

lemma example_dev: "l_dev (lg log_example) = 1"
  by (simp add: log_example_def)

theorem readi_correct_witness:
  "\<exists>s'. readi 0 (Kern []) 1000 500 kernel_file =
     Ok (500, subarr 1000 500 (file_bytes (a_view (lobs log_example)) small_file), s')"
proof -
  have "length (subarr 1000 500 (file_bytes (a_view (lobs log_example)) small_file)) = 500"
    by (simp add: length_subarr small_file_def)
  moreover have "(1000::u32) \<le> d_size small_file"
    by (simp add: small_file_def)
  ultimately show ?thesis
    using readi_correct [of kernel_file 0 1000 500] log_example_obs(2) small_file_ready by (auto simp: example_dev)
qed

end
