(* ===== verification/Fs_Write.thy ===== *)
theory Fs_Write
  imports Fs_Read
begin

text \<open>
  Writing to a file inside a transaction: what \<^verbatim>\<open>writei\<close> does to the contents of a file whose blocks are
  there already, and that a later \<^verbatim>\<open>readi\<close> returns what was written. It rests on the contract of the block
  cache and on the law of \<^verbatim>\<open>log_write\<close>.
\<close>

section \<open>Changing a block in a transaction\<close>

text \<open>Inside a transaction that has room for \<open>k\<close> more blocks; the log alone holds references.\<close>

definition in_op :: "nat \<Rightarrow> lstate \<Rightarrow> bool" where
  "in_op k l \<longleftrightarrow> linv l \<and> 0 < l_outstanding (lg l) \<and> a_busy (lobs l) = {} \<and>
     (\<forall>n. a_refs (lobs l) n = of_bool (n \<in> set (blocks_of (lg l)))) \<and>
     l_n (lg l) + int k < int LOGSIZE \<and> l_n (lg l) + int k < l_size (lg l) \<and> k \<le> a_room (lobs l)"

lemma in_op_readable: "in_op k l \<Longrightarrow> 0 < k \<Longrightarrow> a_readable (lobs l) n"
  by (auto simp: in_op_def a_readable_def a_steady_def)

lemma in_op_mono: "in_op k l \<Longrightarrow> j \<le> k \<Longrightarrow> in_op j l"
  by (auto simp: in_op_def)

definition same_log :: "lstate \<Rightarrow> lstate \<Rightarrow> bool" where
  "same_log l l' \<longleftrightarrow> l_dev (lg l') = l_dev (lg l) \<and> l_start (lg l') = l_start (lg l) \<and> l_size (lg l') = l_size (lg l)"

lemma blocks_count: "linv l \<Longrightarrow> int (card (set (blocks_of (lg l)))) = l_n (lg l)"
  by (auto simp: linv_def distinct_card) (auto simp: blocks_of_def)

lemma log_update:
  assumes op: "in_op (Suc k) l" and nl: "\<not> in_log (l_start (lg l)) n" and x: "length x = BSIZE" and dev: "dev = l_dev (lg l)"
  shows "\<exists>b c1 l2 c3. bread dev n (lbs l) = Ok (b, c1) \<and> bdata c1 b = a_view (lobs l) n \<and>
    log_write b (l\<lparr>lbs := set_bdata b x c1\<rparr>) = Ok l2 \<and> brelse b (lbs l2) = Ok c3 \<and>
    in_op k (l2\<lparr>lbs := c3\<rparr>) \<and> same_log l l2 \<and> a_view (lobs (l2\<lparr>lbs := c3\<rparr>)) = (a_view (lobs l))(n := x) \<and>
    a_store (lobs (l2\<lparr>lbs := c3\<rparr>)) = a_store (lobs l)"
proof -
  let ?w = "lobs l" and ?B = "set (blocks_of (lg l))"
  have inv: "linv l" "lbinv l" and refs: "a_refs ?w n = of_bool (n \<in> ?B)" and busy: "a_busy ?w = {}"
    using op by (auto simp: in_op_def linv_def)
  obtain b c1 where c1: "bread dev n (lbs l) = Ok (b, c1)" "binv dev c1" "bobs_of dev c1 = a_read n ?w" "holds dev c1 b n"
    using bcache.read_law [of dev "lbs l" n] in_op_readable [OF op] inv(2) dev by (auto simp: lbinv_def lobs_def)
  have d1: "bdata c1 b = a_view ?w n"
    using bcache.data_law [OF c1(2,4)] by (simp add: c1(3) a_read_def)
  let ?c2 = "set_bdata b x c1" and ?l1 = "l\<lparr>lbs := set_bdata b x c1\<rparr>"
  have "a_refs (bobs_of dev c1) n \<noteq> 0"
    by (simp add: c1(3) a_read_def refs)
  then have c2: "binv dev ?c2" "bobs_of dev ?c2 = a_set n x (a_read n ?w)" "holds dev ?c2 = holds dev c1"
    using bcache.set_law [OF c1(2,4) x] by (simp_all add: c1(3))
  then have o1: "lobs ?l1 = a_set n x (a_read n ?w)" and i1: "lbinv ?l1"
    using dev by (simp_all add: lobs_def lbinv_def)
  have rf: "a_refs (lobs ?l1) m \<noteq> 0" if "m \<in> ?B" for m
    using that op by (cases "m = n") (simp_all add: o1 a_ops in_op_def)
  have vs: "a_view (lobs ?l1) m = a_store (lobs ?l1) m" if "m \<notin> ?B" "m \<notin> a_busy (lobs ?l1)" for m
  proof -
    have "m \<noteq> n"
      using that(2) by (auto simp: o1 a_ops)
    then show ?thesis
      using that(1) inv(1) busy by (simp add: o1 a_ops linv_def)
  qed
  have "a_store (lobs ?l1) = a_store ?w"
    by (simp add: o1 a_ops)
  then have l1: "linv ?l1"
    using inv(1) i1 rf vs unfolding linv_def by simp
  have lw: "l_n (lg ?l1) + 1 < int LOGSIZE" "l_n (lg ?l1) < l_size (lg ?l1) - 1" "0 < l_outstanding (lg ?l1)"
    using op by (auto simp: in_op_def)
  have r1: "a_refs (lobs ?l1) n + 1 \<noteq> 0" "a_refs (lobs ?l1) n \<noteq> 0"
    by (simp_all add: o1 a_ops refs)
  have h1: "holds (l_dev (lg ?l1)) (lbs ?l1) b n"
    using c1(4) c2(3) dev by simp
  obtain l2 where l2: "log_write b ?l1 = Ok l2" "linv l2" "holds dev (lbs l2) = holds dev ?c2"
    "l_start (lg l2) = l_start (lg l)" "l_size (lg l2) = l_size (lg l)" "l_dev (lg l2) = dev"
    "l_outstanding (lg l2) = l_outstanding (lg l)" "set (blocks_of (lg l2)) = insert n ?B"
    "lobs l2 = (if n \<in> ?B then lobs ?l1 else a_ref n (lobs ?l1))"
    using log_write_law [OF l1 h1 _ lw r1] nl dev by auto
  have o2: "bobs_of dev (lbs l2) = lobs l2" "binv dev (lbs l2)"
    using l2(2,6) by (auto simp: lobs_def linv_def lbinv_def)
  have r2: "a_refs (lobs l2) n = 2" "a_busy (lobs l2) = {n}" "a_view (lobs l2) = (a_view ?w)(n := x)" "a_store (lobs l2) = a_store ?w"
    "a_room (lobs l2) = a_room ?w - of_bool (n \<notin> ?B)" "\<And>m. m \<noteq> n \<Longrightarrow> a_refs (lobs l2) m = a_refs ?w m"
    using refs by (auto simp: l2(9) o1 a_ops busy)
  have "holds dev (lbs l2) b n"
    using l2(3) c2(3) c1(4) by simp
  then obtain c3 where c3: "brelse b (lbs l2) = Ok c3" "binv dev c3" "bobs_of dev c3 = a_release n (lobs l2)"
    using bcache.release_law [OF o2(2), of b n] r2(1) o2(1) by auto
  let ?l3 = "l2\<lparr>lbs := c3\<rparr>"
  have o3: "lobs ?l3 = a_release n (lobs l2)" "lbinv ?l3"
    using c3 l2(6) by (simp_all add: lobs_def lbinv_def)
  have f3: "a_view (lobs ?l3) = (a_view ?w)(n := x)" "a_store (lobs ?l3) = a_store ?w" "a_busy (lobs ?l3) = {}"
    "a_room (lobs ?l3) = a_room ?w - of_bool (n \<notin> ?B)" "a_refs (lobs ?l3) m = of_bool (m \<in> insert n ?B)" for m
    using r2 op by (auto simp: o3 a_ops in_op_def)
  have "linv ?l3"
    using l2(2) o3(2) unfolding linv_def f3(1-3) using r2(2-4) f3(5)
    by (auto simp: l2(8))
  moreover have "l_n (lg l2) = l_n (lg l) + of_bool (n \<notin> ?B)"
    using blocks_count [OF l2(2)] blocks_count [OF inv(1)] by (cases "n \<in> ?B") (simp_all add: l2(8) insert_absorb)
  ultimately have "in_op k ?l3"
    using op l2(5,7,8) f3 unfolding in_op_def by auto
  then show ?thesis
    using c1(1) d1 l2 c3(1) f3(1,2) dev unfolding same_log_def by blast
qed

definition logged :: "kstate \<Rightarrow> kstate \<Rightarrow> bool" where
  "logged s s' \<longleftrightarrow> (\<exists>l. s' = s\<lparr>ls := l\<rparr> \<and> same_log (ls s) l)"

lemma logged_trans: "logged s s1 \<Longrightarrow> logged s1 s2 \<Longrightarrow> logged s s2"
  unfolding logged_def same_log_def by auto

lemma quiet_logged: "quiet s s' \<Longrightarrow> logged s s'"
  unfolding quiet_def logged_def same_log_def by auto

lemma logged_refl: "logged s s"
  unfolding logged_def by (intro exI [of _ "ls s"]) (simp add: same_log_def)

lemma loggedD:
  assumes "logged s s'"
  shows "icache s' = icache s" "l_dev (lg (ls s')) = l_dev (lg (ls s))" "l_start (lg (ls s')) = l_start (lg (ls s))" "sb s' = sb s"
  using assms by (auto simp: logged_def same_log_def)

lemma quiet_in_op: "quiet s s' \<Longrightarrow> in_op k (ls s) \<Longrightarrow> in_op k (ls s')"
  using quietD [of s s'] by (simp add: in_op_def linv_def)

lemma change_block:
  assumes "in_op (Suc k) (ls s)" "\<not> in_log (l_start (lg (ls s))) n" "dev = l_dev (lg (ls s))"
    "length (f (a_view (lobs (ls s)) n)) = BSIZE"
  shows "\<exists>bp s1 s2 s3. kbread dev n s = Ok (bp, s1) \<and> kdata s1 bp = a_view (lobs (ls s)) n \<and> icache s1 = icache s \<and>
    klog_write bp (set_kdata bp (f (kdata s1 bp)) s1) = Ok s2 \<and> kbrelse bp s2 = Ok s3 \<and> logged s s3 \<and> in_op k (ls s3) \<and>
    a_view (lobs (ls s3)) = (a_view (lobs (ls s)))(n := f (a_view (lobs (ls s)) n)) \<and> a_store (lobs (ls s3)) = a_store (lobs (ls s))"
proof -
  let ?x = "f (a_view (lobs (ls s)) n)"
  obtain b c1 l2 c3 where u: "bread dev n (lbs (ls s)) = Ok (b, c1)" "bdata c1 b = a_view (lobs (ls s)) n"
    "log_write b ((ls s)\<lparr>lbs := set_bdata b ?x c1\<rparr>) = Ok l2" "brelse b (lbs l2) = Ok c3" "in_op k (l2\<lparr>lbs := c3\<rparr>)"
    "same_log (ls s) l2" "a_view (lobs (l2\<lparr>lbs := c3\<rparr>)) = (a_view (lobs (ls s)))(n := ?x)"
    "a_store (lobs (l2\<lparr>lbs := c3\<rparr>)) = a_store (lobs (ls s))"
    using log_update [OF assms(1,2,4,3)] by blast
  let ?s1 = "s\<lparr>ls := (ls s)\<lparr>lbs := c1\<rparr>\<rparr>" and ?s2 = "s\<lparr>ls := l2\<rparr>" and ?s3 = "s\<lparr>ls := l2\<lparr>lbs := c3\<rparr>\<rparr>"
  have d: "kdata ?s1 b = a_view (lobs (ls s)) n"
    using u(2) by (simp add: kdata_def)
  have "kbread dev n s = Ok (b, ?s1)" "klog_write b (set_kdata b (f (kdata ?s1 b)) ?s1) = Ok ?s2" "kbrelse b ?s2 = Ok ?s3"
    using u by (simp_all add: kbread_def d klog_write_def set_kdata_def kbrelse_def)
  moreover have "logged s ?s3"
    using u(6) by (auto simp: logged_def same_log_def)
  moreover have "in_op k (ls ?s3)" "a_view (lobs (ls ?s3)) = (a_view (lobs (ls s)))(n := ?x)"
    "a_store (lobs (ls ?s3)) = a_store (lobs (ls s))" "icache ?s1 = icache s"
    using u by simp_all
  ultimately show ?thesis
    using d by blast
qed

section \<open>Files whose blocks are apart\<close>

definition in_file :: "dinode \<Rightarrow> nat \<Rightarrow> bool" where
  "in_file d i \<longleftrightarrow> i * BSIZE < unat (d_size d)"

definition file_fit :: "u32 \<Rightarrow> (u32 \<Rightarrow> u8 list) \<Rightarrow> dinode \<Rightarrow> bool" where
  "file_fit start V d \<longleftrightarrow> unat (d_size d) \<le> MAXFILE * BSIZE \<and>
     (\<forall>i. in_file d i \<longrightarrow> file_block V d i \<noteq> 0 \<and> \<not> in_log start (file_block V d i) \<and> (NDIRECT \<le> i \<longrightarrow> d_addrs d ! NDIRECT \<noteq> 0) \<and>
        (in_file d NDIRECT \<longrightarrow> file_block V d i \<noteq> d_addrs d ! NDIRECT)) \<and>
     (\<forall>i j. in_file d i \<longrightarrow> in_file d j \<longrightarrow> file_block V d i = file_block V d j \<longrightarrow> i = j)"

lemma in_file_mono: "in_file d i \<Longrightarrow> j \<le> i \<Longrightarrow> in_file d j"
  unfolding in_file_def by (metis le_less_trans mult_le_mono1)

lemma file_fitD:
  assumes "file_fit start V d" "in_file d i"
  shows "file_block V d i \<noteq> 0" "\<not> in_log start (file_block V d i)" "NDIRECT \<le> i \<Longrightarrow> d_addrs d ! NDIRECT \<noteq> 0"
    "in_file d NDIRECT \<Longrightarrow> file_block V d i \<noteq> d_addrs d ! NDIRECT"
    "in_file d j \<Longrightarrow> file_block V d j = file_block V d i \<Longrightarrow> j = i"
  using assms unfolding file_fit_def by blast+

lemma file_fit_ready:
  assumes "file_fit start (a_view (lobs l)) d" "in_op k l" "0 < k"
  shows "file_ready (lobs l) d"
  using assms in_op_readable [OF assms(2,3)] unfolding file_ready_def file_fit_def in_file_def by blast

text \<open>The blocks of a file stay where they are when one of them is written.\<close>

lemma file_block_upd:
  assumes "file_fit start V d" "in_file d i" "in_file d j"
  shows "file_block (V(file_block V d i := x)) d j = file_block V d j"
proof (cases "j < NDIRECT")
  case False
  then have "in_file d NDIRECT"
    using in_file_mono [OF assms(3)] by simp
  then show ?thesis
    using file_fitD(4) [OF assms(1,2)] by (auto simp: file_block_def)
qed (simp add: file_block_def)

lemma file_fit_upd:
  assumes "file_fit start V d" "in_file d i"
  shows "file_fit start (V(file_block V d i := x)) d"
  using assms(1) file_block_upd [OF assms] unfolding file_fit_def by auto

lemma file_bytes_upd:
  assumes fit: "file_fit start V d" and len: "\<forall>n. length (V n) = BSIZE" and i: "i = off div BSIZE"
    and r: "off mod BSIZE + length xs \<le> BSIZE" "off + length xs \<le> unat (d_size d)" "xs \<noteq> []"
  shows "file_bytes (V(file_block V d i := overwrite (off mod BSIZE) xs (V (file_block V d i)))) d = overwrite off xs (file_bytes V d)"
    (is "file_bytes ?V d = _")
proof (rule nth_equalityI)
  have o: "off = i * BSIZE + off mod BSIZE"
    using i by simp
  have "i * BSIZE \<le> off" "0 < length xs"
    using i r(3) by simp_all
  then have inf: "in_file d i"
    using r(2) unfolding in_file_def by linarith
  show "length (file_bytes ?V d) = length (overwrite off xs (file_bytes V d))"
    using r by simp
  fix j assume "j < length (file_bytes ?V d)"
  then have j: "j < unat (d_size d)"
    by simp
  then have inj: "in_file d (j div BSIZE)"
    unfolding in_file_def by (meson div_times_less_eq_dividend le_less_trans)
  have fb: "file_bytes ?V d ! j = ?V (file_block V d (j div BSIZE)) ! (j mod BSIZE)"
    using j file_block_upd [OF fit inf inj] by (simp add: file_bytes_def)
  have g: "file_bytes V d ! j = V (file_block V d (j div BSIZE)) ! (j mod BSIZE)"
    using j by (simp add: file_bytes_def)
  show "file_bytes ?V d ! j = overwrite off xs (file_bytes V d) ! j"
  proof (cases "j div BSIZE = i")
    case True
    then have jj: "j = i * BSIZE + j mod BSIZE" "j mod BSIZE < BSIZE"
      using BSIZE_pos by auto
    then have "off \<le> j \<longleftrightarrow> off mod BSIZE \<le> j mod BSIZE" "j < off + length xs \<longleftrightarrow> j mod BSIZE < off mod BSIZE + length xs"
      "j - off = j mod BSIZE - off mod BSIZE"
      using o by linarith+
    then show ?thesis
      using True fb g jj j r len by (simp add: nth_overwrite)
  next
    case False
    then have "file_block V d (j div BSIZE) \<noteq> file_block V d i"
      using file_fitD(5) [OF fit inf inj] by blast
    moreover have "\<not> (off \<le> j \<and> j < off + length xs)"
    proof
      assume a: "off \<le> j \<and> j < off + length xs"
      then have "i * BSIZE \<le> j" "j < (i + 1) * BSIZE"
        using o r(1) by (auto simp: algebra_simps)
      then have "j div BSIZE = i"
        using BSIZE_pos by (simp add: div_nat_eqI mult.commute)
      then show False
        using False by simp
    qed
    ultimately show ?thesis
      using fb g j r by (auto simp: nth_overwrite)
  qed
qed

section \<open>The loop of writei\<close>

text \<open>The number of blocks that \<open>n\<close> bytes at \<open>off\<close> touch.\<close>

definition nblk :: "nat \<Rightarrow> nat \<Rightarrow> nat" where
  "nblk off n = (if n = 0 then 0 else (off + n + BSIZE - 1) div BSIZE - off div BSIZE)"

lemma nblk_step:
  assumes "0 < n" "m = min n (BSIZE - off mod BSIZE)"
  shows "nblk off n = Suc (nblk (off + m) (n - m))"
proof -
  let ?q = "off div BSIZE" and ?r = "off mod BSIZE"
  have off: "off = ?q * BSIZE + ?r" "?r < BSIZE"
    using BSIZE_pos by simp_all
  have q: "(?q + 1) * BSIZE = ?q * BSIZE + BSIZE" "(?q + 2) * BSIZE = ?q * BSIZE + BSIZE + BSIZE"
    by (simp_all add: add_mult_distrib)
  show ?thesis
  proof (cases "n \<le> BSIZE - ?r")
    case True
    have "off + n + BSIZE - 1 = (?q + 1) * BSIZE + (?r + n - 1)"
      using off assms(1) by (simp add: algebra_simps)
    moreover have "?r + n - 1 < BSIZE"
      using True off(2) assms(1) by linarith
    ultimately have "(off + n + BSIZE - 1) div BSIZE = ?q + 1"
      by (metis div_mult_self3 div_less add_0_right less_nat_zero_code)
    then show ?thesis
      using True assms by (simp add: nblk_def)
  next
    case False
    then have m: "m = BSIZE - ?r" "off + m = (?q + 1) * BSIZE"
      using False assms(2) off q(1) by linarith+
    have "(off + n + BSIZE - 1) div BSIZE \<ge> ?q + 2"
    proof -
      have "(?q + 2) * BSIZE \<le> off + n + BSIZE - 1"
        using False off q(2) by linarith
      then show ?thesis
        using BSIZE_pos less_eq_div_iff_mult_less_eq by blast
    qed
    moreover have "off + m + (n - m) + BSIZE - 1 = off + n + BSIZE - 1" "(off + m) div BSIZE = ?q + 1"
      using False m BSIZE_pos by simp_all
    ultimately show ?thesis
      using False m(1) assms(1) by (simp add: nblk_def)
  qed
qed

lemma overwrite_split:
  assumes "m \<le> n" "n \<le> length xs" "off + n \<le> length F"
  shows "overwrite (off + m) (take (n - m) (drop m xs)) (overwrite off (take m xs) F) = overwrite off (take n xs) F"
  using assms by (intro nth_equalityI) (auto simp: nth_overwrite)

lemma view_size: "linv l \<Longrightarrow> length (a_view (lobs l) n) = BSIZE"
  using bcache.size_law [of "l_dev (lg l)" "lbs l"] by (auto simp: linv_def lbinv_def lobs_def)

definition only_blocks :: "(nat \<Rightarrow> bool) \<Rightarrow> (u32 \<Rightarrow> u8 list) \<Rightarrow> dinode \<Rightarrow> (u32 \<Rightarrow> u8 list) \<Rightarrow> bool" where
  "only_blocks P V d V' \<longleftrightarrow> (\<forall>n. V' n \<noteq> V n \<longrightarrow> (\<exists>i. P i \<and> n = file_block V d i))"

lemma writei_loop_law:
  assumes "in_op (k + nblk off n) (ls s)" "i_dev (ino s ip) = l_dev (lg (ls s))"
    "file_fit (l_start (lg (ls s))) (a_view (lobs (ls s))) (i_d (ino s ip))"
    "off + n \<le> unat (d_size (i_d (ino s ip)))" "n \<le> length xs"
  shows "\<exists>s'. writei_loop ip (Kern xs) off n s = Ok (off + n, s') \<and> logged s s' \<and> in_op k (ls s') \<and>
    file_fit (l_start (lg (ls s))) (a_view (lobs (ls s'))) (i_d (ino s ip)) \<and>
    file_bytes (a_view (lobs (ls s'))) (i_d (ino s ip)) = overwrite off (take n xs) (file_bytes (a_view (lobs (ls s))) (i_d (ino s ip))) \<and>
    only_blocks (in_file (i_d (ino s ip))) (a_view (lobs (ls s))) (i_d (ino s ip)) (a_view (lobs (ls s'))) \<and>
    (\<forall>i. in_file (i_d (ino s ip)) i \<longrightarrow> file_block (a_view (lobs (ls s'))) (i_d (ino s ip)) i = file_block (a_view (lobs (ls s))) (i_d (ino s ip)) i) \<and>
    a_store (lobs (ls s')) = a_store (lobs (ls s))"
  using assms
proof (induction n arbitrary: off xs s rule: less_induct)
  case (less n)
  let ?V = "a_view (lobs (ls s))" and ?d = "i_d (ino s ip)" and ?i = "off div BSIZE"
  show ?case
  proof (cases "n = 0")
    case True
    then show ?thesis
      using less.prems by (simp add: writei_loop.simps [of ip _ off] logged_refl nblk_def overwrite_def only_blocks_def)
  next
    case False
    define m where "m = min n (BSIZE - off mod BSIZE)"
    define b where "b = file_block ?V ?d ?i"
    define f where "f = overwrite (off mod BSIZE) (take m xs)"
    have "off mod BSIZE < BSIZE" "?i * BSIZE \<le> off"
      using BSIZE_pos by simp_all
    then have m: "0 < m" "m \<le> n" "in_file ?d ?i" "off mod BSIZE + m \<le> BSIZE"
      using False less.prems(4) unfolding in_file_def m_def by linarith+
    have nb: "k + nblk off n = Suc (k + nblk (off + m) (n - m))"
      using nblk_step [of n m off] False m_def by simp
    have op: "in_op (Suc (k + nblk (off + m) (n - m))) (ls s)"
      using less.prems(1) nb by simp
    have inv: "lbinv (ls s)" "linv (ls s)"
      using op by (auto simp: in_op_def linv_def)
    obtain s1 where s1: "bmap ip (of_nat ?i) s = Ok (b, s1)" "quiet s s1"
      using bmap_mapped [OF inv(1) less.prems(2) file_fit_ready [OF less.prems(3) op], of ?i] m(3)
      by (auto simp: in_file_def b_def)
    note q1 = quietD [OF s1(2)]
    have nl: "\<not> in_log (l_start (lg (ls s1))) b"
      using file_fitD(2) [OF less.prems(3) m(3)] q1 by (simp add: b_def)
    have fl: "length (f (?V b)) = BSIZE"
      using view_size [OF inv(2)] m(2,4) less.prems(5) by (simp add: f_def)
    obtain bp s2 s3 s4 where c: "kbread (i_dev (ino s1 ip)) b s1 = Ok (bp, s2)" "kdata s2 bp = ?V b" "icache s2 = icache s1"
      "klog_write bp (set_kdata bp (f (kdata s2 bp)) s2) = Ok s3" "kbrelse bp s3 = Ok s4" "logged s1 s4"
      "in_op (k + nblk (off + m) (n - m)) (ls s4)" "a_view (lobs (ls s4)) = ?V(b := f (?V b))"
      "a_store (lobs (ls s4)) = a_store (lobs (ls s))"
      using change_block [OF quiet_in_op [OF s1(2) op] nl, of "i_dev (ino s1 ip)" f] q1 less.prems(2) fl by auto
    have lg4: "logged s s4"
      using logged_trans [OF quiet_logged [OF s1(2)] c(6)] .
    note q4 = loggedD [OF lg4]
    let ?V4 = "a_view (lobs (ls s4))"
    have fit4: "file_fit (l_start (lg (ls s4))) ?V4 ?d"
      using file_fit_upd [OF less.prems(3) m(3)] c(8) q4(3) by (simp add: b_def)
    have blk4: "file_block ?V4 ?d j = file_block ?V ?d j" if "in_file ?d j" for j
      using file_block_upd [OF less.prems(3) m(3) that] c(8) by (simp add: b_def)
    have "length (take m xs) = m" "xs \<noteq> []"
      using m(1,2) less.prems(5) by auto
    then have by4: "file_bytes ?V4 ?d = overwrite off (take m xs) (file_bytes ?V ?d)"
      using file_bytes_upd [OF less.prems(3) _ refl, of off "take m xs"] view_size [OF inv(2)] m less.prems(4) c(8)
      by (auto simp: b_def f_def)
    obtain s5 where s5: "writei_loop ip (Kern (drop m xs)) (off + m) (n - m) s4 = Ok (off + m + (n - m), s5)" "logged s4 s5"
      "in_op k (ls s5)" "file_fit (l_start (lg (ls s4))) (a_view (lobs (ls s5))) ?d"
      "file_bytes (a_view (lobs (ls s5))) ?d = overwrite (off + m) (take (n - m) (drop m xs)) (file_bytes ?V4 ?d)"
      "only_blocks (in_file ?d) ?V4 ?d (a_view (lobs (ls s5)))"
      "\<forall>i. in_file ?d i \<longrightarrow> file_block (a_view (lobs (ls s5))) ?d i = file_block ?V4 ?d i"
      "a_store (lobs (ls s5)) = a_store (lobs (ls s4))"
      using less.IH [of "n - m" "off + m" s4 "drop m xs"] c(7) fit4 q4 less.prems(2,4) m False
        diff_le_mono [OF less.prems(5), of m] by auto
    have ob: "only_blocks (in_file ?d) ?V ?d (a_view (lobs (ls s5)))"
      unfolding only_blocks_def
    proof (intro allI impI)
      fix j assume ne: "a_view (lobs (ls s5)) j \<noteq> ?V j"
      show "\<exists>i. in_file ?d i \<and> j = file_block ?V ?d i"
      proof (cases "?V4 j = ?V j")
        case True
        then show ?thesis
          using ne s5(6) blk4 unfolding only_blocks_def by metis
      next
        case False
        then have "j = b"
          using c(8) by (auto split: if_splits)
        then show ?thesis
          using m(3) b_def by blast
      qed
    qed
    have "writei_loop ip (Kern xs) off n s = Ok (off + n, s5)"
      using False s1(1) c(1,4,5) s5(1) m(2) less.prems(5)
      by (simp add: writei_loop.simps [of ip _ off] either_copyin_def Let_def f_def flip: m_def)
    moreover have "file_bytes (a_view (lobs (ls s5))) ?d = overwrite off (take n xs) (file_bytes ?V ?d)"
      using s5(5) by4 overwrite_split [OF m(2) less.prems(5), of off "file_bytes ?V ?d"] less.prems(4) by simp
    ultimately show ?thesis
      using s5(2,3,4,7,8) lg4 logged_trans ob blk4 q4(3) c(9) by auto
  qed
qed

section \<open>Updating the inode\<close>

lemma length_dinode_bytes: "length (d_addrs d) = 13 \<Longrightarrow> length (dinode_bytes d) = 64"
proof -
  have "length (concat (map (le_bytes 4) as)) = 4 * length as" for as :: "u32 list"
    by (induction as) simp_all
  then show "length (d_addrs d) = 13 \<Longrightarrow> length (dinode_bytes d) = 64"
    by (simp add: dinode_bytes_def)
qed

lemma ioff_bound: "ioff inum + 64 \<le> BSIZE"
proof -
  have "unat inum mod IPB < 16"
    by (simp add: IPB_def BSIZE_def)
  then show ?thesis
    by (simp add: ioff_def BSIZE_def)
qed

text \<open>The block of the inode is apart from the blocks of its file.\<close>

definition inode_apart :: "u32 \<Rightarrow> u32 \<Rightarrow> (u32 \<Rightarrow> u8 list) \<Rightarrow> dinode \<Rightarrow> bool" where
  "inode_apart start b V d \<longleftrightarrow> \<not> in_log start b \<and> length (d_addrs d) = 13 \<and>
     (\<forall>i. in_file d i \<longrightarrow> b \<noteq> file_block V d i) \<and> (in_file d NDIRECT \<longrightarrow> b \<noteq> d_addrs d ! NDIRECT)"

lemma iupdate_law:
  assumes "in_op (Suc k) (ls s)" "i_dev (ino s ip) = l_dev (lg (ls s))"
    "\<not> in_log (l_start (lg (ls s))) (IBLOCK (i_inum (ino s ip)) (sb s))" "length (d_addrs (i_d (ino s ip))) = 13"
  shows "\<exists>s'. iupdate ip s = Ok s' \<and> logged s s' \<and> in_op k (ls s') \<and> a_store (lobs (ls s')) = a_store (lobs (ls s)) \<and>
    a_view (lobs (ls s')) = (a_view (lobs (ls s)))(IBLOCK (i_inum (ino s ip)) (sb s) :=
      overwrite (ioff (i_inum (ino s ip))) (dinode_bytes (i_d (ino s ip))) (a_view (lobs (ls s)) (IBLOCK (i_inum (ino s ip)) (sb s))))"
proof -
  let ?b = "IBLOCK (i_inum (ino s ip)) (sb s)" and ?f = "overwrite (ioff (i_inum (ino s ip))) (dinode_bytes (i_d (ino s ip)))"
  have "linv (ls s)"
    using assms(1) by (simp add: in_op_def)
  then have "length (?f (a_view (lobs (ls s)) ?b)) = BSIZE"
    using view_size length_dinode_bytes [OF assms(4)] ioff_bound by simp
  then obtain bp s1 s2 s3 where c: "kbread (i_dev (ino s ip)) ?b s = Ok (bp, s1)" "icache s1 = icache s"
    "klog_write bp (set_kdata bp (?f (kdata s1 bp)) s1) = Ok s2" "kbrelse bp s2 = Ok s3" "logged s s3" "in_op k (ls s3)"
    "a_view (lobs (ls s3)) = (a_view (lobs (ls s)))(?b := ?f (a_view (lobs (ls s)) ?b))" "a_store (lobs (ls s3)) = a_store (lobs (ls s))"
    using change_block [OF assms(1,3), of "i_dev (ino s ip)" ?f] assms(2) by blast
  then show ?thesis
    by (simp add: iupdate_def)
qed

lemma file_block_other: "inode_apart start b V d \<Longrightarrow> in_file d i \<Longrightarrow> file_block (V(b := x)) d i = file_block V d i"
  using in_file_mono [of d i NDIRECT] by (cases "i < NDIRECT") (auto simp: file_block_def inode_apart_def)

lemma file_bytes_other:
  assumes "inode_apart start b V d"
  shows "file_bytes (V(b := x)) d = file_bytes V d"
proof -
  have "(V(b := x)) (file_block (V(b := x)) d (j div BSIZE)) = V (file_block V d (j div BSIZE))" if "j < unat (d_size d)" for j
  proof -
    have "in_file d (j div BSIZE)"
      using that unfolding in_file_def by (meson div_times_less_eq_dividend le_less_trans)
    then show ?thesis
      using file_block_other [OF assms] assms unfolding inode_apart_def by auto
  qed
  then show ?thesis
    by (simp add: file_bytes_def)
qed

section \<open>Writing and reading back\<close>

lemma sint_uint_small: "unat (w :: u32) < 2 ^ 31 \<Longrightarrow> sint w = uint w"
proof -
  assume "unat w < 2 ^ 31"
  then have "uint w < 2 ^ 31"
    unfolding uint_nat by (metis of_nat_less_iff of_nat_numeral of_nat_power)
  moreover have "- (2 ^ 31) \<le> uint w"
    by (rule order_trans [OF _ uint_ge_0]) simp
  ultimately have "uint w < 2 ^ 31" "- (2 ^ 31) \<le> uint w"
    by blast+
  then show ?thesis
    unfolding sint_uint by (intro signed_take_bit_int_eq_self) simp_all
qed


lemma writei_law:
  assumes op: "in_op (Suc k + nblk (unat off) (length xs)) (ls s)" and dev: "i_dev (ino s ip) = l_dev (lg (ls s))"
    and fit: "file_fit (l_start (lg (ls s))) (a_view (lobs (ls s))) (i_d (ino s ip))"
    and ino: "inode_apart (l_start (lg (ls s))) (IBLOCK (i_inum (ino s ip)) (sb s)) (a_view (lobs (ls s))) (i_d (ino s ip))"
    and len: "unat off + length xs \<le> unat (d_size (i_d (ino s ip)))" and ne: "xs \<noteq> []"
  shows "\<exists>s'. writei ip (Kern xs) off (of_nat (length xs)) s = Ok (int (length xs), s') \<and> logged s s' \<and> in_op k (ls s') \<and>
    file_bytes (a_view (lobs (ls s'))) (i_d (ino s ip)) = overwrite (unat off) xs (file_bytes (a_view (lobs (ls s))) (i_d (ino s ip))) \<and>
    file_fit (l_start (lg (ls s))) (a_view (lobs (ls s'))) (i_d (ino s ip)) \<and> a_store (lobs (ls s')) = a_store (lobs (ls s))"
proof -
  let ?d = "i_d (ino s ip)" and ?V = "a_view (lobs (ls s))" and ?n = "of_nat (length xs) :: u32"
  let ?b = "IBLOCK (i_inum (ino s ip)) (sb s)"
  have max: "unat (d_size ?d) \<le> MAXFILE * BSIZE" "MAXFILE * BSIZE < 2 ^ 31"
    using fit by (simp_all add: file_fit_def) (simp add: MAXFILE_def NDIRECT_def NINDIRECT_def BSIZE_def)
  then have n: "unat ?n = length xs" "length xs < 2 ^ 31"
    using len by (simp_all add: unsigned_of_nat take_bit_nat_eq_self)
  then have sum: "unat (off + ?n) = unat off + length xs"
    using len max by (simp add: unat_add_nowrap)
  have sn: "sint ?n = int (length xs)" "?n > 0"
    using n ne sint_uint_small [of ?n] by (simp_all add: word_less_nat_alt uint_nat)
  obtain s1 where s1: "writei_loop ip (Kern xs) (unat off) (length xs) s = Ok (unat off + length xs, s1)" "logged s s1" "in_op (Suc k) (ls s1)"
    "file_fit (l_start (lg (ls s))) (a_view (lobs (ls s1))) ?d"
    "file_bytes (a_view (lobs (ls s1))) ?d = overwrite (unat off) xs (file_bytes ?V ?d)"
    "only_blocks (in_file ?d) ?V ?d (a_view (lobs (ls s1)))"
    "\<forall>i. in_file ?d i \<longrightarrow> file_block (a_view (lobs (ls s1))) ?d i = file_block ?V ?d i"
    "a_store (lobs (ls s1)) = a_store (lobs (ls s))"
    using writei_loop_law [OF op dev fit len order_refl] by auto
  note q = loggedD [OF s1(2)]
  have ap: "inode_apart (l_start (lg (ls s1))) ?b (a_view (lobs (ls s1))) ?d"
    using ino s1(7) q(3) by (simp add: inode_apart_def)
  obtain s2 where s2: "iupdate ip s1 = Ok s2" "logged s1 s2" "in_op k (ls s2)" "a_store (lobs (ls s2)) = a_store (lobs (ls s1))"
    "\<exists>x. a_view (lobs (ls s2)) = (a_view (lobs (ls s1)))(?b := x)"
    using iupdate_law [OF s1(3), of ip] q dev ap by (auto simp: inode_apart_def)
  then obtain x where x: "a_view (lobs (ls s2)) = (a_view (lobs (ls s1)))(?b := x)"
    by blast
  have by2: "file_bytes (a_view (lobs (ls s2))) ?d = overwrite (unat off) xs (file_bytes ?V ?d)"
    using file_bytes_other [OF ap] s1(5) x by simp
  have fit2: "file_fit (l_start (lg (ls s))) (a_view (lobs (ls s2))) ?d"
    using s1(4) file_block_other [OF ap] x unfolding file_fit_def by simp
  have "writei ip (Kern xs) off ?n s = Ok (int (length xs), s2)"
    using s1(1) s2(1) n sum len max sn q(1)
    by (simp add: writei_def word_less_nat_alt not_less)
  then show ?thesis
    using logged_trans [OF s1(2) s2(2)] s2(3,4) by2 fit2 s1(8) by auto
qed

text \<open>C4: what \<^verbatim>\<open>writei\<close> writes inside a file, \<^verbatim>\<open>readi\<close> reads back: the write succeeds within the transaction, the
  contents of the file change exactly at the bytes that were written, nothing reaches the home blocks on
  the disk before the commit, and a read of the same range returns what was written.\<close>

theorem writei_readi:
  assumes "in_op (Suc (Suc (nblk (unat off) (length xs)))) (ls s)" "i_dev (ino s ip) = l_dev (lg (ls s))"
    "file_fit (l_start (lg (ls s))) (a_view (lobs (ls s))) (i_d (ino s ip))"
    "inode_apart (l_start (lg (ls s))) (IBLOCK (i_inum (ino s ip)) (sb s)) (a_view (lobs (ls s))) (i_d (ino s ip))"
    "unat off + length xs \<le> unat (d_size (i_d (ino s ip)))" "xs \<noteq> []"
  shows "\<exists>s1 s2. writei ip (Kern xs) off (of_nat (length xs)) s = Ok (int (length xs), s1) \<and>
    file_bytes (a_view (lobs (ls s1))) (i_d (ino s ip)) = overwrite (unat off) xs (file_bytes (a_view (lobs (ls s))) (i_d (ino s ip))) \<and>
    a_store (lobs (ls s1)) = a_store (lobs (ls s)) \<and>
    readi ip (Kern []) off (of_nat (length xs)) s1 = Ok (of_nat (length xs), xs, s2) \<and> quiet s1 s2"
proof -
  let ?d = "i_d (ino s ip)" and ?V = "a_view (lobs (ls s))" and ?n = "of_nat (length xs) :: u32"
  obtain s1 where s1: "writei ip (Kern xs) off ?n s = Ok (int (length xs), s1)" "logged s s1" "in_op 1 (ls s1)"
    "file_bytes (a_view (lobs (ls s1))) ?d = overwrite (unat off) xs (file_bytes ?V ?d)"
    "file_fit (l_start (lg (ls s))) (a_view (lobs (ls s1))) ?d" "a_store (lobs (ls s1)) = a_store (lobs (ls s))"
    using writei_law [of 1 off xs s ip] assms by auto
  note q = loggedD [OF s1(2)]
  have max: "unat (d_size ?d) \<le> MAXFILE * BSIZE" "MAXFILE * BSIZE < 2 ^ 31"
    using assms(3) by (simp_all add: file_fit_def) (simp add: MAXFILE_def NDIRECT_def NINDIRECT_def BSIZE_def)
  then have n: "unat ?n = length xs"
    using assms(5) by (simp add: unsigned_of_nat take_bit_nat_eq_self)
  have "file_ready (lobs (ls s1)) (i_d (ino s1 ip))"
    using file_fit_ready [OF s1(5,3)] q(1) by simp
  moreover have "lbinv (ls s1)" "off \<le> d_size (i_d (ino s1 ip))" "unat off + unat ?n < 2 ^ 32"
    using s1(3) assms(5) max n q(1) by (auto simp: in_op_def linv_def word_le_nat_alt)
  ultimately obtain s2 where "readi ip (Kern []) off ?n s1 =
      Ok (of_nat (length (subarr (unat off) (unat ?n) (file_bytes (a_view (lobs (ls s1))) ?d))),
        subarr (unat off) (unat ?n) (file_bytes (a_view (lobs (ls s1))) ?d), s2)" "quiet s1 s2"
    using readi_law [of s1 ip off ?n] assms(2) q by auto
  moreover have "subarr (unat off) (unat ?n) (file_bytes (a_view (lobs (ls s1))) ?d) = xs"
    using subarr_overwrite_same [of "unat off" xs "file_bytes ?V ?d"] assms(5) s1(4) n by simp
  ultimately show ?thesis
    using s1(1,4,6) by auto
qed

lemma example_in_op: "k < 30 \<Longrightarrow> in_op k log_example"
  using linv_example log_example_obs(1)
  by (simp add: in_op_def) (simp add: log_example_def log_bss_def blocks_of_def LOGSIZE_def MAXOPBLOCKS_def NBUF_def)

theorem writei_readi_witness:
  "\<exists>s1 s2. writei 0 (Kern [7, 8, 9]) 1023 3 kernel_file = Ok (3, s1) \<and> readi 0 (Kern []) 1023 3 s1 = Ok (3, [7, 8, 9], s2)"
proof -
  have lg: "l_start (lg log_example) = 2"
    by (simp add: log_example_def)
  have sz: "unat (d_size small_file) = 2000"
    by (simp add: small_file_def)
  have blk: "file_block V small_file i = (if i = 0 then 100 else 101) \<and> i < NDIRECT \<and> i < 2" if "in_file small_file i" for i V
    using small_file_block [of i V] that by (simp add: in_file_def sz)
  have nd: "\<not> in_file small_file NDIRECT"
    by (simp add: in_file_def sz NDIRECT_def BSIZE_def)
  have ib: "IBLOCK 5 (sb kernel_file) = 32"
    by (simp add: IBLOCK_def IPB_def BSIZE_def)
  have out: "\<not> in_log 2 100" "\<not> in_log 2 101" "\<not> in_log 2 32"
    by (simp_all add: in_log_def LOGSIZE_def MAXOPBLOCKS_def)
  have fit: "file_fit 2 V small_file" for V
    unfolding file_fit_def
  proof (intro conjI allI impI)
    show "unat (d_size small_file) \<le> MAXFILE * BSIZE"
      by (simp add: sz MAXFILE_def NDIRECT_def NINDIRECT_def BSIZE_def)
  next
    fix i assume "in_file small_file i"
    then show "file_block V small_file i \<noteq> 0" "\<not> in_log 2 (file_block V small_file i)"
      using blk [of i V] out by simp_all
    show "d_addrs small_file ! NDIRECT \<noteq> 0" if "NDIRECT \<le> i"
      using that blk [OF \<open>in_file small_file i\<close>] by simp
    show "file_block V small_file i \<noteq> d_addrs small_file ! NDIRECT" if "in_file small_file NDIRECT"
      using that nd by simp
  next
    fix i j assume "in_file small_file i" "in_file small_file j" "file_block V small_file i = file_block V small_file j"
    then show "i = j"
      using blk [of i V] blk [of j V] by (auto split: if_splits)
  qed
  have len: "length (d_addrs small_file) = 13"
    by (simp add: small_file_def)
  have ap: "inode_apart 2 32 V small_file" for V
    unfolding inode_apart_def
  proof (intro conjI allI impI)
    fix i assume "in_file small_file i"
    then show "32 \<noteq> file_block V small_file i"
      using blk [of i V] by (simp split: if_splits)
  qed (use nd out(3) len in simp_all)
  have nb: "nblk (unat (1023::u32)) (length [7, 8, 9::u8]) = 2"
    by (simp add: nblk_def BSIZE_def)
  have "in_op 4 (ls kernel_file)"
    using example_in_op [of 4] by simp
  then have op: "in_op (Suc (Suc (nblk (unat (1023::u32)) (length [7, 8, 9::u8])))) (ls kernel_file)"
    unfolding nb by simp
  have "\<exists>s1 s2. writei 0 (Kern [7, 8, 9]) 1023 (of_nat (length [7, 8, 9::u8])) kernel_file = Ok (int (length [7, 8, 9::u8]), s1) \<and>
      file_bytes (a_view (lobs (ls s1))) (i_d (ino kernel_file 0)) =
        overwrite (unat (1023::u32)) [7, 8, 9] (file_bytes (a_view (lobs (ls kernel_file))) (i_d (ino kernel_file 0))) \<and>
      a_store (lobs (ls s1)) = a_store (lobs (ls kernel_file)) \<and>
      readi 0 (Kern []) 1023 (of_nat (length [7, 8, 9::u8])) s1 = Ok (of_nat (length [7, 8, 9::u8]), [7, 8, 9], s2) \<and> quiet s1 s2"
    by (rule writei_readi [OF op]) (simp_all add: example_dev lg sz ib fit ap)
  then show ?thesis
    by fastforce
qed

end
