(* ===== verification/Primes.thy ===== *)
theory Primes
  imports Descriptors Xv6_Prelude
begin

text \<open>
  \<^verbatim>\<open>user/primes.c\<close>: the sieve in which every process keeps one prime and passes the numbers that it does not
  divide through a pipe to the process that it forks. A process is given by its table of descriptors, the
  descriptor it reads from and the numbers that its parent will write there before closing the pipe. The
  result is what the chain of processes prints. Not asking whether \<^verbatim>\<open>pipe\<close> succeeded is a \<^verbatim>\<open>Fault\<close> when it
  does not, for \<^verbatim>\<open>pfd\<close> is then not initialised; a process that reads to the end of a pipe of which it holds
  the write end itself never gets there. The parameter \<open>forks\<close> says which forks succeed.
\<close>

section \<open>The program\<close>

definition own_writer :: "fdtable \<Rightarrow> nat \<Rightarrow> bool" where
  "own_writer t fd =
     (case t fd of Some (Rend m) \<Rightarrow> list_ex (\<lambda>k. t k = Some (Wend m)) [0..<16] | _ \<Rightarrow> False)"

function sieve :: "(nat \<Rightarrow> bool) \<Rightarrow> nat \<Rightarrow> fdtable \<Rightarrow> nat \<Rightarrow> nat list \<Rightarrow> nat list res" where
  "sieve forks n t fd ns =
     (if own_writer t fd then Blocked
      else case ns of
        [] \<Rightarrow> Ok []
      | p # ns \<Rightarrow>
          case fd_pipe n t of
            None \<Rightarrow> Fault ''pfd''
          | Some (pfd0, pfd1, t) \<Rightarrow>
              if \<not> forks n then Ok [p]
              else rmap ((#) p) (sieve forks (Suc n) (fd_close pfd1 t) pfd0 (filter (\<lambda>k. k mod p \<noteq> 0) ns)))"
  by pat_completeness auto
termination
  by (relation "measure (\<lambda>(forks, n, t, fd, ns). length ns)") (auto simp: less_Suc_eq_le)

declare sieve.simps [simp del]

text \<open>\<^verbatim>\<open>main\<close>, for the numbers up to \<open>limit\<close>, which is 35 in the source; \<open>n\<close> is the number of the first pipe.\<close>

definition primes_to :: "nat \<Rightarrow> (nat \<Rightarrow> bool) \<Rightarrow> nat \<Rightarrow> fdtable \<Rightarrow> nat list res" where
  "primes_to limit forks n t =
     (case fd_pipe n t of
        None \<Rightarrow> Fault ''pfd''
      | Some (pfd0, pfd1, t) \<Rightarrow>
          if \<not> forks n then Ok []
          else sieve forks (Suc n) (fd_close pfd1 t) pfd0 [2..<Suc limit])"

definition primes_main :: "(nat \<Rightarrow> bool) \<Rightarrow> nat \<Rightarrow> fdtable \<Rightarrow> nat list res" where
  "primes_main = primes_to 35"

section \<open>Prime numbers\<close>

definition is_prime :: "nat \<Rightarrow> bool" where
  "is_prime p \<longleftrightarrow> 2 \<le> p \<and> (\<forall>d\<in>set [2..<p]. \<not> d dvd p)"

function sift :: "nat list \<Rightarrow> nat list" where
  "sift [] = []"
| "sift (p # ns) = p # sift (filter (\<lambda>k. k mod p \<noteq> 0) ns)"
  by pat_completeness auto
termination
  by (relation "measure length") (auto simp: less_Suc_eq_le)

text \<open>What is left after the numbers below \<open>a\<close> have been sifted out.\<close>

definition survivors :: "nat \<Rightarrow> nat \<Rightarrow> nat list" where
  "survivors a b = filter (\<lambda>k. \<forall>d\<in>{2..<a}. \<not> d dvd k) [a..<b]"

lemma is_prime_survivor: "2 \<le> a \<Longrightarrow> (\<forall>d\<in>{2..<a}. \<not> d dvd a) \<longleftrightarrow> is_prime a"
  by (simp add: is_prime_def)

lemma survivors_step:
  assumes "2 \<le> a" "a < b"
  shows "survivors a b = (if is_prime a then a # [k\<leftarrow>[Suc a..<b]. \<forall>d\<in>{2..<a}. \<not> d dvd k]
    else survivors (Suc a) b)"
proof -
  have "(\<forall>d\<in>{2..<a}. \<not> d dvd k) \<longleftrightarrow> (\<forall>d\<in>{2..<Suc a}. \<not> d dvd k)" if "\<not> is_prime a" for k
  proof -
    from that assms(1) obtain d where "d \<in> {2..<a}" "d dvd a"
      by (auto simp: is_prime_def)
    then show ?thesis
      using dvd_trans by (metis atLeastLessThan_iff less_Suc_eq)
  qed
  then show ?thesis
    using assms is_prime_survivor [OF assms(1)] by (auto simp: survivors_def upt_conv_Cons intro: filter_cong)
qed

lemma survivors_Suc:
  assumes "2 \<le> a"
  shows "filter (\<lambda>k. k mod a \<noteq> 0) [k\<leftarrow>[Suc a..<b]. \<forall>d\<in>{2..<a}. \<not> d dvd k] = survivors (Suc a) b"
proof -
  have "{2..<Suc a} = insert a {2..<a}"
    using assms by auto
  then show ?thesis
    by (auto simp: survivors_def dvd_eq_mod_eq_0 intro!: filter_cong)
qed

lemma sift_survivors: "2 \<le> a \<Longrightarrow> sift (survivors a b) = filter is_prime [a..<b]"
proof (induction "b - a" arbitrary: a)
  case (Suc m)
  then have "sift (survivors (Suc a) b) = filter is_prime [Suc a..<b]"
    by (intro Suc.hyps(1)) auto
  moreover have "a < b"
    using Suc.hyps(2) by simp
  ultimately show ?case
    using Suc.prems by (simp add: survivors_step survivors_Suc upt_conv_Cons del: filter_filter neq0_conv)
qed (simp add: survivors_def)

lemma sift_primes: "sift [2..<b] = filter is_prime [2..<b]"
  using sift_survivors [of 2 b] by (simp add: survivors_def)

section \<open>The chain of processes\<close>

text \<open>The table of the \<open>k\<close>-th process of the chain: every process keeps the descriptors that its ancestors read
  from, because the child closes only the write end.\<close>

definition chain_fds :: "object \<times> object \<times> object \<Rightarrow> nat \<Rightarrow> nat \<Rightarrow> fdtable" where
  "chain_fds io n k = (\<lambda>fd. if fd < 3 then std io fd else if fd < k + 3 then Some (Rend (n + fd - 3)) else None)"

text \<open>The ends of pipes among the standard descriptors are of pipes made before.\<close>

definition old :: "nat \<Rightarrow> object \<times> object \<times> object \<Rightarrow> bool" where
  "old n io \<longleftrightarrow> (case io of (i, out, err) \<Rightarrow> list_all (\<lambda>x. case x of Wend m \<Rightarrow> m < n | _ \<Rightarrow> True) [i, out, err])"

lemma lowest_least:
  assumes "t k = None" "k < 16" "\<And>j. j < k \<Longrightarrow> t j \<noteq> None"
  shows "lowest t = Some k"
  using assms unfolding lowest_def find_Some_iff by (intro exI [of _ k]) auto

lemma lowest_None: "lowest t = None \<longleftrightarrow> (\<forall>k<16. t k \<noteq> None)"
  by (auto simp: lowest_def find_None_iff)

lemma std_low: "j < 3 \<Longrightarrow> std io j \<noteq> None"
  by (auto simp: std_def split: prod.split)

lemma chain_low: "j < k + 3 \<Longrightarrow> chain_fds io n k j \<noteq> None"
  using std_low [of j io] by (simp add: chain_fds_def)

lemma chain_open:
  "lowest (chain_fds io n k) = (if k < 13 then Some (k + 3) else None)"
  "lowest ((chain_fds io n k)(k + 3 \<mapsto> x)) = (if k < 12 then Some (k + 4) else None)"
proof -
  have "lowest (chain_fds io n k) = Some (k + 3)" if "k < 13"
    using that chain_low by (intro lowest_least) (simp_all add: chain_fds_def)
  moreover have "lowest (chain_fds io n k) = None" if "\<not> k < 13"
    using that chain_low [of _ k io n] unfolding lowest_None by auto
  ultimately show "lowest (chain_fds io n k) = (if k < 13 then Some (k + 3) else None)"
    by simp
  have "lowest ((chain_fds io n k)(k + 3 \<mapsto> x)) = Some (k + 4)" if "k < 12"
    using that chain_low [of _ k io n] by (intro lowest_least) (auto simp: chain_fds_def)
  moreover have "lowest ((chain_fds io n k)(k + 3 \<mapsto> x)) = None" if "\<not> k < 12"
    using that chain_low [of _ k io n] unfolding lowest_None by auto
  ultimately show "lowest ((chain_fds io n k)(k + 3 \<mapsto> x)) = (if k < 12 then Some (k + 4) else None)"
    by simp
qed

lemma chain_pipe:
  "fd_pipe m (chain_fds io n k) =
     (if k < 12 then Some (k + 3, k + 4, (chain_fds io n k)(k + 3 \<mapsto> Rend m, k + 4 \<mapsto> Wend m)) else None)"
  by (simp add: fd_pipe_def fd_open_def chain_open del: One_nat_def)

lemma chain_Suc: "fd_close (k + 4) ((chain_fds io n k)(k + 3 \<mapsto> Rend (n + k), k + 4 \<mapsto> Wend (n + k))) = chain_fds io n (Suc k)"
  by (auto simp: chain_fds_def fd_close_def fun_eq_iff)

lemma chain_own_writer:
  assumes "old n io"
  shows "\<not> own_writer (chain_fds io n (Suc k)) (k + 3)"
proof -
  have "chain_fds io n (Suc k) j \<noteq> Some (Wend (n + k))" for j
    using assms by (auto simp: chain_fds_def std_def old_def split: prod.splits)
  then show ?thesis
    by (auto simp: own_writer_def chain_fds_def list_ex_iff)
qed

lemma sieve_chain:
  assumes "old n io"
  shows "sieve (\<lambda>_. True) (n + Suc k) (chain_fds io n (Suc k)) (k + 3) ns =
    (if length (sift ns) + k < 12 then Ok (sift ns) else if ns = [] then Ok [] else Fault ''pfd'')"
proof (induction ns arbitrary: k rule: sift.induct)
  case 1
  then show ?case
    using chain_own_writer [OF assms] by (simp add: sieve.simps)
next
  case (2 p ns)
  have "sieve (\<lambda>_. True) (n + Suc k) (chain_fds io n (Suc k)) (k + 3) (p # ns) =
    (if Suc k < 12 then rmap ((#) p) (sieve (\<lambda>_. True) (n + Suc (Suc k)) (chain_fds io n (Suc (Suc k))) (Suc k + 3)
       (filter (\<lambda>k. k mod p \<noteq> 0) ns)) else Fault ''pfd'')"
    using chain_own_writer [OF assms, of k] chain_Suc [of "Suc k" io n]
    by (subst sieve.simps) (simp add: chain_pipe)
  then show ?case
    using 2 [of "Suc k"] by (cases "filter (\<lambda>k. k mod p \<noteq> 0) ns = []") auto
qed

lemma chain_0: "chain_fds io n 0 = std io"
  by (auto simp: chain_fds_def std_def fun_eq_iff split: prod.split)

lemma count_primes: "length (filter is_prime [2..<Suc limit]) < 12 \<longleftrightarrow> limit < 37"
proof -
  have eleven: "length (filter is_prime [2..<37]) = 11"
    by (simp add: is_prime_def upt_conv_Cons)
  have p37: "is_prime 37"
    by (simp add: is_prime_def upt_conv_Cons)
  have mono: "length (filter is_prime [2..<m]) \<le> length (filter is_prime [2..<n])" if "2 \<le> m" "m \<le> n" for m n
    using upt_add_eq_append [OF that(1), of "n - m"] that(2) by (simp del: upt_rec_numeral)
  have "length (filter is_prime [2..<38]) = 12"
    using eleven p37 upt_Suc_append [of 2 37] by (simp del: upt_rec_numeral)
  then show ?thesis
    using eleven mono [of "Suc limit" 37] mono [of 38 "Suc limit"]
    by (cases "limit = 0"; cases "limit < 37") (simp_all del: upt_rec_numeral upt_Suc)
qed

text \<open>C33: the program prints the prime numbers up to its limit, in order, as long as the limit is below 37. For
  37 and above it goes wrong: every process inherits the descriptors its ancestors read from, the process
  of the twelfth prime has no two descriptors left for its pipe, and the result of \<^verbatim>\<open>pipe\<close> is not looked
  at. The limit 35 of the source is just within the \<^verbatim>\<open>NOFILE\<close> descriptors of a process.\<close>

theorem primes_exact:
  assumes "old n io"
  shows "primes_to limit (\<lambda>_. True) n (std io) =
    (if limit < 37 then Ok (filter is_prime [2..<Suc limit]) else Fault ''pfd'')"
proof -
  have "primes_to limit (\<lambda>_. True) n (std io) = sieve (\<lambda>_. True) (n + Suc 0) (chain_fds io n (Suc 0)) (0 + 3) [2..<Suc limit]"
    using chain_pipe [of n io n 0] chain_Suc [of 0 io n] by (simp add: primes_to_def chain_0)
  then show ?thesis
    unfolding sieve_chain [OF assms] sift_primes using count_primes [of limit] by auto
qed

theorem primes_exact_witness:
  "old 1 (Console, Wend 0, Console) \<and> primes_main (\<lambda>_. True) 1 (std (Console, Wend 0, Console)) = Ok (filter is_prime [2..<36])"
  using primes_exact [of 1 "(Console, Wend 0, Console)" 35] by (simp add: old_def primes_main_def)

end
