(* ===== verification/Find.thy ===== *)
theory Find
  imports Ulib
begin

text \<open>
  \<^verbatim>\<open>user/find.c\<close>. The file system is what \<^verbatim>\<open>open\<close>, \<^verbatim>\<open>fstat\<close> and \<^verbatim>\<open>stat\<close> tell of a path: nothing, a file, a device, or a
  directory with its entries, an inode number and a name each. Every level of the recursion keeps a
  descriptor open and \<^verbatim>\<open>stat\<close> of \<^verbatim>\<open>user/ulib.c\<close> takes one for a moment; \<open>free\<close> is the number of those that are left.
  The path grows at every level, up to the size of the buffer, so the recursion ends on any file system,
  also on one whose directories form a cycle. \<^verbatim>\<open>fstat\<close> of a descriptor that was opened succeeds.
\<close>

section \<open>The program\<close>

datatype fnode = Ffile | Fdev | Fdir "(nat \<times> string) list"

datatype outline = Out string | Err string

definition DIRSIZ_u :: nat where "DIRSIZ_u = 14"

definition stat_u :: "(string \<Rightarrow> fnode option) \<Rightarrow> nat \<Rightarrow> string \<Rightarrow> fnode option" where
  "stat_u fs free path = (if free = 0 then None else fs path)"

function find_in :: "(string \<Rightarrow> fnode option) \<Rightarrow> nat \<Rightarrow> string \<Rightarrow> string \<Rightarrow> outline list" where
  "find_in fs free path target =
     (if free = 0 then [Err (''find: cannot open '' @ path)]
      else case fs path of
        None \<Rightarrow> [Err (''find: cannot open '' @ path)]
      | Some (Fdir entries) \<Rightarrow>
          if length path + 1 + DIRSIZ_u + 1 > 512 then [Out ''find: path too long'']
          else concat (map (\<lambda>(inum, name).
            if inum = 0 then []
            else
              let buf = path @ ''/'' @ name in
              case stat_u fs (free - 1) buf of
                None \<Rightarrow> [Out (''find: cannot stat '' @ buf)]
              | Some st \<Rightarrow>
                  (if st = Ffile \<and> ustrcmp name target = 0 then [Out buf] else []) @
                  (if (case st of Fdir _ \<Rightarrow> True | _ \<Rightarrow> False) \<and> ustrcmp name ''.'' \<noteq> 0 \<and> ustrcmp name ''..'' \<noteq> 0
                   then find_in fs (free - 1) buf target
                   else [])) entries)
      | Some _ \<Rightarrow> [Err (''find: '' @ path @ '' is not a directory'')])"
  by pat_completeness auto
termination
  by (relation "measure (\<lambda>(fs, free, path, target). 512 - length path)") (auto simp: DIRSIZ_u_def)

declare find_in.simps [simp del]

definition find_main :: "(string \<Rightarrow> fnode option) \<Rightarrow> nat \<Rightarrow> string list \<Rightarrow> int \<times> outline list" where
  "find_main fs free argv =
     (if length argv \<noteq> 3 then (1, [Err ''Usage: find <directory> <filename>''])
      else (0, find_in fs free (argv ! 1) (argv ! 2)))"

section \<open>Trees\<close>

datatype ftree = Tfile | Tdev | Tdir "(string \<times> ftree) list"

text \<open>The paths of the files of a given name.\<close>

fun named_files :: "ftree \<Rightarrow> string \<Rightarrow> string \<Rightarrow> string list" where
  "named_files (Tdir kids) target path =
     concat (map (\<lambda>(name, k).
       if k = Tfile \<and> name = target then [path @ ''/'' @ name] else named_files k target (path @ ''/'' @ name)) kids)"
| "named_files _ target path = []"

text \<open>A file system has a tree at a path: the live entries of every directory are its children and, anywhere
  among them, \<^verbatim>\<open>.\<close> and \<^verbatim>\<open>..\<close>, which are directories.\<close>

definition dot_name :: "string \<Rightarrow> bool" where
  "dot_name name \<longleftrightarrow> name = ''.'' \<or> name = ''..''"

definition live_names :: "(nat \<times> string) list \<Rightarrow> string list" where
  "live_names entries = map snd (filter (\<lambda>(inum, name). inum \<noteq> 0) entries)"

definition is_dir :: "fnode option \<Rightarrow> bool" where
  "is_dir n \<longleftrightarrow> (case n of Some (Fdir _) \<Rightarrow> True | _ \<Rightarrow> False)"

fun has_tree :: "(string \<Rightarrow> fnode option) \<Rightarrow> string \<Rightarrow> ftree \<Rightarrow> bool" where
  "has_tree fs path Tfile \<longleftrightarrow> fs path = Some Ffile"
| "has_tree fs path Tdev \<longleftrightarrow> fs path = Some Fdev"
| "has_tree fs path (Tdir kids) \<longleftrightarrow>
     (case fs path of
        Some (Fdir entries) \<Rightarrow>
          filter (\<lambda>name. \<not> dot_name name) (live_names entries) = map fst kids \<and>
          (\<forall>name\<in>set (live_names entries). CHR 0x00 \<notin> set name \<and> (dot_name name \<longrightarrow> is_dir (fs (path @ ''/'' @ name)))) \<and>
          (\<forall>(name, k)\<in>set kids. has_tree fs (path @ ''/'' @ name) k)
      | _ \<Rightarrow> False)"

text \<open>There are enough descriptors for the depth of a tree, and its directories have paths that fit the buffer.\<close>

fun has_room :: "nat \<Rightarrow> nat \<Rightarrow> ftree \<Rightarrow> bool" where
  "has_room free len (Tdir kids) \<longleftrightarrow>
     2 \<le> free \<and> len + 1 + DIRSIZ_u + 1 \<le> 512 \<and> (\<forall>(name, k)\<in>set kids. has_room (free - 1) (len + 1 + length name) k)"
| "has_room free len _ \<longleftrightarrow> True"

text \<open>What is printed for one live entry.\<close>

definition find_entry :: "(string \<Rightarrow> fnode option) \<Rightarrow> nat \<Rightarrow> string \<Rightarrow> string \<Rightarrow> string \<Rightarrow> outline list" where
  "find_entry fs free path target name =
     (let buf = path @ ''/'' @ name in
      case stat_u fs (free - 1) buf of
        None \<Rightarrow> [Out (''find: cannot stat '' @ buf)]
      | Some st \<Rightarrow>
          (if st = Ffile \<and> ustrcmp name target = 0 then [Out buf] else []) @
          (if (case st of Fdir _ \<Rightarrow> True | _ \<Rightarrow> False) \<and> ustrcmp name ''.'' \<noteq> 0 \<and> ustrcmp name ''..'' \<noteq> 0
           then find_in fs (free - 1) buf target
           else []))"

lemma find_in_dir:
  assumes "fs path = Some (Fdir entries)" "free \<noteq> 0" "length path + 1 + DIRSIZ_u + 1 \<le> 512"
  shows "find_in fs free path target = concat (map (find_entry fs free path target) (live_names entries))"
proof -
  have "concat (map (\<lambda>(inum, name). if inum = 0 then [] else f name) es) = concat (map f (live_names es))"
    for f :: "string \<Rightarrow> outline list" and es
    by (induction es) (auto simp: live_names_def)
  then show ?thesis
    using assms by (simp add: find_in.simps [of fs free path] find_entry_def [abs_def])
qed

lemma concat_map_drop: "(\<And>x. x \<in> set xs \<Longrightarrow> \<not> P x \<Longrightarrow> f x = []) \<Longrightarrow> concat (map f xs) = concat (map f (filter P xs))"
  by (induction xs) auto

lemma ustrcmp_dot:
  assumes "CHR 0x00 \<notin> set name"
  shows "ustrcmp name ''.'' \<noteq> 0 \<and> ustrcmp name ''..'' \<noteq> 0 \<longleftrightarrow> \<not> dot_name name"
  using assms by (simp add: ustrcmp_eq dot_name_def)

lemma find_entry_dot:
  assumes "dot_name name" "is_dir (fs (path @ ''/'' @ name))" "2 \<le> free"
  shows "find_entry fs free path target name = []"
  using assms by (auto simp: find_entry_def stat_u_def is_dir_def dot_name_def split: option.splits fnode.splits)

lemma find_tree:
  assumes "has_tree fs path t" "has_room free (length path) t" "CHR 0x00 \<notin> set target" "is_dir (fs path)"
  shows "find_in fs free path target = map Out (named_files t target path)"
  using assms(1,2,4)
proof (induction t arbitrary: path free)
  case (Tdir kids)
  note IH = Tdir.IH
  from Tdir.prems(1) obtain entries where entries: "fs path = Some (Fdir entries)"
    and live: "filter (\<lambda>name. \<not> dot_name name) (live_names entries) = map fst kids"
    and names: "\<And>name. name \<in> set (live_names entries) \<Longrightarrow> CHR 0x00 \<notin> set name"
    and dots: "\<And>name. name \<in> set (live_names entries) \<Longrightarrow> dot_name name \<Longrightarrow> is_dir (fs (path @ ''/'' @ name))"
    and kids: "\<And>name k. (name, k) \<in> set kids \<Longrightarrow> has_tree fs (path @ ''/'' @ name) k"
    by (auto split: option.splits fnode.splits)
  have room: "2 \<le> free" "length path + 1 + DIRSIZ_u + 1 \<le> 512"
    "\<And>name k. (name, k) \<in> set kids \<Longrightarrow> has_room (free - 1) (length (path @ ''/'' @ name)) k"
    using Tdir.prems(2) by auto
  have "find_in fs free path target = concat (map (find_entry fs free path target) (live_names entries))"
    using find_in_dir [of fs path entries free target] entries room by simp
  also have "\<dots> = concat (map (find_entry fs free path target) (map fst kids))"
    unfolding live [symmetric] using find_entry_dot dots room(1) by (intro concat_map_drop) auto
  finally have all: "find_in fs free path target = concat (map (find_entry fs free path target) (map fst kids))" .
  have "find_entry fs free path target name =
      map Out (if k = Tfile \<and> name = target then [path @ ''/'' @ name] else named_files k target (path @ ''/'' @ name))"
    if mem: "(name, k) \<in> set kids" for name k
  proof -
    have "name \<in> set (filter (\<lambda>name. \<not> dot_name name) (live_names entries))"
      unfolding live using mem by force
    then have name: "\<not> dot_name name" "CHR 0x00 \<notin> set name"
      using names by auto
    note cmp = ustrcmp_dot [OF name(2)] ustrcmp_eq [OF name(2) assms(3)]
    show ?thesis
    proof (cases k)
      case (Tdir kids')
      have "find_in fs (free - 1) (path @ ''/'' @ name) target = map Out (named_files k target (path @ ''/'' @ name))"
        using IH [of "(name, k)" k "path @ ''/'' @ name" "free - 1"] Tdir mem kids [OF mem] room(3) [OF mem]
        by (simp add: is_dir_def split: option.splits fnode.splits)
      then show ?thesis
        using Tdir kids [OF mem] room(1) name cmp
        by (auto simp: find_entry_def stat_u_def split: option.splits fnode.splits)
    qed (use kids [OF mem] room(1) cmp in \<open>simp_all add: find_entry_def stat_u_def\<close>)
  qed
  then have each: "map (find_entry fs free path target) (map fst kids) =
      map (\<lambda>(name, k). map Out (if k = Tfile \<and> name = target then [path @ ''/'' @ name]
        else named_files k target (path @ ''/'' @ name))) kids"
    by (auto simp: case_prod_beta)
  then show ?case
    unfolding all each by (simp add: map_concat case_prod_beta' comp_def)
qed (simp_all add: is_dir_def)



end
