(* ===== verification/Coreutils.thy ===== *)
theory Coreutils
  imports Ulib
begin

text \<open>
  The small programs of \<^verbatim>\<open>user/\<close>: \<^verbatim>\<open>cat\<close>, \<^verbatim>\<open>wc\<close> and \<^verbatim>\<open>echo\<close> on the files of a world, and \<^verbatim>\<open>rm\<close>, \<^verbatim>\<open>mkdir\<close>, \<^verbatim>\<open>ln\<close>, \<^verbatim>\<open>kill\<close> and
  \<^verbatim>\<open>sleep\<close>, which pass their arguments to a system call each.
\<close>

section \<open>\<^verbatim>\<open>cat\<close>\<close>

function cat :: "nat \<Rightarrow> uworld \<Rightarrow> unit run" where
  "cat fd w =
     (let (n, s, w1) = read_u fd 512 w in
      if n > 0 then
        let (r, w2) = write_u 1 s w1 in
        if r \<noteq> n then Exit 1 (fprintf 2 ''cat: write error\<newline>'' [] w2) else cat fd w2
      else if n < 0 then Exit 1 (fprintf 2 ''cat: read error\<newline>'' [] w1)
      else Go () w1)"
  by pat_completeness auto
termination
proof (relation "measure (\<lambda>(fd, w). fd_left fd w)")
  fix fd and w :: uworld and x n y s w1 z r w2
  assume "x = read_u fd 512 w" "(n, y) = x" "(s, w1) = y" "0 < n" "z = write_u 1 s w1" "(r, w2) = z"
  then have "read_u fd 512 w = (n, s, w1)" "uw_fds w2 = uw_fds w1"
    by (auto simp: write_u_def split: if_splits)
  then show "((fd, w2), fd, w) \<in> measure (\<lambda>(fd, w). fd_left fd w)"
    using read_u_less [of fd 512 w n s w1] \<open>0 < n\<close> by (simp add: fd_left_def)
qed simp

declare cat.simps [simp del]

fun cat_files :: "string list \<Rightarrow> uworld \<Rightarrow> unit run" where
  "cat_files [] w = Exit 0 w"
| "cat_files (a # argv) w =
     (let (fd, w) = open_u a w in
      if fd < 0 then Exit 1 (fprintf 2 ''cat: cannot open %s\<newline>'' [Ps a] w)
      else case cat (nat fd) w of Exit s w \<Rightarrow> Exit s w | Go _ w \<Rightarrow> cat_files argv (close_u (nat fd) w))"

definition cat_main :: "string list \<Rightarrow> uworld \<Rightarrow> unit run" where
  "cat_main argv w =
     (if length argv \<le> 1 then case cat 0 w of Exit s w \<Rightarrow> Exit s w | Go _ w \<Rightarrow> Exit 0 w
      else cat_files (tl argv) w)"

lemma cat_correct:
  "uw_fds w fd = Some as \<Longrightarrow> clean as \<Longrightarrow> \<forall>t. uw_ok w 1 t \<Longrightarrow> cat fd w = Go () (reads fd [] (prints w (text_of as)))"
proof (induction fd w arbitrary: as rule: cat.induct)
  case (1 fd w)
  obtain s as' where r: "read_u fd 512 w = (int (length s), s, reads fd as' w)" "clean as'" "text_of as = s @ text_of as'"
    "s = [] \<longleftrightarrow> as = []" "as = [] \<Longrightarrow> as' = []" "length s \<le> 512"
    using read_u_clean [OF "1.prems"(1,2), of 512] by auto
  have wr: "write_u 1 s (reads fd as' w) = (int (length s), prints (reads fd as' w) s)"
    using "1.prems"(3) by (simp add: write_u_def prints_def reads_def)
  show ?case
  proof (cases "s = []")
    case True
    then show ?thesis
      using r by (simp add: cat.simps [of fd w])
  next
    case False
    have "cat fd (prints (reads fd as' w) s) = Go () (reads fd [] (prints (prints (reads fd as' w) s) (text_of as')))"
      using "1.IH" [OF r(1) [symmetric] refl refl _ wr [symmetric] refl, of as'] False r(2) "1.prems"(3) by simp
    then show ?thesis
      using False r wr by (simp add: cat.simps [of fd w])
  qed
qed

section \<open>\<^verbatim>\<open>wc\<close>\<close>

text \<open>The counters are the \<^verbatim>\<open>int\<close> variables \<^verbatim>\<open>l\<close>, \<^verbatim>\<open>w\<close> and \<^verbatim>\<open>c\<close>, with \<^verbatim>\<open>inword\<close>.\<close>

definition wc_space :: "char \<Rightarrow> bool" where
  "wc_space c \<longleftrightarrow> strchr [CHR '' '', CHR 0x0D, CHR 0x09, CHR 0x0A, CHR 0x0B] c \<noteq> None"

definition wc_char :: "char \<Rightarrow> u32 \<times> u32 \<times> u32 \<times> bool \<Rightarrow> u32 \<times> u32 \<times> u32 \<times> bool" where
  "wc_char ch st =
     (case st of (l, w, c, inword) \<Rightarrow>
      let c = c + 1;
          l = (if ch = CHR 0x0A then l + 1 else l)
      in if wc_space ch then (l, w, c, False)
         else if \<not> inword then (l, w + 1, c, True)
         else (l, w, c, inword))"

function wc_loop :: "nat \<Rightarrow> u32 \<times> u32 \<times> u32 \<times> bool \<Rightarrow> uworld \<Rightarrow> int \<times> (u32 \<times> u32 \<times> u32 \<times> bool) \<times> uworld" where
  "wc_loop fd st w =
     (let (n, s, w) = read_u fd 512 w in
      if n > 0 then wc_loop fd (fold wc_char s st) w else (n, st, w))"
  by pat_completeness auto
termination
  by (relation "measure (\<lambda>(fd, st, w). fd_left fd w)") (auto intro: read_u_less [OF sym])

declare wc_loop.simps [simp del]

definition wc :: "nat \<Rightarrow> string \<Rightarrow> uworld \<Rightarrow> unit run" where
  "wc fd name w =
     (let (n, (l, wd, c, _), w) = wc_loop fd (0, 0, 0, False) w in
      if n < 0 then Exit 1 (fprintf 1 ''wc: read error\<newline>'' [] w)
      else Go () (fprintf 1 ''%d %d %d %s\<newline>'' [Pint l, Pint wd, Pint c, Ps name] w))"

fun wc_files :: "string list \<Rightarrow> uworld \<Rightarrow> unit run" where
  "wc_files [] w = Exit 0 w"
| "wc_files (a # argv) w =
     (let (fd, w) = open_u a w in
      if fd < 0 then Exit 1 (fprintf 1 ''wc: cannot open %s\<newline>'' [Ps a] w)
      else case wc (nat fd) a w of Exit s w \<Rightarrow> Exit s w | Go _ w \<Rightarrow> wc_files argv (close_u (nat fd) w))"

definition wc_main :: "string list \<Rightarrow> uworld \<Rightarrow> unit run" where
  "wc_main argv w =
     (if length argv \<le> 1 then case wc 0 [] w of Exit s w \<Rightarrow> Exit s w | Go _ w \<Rightarrow> Exit 0 w
      else wc_files (tl argv) w)"

lemma wc_chars:
  "\<exists>inword'. fold wc_char s (l, w, c, inword) =
     (l + of_nat (length (filter ((=) CHR 0x0A) s)),
      w + of_nat (length (words_by wc_space (if inword then dropWhile (\<lambda>c. \<not> wc_space c) s else s))),
      c + of_nat (length s), inword')"
proof (induction s arbitrary: l w c inword)
  case (Cons ch s)
  have nl: "wc_space CHR 0x0A"
    by (simp add: wc_space_def)
  show ?case
    using Cons [of "if ch = CHR 0x0A then l + 1 else l" "w + (if wc_space ch \<or> inword then 0 else 1)" "c + 1" "\<not> wc_space ch"] nl
    by (auto simp: wc_char_def)
qed simp

lemma wc_loop_clean:
  "uw_fds w fd = Some as \<Longrightarrow> clean as \<Longrightarrow> wc_loop fd st w = (0, fold wc_char (text_of as) st, reads fd [] w)"
proof (induction fd st w arbitrary: as rule: wc_loop.induct)
  case (1 fd st w)
  obtain s as' where r: "read_u fd 512 w = (int (length s), s, reads fd as' w)" "clean as'" "text_of as = s @ text_of as'"
    "s = [] \<longleftrightarrow> as = []" "as = [] \<Longrightarrow> as' = []" "length s \<le> 512"
    using read_u_clean [OF "1.prems"(1,2), of 512] by auto
  show ?case
    using r "1.IH" [OF r(1) [symmetric] refl refl, of as'] by (cases "s = []") (auto simp: wc_loop.simps [of fd st w])
qed

text \<open>\<^verbatim>\<open>wc\<close> prints the numbers of newlines, of words, which are the maximal runs of characters that are not
  white space, and of characters of the input, however the input is cut into portions by \<^verbatim>\<open>read\<close>: words and
  lines may straddle them.\<close>

theorem wc_correct:
  assumes "uw_fds w fd = Some as" "clean as"
  shows "wc fd name w = Go () (fprintf 1 ''%d %d %d %s\<newline>''
    [Pint (of_nat (length (filter ((=) CHR 0x0A) (text_of as)))), Pint (of_nat (length (words_by wc_space (text_of as)))),
     Pint (of_nat (length (text_of as))), Ps name] (reads fd [] w))"
proof -
  obtain inword where "fold wc_char (text_of as) (0, 0, 0, False) =
      (of_nat (length (filter ((=) CHR 0x0A) (text_of as))), of_nat (length (words_by wc_space (text_of as))),
       of_nat (length (text_of as)), inword)"
    using wc_chars [of "text_of as" 0 0 0 False] by auto
  then show ?thesis
    using wc_loop_clean [OF assms, of "(0, 0, 0, False)"] by (simp add: wc_def)
qed

theorem wc_correct_witness:
  "wc 0 ''f'' (example_world [Data ''a b'', Data ''c\<newline> d'']) =
     Go () (fprintf 1 ''%d %d %d %s\<newline>'' [Pint 1, Pint 3, Pint 7, Ps ''f''] (reads 0 [] (example_world [Data ''a b'', Data ''c\<newline> d''])))"
  using wc_correct [of "example_world [Data ''a b'', Data ''c\<newline> d'']" 0 "[Data ''a b'', Data ''c\<newline> d'']" "''f''"]
  by (simp add: example_world_def clean_def wc_space_def)

section \<open>\<^verbatim>\<open>echo\<close>\<close>

primrec echo_args :: "string list \<Rightarrow> uworld \<Rightarrow> uworld" where
  "echo_args [] w = w"
| "echo_args (a # argv) w =
     echo_args argv (snd (write_u 1 (if argv \<noteq> [] then '' '' else ''\<newline>'') (snd (write_u 1 a w))))"

definition echo_main :: "string list \<Rightarrow> uworld \<Rightarrow> unit run" where
  "echo_main argv w = Exit 0 (echo_args (tl argv) w)"

primrec joined :: "string list \<Rightarrow> string" where
  "joined [] = []"
| "joined (a # as) = a @ (if as \<noteq> [] then '' '' else ''\<newline>'') @ joined as"

lemma echo_correct: "\<forall>t. uw_ok w 1 t \<Longrightarrow> echo_main (prog # argv) w = Exit 0 (prints w (joined argv))"
proof -
  have "\<forall>t. uw_ok w 1 t \<Longrightarrow> echo_args argv w = prints w (joined argv)"
    by (induction argv arbitrary: w) (auto simp: write_u_def prints_def)
  then show "\<forall>t. uw_ok w 1 t \<Longrightarrow> ?thesis"
    by (simp add: echo_main_def)
qed

section \<open>Programs for one system call\<close>

text \<open>The calls, and what the kernel answers to a call after the earlier ones of the program. A program ends with
  its status, its calls in order and the world that it has written messages to.\<close>

datatype ucall = Unlink string | Mkdir string | Link string string | Kill u32 | Sleep u32

type_synonym answers = "ucall list \<Rightarrow> ucall \<Rightarrow> int"

type_synonym ended = "int \<times> ucall list \<times> uworld"

primrec rm_loop :: "answers \<Rightarrow> string list \<Rightarrow> ucall list \<Rightarrow> uworld \<Rightarrow> ended" where
  "rm_loop ans [] h w = (0, h, w)"
| "rm_loop ans (a # argv) h w =
     (if ans h (Unlink a) < 0 then (0, h @ [Unlink a], fprintf 2 ''rm: %s failed to delete\<newline>'' [Ps a] w)
      else rm_loop ans argv (h @ [Unlink a]) w)"

definition rm_main :: "answers \<Rightarrow> string list \<Rightarrow> uworld \<Rightarrow> ended" where
  "rm_main ans argv w =
     (if length argv < 2 then (1, [], fprintf 2 ''Usage: rm files...\<newline>'' [] w) else rm_loop ans (tl argv) [] w)"

primrec mkdir_loop :: "answers \<Rightarrow> string list \<Rightarrow> ucall list \<Rightarrow> uworld \<Rightarrow> ended" where
  "mkdir_loop ans [] h w = (0, h, w)"
| "mkdir_loop ans (a # argv) h w =
     (if ans h (Mkdir a) < 0 then (0, h @ [Mkdir a], fprintf 2 ''mkdir: %s failed to create\<newline>'' [Ps a] w)
      else mkdir_loop ans argv (h @ [Mkdir a]) w)"

definition mkdir_main :: "answers \<Rightarrow> string list \<Rightarrow> uworld \<Rightarrow> ended" where
  "mkdir_main ans argv w =
     (if length argv < 2 then (1, [], fprintf 2 ''Usage: mkdir files...\<newline>'' [] w) else mkdir_loop ans (tl argv) [] w)"

definition ln_main :: "answers \<Rightarrow> string list \<Rightarrow> uworld \<Rightarrow> ended" where
  "ln_main ans argv w =
     (if length argv \<noteq> 3 then (1, [], fprintf 2 ''Usage: ln old new\<newline>'' [] w)
      else
        let c = Link (argv ! 1) (argv ! 2) in
        (0, [c], if ans [] c < 0 then fprintf 2 ''link %s %s: failed\<newline>'' [Ps (argv ! 1), Ps (argv ! 2)] w else w))"

definition kill_main :: "string list \<Rightarrow> uworld \<Rightarrow> ended" where
  "kill_main argv w =
     (if length argv < 2 then (1, [], fprintf 2 ''usage: kill pid...\<newline>'' [] w)
      else (0, map (\<lambda>a. Kill (atoi (chars a))) (tl argv), w))"

definition sleep_main :: "answers \<Rightarrow> string list \<Rightarrow> uworld \<Rightarrow> ended" where
  "sleep_main ans argv w =
     (if length argv \<noteq> 2 then (1, [], fprintf 2 ''usage: sleep <time>\<newline>'' [] w)
      else
        let ticks = atoi (chars (argv ! 1)) in
        if sint ticks \<le> 0 then (1, [], fprintf 2 ''Ticks must be a positive integer\<newline>'' [] w)
        else if ans [] (Sleep ticks) < 0 then (1, [Sleep ticks], fprintf 2 ''Sleep failed\<newline>'' [] w)
        else (0, [Sleep ticks], w))"

end
