(* ===== verification/Xargs.thy ===== *)
theory Xargs
  imports Ulib
begin

text \<open>
  \<^verbatim>\<open>user/xargs.c\<close>: a command is executed once for every line of the input, with the words of the line as further
  arguments. The model gives the argument vectors that are executed, in order. Writing past the array
  \<^verbatim>\<open>line_argv\<close> is a \<^verbatim>\<open>Fault\<close>. The parameter \<open>forks\<close> says which forks succeed; the commands are taken not to read
  from the standard input, which they share with \<^verbatim>\<open>xargs\<close>.
\<close>

section \<open>The program\<close>

definition MAX_LINE :: nat where "MAX_LINE = 512"

definition MAXARG_u :: nat where "MAXARG_u = 32"

function read_line :: "string \<Rightarrow> uworld \<Rightarrow> int \<times> string \<times> uworld" where
  "read_line line w =
     (let (read_result, c, w) = read_u 0 1 w in
      if read_result \<le> 0 \<or> c = ''\<newline>'' then (read_result, line, w)
      else read_line (if length line < MAX_LINE - 1 then line @ c else line) w)"
  by pat_completeness auto
termination
  by (relation "measure (\<lambda>(line, w). fd_left 0 w)") (auto intro: read_u_less [OF sym])

declare read_line.simps [simp del]

text \<open>The end of the line is the end of the list or a NUL.\<close>

function split_line :: "nat \<Rightarrow> string \<Rightarrow> string list res" where
  "split_line line_argc p =
     (let p = dropWhile (\<lambda>c. c = CHR '' '') p in
      if p = [] \<or> hd p = CHR 0x00 then Ok []
      else if line_argc \<ge> MAXARG_u then Fault ''line_argv''
      else rmap ((#) (takeWhile (\<lambda>c. c \<noteq> CHR '' '' \<and> c \<noteq> CHR 0x00) p))
             (split_line (Suc line_argc) (dropWhile (\<lambda>c. c \<noteq> CHR '' '' \<and> c \<noteq> CHR 0x00) p)))"
  by pat_completeness auto
termination
proof (relation "measure (\<lambda>(line_argc, p). length p)")
  fix line_argc p x
  assume x: "x = dropWhile (\<lambda>c. c = CHR '' '') p" "\<not> (x = [] \<or> hd x = CHR 0x00)"
  then have "hd x \<noteq> CHR '' ''"
    using hd_dropWhile [of "\<lambda>c. c = CHR '' ''" p] by simp
  then obtain c y where "x = c # y" "c \<noteq> CHR 0x00" "c \<noteq> CHR '' ''"
    using x(2) by (cases x) auto
  then have "length (dropWhile (\<lambda>c. c \<noteq> CHR '' '' \<and> c \<noteq> CHR 0x00) x) < length x"
    by (simp add: less_Suc_eq_le length_dropWhile_le)
  also have "length x \<le> length p"
    unfolding x(1) by (rule length_dropWhile_le)
  finally show "((Suc line_argc, dropWhile (\<lambda>c. c \<noteq> CHR '' '' \<and> c \<noteq> CHR 0x00) x), line_argc, p) \<in>
      measure (\<lambda>(line_argc, p). length p)"
    by simp
qed simp

declare split_line.simps [simp del]

lemma read_u_le: "read_u fd n w = (r, s, w') \<Longrightarrow> fd_left fd w' \<le> fd_left fd w"
proof (cases "uw_fds w fd")
  case (Some as)
  moreover assume "read_u fd n w = (r, s, w')"
  ultimately show ?thesis
    by (cases "(n, as)" rule: arrive.cases) (auto simp: read_u_def fd_left_def split: if_splits)
qed (simp add: read_u_def)

lemma read_line_le: "read_line line w = (r, line', w') \<Longrightarrow> fd_left 0 w' \<le> fd_left 0 w"
proof (induction line w rule: read_line.induct)
  case (1 line w)
  obtain n c w1 where rd: "read_u 0 1 w = (n, c, w1)"
    by (cases "read_u 0 1 w") auto
  show ?case
    using "1.prems" "1.IH" [OF rd [symmetric] refl] rd read_u_le [OF rd]
    by (auto simp: read_line.simps [of line w] split: if_splits)
qed

lemma read_line_less:
  assumes "read_line line w = (r, line', w')" "\<not> (r \<le> 0 \<and> line' = line)"
  shows "fd_left 0 w' < fd_left 0 w"
proof -
  obtain n c w1 where rd: "read_u 0 1 w = (n, c, w1)"
    by (cases "read_u 0 1 w") auto
  have n: "n > 0" "w' = w1 \<or> read_line (if length line < MAX_LINE - 1 then line @ c else line) w1 = (r, line', w')"
    using assms rd by (auto simp: read_line.simps [of line w] split: if_splits)
  then show ?thesis
    using read_u_less [OF rd n(1)] read_line_le [of _ w1 r line' w'] by fastforce
qed

text \<open>\<open>runs\<close> is what has been executed so far.\<close>

function xargs_loop :: "(nat \<Rightarrow> bool) \<Rightarrow> string list \<Rightarrow> string list list \<Rightarrow> uworld \<Rightarrow> (string list list \<times> unit run) res" where
  "xargs_loop forks cmd_argv runs w =
     (let (read_result, line, w) = read_line [] w in
      if read_result < 0 then Ok (runs, Exit 1 (fprintf 2 ''xargs: read error\<newline>'' [] w))
      else if read_result = 0 \<and> line = [] then Ok (runs, Exit 0 w)
      else case split_line 0 line of
        Ok line_argv \<Rightarrow>
          if length cmd_argv + length line_argv \<ge> MAXARG_u
          then Ok (runs, Exit 1 (fprintf 2 ''xargs: too many arguments\<newline>'' [] w))
          else if \<not> forks (length runs) then Ok (runs, Exit 1 (fprintf 2 ''xargs: fork failed\<newline>'' [] w))
          else xargs_loop forks cmd_argv (runs @ [cmd_argv @ line_argv]) w
      | Panic m \<Rightarrow> Panic m
      | Blocked \<Rightarrow> Blocked
      | Fault m \<Rightarrow> Fault m)"
  by pat_completeness auto
termination
  by (relation "measure (\<lambda>(forks, cmd_argv, runs, w). fd_left 0 w)") (auto intro!: read_line_less [OF sym])

declare xargs_loop.simps [simp del]

text \<open>\<^verbatim>\<open>cmd_argv\<close> has \<^verbatim>\<open>MAXARG\<close> elements.\<close>

definition xargs_main :: "(nat \<Rightarrow> bool) \<Rightarrow> string list \<Rightarrow> uworld \<Rightarrow> (string list list \<times> unit run) res" where
  "xargs_main forks argv w =
     (if length argv < 2 then Ok ([], Exit 1 (fprintf 2 ''Usage: xargs <command> [args...]\<newline>'' [] w))
      else if length argv - 1 > MAXARG_u then Fault ''cmd_argv''
      else xargs_loop forks (tl argv) [] w)"

section \<open>Words and lines\<close>

lemma words_by_skip: "words_by sep (dropWhile sep s) = words_by sep s"
  by (induction s) auto

lemma split_line_words:
  "CHR 0x00 \<notin> set p \<Longrightarrow> split_line n p =
     (if words_by (\<lambda>c. c = CHR '' '') p = [] \<or> n + length (words_by (\<lambda>c. c = CHR '' '') p) \<le> MAXARG_u
      then Ok (words_by (\<lambda>c. c = CHR '' '') p) else Fault ''line_argv'')"
proof (induction n p rule: split_line.induct)
  case (1 n p)
  define q where "q = dropWhile (\<lambda>c. c = CHR '' '') p"
  have w: "words_by (\<lambda>c. c = CHR '' '') p = words_by (\<lambda>c. c = CHR '' '') q"
    unfolding q_def by (simp add: words_by_skip)
  have nul: "CHR 0x00 \<notin> set q"
    unfolding q_def using "1.prems" set_dropWhileD by fast
  show ?case
  proof (cases q)
    case (Cons c y)
    have c: "c \<noteq> CHR '' ''" "c \<noteq> CHR 0x00" "CHR 0x00 \<notin> set y"
      using hd_dropWhile [of "\<lambda>c. c = CHR '' ''" p] nul unfolding q_def [symmetric] Cons by auto
    have same: "takeWhile (\<lambda>c. c \<noteq> CHR '' '' \<and> c \<noteq> CHR 0x00) y = takeWhile (\<lambda>c. c \<noteq> CHR '' '') y"
      "dropWhile (\<lambda>c. c \<noteq> CHR '' '' \<and> c \<noteq> CHR 0x00) y = dropWhile (\<lambda>c. c \<noteq> CHR '' '') y"
      using c(3) by (auto intro!: takeWhile_cong dropWhile_cong)
    have rest: "CHR 0x00 \<notin> set (dropWhile (\<lambda>c. c \<noteq> CHR '' '') y)"
      using c(3) set_dropWhileD by fast
    have step: "split_line n p = (if n \<ge> MAXARG_u then Fault ''line_argv''
        else rmap ((#) (c # takeWhile (\<lambda>c. c \<noteq> CHR '' '') y)) (split_line (Suc n) (dropWhile (\<lambda>c. c \<noteq> CHR '' '') y)))"
      using c(1,2) same by (subst split_line.simps) (simp add: Let_def q_def [symmetric] Cons)
    have "split_line (Suc n) (dropWhile (\<lambda>c. c \<noteq> CHR '' '') y) =
        (if words_by (\<lambda>c. c = CHR '' '') (dropWhile (\<lambda>c. c \<noteq> CHR '' '') y) = [] \<or>
            Suc n + length (words_by (\<lambda>c. c = CHR '' '') (dropWhile (\<lambda>c. c \<noteq> CHR '' '') y)) \<le> MAXARG_u
         then Ok (words_by (\<lambda>c. c = CHR '' '') (dropWhile (\<lambda>c. c \<noteq> CHR '' '') y)) else Fault ''line_argv'')"
      if "\<not> n \<ge> MAXARG_u"
      using "1.IH" [OF q_def _ that] c same rest unfolding Cons by simp
    then show ?thesis
      unfolding step w Cons using c(1) by auto
  next
    case Nil
    then have "words_by (\<lambda>c. c = CHR '' '') p = []"
      unfolding w by simp
    then show ?thesis
      using Nil by (subst split_line.simps) (simp add: Let_def q_def [symmetric])
  qed
qed

section \<open>Lines\<close>

lemma read_line_clean:
  assumes "uw_fds w 0 = Some as" "clean as" "length line + length (takeWhile (\<lambda>c. c \<noteq> CHR 0x0A) (text_of as)) < MAX_LINE"
  shows "\<exists>as'. read_line line w =
      (if CHR 0x0A \<in> set (text_of as) then 1 else 0, line @ takeWhile (\<lambda>c. c \<noteq> CHR 0x0A) (text_of as), reads 0 as' w) \<and>
    clean as' \<and> text_of as' = drop 1 (dropWhile (\<lambda>c. c \<noteq> CHR 0x0A) (text_of as))"
  using assms
proof (induction line w arbitrary: as rule: read_line.induct)
  case (1 line w)
  obtain s as' where r: "read_u 0 1 w = (int (length s), s, reads 0 as' w)" "clean as'" "text_of as = s @ text_of as'"
    "s = [] \<longleftrightarrow> as = []" "as = [] \<Longrightarrow> as' = []" "length s \<le> 1"
    using read_u_clean [OF "1.prems"(1,2), of 1] by auto
  consider "s = []" | "s = ''\<newline>''" | c where "s = [c]" "c \<noteq> CHR 0x0A"
    using r(6) by (cases s) auto
  then show ?case
  proof cases
    case 1
    then show ?thesis
      using r by (intro exI [of _ as']) (simp add: read_line.simps [of line w] clean_def)
  next
    case 2
    then show ?thesis
      using r by (intro exI [of _ as']) (simp add: read_line.simps [of line w])
  next
    case 3
    have "length line < MAX_LINE - 1"
      using "1.prems"(3) r(3) 3 by simp
    then show ?thesis
      using "1.IH" [OF r(1) [symmetric] refl refl, of as'] "1.prems" r 3 by (simp add: read_line.simps [of line w])
  qed
qed

function text_lines :: "string \<Rightarrow> string list" where
  "text_lines s =
     (if s = [] then []
      else takeWhile (\<lambda>c. c \<noteq> CHR 0x0A) s # text_lines (drop 1 (dropWhile (\<lambda>c. c \<noteq> CHR 0x0A) s)))"
  by pat_completeness auto
termination
proof (relation "measure length")
  fix s :: string
  assume "s \<noteq> []"
  then show "(drop 1 (dropWhile (\<lambda>c. c \<noteq> CHR 0x0A) s), s) \<in> measure length"
    using length_dropWhile_le [of "\<lambda>c. c \<noteq> CHR 0x0A" s] by (simp add: less_eq_Suc_le [symmetric] flip: length_greater_0_conv)
qed simp

declare text_lines.simps [simp del]

abbreviation (input) line_words :: "string \<Rightarrow> string list" where
  "line_words \<equiv> words_by (\<lambda>c. c = CHR '' '')"

lemma xargs_turn:
  assumes "read_line [] w = (n, l, w1)" "n \<ge> 0" "\<not> (n = 0 \<and> l = [])" "split_line 0 l = Ok ws"
    "length cmd + length ws < MAXARG_u"
  shows "xargs_loop (\<lambda>_. True) cmd runs w = xargs_loop (\<lambda>_. True) cmd (runs @ [cmd @ ws]) w1"
  using assms by (subst xargs_loop.simps) auto

lemma xargs_loop_lines:
  assumes "uw_fds w 0 = Some as" "clean as" "CHR 0x00 \<notin> set (text_of as)"
    "\<forall>l\<in>set (text_lines (text_of as)). length l < MAX_LINE \<and> length cmd + length (line_words l) < MAXARG_u"
  shows "xargs_loop (\<lambda>_. True) cmd runs w =
    Ok (runs @ map (\<lambda>l. cmd @ line_words l) (text_lines (text_of as)), Exit 0 (reads 0 [] w))"
  using assms
proof (induction "text_of as" arbitrary: as runs w rule: text_lines.induct)
  case 1
  let ?l = "takeWhile (\<lambda>c. c \<noteq> CHR 0x0A) (text_of as)"
  have "?l \<in> set (text_lines (text_of as))" if "text_of as \<noteq> []"
    using that by (subst text_lines.simps) simp
  then have len: "length ?l < MAX_LINE" "CHR 0x00 \<notin> set ?l"
    using "1.prems"(3,4) by (cases "text_of as = []", auto simp: MAX_LINE_def dest: set_takeWhileD)
  obtain as' where r: "read_line [] w = (if CHR 0x0A \<in> set (text_of as) then 1 else 0, ?l, reads 0 as' w)"
    "clean as'" "text_of as' = drop 1 (dropWhile (\<lambda>c. c \<noteq> CHR 0x0A) (text_of as))"
    using read_line_clean [OF "1.prems"(1,2), of "[]"] len by auto
  show ?case
  proof (cases "text_of as = []")
    case True
    then have "as' = []"
      using r(2,3) by (cases as') (auto simp: clean_def)
    then show ?thesis
      using True r(1) by (simp add: xargs_loop.simps [of _ cmd runs w] text_lines.simps)
  next
    case False
    have ls: "text_lines (text_of as) = ?l # text_lines (text_of as')"
      using False r(3) by (simp add: text_lines.simps [of "text_of as"])
    have nul: "CHR 0x00 \<notin> set (text_of as')"
      using "1.prems"(3) r(3) by (auto dest: in_set_dropD set_dropWhileD)
    have "split_line 0 ?l = Ok (line_words ?l)"
      using split_line_words [OF len(2), of 0] "1.prems"(4) ls by simp
    moreover have "?l = [] \<Longrightarrow> CHR 0x0A \<in> set (text_of as)"
      using False by (cases "text_of as") (auto split: if_splits)
    ultimately have "xargs_loop (\<lambda>_. True) cmd runs w = xargs_loop (\<lambda>_. True) cmd (runs @ [cmd @ line_words ?l]) (reads 0 as' w)"
      using "1.prems"(4) ls by (intro xargs_turn [OF r(1)]) auto
    also have "\<dots> = Ok ((runs @ [cmd @ line_words ?l]) @ map (\<lambda>l. cmd @ line_words l) (text_lines (text_of as')), Exit 0 (reads 0 [] (reads 0 as' w)))"
      using "1.hyps" [of as' "reads 0 as' w"] False r(2,3) nul "1.prems"(4) ls by simp
    finally show ?thesis
      by (simp add: ls)
  qed
qed

text \<open>\<^verbatim>\<open>xargs\<close> executes its command once for every line of the input, in order, with its own arguments followed
  by the words of the line, for lines of fewer than \<^verbatim>\<open>MAX_LINE\<close> characters with fewer than \<^verbatim>\<open>MAXARG\<close> arguments
  altogether; it then exits with status 0.\<close>

theorem xargs_correct:
  assumes "uw_fds w 0 = Some as" "clean as" "CHR 0x00 \<notin> set (text_of as)" "cmd \<noteq> []" "length cmd \<le> MAXARG_u"
    "\<forall>l\<in>set (text_lines (text_of as)). length l < MAX_LINE \<and> length cmd + length (line_words l) < MAXARG_u"
  shows "xargs_main (\<lambda>_. True) (prog # cmd) w =
    Ok (map (\<lambda>l. cmd @ line_words l) (text_lines (text_of as)), Exit 0 (reads 0 [] w))"
  using xargs_loop_lines [OF assms(1-3,6), of "[]"] assms(4,5) by (cases cmd) (simp_all add: xargs_main_def)

theorem xargs_correct_witness:
  "xargs_main (\<lambda>_. True) [''xargs'', ''echo'', ''x''] (example_world [Data ''1 2\<newline>3'', Data ''4'']) =
     Ok ([[''echo'', ''x'', ''1'', ''2''], [''echo'', ''x'', ''34'']], Exit 0 (reads 0 [] (example_world [Data ''1 2\<newline>3'', Data ''4''])))"
  using xargs_correct [of "example_world [Data ''1 2\<newline>3'', Data ''4'']" "[Data ''1 2\<newline>3'', Data ''4'']" "[''echo'', ''x'']" "''xargs''"]
  by (simp add: example_world_def clean_def MAX_LINE_def MAXARG_u_def text_lines.simps)

text \<open>C39: a line of more than \<^verbatim>\<open>MAXARG\<close> words makes \<^verbatim>\<open>xargs\<close> write past the end of the array \<^verbatim>\<open>line_argv\<close>, although the line
  itself fits its buffer: the test for too many arguments comes only after the words have been stored.\<close>

theorem xargs_overflow:
  assumes "uw_fds w 0 = Some as" "clean as" "CHR 0x00 \<notin> set (text_of as)" "cmd \<noteq> []" "length cmd \<le> MAXARG_u"
    "text_lines (text_of as) = l # ls" "length l < MAX_LINE" "length (line_words l) > MAXARG_u"
  shows "xargs_main forks (prog # cmd) w = Fault ''line_argv''"
proof -
  have l: "l = takeWhile (\<lambda>c. c \<noteq> CHR 0x0A) (text_of as)"
    using assms(6) by (subst (asm) text_lines.simps) (auto split: if_splits)
  obtain n w1 where r: "read_line [] w = (n, l, w1)" "n \<ge> 0"
    using read_line_clean [OF assms(1,2), of "[]"] assms(7) unfolding l by auto
  have "CHR 0x00 \<notin> set l"
    using assms(3) unfolding l by (auto dest: set_takeWhileD)
  then have "split_line 0 l = Fault ''line_argv''"
    using split_line_words [of l 0] assms(8) by (auto simp: MAXARG_u_def)
  moreover have "l \<noteq> []"
    using assms(8) by (auto simp: MAXARG_u_def)
  ultimately have "xargs_loop forks cmd [] w = Fault ''line_argv''"
    using r by (subst xargs_loop.simps) auto
  then show ?thesis
    using assms(4,5) by (cases cmd) (simp_all add: xargs_main_def)
qed

theorem xargs_overflow_witness:
  "xargs_main (\<lambda>_. True) [''xargs'', ''echo'']
     (example_world [Data ''1 2 3 4 5 6 7 8 9 0 1 2 3 4 5 6 7 8 9 0 1 2 3 4 5 6 7 8 9 0 1 2 3 4 5 6 7 8 9 0'']) = Fault ''line_argv''"
  by (rule xargs_overflow [where as = "[Data ''1 2 3 4 5 6 7 8 9 0 1 2 3 4 5 6 7 8 9 0 1 2 3 4 5 6 7 8 9 0 1 2 3 4 5 6 7 8 9 0'']" and l = "''1 2 3 4 5 6 7 8 9 0 1 2 3 4 5 6 7 8 9 0 1 2 3 4 5 6 7 8 9 0 1 2 3 4 5 6 7 8 9 0''" and ls = "[]"])
    (simp_all add: example_world_def clean_def MAX_LINE_def MAXARG_u_def text_lines.simps)

end
