(* ===== verification/Umalloc.thy ===== *)
theory Umalloc
  imports Xv6_Prelude
begin

text \<open>
  \<^verbatim>\<open>user/umalloc.c\<close>: the allocator of user programs, a ring of free blocks in the order of their addresses. The
  headers in memory are two functions of their address, the fields \<^verbatim>\<open>ptr\<close> and \<^verbatim>\<open>size\<close>; a header and a unit of
  allocation are 16 bytes. \<open>brk\<close> is the end of the memory of the process, and \<open>grow\<close> says whether the kernel
  extends it. The address of \<^verbatim>\<open>base\<close> is a parameter. The loops follow pointers and need not end in an
  arbitrary memory, so they are partial functions; that they end in a sound heap is proved. Sizes do not wrap around
  at 32 bits: that takes 64 GB of units.
\<close>

section \<open>The program\<close>

record heap =
  hptr :: "nat \<Rightarrow> nat"
  hsize :: "nat \<Rightarrow> nat"
  freep :: nat
  brk :: nat

text \<open>The loop of \<^verbatim>\<open>free\<close> that looks for the place of a block.\<close>

partial_function (option) free_place :: "(nat \<Rightarrow> nat) \<Rightarrow> nat \<Rightarrow> nat \<Rightarrow> nat option" where
  "free_place ptr bp p =
     (if bp > p \<and> bp < ptr p then Some p
      else if p \<ge> ptr p \<and> (bp > p \<or> bp < ptr p) then Some p
      else free_place ptr bp (ptr p))"

definition join_upper :: "nat \<Rightarrow> nat \<Rightarrow> heap \<Rightarrow> heap" where
  "join_upper p bp h =
     (if bp + 16 * hsize h bp = hptr h p
      then h\<lparr>hsize := (hsize h)(bp := hsize h bp + hsize h (hptr h p)), hptr := (hptr h)(bp := hptr h (hptr h p))\<rparr>
      else h\<lparr>hptr := (hptr h)(bp := hptr h p)\<rparr>)"

definition join_lower :: "nat \<Rightarrow> nat \<Rightarrow> heap \<Rightarrow> heap" where
  "join_lower p bp h =
     (if p + 16 * hsize h p = bp
      then h\<lparr>hsize := (hsize h)(p := hsize h p + hsize h bp), hptr := (hptr h)(p := hptr h bp)\<rparr>
      else h\<lparr>hptr := (hptr h)(p := bp)\<rparr>)"

definition ufree :: "nat \<Rightarrow> heap \<Rightarrow> heap option" where
  "ufree ap h =
     (let bp = ap - 16 in
      case free_place (hptr h) bp (freep h) of
        None \<Rightarrow> None
      | Some p \<Rightarrow> Some ((join_lower p bp (join_upper p bp h))\<lparr>freep := p\<rparr>))"

text \<open>\<^verbatim>\<open>sbrk\<close> takes an \<^verbatim>\<open>int\<close>: a count of two to the 31 bytes or more arrives as a negative number and gives memory back, and
  the header is then written behind its end.\<close>

definition morecore :: "(nat \<Rightarrow> nat \<Rightarrow> bool) \<Rightarrow> nat \<Rightarrow> heap \<Rightarrow> (nat \<times> heap) res option" where
  "morecore grow nu h =
     (let nu = (if nu < 4096 then 4096 else nu) in
      if nu * 16 \<ge> 2 ^ 31 then Some (Fault ''sbrk'')
      else if \<not> grow (brk h) (nu * 16) then Some (Ok (0, h))
      else
        let hp = brk h;
            h = h\<lparr>brk := hp + nu * 16, hsize := (hsize h)(hp := nu)\<rparr>
        in case ufree (hp + 16) h of None \<Rightarrow> None | Some h \<Rightarrow> Some (Ok (freep h, h)))"

text \<open>Taking a block that is big enough: all of it, or its end.\<close>

definition take_block :: "nat \<Rightarrow> nat \<Rightarrow> nat \<Rightarrow> heap \<Rightarrow> nat \<times> heap" where
  "take_block nunits prevp p h =
     (if hsize h p = nunits then (p + 16, h\<lparr>hptr := (hptr h)(prevp := hptr h p), freep := prevp\<rparr>)
      else
        let r = hsize h p - nunits;
            q = p + 16 * r
        in (q + 16, h\<lparr>hsize := (hsize h)(p := r, q := nunits), freep := prevp\<rparr>))"

partial_function (option) malloc_loop :: "(nat \<Rightarrow> nat \<Rightarrow> bool) \<Rightarrow> nat \<Rightarrow> nat \<Rightarrow> nat \<Rightarrow> heap \<Rightarrow> (nat \<times> heap) res option" where
  "malloc_loop grow nunits prevp p h =
     (if hsize h p \<ge> nunits then Some (Ok (take_block nunits prevp p h))
      else if p = freep h then
        case morecore grow nunits h of
          None \<Rightarrow> None
        | Some r \<Rightarrow>
            (case r of
               Ok ph \<Rightarrow> if fst ph = 0 then Some (Ok (0, snd ph)) else malloc_loop grow nunits (fst ph) (hptr (snd ph) (fst ph)) (snd ph)
             | Panic m \<Rightarrow> Some (Panic m)
             | Blocked \<Rightarrow> Some Blocked
             | Fault m \<Rightarrow> Some (Fault m))
      else malloc_loop grow nunits p (hptr h p) h)"

definition umalloc :: "nat \<Rightarrow> (nat \<Rightarrow> nat \<Rightarrow> bool) \<Rightarrow> nat \<Rightarrow> heap \<Rightarrow> (nat \<times> heap) res option" where
  "umalloc base grow nbytes h =
     (let nunits = (nbytes + 15) div 16 + 1;
          h = (if freep h = 0 then h\<lparr>hptr := (hptr h)(base := base), freep := base, hsize := (hsize h)(base := 0)\<rparr> else h)
      in malloc_loop grow nunits (freep h) (hptr h (freep h)) h)"

section \<open>Rings\<close>

text \<open>From \<open>a\<close> through \<open>ns\<close> to \<open>z\<close>.\<close>

primrec linked :: "(nat \<Rightarrow> nat) \<Rightarrow> nat \<Rightarrow> nat list \<Rightarrow> nat \<Rightarrow> bool" where
  "linked f a [] z \<longleftrightarrow> f a = z"
| "linked f a (b # ns) z \<longleftrightarrow> f a = b \<and> linked f b ns z"

lemma chain_join: "linked f a (xs @ ys) z \<longleftrightarrow> linked f a xs (hd (ys @ [z])) \<and> linked f (last (a # xs)) ys z"
proof (induction xs arbitrary: a)
  case Nil
  then show ?case
    by (cases ys) auto
qed auto

lemma chain_cong: "linked f a xs z \<Longrightarrow> (\<And>x. x \<in> set (a # xs) \<Longrightarrow> f x = g x) \<Longrightarrow> linked g a xs z"
  by (induction xs arbitrary: a) auto

lemma chain_last: "linked f a xs c \<Longrightarrow> distinct (a # xs) \<Longrightarrow> linked (f(last (a # xs) := d)) a xs d"
  by (induction xs arbitrary: a) auto

lemma chain_head: "linked f q zs z \<Longrightarrow> b \<notin> set zs \<Longrightarrow> linked (f(b := f q)) b zs z"
  by (cases zs) (auto elim: chain_cong)

lemma chain_end: "linked f a xs z \<Longrightarrow> f (last (a # xs)) = z"
  by (induction xs arbitrary: a) auto

lemma chain_image: "linked f a xs z \<Longrightarrow> x \<in> set (a # xs) \<Longrightarrow> f x \<in> insert z (set xs)"
  by (induction xs arbitrary: a) auto

lemma chain_rotate:
  assumes "linked f base ns base" "base # ns = us @ fp # vs"
  shows "linked f fp (vs @ us) fp"
proof (cases us)
  case (Cons a us')
  then have "linked f base us' fp" "linked f fp vs base" "a = base"
    using assms chain_join [of f base us' "fp # vs" base] by simp_all
  then show ?thesis
    using Cons chain_end [of f fp vs base] by (simp add: chain_join)
qed (use assms in simp)

lemma chain_pred:
  assumes "linked f a (xs @ p # ys) z" "distinct (a # xs @ p # ys)" "z \<noteq> p" "q \<in> set (a # xs @ p # ys)" "f q = p"
  shows "q = last (a # xs)"
  using assms
proof (induction xs arbitrary: a)
  case Nil
  then show ?case
    using chain_image [of f p ys z q] by auto
next
  case (Cons b xs)
  have "q \<noteq> a"
    using Cons.prems by auto
  then show ?case
    using Cons.IH [of b] Cons.prems by simp
qed

section \<open>Sound heaps\<close>

definition region :: "nat \<Rightarrow> nat \<Rightarrow> nat set" where
  "region a n = {a..<a + 16 * n}"

definition gap :: "heap \<Rightarrow> nat \<Rightarrow> nat \<Rightarrow> bool" where
  "gap h a b \<longleftrightarrow> a + 16 * hsize h a < b"

definition memory :: "heap \<Rightarrow> nat list \<Rightarrow> nat set" where
  "memory h ns = (\<Union>a\<in>set ns. region a (hsize h a))"

text \<open>The free blocks are \<open>ns\<close>: they are in order, do not touch, are not empty and lie below the end of memory.\<close>

definition arena :: "nat \<Rightarrow> heap \<Rightarrow> nat list \<Rightarrow> bool" where
  "arena base h ns \<longleftrightarrow>
     0 < base \<and> linked (hptr h) base ns base \<and> hsize h base = 0 \<and> freep h \<in> set (base # ns) \<and>
     sorted_wrt (gap h) (base # ns) \<and> (\<forall>a\<in>set ns. 0 < hsize h a \<and> a + 16 * hsize h a \<le> brk h) \<and> base < brk h"

lemma gap_less: "gap h a b \<Longrightarrow> a < b"
  by (simp add: gap_def)

lemma sorted_gap_distinct: "sorted_wrt (gap h) ns \<Longrightarrow> distinct ns"
  by (induction ns) (auto dest: gap_less)

lemma sorted_gap_sorted: "sorted_wrt (gap h) ns \<Longrightarrow> sorted_wrt (<) ns"
  by (rule sorted_wrt_mono_rel [of ns "gap h"]) (auto dest: gap_less)

lemma region_join: "b = a + 16 * m \<Longrightarrow> region a (m + n) = region a m \<union> region b n"
  by (auto simp: region_def)

lemma region_disjoint: "0 < n \<Longrightarrow> region a m \<inter> region b n = {} \<Longrightarrow> a < b \<Longrightarrow> a + 16 * m \<le> b"
  by (rule ccontr) (auto simp: region_def)

section \<open>\<^verbatim>\<open>free\<close>\<close>

text \<open>Below the block, the loop goes on to the last smaller address; above it, it goes on to \<^verbatim>\<open>base\<close>.\<close>

lemma place_below:
  assumes "linked f a xs c" "sorted_wrt (<) (a # xs)" "\<forall>x\<in>set (a # xs). x < bp" "bp < c \<or> c \<le> a"
  shows "free_place f bp a = Some (last (a # xs))"
  using assms
proof (induction xs arbitrary: a)
  case Nil
  then show ?case
    by (subst free_place.simps) auto
next
  case (Cons b xs)
  have "free_place f bp b = Some (last (b # xs))"
    using Cons.prems by (intro Cons.IH) auto
  then show ?case
    using Cons.prems by (subst free_place.simps) auto
qed

lemma place_above:
  assumes "linked f a ys base" "sorted_wrt (<) (a # ys)" "bp < a" "base < bp"
  shows "free_place f bp a = free_place f bp base"
  using assms
proof (induction ys arbitrary: a)
  case Nil
  then show ?case
    by (subst free_place.simps) auto
next
  case (Cons b ys)
  have "free_place f bp b = free_place f bp base"
    using Cons.prems by (intro Cons.IH) auto
  then show ?case
    using Cons.prems by (subst free_place.simps) auto
qed

lemma place_found:
  assumes "linked f base (xs @ ys) base" "sorted_wrt (<) (base # xs @ ys)" "\<forall>x\<in>set (base # xs). x < bp" "\<forall>y\<in>set ys. bp < y"
    "fp \<in> set (base # xs @ ys)"
  shows "free_place f bp fp = Some (last (base # xs))"
proof -
  have parts: "linked f base xs (hd (ys @ [base]))" "linked f (last (base # xs)) ys base"
    using assms(1) unfolding chain_join by simp_all
  have from_base: "free_place f bp base = Some (last (base # xs))"
  proof (rule place_below [OF parts(1)])
    show "bp < hd (ys @ [base]) \<or> hd (ys @ [base]) \<le> base"
      using assms(4) by (cases ys) auto
  qed (use assms(2,3) in \<open>auto simp: sorted_wrt_append\<close>)
  have sorted: "sorted_wrt (<) (base # xs)"
    using assms(2) by (simp add: sorted_wrt_append)
  consider us vs where "base # xs = us @ fp # vs" | us vs where "ys = us @ fp # vs"
    using assms(5) split_list [of fp "base # xs"] split_list [of fp ys] by auto
  then show ?thesis
  proof cases
    case 1
    have "linked f fp vs (hd (ys @ [base]))"
    proof (cases us)
      case (Cons a us')
      then show ?thesis
        using 1 parts(1) chain_join [of f base us' "fp # vs"] by simp
    qed (use 1 parts(1) in simp)
    moreover have "sorted_wrt (<) (fp # vs)" "\<forall>x\<in>set (fp # vs). x < bp"
      using sorted assms(3) unfolding 1 by (auto simp: sorted_wrt_append)
    moreover have "fp \<in> set (base # xs)"
      unfolding 1 by simp
    then have "base \<le> fp"
      using sorted by auto
    then have "bp < hd (ys @ [base]) \<or> hd (ys @ [base]) \<le> fp"
      using assms(4) by (cases ys) auto
    ultimately have "free_place f bp fp = Some (last (fp # vs))"
      by (intro place_below)
    then show ?thesis
      using 1 by simp
  next
    case 2
    have "linked f fp vs base" "sorted_wrt (<) (fp # vs)" "bp < fp"
      using parts(2) assms(2,4) 2 chain_join [of f _ us "fp # vs" base] by (auto simp: sorted_wrt_append)
    then have "free_place f bp fp = free_place f bp base"
      using assms(3) by (intro place_above) auto
    then show ?thesis
      using from_base by simp
  qed
qed

lemma gap_cong: "sorted_wrt (gap h) ns \<Longrightarrow> (\<And>a. a \<in> set ns \<Longrightarrow> hsize h' a = hsize h a) \<Longrightarrow> sorted_wrt (gap h') ns"
  by (rule sorted_wrt_mono_rel [of ns "gap h"]) (auto simp: gap_def)

lemma memory_cong: "(\<And>a. a \<in> set ns \<Longrightarrow> hsize h' a = hsize h a) \<Longrightarrow> memory h' ns = memory h ns"
  by (simp add: memory_def)

lemma memory_simps [simp]:
  "memory h [] = {}" "memory h (a # ns) = region a (hsize h a) \<union> memory h ns" "memory h (ms @ ns) = memory h ms \<union> memory h ns"
  by (auto simp: memory_def)

lemma join_upper_off: "a \<noteq> bp \<Longrightarrow> hsize (join_upper p bp h) a = hsize h a" "a \<noteq> bp \<Longrightarrow> hptr (join_upper p bp h) a = hptr h a"
  by (simp_all add: join_upper_def)

lemma join_lower_off: "a \<noteq> p \<Longrightarrow> hsize (join_lower p bp h) a = hsize h a" "a \<noteq> p \<Longrightarrow> hptr (join_lower p bp h) a = hptr h a"
  by (simp_all add: join_lower_def)

lemma free_upper:
  assumes "linked (hptr h) p ys base" "sorted_wrt (gap h) ys" "\<forall>y\<in>set ys. bp + 16 * hsize h bp \<le> y" "base < bp" "0 < hsize h bp"
  obtains ys' where "linked (hptr (join_upper p bp h)) bp ys' base" "sorted_wrt (gap (join_upper p bp h)) (bp # ys')"
    "memory (join_upper p bp h) (bp # ys') = region bp (hsize h bp) \<union> memory h ys" "set ys' \<subseteq> set ys"
    "hsize h bp \<le> hsize (join_upper p bp h) bp"
proof -
  let ?h = "join_upper p bp h"
  have above: "bp \<notin> set zs" if "set zs \<subseteq> set ys" for zs
    using assms(3,5) that by fastforce
  have "hsize ?h a = hsize h a" if "a \<in> set zs" "set zs \<subseteq> set ys" for a zs
    using that above [of zs] by (intro join_upper_off) auto
  note off = this
  have same: "sorted_wrt (gap ?h) zs" "memory ?h zs = memory h zs" if "sorted_wrt (gap h) zs" "set zs \<subseteq> set ys" for zs
    using gap_cong [OF that(1), of ?h] memory_cong [of zs ?h h] off that(2) by auto
  consider "ys = []" | q zs where "ys = q # zs" "bp + 16 * hsize h bp = q" | q zs where "ys = q # zs" "bp + 16 * hsize h bp \<noteq> q"
    by (cases ys) auto
  then show ?thesis
  proof cases
    case 1
    then show ?thesis
      using assms(1,4) that [of "[]"] by (simp add: join_upper_def)
  next
    case 2
    have q: "hptr h p = q" "linked (hptr h) q zs base"
      using assms(1) 2 by auto
    then have h: "hsize ?h bp = hsize h bp + hsize h q" "hptr ?h = (hptr h)(bp := hptr h q)"
      using 2 by (simp_all add: join_upper_def)
    have "sorted_wrt (gap ?h) (bp # zs)"
      using same(1) [of zs] assms(2) 2 h(1) by (auto simp: gap_def)
    moreover have "memory ?h (bp # zs) = region bp (hsize h bp) \<union> memory h ys"
      using same(2) [of zs] assms(2) 2 h(1) region_join [OF 2(2) [symmetric], of "hsize h q"] by auto
    moreover have "linked (hptr ?h) bp zs base"
      unfolding h(2) using q(2) above [of zs] 2 by (intro chain_head) auto
    ultimately show ?thesis
      using that [of zs] h(1) 2(1) by auto
  next
    case 3
    have q: "hptr h p = q" "linked (hptr h) q zs base"
      using assms(1) 3 by auto
    then have h: "hsize ?h = hsize h" "hptr ?h = (hptr h)(bp := q)"
      using 3 by (simp_all add: join_upper_def)
    have "linked (hptr ?h) q zs base"
      using q(2) above [of ys] 3(1) by (auto simp: h(2) intro: chain_cong [of "hptr h"])
    moreover have "gap h bp y" if "y \<in> set ys" for y
      using assms(2,3) 3 that gap_less [of h q y] by (auto simp: gap_def)
    ultimately show ?thesis
      using that [of ys] same [of ys] assms(2) 3(1) h by (auto simp: gap_def)
  qed
qed

lemma merge_lists:
  assumes us: "sorted_wrt (gap h) (us @ [p])" and ys: "sorted_wrt (gap h) (bp # ys)" and eq: "p + 16 * hsize h p = bp"
    and h': "hsize h' = (hsize h)(p := hsize h p + hsize h bp)"
  shows "sorted_wrt (gap h') (us @ p # ys)" "memory h' (us @ p # ys) = memory h (us @ [p]) \<union> memory h (bp # ys)"
proof -
  have up: "bp + 16 * hsize h bp < y" if "y \<in> set ys" for y
    using ys that by (simp add: gap_def)
  have low: "u + 16 * hsize h u < p" if "u \<in> set us" for u
    using us that by (simp add: sorted_wrt_append gap_def)
  have off: "hsize h' a = hsize h a" if "a \<in> set us \<union> set ys" for a
    using up [of a] low [of a] that eq unfolding h' by auto
  have "sorted_wrt (gap h') us" "sorted_wrt (gap h') ys"
    using us ys off by (auto simp: sorted_wrt_append intro!: gap_cong [of h])
  moreover have "gap h' u p" "gap h' u y" if "u \<in> set us" "y \<in> set ys" for u y
    using low [OF that(1)] up [OF that(2)] off [of u] that(1) eq by (auto simp: gap_def)
  moreover have "gap h' u p" if "u \<in> set us" for u
    using low [OF that(1)] off [of u] that(1) by (auto simp: gap_def)
  moreover have "gap h' p y" if "y \<in> set ys" for y
    using up [OF that] eq by (simp add: gap_def h')
  ultimately show "sorted_wrt (gap h') (us @ p # ys)"
    by (auto simp: sorted_wrt_append)
  have "region p (hsize h' p) = region p (hsize h p) \<union> region bp (hsize h bp)"
    using region_join [OF eq [symmetric], of "hsize h bp"] by (simp add: h')
  then show "memory h' (us @ p # ys) = memory h (us @ [p]) \<union> memory h (bp # ys)"
    using memory_cong [of us h' h] memory_cong [of ys h' h] off by auto
qed

lemma keep_lists:
  assumes "sorted_wrt (gap h) (us @ [p])" "sorted_wrt (gap h) (bp # ys)" "p + 16 * hsize h p < bp"
  shows "sorted_wrt (gap h) (us @ p # bp # ys)"
proof -
  have up: "bp < y" if "y \<in> set ys" for y
    using assms(2) that by (auto dest: gap_less)
  have "gap h u x" if "u \<in> set us" "x \<in> set (p # bp # ys)" for u x
  proof -
    have "u + 16 * hsize h u < p" "p \<le> x"
      using that up [of x] assms(1,3) by (auto simp: sorted_wrt_append gap_def)
    then show ?thesis
      by (simp add: gap_def)
  qed
  moreover have "gap h p x" if "x \<in> set (bp # ys)" for x
    using that up [of x] assms(3) by (auto simp: gap_def)
  ultimately show ?thesis
    using assms(1,2) by (simp add: sorted_wrt_append)
qed

lemma free_lower:
  assumes low: "linked (hptr h) base xs c" "sorted_wrt (gap h) (base # xs)"
    and high: "linked (hptr h) bp ys base" "sorted_wrt (gap h) (bp # ys)"
    and p: "p = last (base # xs)" "p + 16 * hsize h p \<le> bp" "p < bp"
  obtains ns where "linked (hptr (join_lower p bp h)) base ns base" "sorted_wrt (gap (join_lower p bp h)) (base # ns)"
    "memory (join_lower p bp h) (base # ns) = memory h (base # xs) \<union> memory h (bp # ys)"
    "set ns \<subseteq> set xs \<union> insert bp (set ys)" "set xs \<subseteq> set ns"
    "\<exists>a\<in>set (base # ns). region bp (hsize h bp) \<subseteq> region a (hsize (join_lower p bp h) a)"
proof -
  obtain us where us: "base # xs = us @ [p]"
    using p(1) by (metis append_butlast_last_id list.distinct(1))
  have s: "sorted_wrt (gap h) (us @ [p])" "distinct (base # xs)"
    using low(2) sorted_gap_distinct [OF low(2)] unfolding us by auto
  have notin: "p \<notin> set (bp # ys)"
    using high(2) p(3) gap_less by fastforce
  have first: "hptr h bp = hd (ys @ [base])"
    using high(1) by (cases ys) auto
  obtain h' where h': "join_lower p bp h = h'"
    by simp
  show ?thesis
  proof (cases "p + 16 * hsize h p = bp")
    case True
    then have h: "hsize h' = (hsize h)(p := hsize h p + hsize h bp)" "hptr h' = (hptr h)(p := hptr h bp)"
      unfolding h' [symmetric] by (simp_all add: join_lower_def)
    have "linked (hptr h') base xs (hd (ys @ [base]))" "linked (hptr h') p ys base"
      using chain_last [OF low(1) s(2), of "hptr h bp"] chain_head [OF high(1), of p] notin unfolding h(2) p(1) [symmetric] first
      by simp_all
    then have c: "linked (hptr h') base (xs @ ys) base"
      unfolding chain_join p(1) by simp
    have e: "base # xs @ ys = us @ p # ys"
      using us by simp
    have new: "sorted_wrt (gap h') (base # xs @ ys)" "memory h' (base # xs @ ys) = memory h (base # xs) \<union> memory h (bp # ys)"
      unfolding e us by (rule merge_lists [OF s(1) high(2) True h(1)])+
    have "p \<in> set (base # xs @ ys)" "region bp (hsize h bp) \<subseteq> region p (hsize h' p)"
      unfolding e using region_join [OF True [symmetric], of "hsize h bp"] by (simp_all add: h)
    then show ?thesis
      by (intro that [of "xs @ ys", unfolded h', OF c new]) auto
  next
    case False
    then have h: "hsize h' = hsize h" "hptr h' = (hptr h)(p := bp)"
      unfolding h' [symmetric] by (simp_all add: join_lower_def)
    have "linked (hptr h') bp ys base"
      by (rule chain_cong [OF high(1)]) (use notin in \<open>auto simp: h(2)\<close>)
    moreover have "linked (hptr h') base xs bp"
      using chain_last [OF low(1) s(2), of bp] unfolding h(2) p(1) [symmetric] .
    ultimately have c: "linked (hptr h') base (xs @ bp # ys) base"
      unfolding chain_join p(1) [symmetric] by (simp add: h(2))
    have e: "base # xs @ bp # ys = us @ p # bp # ys"
      using us by simp
    have new: "sorted_wrt (gap h') (base # xs @ bp # ys)"
      unfolding e using gap_cong [OF keep_lists [OF s(1) high(2)], of h'] False p(2) h(1) by simp
    have "memory h' zs = memory h zs" for zs
      using h(1) by (simp add: memory_def)
    then have m: "memory h' (base # xs @ bp # ys) = memory h (base # xs) \<union> memory h (bp # ys)"
      by (auto simp: h(1))
    show ?thesis
      by (rule that [of "xs @ bp # ys", unfolded h', OF c new m]) (auto simp: h(1))
  qed
qed

lemma split_at:
  assumes "sorted_wrt (<) (ns :: nat list)"
  obtains xs ys where "ns = xs @ ys" "\<forall>x\<in>set xs. x < b" "\<forall>y\<in>set ys. b \<le> y"
  using assms
proof (induction ns arbitrary: thesis)
  case (Cons n ns)
  obtain xs ys where ns: "ns = xs @ ys" "\<forall>x\<in>set xs. x < b" "\<forall>y\<in>set ys. b \<le> y"
    using Cons.IH Cons.prems(2) by auto
  show ?case
  proof (cases "n < b")
    case True
    then show ?thesis
      using ns by (intro Cons.prems(1) [of "n # xs" ys]) auto
  next
    case False
    then show ?thesis
      using Cons.prems(2) by (intro Cons.prems(1) [of "[]" "n # ns"]) auto
  qed
qed simp

lemma region_bound: "region a n \<subseteq> {..<b} \<Longrightarrow> 0 < n \<Longrightarrow> a + 16 * n \<le> b"
proof -
  assume sub: "region a n \<subseteq> {..<b}" and n: "0 < n"
  have "a + 16 * n - 1 \<in> region a n"
    unfolding region_def atLeastLessThan_iff using n by linarith
  then have "a + 16 * n - 1 < b"
    using sub by blast
  then show ?thesis
    using n by linarith
qed

lemma join_grows: "hsize h a \<le> hsize (join_upper p bp h) a" "hsize h a \<le> hsize (join_lower p bp h) a"
  by (simp_all add: join_upper_def join_lower_def)

lemma join_brk [simp]: "brk (join_upper p bp h) = brk h" "brk (join_lower p bp h) = brk h"
  by (simp_all add: join_upper_def join_lower_def)

lemma freep_irrelevant [simp]: "gap (h\<lparr>freep := p\<rparr>) = gap h" "memory (h\<lparr>freep := p\<rparr>) = memory h"
  by (simp_all add: gap_def memory_def fun_eq_iff)

lemma region_0 [simp]: "region a 0 = {}"
  by (simp add: region_def)

text \<open>The place of a block: after the last smaller address.\<close>

lemma ufree_place:
  assumes inv: "arena base h ns" and bp: "base < bp" "0 < hsize h bp" "region bp (hsize h bp) \<inter> memory h ns = {}"
  obtains xs ys p where "ns = xs @ ys" "\<forall>x\<in>set (base # xs). x < bp" "\<forall>y\<in>set ys. bp + 16 * hsize h bp \<le> y"
    "p = last (base # xs)" "p < bp" "p + 16 * hsize h p \<le> bp" "free_place (hptr h) bp (freep h) = Some p"
proof -
  have sorted: "sorted_wrt (gap h) (base # ns)" and ring: "linked (hptr h) base ns base"
    using inv by (simp_all add: arena_def)
  obtain xs ys where xs: "ns = xs @ ys" "\<forall>x\<in>set xs. x < bp" "\<forall>y\<in>set ys. bp \<le> y"
    using split_at [of ns] sorted_gap_sorted [OF sorted] by auto
  have pos: "0 < hsize h a" "region a (hsize h a) \<inter> region bp (hsize h bp) = {}" if "a \<in> set ns" for a
    using inv bp(3) that by (auto simp: arena_def memory_def)
  have ys: "bp + 16 * hsize h bp \<le> y" if "y \<in> set ys" for y
  proof -
    have "bp \<noteq> y"
      using pos [of y] that xs(1) bp(2) by (force simp: region_def)
    then show ?thesis
      using region_disjoint [of "hsize h y" bp "hsize h bp" y] pos [of y] that xs by (auto simp: Int_commute)
  qed
  define p where "p = last (base # xs)"
  have "p \<in> set (base # xs)"
    unfolding p_def by (rule last_in_set) simp
  then consider "p = base" | "p \<in> set xs"
    by auto
  then have p: "p < bp" "p + 16 * hsize h p \<le> bp"
    using xs(1,2) bp(1,2) inv region_disjoint [of "hsize h bp" p "hsize h p" bp] pos(2) [of p] by (cases; simp add: arena_def)+
  have "free_place (hptr h) bp (freep h) = Some p"
    unfolding p_def
  proof (rule place_found)
    show "linked (hptr h) base (xs @ ys) base" "sorted_wrt (<) (base # xs @ ys)"
      using ring sorted_gap_sorted [OF sorted] xs(1) by auto
    show "\<forall>y\<in>set ys. bp < y"
      using ys bp(2) by fastforce
  qed (use bp(1) xs inv in \<open>auto simp: arena_def\<close>)
  then show ?thesis
    using that [of xs ys p] xs bp(1) ys p p_def by auto
qed

text \<open>Linking a block in, joining it with the neighbours that it touches.\<close>

lemma ufree_links:
  assumes inv: "arena base h ns" and bp: "base < bp" "0 < hsize h bp"
    and xs: "ns = xs @ ys" "\<forall>x\<in>set (base # xs). x < bp" "\<forall>y\<in>set ys. bp + 16 * hsize h bp \<le> y"
    and p: "p = last (base # xs)" "p < bp" "p + 16 * hsize h p \<le> bp"
    and h2: "h2 = join_lower p bp (join_upper p bp h)"
  obtains ns' where "linked (hptr h2) base ns' base" "sorted_wrt (gap h2) (base # ns')"
    "memory h2 (base # ns') = memory h (base # ns) \<union> region bp (hsize h bp)"
    "set ns' \<subseteq> insert bp (set ns)" "set xs \<subseteq> set ns'"
    "\<exists>a\<in>set (base # ns'). region bp (hsize h bp) \<subseteq> region a (hsize h2 a)"
proof -
  have parts: "linked (hptr h) base xs (hd (ys @ [base]))" "linked (hptr h) p ys base" "sorted_wrt (gap h) (base # xs)" "sorted_wrt (gap h) ys"
    using inv unfolding arena_def xs(1) chain_join p(1) by (simp_all add: sorted_wrt_append)
  obtain h1 where h1: "join_upper p bp h = h1"
    by simp
  obtain ys' where up: "linked (hptr h1) bp ys' base" "sorted_wrt (gap h1) (bp # ys')"
    "memory h1 (bp # ys') = region bp (hsize h bp) \<union> memory h ys" "set ys' \<subseteq> set ys" "hsize h bp \<le> hsize h1 bp"
    using free_upper [OF parts(2,4) xs(3) bp] unfolding h1 by blast
  have off: "hsize h1 a = hsize h a" "hptr h1 a = hptr h a" if "a \<in> set (base # xs)" for a
    using join_upper_off [of a bp p h] xs(2) that unfolding h1 by auto
  have low: "linked (hptr h1) base xs (hd (ys @ [base]))" "sorted_wrt (gap h1) (base # xs)" "memory h1 (base # xs) = memory h (base # xs)"
    using chain_cong [OF parts(1), of "hptr h1"] gap_cong [OF parts(3), of h1] memory_cong [of "base # xs" h1 h] off by simp_all
  have "p \<in> set (base # xs)"
    unfolding p(1) by (rule last_in_set) simp
  then have "p + 16 * hsize h1 p \<le> bp"
    using p(3) off(1) [of p] by simp
  then obtain ns' where new: "linked (hptr h2) base ns' base" "sorted_wrt (gap h2) (base # ns')"
    "memory h2 (base # ns') = memory h1 (base # xs) \<union> memory h1 (bp # ys')"
    "set ns' \<subseteq> set xs \<union> insert bp (set ys')" "set xs \<subseteq> set ns'"
    "\<exists>a\<in>set (base # ns'). region bp (hsize h1 bp) \<subseteq> region a (hsize h2 a)"
    using free_lower [OF low(1,2) up(1,2) p(1) _ p(2)] unfolding h2 h1 by blast
  have "region bp (hsize h bp) \<subseteq> region bp (hsize h1 bp)"
    using up(5) by (auto simp: region_def)
  then have ex: "\<exists>a\<in>set (base # ns'). region bp (hsize h bp) \<subseteq> region a (hsize h2 a)"
    using new(6) by (meson order_trans)
  have mem: "memory h2 (base # ns') = memory h (base # ns) \<union> region bp (hsize h bp)"
    unfolding new(3) low(3) up(3) xs(1) by auto
  have "set ns' \<subseteq> insert bp (set ns)"
    using new(4) up(4) xs(1) by auto
  then show ?thesis
    by (rule that [OF new(1,2) mem _ new(5) ex])
qed

lemma ufree_arena:
  assumes inv: "arena base h ns" and bp: "base < bp" "0 < hsize h bp" "region bp (hsize h bp) \<inter> memory h ns = {}"
    "bp + 16 * hsize h bp \<le> brk h"
  obtains h' ns' where "ufree (bp + 16) h = Some h'" "arena base h' ns'" "memory h' ns' = memory h ns \<union> region bp (hsize h bp)"
    "brk h' = brk h" "\<And>a. a \<notin> insert bp (set ns) \<Longrightarrow> hsize h' a = hsize h a"
    "\<exists>a\<in>set ns'. region bp (hsize h bp) \<subseteq> region a (hsize h' a)"
proof -
  obtain xs ys p where xs: "ns = xs @ ys" "\<forall>x\<in>set (base # xs). x < bp" "\<forall>y\<in>set ys. bp + 16 * hsize h bp \<le> y"
    and p: "p = last (base # xs)" "p < bp" "p + 16 * hsize h p \<le> bp" and place: "free_place (hptr h) bp (freep h) = Some p"
    using ufree_place [OF inv bp(1-3)] by blast
  define h2 where "h2 = join_lower p bp (join_upper p bp h)"
  obtain ns' where new: "linked (hptr h2) base ns' base" "sorted_wrt (gap h2) (base # ns')"
    "memory h2 (base # ns') = memory h (base # ns) \<union> region bp (hsize h bp)"
    "set ns' \<subseteq> insert bp (set ns)" "set xs \<subseteq> set ns'"
    "\<exists>a\<in>set (base # ns'). region bp (hsize h bp) \<subseteq> region a (hsize h2 a)"
    using ufree_links [OF inv bp(1,2) xs p h2_def] by blast
  have in_p: "p \<in> set (base # xs)"
    unfolding p(1) by (rule last_in_set) simp
  have base: "hsize h2 base = 0" "hsize h base = 0"
    using inv bp(1) by (auto simp: arena_def h2_def join_lower_def join_upper_def)
  have grows: "hsize h a \<le> hsize h2 a" for a
    unfolding h2_def using join_grows le_trans by blast
  have off: "hsize h2 a = hsize h a" if "a \<notin> insert bp (set ns)" for a
  proof (cases "a = base")
    case False
    then have "a \<noteq> p" "a \<noteq> bp"
      using that in_p xs(1) by auto
    then show ?thesis
      by (simp add: h2_def join_lower_off join_upper_off)
  qed (simp add: base)
  have mem: "memory h2 ns' = memory h ns \<union> region bp (hsize h bp)"
    using new(3) base by simp
  have "region a (hsize h a) \<subseteq> {..<brk h}" if "a \<in> set ns" for a
    using inv that by (auto simp: arena_def region_def)
  moreover have "region bp (hsize h bp) \<subseteq> {..<brk h}"
    using bp(4) by (auto simp: region_def)
  ultimately have "memory h2 ns' \<subseteq> {..<brk h}"
    unfolding mem by (auto simp: memory_def)
  then have "region a (hsize h2 a) \<subseteq> {..<brk h}" if "a \<in> set ns'" for a
    using that by (auto simp: memory_def)
  moreover have pos: "0 < hsize h2 a" if "a \<in> set ns'" for a
  proof -
    have "0 < hsize h a"
      using that new(4) inv bp(2) unfolding arena_def by blast
    then show ?thesis
      using grows [of a] by simp
  qed
  ultimately have bound: "a + 16 * hsize h2 a \<le> brk h" if "a \<in> set ns'" for a
    using that region_bound by blast
  have "p \<in> set (base # ns')" "brk h2 = brk h"
    using in_p new(5) by (auto simp: h2_def)
  then have "arena base (h2\<lparr>freep := p\<rparr>) ns'"
    using new(1,2) inv base(1) bound pos by (simp add: arena_def)
  moreover have "ufree (bp + 16) h = Some (h2\<lparr>freep := p\<rparr>)"
    using place by (simp add: ufree_def h2_def)
  moreover have "\<exists>a\<in>set ns'. region bp (hsize h bp) \<subseteq> region a (hsize h2 a)"
    using new(6) base bp(2) by (auto simp: region_def)
  ultimately show ?thesis
    using that [of "h2\<lparr>freep := p\<rparr>" ns'] mem off \<open>brk h2 = brk h\<close> by simp
qed

section \<open>\<^verbatim>\<open>malloc\<close>\<close>

lemma memory_disjoint:
  assumes "sorted_wrt (gap h) (xs @ p # ys)"
  shows "memory h (xs @ ys) \<inter> region p (hsize h p) = {}"
proof -
  have "region a (hsize h a) \<inter> region p (hsize h p) = {}" if "a \<in> set (xs @ ys)" for a
  proof -
    have "gap h a p \<or> gap h p a"
      using assms that by (auto simp: sorted_wrt_append)
    then show ?thesis
      by (auto simp: gap_def region_def)
  qed
  then show ?thesis
    unfolding memory_def by blast
qed

lemma take_all:
  assumes inv: "arena base h (xs @ p # ys)" and q: "q = last (base # xs)"
    and h': "h' = h\<lparr>hptr := (hptr h)(q := hptr h p), freep := q\<rparr>"
  shows "arena base h' (xs @ ys)" "memory h' (xs @ ys) = memory h (xs @ p # ys) - region p (hsize h p)"
proof -
  have sorted: "sorted_wrt (gap h) ((base # xs) @ p # ys)" and ring: "linked (hptr h) base (xs @ p # ys) base"
    using inv by (simp_all add: arena_def)
  have parts: "linked (hptr h) base xs p" "linked (hptr h) p ys base"
    using ring chain_join [of "hptr h" base xs "p # ys"] by simp_all
  have in_q: "q \<in> set (base # xs)"
    unfolding q by (rule last_in_set) simp
  have dist: "distinct (base # xs)" "q \<notin> set ys"
    using sorted_gap_distinct [OF sorted] in_q by auto
  have "hptr h p = hd (ys @ [base])"
    using parts(2) by (cases ys) auto
  then have "linked (hptr h') base (xs @ ys) base"
    unfolding chain_join using chain_last [OF parts(1) dist(1), of "hptr h p"] chain_head [OF parts(2) dist(2)]
    unfolding q [symmetric] h' by simp
  moreover have "gap h' = gap h" "memory h' = memory h"
    by (simp_all add: gap_def memory_def fun_eq_iff h')
  moreover have "sorted_wrt (gap h) (base # xs @ ys)"
    using sorted by (auto simp: sorted_wrt_append)
  ultimately show "arena base h' (xs @ ys)"
    using inv in_q by (auto simp: arena_def h')
  show "memory h' (xs @ ys) = memory h (xs @ p # ys) - region p (hsize h p)"
    unfolding \<open>memory h' = memory h\<close> using memory_disjoint [of h xs p ys] sorted by (auto simp: sorted_wrt_append)
qed

lemma take_end:
  assumes inv: "arena base h (xs @ p # ys)" and q: "q \<in> set (base # xs)" and n: "0 < n" "n < hsize h p"
    and b: "b = p + 16 * (hsize h p - n)"
    and h': "h' = h\<lparr>hsize := (hsize h)(p := hsize h p - n, b := n), freep := q\<rparr>"
  shows "arena base h' (xs @ p # ys)" "memory h' (xs @ p # ys) = memory h (xs @ p # ys) - region b n" "region b n \<subseteq> region p (hsize h p)"
proof -
  have sorted: "sorted_wrt (gap h) (base # xs @ p # ys)"
    using inv by (simp add: arena_def)
  have notin: "a \<noteq> b" if "a \<in> set (base # xs @ p # ys)" for a
  proof -
    have "a = p \<or> gap h a p \<or> gap h p a"
      using sorted that by (auto simp: sorted_wrt_append)
    then show ?thesis
      using b n by (auto simp: gap_def)
  qed
  have size: "hsize h' a = (if a = p then hsize h p - n else hsize h a)" if "a \<in> set (base # xs @ p # ys)" for a
    using notin [OF that] by (auto simp: h')
  have less: "hsize h' a \<le> hsize h a" if "a \<in> set (base # xs @ p # ys)" for a
    using size [OF that] by simp
  have "sorted_wrt (gap h') (base # xs @ p # ys)"
    by (rule sorted_wrt_mono_rel [OF _ sorted]) (use less in \<open>fastforce simp: gap_def\<close>)
  moreover have "0 < hsize h' a \<and> a + 16 * hsize h' a \<le> brk h'" if "a \<in> set (xs @ p # ys)" for a
    using inv that size [of a] less [of a] n by (auto simp: arena_def h')
  moreover have "hsize h' base = 0" "hptr h' = hptr h"
    using inv less [of base] by (auto simp: arena_def h')
  ultimately show "arena base h' (xs @ p # ys)"
    using inv q by (auto simp: arena_def h')
  have all: "region p (hsize h p) = region p (hsize h p - n) \<union> region b n" "region p (hsize h p - n) \<inter> region b n = {}"
    using region_join [OF b, of n] n b by (auto simp: region_def)
  then show "region b n \<subseteq> region p (hsize h p)"
    by blast
  have "p \<notin> set (xs @ ys)"
    using sorted_gap_distinct [OF sorted] by auto
  then have "memory h' (xs @ ys) = memory h (xs @ ys)"
    by (intro memory_cong) (use size in auto)
  then show "memory h' (xs @ p # ys) = memory h (xs @ p # ys) - region b n"
    using memory_disjoint [of h xs p ys] sorted all size [of p] by (auto simp: sorted_wrt_append)
qed

lemma take_block_arena:
  assumes inv: "arena base h ns" and q: "q \<in> set (base # ns)" "hptr h q = p" and n: "0 < n" "n \<le> hsize h p"
  obtains b h' ns' where "take_block n q p h = (b + 16, h')" "arena base h' ns'" "hsize h' b = n" "brk h' = brk h"
    "region b n \<subseteq> memory h ns" "memory h' ns' = memory h ns - region b n" "base < b"
    "\<forall>a. a \<notin> insert b (set ns) \<longrightarrow> hsize h' a = hsize h a"
proof -
  have sorted: "sorted_wrt (gap h) (base # ns)" and ring: "linked (hptr h) base ns base" and base: "hsize h base = 0"
    using inv by (simp_all add: arena_def)
  have "p \<noteq> base"
    using base n by auto
  then have "p \<in> set ns"
    using chain_image [OF ring q(1)] q(2) by auto
  then obtain xs ys where ns: "ns = xs @ p # ys"
    by (meson split_list)
  have last: "q = last (base # xs)"
    using chain_pred [of "hptr h" base xs p ys base q] ring sorted_gap_distinct [OF sorted] q \<open>p \<noteq> base\<close> unfolding ns by blast
  then have in_q: "q \<in> set (base # xs)"
    using last_in_set [of "base # xs"] by simp
  have bp: "base < p"
    using sorted ns by (auto dest: gap_less)
  have sub: "region p (hsize h p) \<subseteq> memory h ns"
    unfolding ns by auto
  show ?thesis
  proof (cases "hsize h p = n")
    case True
    then show ?thesis
      using that [of p "h\<lparr>hptr := (hptr h)(q := hptr h p), freep := q\<rparr>" "xs @ ys"] take_all [OF inv [unfolded ns] last refl] bp sub
      by (simp add: take_block_def ns)
  next
    case False
    define b where "b = p + 16 * (hsize h p - n)"
    define h' where "h' = h\<lparr>hsize := (hsize h)(p := hsize h p - n, b := n), freep := q\<rparr>"
    have "n < hsize h p"
      using False n(2) by simp
    note cut = take_end [OF inv [unfolded ns] in_q n(1) this b_def h'_def]
    show ?thesis
    proof (rule that [of b h' ns])
      show "take_block n q p h = (b + 16, h')"
        using False by (simp add: take_block_def Let_def b_def h'_def)
      show "arena base h' ns" "memory h' ns = memory h ns - region b n"
        using cut(1,2) unfolding ns .
      show "region b n \<subseteq> memory h ns"
        using cut(3) sub by (rule subset_trans)
      show "base < b"
        using bp by (simp add: b_def)
    qed (use ns in \<open>auto simp: h'_def\<close>)
  qed
qed

text \<open>The loop passes over blocks that are too small.\<close>

lemma malloc_scan:
  assumes "linked (hptr h) a ws c" "\<forall>w\<in>set ws. hsize h w < n \<and> w \<noteq> freep h"
  shows "malloc_loop grow n a (hptr h a) h = malloc_loop grow n (last (a # ws)) c h"
  using assms
proof (induction ws arbitrary: a)
  case (Cons w ws)
  have "malloc_loop grow n a w h = malloc_loop grow n w (hptr h w) h"
    using Cons.prems(2) by (subst malloc_loop.simps) auto
  then show ?case
    using Cons by simp
qed simp

text \<open>The blocks of the ring in the order of the search, with the last one looked at.\<close>

lemma arena_rotate:
  assumes "arena base h ns"
  obtains ws where "linked (hptr h) (freep h) ws (freep h)" "freep h \<notin> set ws" "set (ws @ [freep h]) = set (base # ns)"
proof -
  obtain us vs where uv: "base # ns = us @ freep h # vs"
    using assms unfolding arena_def by (meson split_list)
  have "distinct (us @ freep h # vs)"
    using assms sorted_gap_distinct unfolding arena_def uv by blast
  moreover have "linked (hptr h) (freep h) (vs @ us) (freep h)"
    using chain_rotate [OF _ uv] assms by (simp add: arena_def)
  ultimately show ?thesis
    using that [of "vs @ us"] uv by auto
qed

lemma malloc_found:
  assumes inv: "arena base h ns" and n: "0 < n" and big: "\<exists>a\<in>set ns. n \<le> hsize h a"
  obtains q p where "malloc_loop grow n (freep h) (hptr h (freep h)) h = Some (Ok (take_block n q p h))"
    "q \<in> set (base # ns)" "hptr h q = p" "n \<le> hsize h p"
proof -
  obtain ws where ws: "linked (hptr h) (freep h) ws (freep h)" "freep h \<notin> set ws" "set (ws @ [freep h]) = set (base # ns)"
    using arena_rotate [OF inv] .
  have "\<exists>p\<in>set (ws @ [freep h]). n \<le> hsize h p"
    using big ws(3) by (metis list.set_intros(2))
  then obtain pre p post where pre: "ws @ [freep h] = pre @ p # post" "n \<le> hsize h p" "\<forall>w\<in>set pre. \<not> n \<le> hsize h w"
    using split_list_first_prop [of "ws @ [freep h]" "\<lambda>p. n \<le> hsize h p"] by blast
  have "linked (hptr h) (freep h) pre p \<and> set pre \<subseteq> set ws"
  proof (cases post rule: rev_cases)
    case Nil
    then show ?thesis
      using ws(1) pre(1) by simp
  next
    case (snoc post' z)
    then have "ws = pre @ p # post'"
      using pre(1) by simp
    then show ?thesis
      using ws(1) chain_join [of "hptr h" "freep h" pre "p # post'"] by auto
  qed
  then have c: "linked (hptr h) (freep h) pre p" and sub: "set pre \<subseteq> set ws"
    by auto
  let ?q = "last (freep h # pre)"
  have "malloc_loop grow n (freep h) (hptr h (freep h)) h = malloc_loop grow n ?q p h"
    using c sub pre(3) ws(2) by (intro malloc_scan) (auto simp: not_le)
  also have "\<dots> = Some (Ok (take_block n ?q p h))"
    using pre(2) by (subst malloc_loop.simps) simp
  finally have "malloc_loop grow n (freep h) (hptr h (freep h)) h = Some (Ok (take_block n ?q p h))" .
  moreover have "set (freep h # pre) \<subseteq> set (base # ns)"
    unfolding ws(3) [symmetric] using sub by auto
  then have "?q \<in> set (base # ns)"
    by (rule subsetD) (rule last_in_set, simp)
  ultimately show ?thesis
    using that [of ?q p] chain_end [OF c] pre(2) by simp
qed

text \<open>Without a block that is big enough the loop comes back to where it began and asks for more memory.\<close>

lemma malloc_none:
  assumes inv: "arena base h ns" and small: "\<forall>a\<in>set ns. hsize h a < n" "0 < n"
  shows "malloc_loop grow n (freep h) (hptr h (freep h)) h =
    (case morecore grow n h of
       None \<Rightarrow> None
     | Some r \<Rightarrow>
         (case r of
            Ok ph \<Rightarrow> if fst ph = 0 then Some (Ok (0, snd ph)) else malloc_loop grow n (fst ph) (hptr (snd ph) (fst ph)) (snd ph)
          | Panic m \<Rightarrow> Some (Panic m)
          | Blocked \<Rightarrow> Some Blocked
          | Fault m \<Rightarrow> Some (Fault m)))"
proof -
  obtain ws where ws: "linked (hptr h) (freep h) ws (freep h)" "freep h \<notin> set ws" "set (ws @ [freep h]) = set (base # ns)"
    using arena_rotate [OF inv] .
  have all: "hsize h a < n" if "a \<in> set (ws @ [freep h])" for a
    using that small inv unfolding ws(3) by (auto simp: arena_def)
  have "malloc_loop grow n (freep h) (hptr h (freep h)) h = malloc_loop grow n (last (freep h # ws)) (freep h) h"
    using ws(1,2) all by (intro malloc_scan) auto
  also have "\<dots> = (case morecore grow n h of
       None \<Rightarrow> None
     | Some r \<Rightarrow>
         (case r of
            Ok ph \<Rightarrow> if fst ph = 0 then Some (Ok (0, snd ph)) else malloc_loop grow n (fst ph) (hptr (snd ph) (fst ph)) (snd ph)
          | Panic m \<Rightarrow> Some (Panic m)
          | Blocked \<Rightarrow> Some Blocked
          | Fault m \<Rightarrow> Some (Fault m)))"
    using all [of "freep h"] by (subst malloc_loop.simps) auto
  finally show ?thesis .
qed

lemma arena_below:
  assumes "arena base h ns"
  shows "a \<in> set (base # ns) \<Longrightarrow> a < brk h" "memory h ns \<subseteq> {..<brk h}" "a \<in> set ns \<Longrightarrow> a \<in> memory h ns" "a \<in> set (base # ns) \<Longrightarrow> 0 < a"
proof -
  have ns: "0 < hsize h a" "a + 16 * hsize h a \<le> brk h" "base < a" if "a \<in> set ns" for a
    using assms that gap_less by (auto simp: arena_def)
  show "a < brk h" if "a \<in> set (base # ns)"
    using that ns [of a] assms by (auto simp: arena_def)
  show "memory h ns \<subseteq> {..<brk h}"
    using ns(2) by (fastforce simp: memory_def region_def)
  show "a \<in> memory h ns" if "a \<in> set ns"
    using that ns(1) [OF that] by (force simp: memory_def region_def)
  show "0 < a" if "a \<in> set (base # ns)"
    using that ns(3) [of a] assms by (auto simp: arena_def)
qed

lemma morecore_arena:
  assumes inv: "arena base h ns" and nu: "nu = max 4096 n" "nu * 16 < 2 ^ 31" and grow: "grow (brk h) (nu * 16)"
  obtains h' ns' where "morecore grow n h = Some (Ok (freep h', h'))" "arena base h' ns'" "freep h' \<noteq> 0"
    "memory h' ns' = memory h ns \<union> region (brk h) nu" "brk h' = brk h + nu * 16" "\<exists>a\<in>set ns'. nu \<le> hsize h' a"
    "\<And>a. a \<notin> memory h ns \<Longrightarrow> a < brk h \<Longrightarrow> hsize h' a = hsize h a"
proof -
  define h1 where "h1 = h\<lparr>brk := brk h + nu * 16, hsize := (hsize h)(brk h := nu)\<rparr>"
  note below = arena_below [OF inv]
  have size: "hsize h1 a = hsize h a" if "a \<in> set (base # ns)" for a
    using below(1) [OF that] by (simp add: h1_def)
  have mem: "memory h1 ns = memory h ns"
    by (rule memory_cong) (use size in auto)
  have "sorted_wrt (gap h1) (base # ns)"
    by (rule gap_cong [of h]) (use inv size in \<open>auto simp: arena_def\<close>)
  then have inv1: "arena base h1 ns"
    using inv size by (fastforce simp: arena_def h1_def)
  have sb: "hsize h1 (brk h) = nu"
    by (simp add: h1_def)
  have "region (brk h) nu \<inter> memory h1 ns = {}"
    unfolding mem using below(2) by (auto simp: region_def)
  then have pre: "base < brk h" "0 < hsize h1 (brk h)" "region (brk h) (hsize h1 (brk h)) \<inter> memory h1 ns = {}"
    "brk h + 16 * hsize h1 (brk h) \<le> brk h1"
    using inv nu(1) unfolding sb by (auto simp: arena_def h1_def)
  obtain h' ns' where free: "ufree (brk h + 16) h1 = Some h'" "arena base h' ns'" "memory h' ns' = memory h1 ns \<union> region (brk h) nu"
    "brk h' = brk h1" "\<And>a. a \<notin> insert (brk h) (set ns) \<Longrightarrow> hsize h' a = hsize h1 a"
    "\<exists>a\<in>set ns'. region (brk h) nu \<subseteq> region a (hsize h' a)"
    using ufree_arena [OF inv1 pre] unfolding sb by blast
  show ?thesis
  proof (rule that [of h' ns'])
    show "morecore grow n h = Some (Ok (freep h', h'))"
      using free(1) nu grow by (auto simp: morecore_def Let_def h1_def max_def split: if_splits)
    show "freep h' \<noteq> 0"
      using arena_below(4) [OF free(2), of "freep h'"] free(2) by (auto simp: arena_def)
    show "brk h' = brk h + nu * 16" "memory h' ns' = memory h ns \<union> region (brk h) nu"
      using free(3,4) mem by (simp_all add: h1_def)
    obtain a where a: "a \<in> set ns'" "region (brk h) nu \<subseteq> region a (hsize h' a)"
      using free(6) by blast
    have "16 * nu \<le> 16 * hsize h' a"
      using card_mono [OF _ a(2)] by (simp add: region_def)
    then show "\<exists>a\<in>set ns'. nu \<le> hsize h' a"
      using a(1) by auto
    show "hsize h' a = hsize h a" if "a \<notin> memory h ns" "a < brk h" for a
      using free(5) [of a] that below(3) [of a] by (auto simp: h1_def)
  qed (fact free(2))
qed

text \<open>The heap before and after the first call.\<close>

definition heap_ok :: "nat \<Rightarrow> heap \<Rightarrow> nat list \<Rightarrow> bool" where
  "heap_ok base h ns \<longleftrightarrow> (if freep h = 0 then ns = [] \<and> 0 < base \<and> base < brk h else arena base h ns)"

definition units :: "nat \<Rightarrow> nat" where
  "units nbytes = (nbytes + 15) div 16 + 1"

lemma umalloc_start:
  assumes "heap_ok base h ns"
  obtains h1 where "arena base h1 ns" "memory h1 ns = memory h ns" "brk h1 = brk h" "\<And>a. a \<noteq> base \<Longrightarrow> hsize h1 a = hsize h a"
    "umalloc base grow nbytes h = malloc_loop grow (units nbytes) (freep h1) (hptr h1 (freep h1)) h1"
proof (cases "freep h = 0")
  case True
  then show ?thesis
    using assms that [of "h\<lparr>hptr := (hptr h)(base := base), freep := base, hsize := (hsize h)(base := 0)\<rparr>"]
    by (simp add: heap_ok_def arena_def umalloc_def units_def Let_def)
next
  case False
  then show ?thesis
    using assms that [of h] by (simp add: heap_ok_def umalloc_def units_def Let_def)
qed

lemma malloc_from:
  assumes inv: "arena base h ns" and n: "0 < n" "\<exists>a\<in>set ns. n \<le> hsize h a"
  obtains b h' ns' where "malloc_loop grow n (freep h) (hptr h (freep h)) h = Some (Ok (b + 16, h'))" "arena base h' ns'"
    "hsize h' b = n" "brk h' = brk h" "region b n \<subseteq> memory h ns" "memory h' ns' = memory h ns - region b n"
    "\<And>a. a \<notin> memory h ns \<Longrightarrow> hsize h' a = hsize h a"
proof -
  obtain q p where p: "malloc_loop grow n (freep h) (hptr h (freep h)) h = Some (Ok (take_block n q p h))"
    "q \<in> set (base # ns)" "hptr h q = p" "n \<le> hsize h p"
    using malloc_found [OF inv n] .
  obtain b h' ns' where new: "take_block n q p h = (b + 16, h')" "arena base h' ns'" "hsize h' b = n" "brk h' = brk h"
    "region b n \<subseteq> memory h ns" "memory h' ns' = memory h ns - region b n"
    and off: "\<forall>a. a \<notin> insert b (set ns) \<longrightarrow> hsize h' a = hsize h a"
    using take_block_arena [OF inv p(2,3) n(1) p(4)] .
  have "b \<in> region b n"
    using n(1) by (simp add: region_def)
  then have "hsize h' a = hsize h a" if "a \<notin> memory h ns" for a
    using off that new(5) arena_below(3) [OF inv, of a] by (metis insertE subsetD)
  then show ?thesis
    using that [of b h' ns'] p(1) new by simp
qed

text \<open>What a successful call has done: the block has the units asked for, with room for the bytes behind its
  header, it was free or is new memory, and it is the only thing that has left the free memory.\<close>

definition allocated :: "nat \<Rightarrow> heap \<Rightarrow> nat list \<Rightarrow> nat \<Rightarrow> heap \<Rightarrow> nat list \<Rightarrow> bool" where
  "allocated nbytes h ns ap h' ns' \<longleftrightarrow>
     (\<exists>b. ap = b + 16 \<and> hsize h' b = units nbytes \<and> {ap..<ap + nbytes} \<subseteq> region b (units nbytes) \<and>
        region b (units nbytes) \<subseteq> memory h ns \<union> {brk h..<brk h'} \<and>
        memory h' ns' = memory h ns \<union> {brk h..<brk h'} - region b (units nbytes))"

lemma units_room: "{b + 16..<b + 16 + nbytes} \<subseteq> region b (units nbytes)"
proof -
  have "nbytes \<le> (nbytes + 15) div 16 * 16"
    using div_mult_mod_eq [of "nbytes + 15" 16] mod_less_divisor [of 16 "nbytes + 15"] by linarith
  then show ?thesis
    by (auto simp: region_def units_def)
qed

text \<open>A call that has to ask for more memory and gets it.\<close>

lemma malloc_grown:
  assumes inv: "arena base h ns" and n: "n = units nbytes" "nu = max 4096 n" "nu * 16 < 2 ^ 31"
    and small: "\<forall>a\<in>set ns. hsize h a < n" and grow: "grow (brk h) (nu * 16)"
  obtains b h' ns' where "malloc_loop grow n (freep h) (hptr h (freep h)) h = Some (Ok (b + 16, h'))" "arena base h' ns'"
    "allocated nbytes h ns (b + 16) h' ns'" "\<forall>a. a \<notin> memory h ns \<longrightarrow> a < brk h \<longrightarrow> hsize h' a = hsize h a"
proof -
  have pos: "0 < n"
    by (simp add: n(1) units_def)
  obtain h2 ns2 where more: "morecore grow n h = Some (Ok (freep h2, h2))" "arena base h2 ns2" "freep h2 \<noteq> 0"
    "memory h2 ns2 = memory h ns \<union> region (brk h) nu" "brk h2 = brk h + nu * 16" "\<exists>a\<in>set ns2. nu \<le> hsize h2 a"
    and off2: "\<And>a. a \<notin> memory h ns \<Longrightarrow> a < brk h \<Longrightarrow> hsize h2 a = hsize h a"
    using morecore_arena [where grow = grow, OF inv n(2,3) grow] by blast
  have big: "\<exists>a\<in>set ns2. n \<le> hsize h2 a"
    using more(6) unfolding n(2) by (meson max.bounded_iff)
  obtain b h' ns' where new: "malloc_loop grow n (freep h2) (hptr h2 (freep h2)) h2 = Some (Ok (b + 16, h'))" "arena base h' ns'"
    "hsize h' b = n" "brk h' = brk h2" "region b n \<subseteq> memory h2 ns2" "memory h' ns' = memory h2 ns2 - region b n"
    and off: "\<And>a. a \<notin> memory h2 ns2 \<Longrightarrow> hsize h' a = hsize h2 a"
    using malloc_from [OF more(2) pos big, of grow] by blast
  have grown: "region (brk h) nu = {brk h..<brk h'}"
    using more(5) new(4) by (simp add: region_def mult.commute)
  have got: "allocated nbytes h ns (b + 16) h' ns'"
    unfolding allocated_def using new(3,5,6) more(4) units_room [of b nbytes] unfolding grown n(1) by (intro exI [of _ b]) simp
  have run: "malloc_loop grow n (freep h) (hptr h (freep h)) h = Some (Ok (b + 16, h'))"
    unfolding malloc_none [OF inv small pos] more(1) using more(3) new(1) by simp
  have "hsize h' a = hsize h a" if "a \<notin> memory h ns" "a < brk h" for a
    using that off [of a] off2 [of a] more(4) grown by simp
  then show ?thesis
    using that [OF run new(2) got] by blast
qed

text \<open>C22: \<^verbatim>\<open>malloc\<close> is correct: on a sound heap, for a request below the limit of \<^verbatim>\<open>sbrk\<close>, it ends; it returns 0 only if
  the kernel refuses more memory, with the free memory unchanged, and otherwise a block with room for the
  bytes that was free, or is new, and that is exactly what leaves the free memory. The heap stays sound
  and no header of a block in use is changed.\<close>

theorem malloc_correct:
  assumes "heap_ok base h ns" "max 4096 (units nbytes) * 16 < 2 ^ 31"
  shows "\<exists>ap h' ns'. umalloc base grow nbytes h = Some (Ok (ap, h')) \<and> arena base h' ns' \<and>
    (\<forall>a. a \<notin> memory h ns \<longrightarrow> a < brk h \<longrightarrow> a \<noteq> base \<longrightarrow> hsize h' a = hsize h a) \<and>
    (if ap = 0 then \<not> grow (brk h) (max 4096 (units nbytes) * 16) \<and> memory h' ns' = memory h ns
     else allocated nbytes h ns ap h' ns')"
proof -
  let ?n = "units nbytes" and ?nu = "max 4096 (units nbytes)"
  have n: "0 < ?n"
    by (simp add: units_def)
  obtain h1 where h1: "arena base h1 ns" "memory h1 ns = memory h ns" "brk h1 = brk h"
    and off1: "\<And>a. a \<noteq> base \<Longrightarrow> hsize h1 a = hsize h a"
    and run: "umalloc base grow nbytes h = malloc_loop grow ?n (freep h1) (hptr h1 (freep h1)) h1"
    using umalloc_start [OF assms(1), of grow nbytes] by blast
  have same: "allocated nbytes h1 ns ap h' ns' \<Longrightarrow> allocated nbytes h ns ap h' ns'" for ap h' ns'
    using h1(2,3) by (simp add: allocated_def)
  consider "\<exists>a\<in>set ns. ?n \<le> hsize h1 a" | "\<forall>a\<in>set ns. hsize h1 a < ?n" "\<not> grow (brk h1) (?nu * 16)"
    | "\<forall>a\<in>set ns. hsize h1 a < ?n" "grow (brk h1) (?nu * 16)"
    by (meson not_le)
  then show ?thesis
  proof cases
    case 1
    obtain b h' ns' where new: "malloc_loop grow ?n (freep h1) (hptr h1 (freep h1)) h1 = Some (Ok (b + 16, h'))" "arena base h' ns'"
      "hsize h' b = ?n" "brk h' = brk h1" "region b ?n \<subseteq> memory h1 ns" "memory h' ns' = memory h1 ns - region b ?n"
      and off: "\<And>a. a \<notin> memory h1 ns \<Longrightarrow> hsize h' a = hsize h1 a"
      using malloc_from [OF h1(1) n 1, of grow] by blast
    have "allocated nbytes h1 ns (b + 16) h' ns'"
      unfolding allocated_def using new(3-6) units_room [of b nbytes] by (intro exI [of _ b]) simp
    then show ?thesis
      using new(1,2) run off off1 h1(2) same by (intro exI [of _ "b + 16"] exI [of _ h'] exI [of _ ns']) simp
  next
    case 2
    then have "umalloc base grow nbytes h = Some (Ok (0, h1))"
      unfolding run malloc_none [OF h1(1) 2(1) n] using assms(2) by (auto simp: morecore_def Let_def max_def split: if_splits)
    then show ?thesis
      using h1 off1 2(2) by (intro exI [of _ 0] exI [of _ h1] exI [of _ ns]) simp
  next
    case 3
    obtain b h' ns' where "malloc_loop grow ?n (freep h1) (hptr h1 (freep h1)) h1 = Some (Ok (b + 16, h'))" "arena base h' ns'"
      "allocated nbytes h1 ns (b + 16) h' ns'" "\<forall>a. a \<notin> memory h1 ns \<longrightarrow> a < brk h1 \<longrightarrow> hsize h' a = hsize h1 a"
      using malloc_grown [where grow = grow, OF h1(1) refl refl assms(2) 3] .
    then show ?thesis
      using run off1 h1(2,3) same by (intro exI [of _ "b + 16"] exI [of _ h'] exI [of _ ns']) simp
  qed
qed

definition fresh_heap :: heap where
  "fresh_heap = \<lparr>hptr = (\<lambda>_. 0), hsize = (\<lambda>_. 0), freep = 0, brk = 8192\<rparr>"

theorem malloc_correct_witness:
  "\<exists>ap h' ns'. umalloc 4096 (\<lambda>_ _. True) 100 fresh_heap = Some (Ok (ap, h')) \<and> ap \<noteq> 0 \<and> arena 4096 h' ns' \<and>
     allocated 100 fresh_heap [] ap h' ns'"
proof -
  have "heap_ok 4096 fresh_heap []" "max 4096 (units 100) * 16 < 2 ^ 31"
    by (simp_all add: heap_ok_def fresh_heap_def units_def)
  from malloc_correct [OF this, of "\<lambda>_ _. True"] obtain ap h' ns' where
    "umalloc 4096 (\<lambda>_ _. True) 100 fresh_heap = Some (Ok (ap, h'))" "arena 4096 h' ns'"
    "ap \<noteq> 0 \<and> allocated 100 fresh_heap [] ap h' ns'"
    by (auto split: if_splits)
  then show ?thesis
    by auto
qed

text \<open>C21: \<^verbatim>\<open>free\<close> is correct: given a block of a sound heap that is not free, its loop ends, the memory of the block
  is added to the free memory, the heap stays sound, so that the free blocks are in order and no two of
  them touch, and no header of another block in use is changed.\<close>

theorem free_correct:
  assumes "arena base h ns" "base < bp" "0 < hsize h bp" "region bp (hsize h bp) \<inter> memory h ns = {}"
    "bp + 16 * hsize h bp \<le> brk h"
  shows "\<exists>h' ns'. ufree (bp + 16) h = Some h' \<and> arena base h' ns' \<and>
    memory h' ns' = memory h ns \<union> region bp (hsize h bp) \<and> brk h' = brk h \<and>
    (\<forall>a. a \<notin> insert bp (set ns) \<longrightarrow> hsize h' a = hsize h a)"
  using ufree_arena [OF assms] by metis

theorem free_correct_witness:
  "\<exists>h' ns'. ufree 80 (fresh_heap\<lparr>hptr := (\<lambda>_. 16), hsize := (\<lambda>_. 0)(64 := 2), freep := 16\<rparr>) = Some h' \<and> arena 16 h' ns' \<and>
     memory h' ns' = region 64 2"
  using free_correct [of 16 "fresh_heap\<lparr>hptr := (\<lambda>_. 16), hsize := (\<lambda>_. 0)(64 := 2), freep := 16\<rparr>" "[]" 64]
  by (auto simp: arena_def fresh_heap_def)

end
