(* ===== verification/Mkfs.thy ===== *)
theory Mkfs
  imports Fs
begin

text \<open>
  \<^verbatim>\<open>mkfs/mkfs.c\<close>, the host program that makes the disk image. The image is a sequence of sectors of 512 bytes; the
  size of a block in \<^verbatim>\<open>kernel/fs.h\<close> is 1024 bytes, which the program uses for the number of inodes in a block.
  A step of the program goes on, exits, fails an assertion, or writes or reads outside its arrays. The files
  of the host are a parameter; the host writes to the image without errors.
\<close>

section \<open>The program\<close>

datatype 'a host = Hok 'a | Hexit int | Habort string | Hfault string

fun hbind :: "'a host \<Rightarrow> ('a \<Rightarrow> 'b host) \<Rightarrow> 'b host" where
  "hbind (Hok a) f = f a"
| "hbind (Hexit s) f = Hexit s"
| "hbind (Habort m) f = Habort m"
| "hbind (Hfault m) f = Hfault m"

definition hassert :: "bool \<Rightarrow> string \<Rightarrow> unit host" where
  "hassert b m = (if b then Hok () else Habort m)"

lemma hbind_cong [fundef_cong]: "x = y \<Longrightarrow> (\<And>a. y = Hok a \<Longrightarrow> f a = g a) \<Longrightarrow> hbind x f = hbind y g"
  by (cases y) auto

record image =
  im_sect :: "nat \<Rightarrow> u8 list"
  im_count :: nat
  freeblock :: u32
  usedblocks :: u32
  freeinode :: u32

definition mk_nblocks :: u32 where "mk_nblocks = 995 - of_nat LOGSIZE"
definition mk_nlog :: u32 where "mk_nlog = of_nat LOGSIZE"
definition mk_ninodes :: u32 where "mk_ninodes = 200"
definition mk_size :: u32 where "mk_size = 1024"

text \<open>The bytes are stored in the order of Intel processors and read in the order of the host, which is the same.\<close>

definition xshort :: "u16 \<Rightarrow> u16" where
  "xshort x = le_word [ucast x, ucast (drop_bit 8 x)]"

definition xint :: "u32 \<Rightarrow> u32" where
  "xint x = le_word [ucast x, ucast (drop_bit 8 x), ucast (drop_bit 16 x), ucast (drop_bit 24 x)]"

definition wsect :: "u32 \<Rightarrow> u8 list \<Rightarrow> image \<Rightarrow> image" where
  "wsect sec buf im = im\<lparr>im_sect := (im_sect im)(unat sec := buf), im_count := max (im_count im) (unat sec + 1)\<rparr>"

text \<open>Reading behind the end of the file gets no bytes.\<close>

definition rsect :: "u32 \<Rightarrow> image \<Rightarrow> u8 list host" where
  "rsect sec im = (if unat sec < im_count im then Hok (im_sect im (unat sec)) else Hexit 1)"

definition i2b :: "u32 \<Rightarrow> u32" where
  "i2b inum = of_nat (unat inum div IPB) + 2"

definition winode :: "u32 \<Rightarrow> dinode \<Rightarrow> image \<Rightarrow> image host" where
  "winode inum ip im =
     hbind (rsect (i2b inum) im) (\<lambda>buf.
     if ioff inum + 64 > 512 then Hfault ''winode: dip''
     else Hok (wsect (i2b inum) (overwrite (ioff inum) (dinode_bytes ip) buf) im))"

definition rinode :: "u32 \<Rightarrow> image \<Rightarrow> dinode host" where
  "rinode inum im =
     hbind (rsect (i2b inum) im) (\<lambda>buf.
     if ioff inum + 64 > 512 then Hfault ''rinode: dip'' else Hok (dinode_at (ioff inum) buf))"

definition mk_ialloc :: "u16 \<Rightarrow> image \<Rightarrow> (u32 \<times> image) host" where
  "mk_ialloc type im =
     (let inum = freeinode im;
          im = im\<lparr>freeinode := inum + 1\<rparr>
      in hbind (winode inum \<lparr>d_type = xshort type, d_major = 0, d_minor = 0, d_nlink = xshort 1, d_size = xint 0,
           d_addrs = replicate (NDIRECT + 1) 0\<rparr> im) (\<lambda>im. Hok (inum, im)))"

definition used_bits :: "nat \<Rightarrow> u8 list" where
  "used_bits used = fold (\<lambda>i buf. buf[i div 8 := buf ! (i div 8) OR push_bit (i mod 8) 1]) [0..<used] (replicate 512 0)"

definition mk_balloc :: "u32 \<Rightarrow> image \<Rightarrow> image host" where
  "mk_balloc used im =
     hbind (hassert (unat used < 512 * 8) ''used < 512*8'') (\<lambda>_.
     Hok (wsect (of_nat (unat mk_ninodes div IPB) + 3) (used_bits (unat used)) im))"

definition mk_take :: "image \<Rightarrow> u32 \<times> image" where
  "mk_take im = (xint (freeblock im), im\<lparr>freeblock := freeblock im + 1, usedblocks := usedblocks im + 1\<rparr>)"

text \<open>The sector of the block \<open>fbn\<close> of a file. Of the array \<^verbatim>\<open>indirect\<close> only the first half is read from the disk.\<close>

definition file_sect :: "nat \<Rightarrow> dinode \<Rightarrow> image \<Rightarrow> (u32 \<times> dinode \<times> image) host" where
  "file_sect fbn din im =
     (if fbn < NDIRECT then
        let (a, im) = (if xint (d_addrs din ! fbn) = 0 then mk_take im else (d_addrs din ! fbn, im))
        in Hok (xint a, din\<lparr>d_addrs := (d_addrs din)[fbn := a]\<rparr>, im)
      else
        let (a, im) = (if xint (d_addrs din ! NDIRECT) = 0 then mk_take im else (d_addrs din ! NDIRECT, im));
            din = din\<lparr>d_addrs := (d_addrs din)[NDIRECT := a]\<rparr>
        in hbind (rsect (xint a) im) (\<lambda>indirect.
           if 4 * (fbn - NDIRECT) + 4 > 512 then Hfault ''iappend: indirect''
           else if word_at (4 * (fbn - NDIRECT)) indirect = 0 then
             let (b, im) = mk_take im;
                 im = wsect (xint a) (overwrite (4 * (fbn - NDIRECT)) (le_bytes 4 b) indirect) im
             in Hok (xint b, din, im)
           else Hok (xint (word_at (4 * (fbn - NDIRECT)) indirect), din, im)))"

function iappend_loop :: "u8 list \<Rightarrow> nat \<Rightarrow> dinode \<Rightarrow> image \<Rightarrow> (nat \<times> dinode \<times> image) host" where
  "iappend_loop p off din im =
     (if p = [] then Hok (off, din, im)
      else
        let fbn = off div 512 in
        hbind (hassert (fbn < MAXFILE) ''fbn < MAXFILE'') (\<lambda>_.
        hbind (file_sect fbn din im) (\<lambda>(x, din, im).
        let n1 = min (length p) ((fbn + 1) * 512 - off) in
        hbind (rsect x im) (\<lambda>buf.
        iappend_loop (drop n1 p) (off + n1) din (wsect x (overwrite (off - fbn * 512) (take n1 p) buf) im)))))"
  by pat_completeness auto
termination
proof (relation "measure (\<lambda>(p, off, din, im). length p)")
  fix p :: "u8 list" and off :: nat and din :: dinode and im fbn x n1 buf and u :: unit and y din' im' z
  assume "p \<noteq> []" "fbn = off div 512" "n1 = min (length p) ((fbn + 1) * 512 - off)"
  moreover have "off < (off div 512 + 1) * 512"
    using div_mult_mod_eq [of off 512] mod_less_divisor [of 512 off] by (simp add: algebra_simps)
  ultimately have "0 < n1" "n1 \<le> length p"
    by auto
  then show "((drop n1 p, off + n1, din', wsect y (overwrite (off - fbn * 512) (take n1 p) buf) im'), p, off, din, im) \<in>
      measure (\<lambda>(p, off, din, im). length p)"
    by simp
qed simp

declare iappend_loop.simps [simp del]

definition mk_iappend :: "u32 \<Rightarrow> u8 list \<Rightarrow> image \<Rightarrow> image host" where
  "mk_iappend inum xp im =
     hbind (rinode inum im) (\<lambda>din.
     hbind (iappend_loop xp (unat (xint (d_size din))) din im) (\<lambda>(off, din, im).
     winode inum (din\<lparr>d_size := xint (of_nat off)\<rparr>) im))"

definition mk_dirent :: "u32 \<Rightarrow> string \<Rightarrow> u8 list" where
  "mk_dirent inum name =
     le_bytes 2 (xshort (ucast inum)) @ take DIRSIZ (map (\<lambda>c. of_char c) name @ replicate DIRSIZ 0)"

text \<open>A file is read in portions of the size of \<^verbatim>\<open>buf\<close>.\<close>

fun add_data :: "u32 \<Rightarrow> u8 list \<Rightarrow> image \<Rightarrow> image host" where
  "add_data inum [] im = Hok im"
| "add_data inum (b # bs) im =
     hbind (mk_iappend inum (take 512 (b # bs)) im) (\<lambda>im. add_data inum (drop 511 bs) im)"

primrec add_files :: "(string \<Rightarrow> u8 list option) \<Rightarrow> u32 \<Rightarrow> string list \<Rightarrow> image \<Rightarrow> image host" where
  "add_files files rootino [] im = Hok im"
| "add_files files rootino (a # argv) im =
     hbind (hassert (CHR ''/'' \<notin> set a) ''index(argv[i], '/') == 0'') (\<lambda>_.
     case files a of
       None \<Rightarrow> Hexit 1
     | Some bytes \<Rightarrow>
         let name = (case a of c # cs \<Rightarrow> if c = CHR ''_'' then cs else a | [] \<Rightarrow> a) in
         hbind (mk_ialloc T_FILE im) (\<lambda>(inum, im).
         hbind (mk_iappend rootino (mk_dirent inum name) im) (\<lambda>im.
         hbind (add_data inum bytes im) (\<lambda>im.
         add_files files rootino argv im))))"

definition mk_super :: "u8 list" where
  "mk_super =
     le_bytes 4 (0 :: u32) @ le_bytes 4 (xint mk_size) @ le_bytes 4 (xint mk_nblocks) @ le_bytes 4 (xint mk_ninodes) @
     le_bytes 4 (xint mk_nlog) @ replicate 12 0"

definition mkfs_main :: "bool \<Rightarrow> (string \<Rightarrow> u8 list option) \<Rightarrow> string list \<Rightarrow> image host" where
  "mkfs_main opens files argv =
     (if length argv < 2 then Hexit 1
      else
        hbind (hassert (512 mod 64 = (0::nat)) ''(512 % sizeof(struct dinode)) == 0'') (\<lambda>_.
        hbind (hassert (512 mod 16 = (0::nat)) ''(512 % sizeof(struct dirent)) == 0'') (\<lambda>_.
        if \<not> opens then Hexit 1
        else
          let bitblocks = mk_size div (512 * 8) + 1;
              used = mk_ninodes div of_nat IPB + 3 + bitblocks;
              im = \<lparr>im_sect = (\<lambda>_. []), im_count = 0, freeblock = used, usedblocks = used, freeinode = 1\<rparr>
          in
          hbind (hassert (mk_nblocks + used + mk_nlog = mk_size) ''nblocks + usedblocks + nlog == size'') (\<lambda>_.
          let im = fold (\<lambda>i. wsect (of_nat i) (replicate 512 0)) [0..<unat (mk_nblocks + used + mk_nlog)] im;
              im = wsect 1 (overwrite 0 mk_super (replicate 512 0)) im
          in
          hbind (mk_ialloc T_DIR im) (\<lambda>(rootino, im).
          hbind (hassert (rootino = ROOTINO) ''rootino == ROOTINO'') (\<lambda>_.
          hbind (mk_iappend rootino (mk_dirent rootino ''.'') im) (\<lambda>im.
          hbind (mk_iappend rootino (mk_dirent rootino ''..'') im) (\<lambda>im.
          hbind (add_files files rootino (drop 2 argv) im) (\<lambda>im.
          hbind (rinode rootino im) (\<lambda>din.
          hbind (winode rootino (din\<lparr>d_size := xint (of_nat ((unat (xint (d_size din)) div BSIZE + 1) * BSIZE))\<rparr>) im) (\<lambda>im.
          mk_balloc (usedblocks im) im)))))))))))"

section \<open>It makes no image\<close>

text \<open>C40: the program never makes an image: whenever its arguments are accepted and the image file can be opened, and
  by then has been emptied, the assertion that the parts of the disk add up to its size fails. With the
  constants of \<^verbatim>\<open>kernel/fs.h\<close> and \<^verbatim>\<open>kernel/param.h\<close> they add up to 1011 blocks of the 1024.\<close>

theorem mkfs_fails:
  assumes "2 \<le> length argv"
  shows "mkfs_main True files argv = Habort ''nblocks + usedblocks + nlog == size''"
proof -
  have "mk_nblocks + (mk_ninodes div of_nat IPB + 3 + (mk_size div (512 * 8) + 1)) + mk_nlog \<noteq> mk_size"
    by (simp add: mk_nblocks_def mk_ninodes_def mk_size_def mk_nlog_def IPB_def BSIZE_def LOGSIZE_def MAXOPBLOCKS_def)
  then show ?thesis
    using assms by (simp add: mkfs_main_def hassert_def Let_def)
qed

theorem mkfs_fails_witness:
  "mkfs_main True (\<lambda>_. None) [''mkfs'', ''fs.img''] = Habort ''nblocks + usedblocks + nlog == size''"
  using mkfs_fails [of "[''mkfs'', ''fs.img'']" "\<lambda>_. None"] by simp

section \<open>Its parts\<close>

text \<open>An inode beyond the first eight of its block is written outside the sector buffer, which is half a block.\<close>

lemma winode_overrun:
  assumes "unat (i2b inum) < im_count im"
  shows "winode inum ip im = Hfault ''winode: dip'' \<longleftrightarrow> 8 \<le> unat inum mod 16"
  using assms by (auto simp: winode_def rsect_def ioff_def IPB_def BSIZE_def)

end
