(* ===== verification/Pingpong.thy ===== *)
theory Pingpong
  imports Main
begin

text \<open>
  \<^verbatim>\<open>user/pingpong.c\<close>: a parent and its child pass one byte back and forth through two pipes and print when they get
  it. The two processes run concurrently, so the program is a step relation: a state has the place of each
  process in its branch of the \<^verbatim>\<open>switch\<close>, the bytes in the pipes and what has been printed. \<^verbatim>\<open>pipe\<close> and \<^verbatim>\<open>fork\<close> have
  succeeded; a read waits for a byte, since the other process keeps its write end open until it exits.
\<close>

section \<open>The program\<close>

datatype parent = Pwrite | Pread | Pprint | Pexit

datatype child = Cread | Cprint | Cwrite | Cexit

datatype pline = Ping | Pong

record pstate =
  ppc :: parent
  cpc :: child
  pipe1 :: nat
  pipe2 :: nat
  printed :: "pline list"

definition pingpong_start :: pstate where
  "pingpong_start = \<lparr>ppc = Pwrite, cpc = Cread, pipe1 = 0, pipe2 = 0, printed = []\<rparr>"

inductive pstep :: "pstate \<Rightarrow> pstate \<Rightarrow> bool" where
  parent_write: "ppc s = Pwrite \<Longrightarrow> pstep s (s\<lparr>ppc := Pread, pipe1 := pipe1 s + 1\<rparr>)"
| parent_read: "ppc s = Pread \<Longrightarrow> pipe2 s = Suc n \<Longrightarrow> pstep s (s\<lparr>ppc := Pprint, pipe2 := n\<rparr>)"
| parent_print: "ppc s = Pprint \<Longrightarrow> pstep s (s\<lparr>ppc := Pexit, printed := printed s @ [Pong]\<rparr>)"
| child_read: "cpc s = Cread \<Longrightarrow> pipe1 s = Suc n \<Longrightarrow> pstep s (s\<lparr>cpc := Cprint, pipe1 := n\<rparr>)"
| child_print: "cpc s = Cprint \<Longrightarrow> pstep s (s\<lparr>cpc := Cwrite, printed := printed s @ [Ping]\<rparr>)"
| child_write: "cpc s = Cwrite \<Longrightarrow> pstep s (s\<lparr>cpc := Cexit, pipe2 := pipe2 s + 1\<rparr>)"

inductive_cases pstep_E: "pstep s t"

section \<open>Every run\<close>

text \<open>The states of a run.\<close>

definition pingpong_inv :: "pstate \<Rightarrow> bool" where
  "pingpong_inv s \<longleftrightarrow>
     (case ppc s of
        Pwrite \<Rightarrow> cpc s = Cread \<and> pipe1 s = 0 \<and> pipe2 s = 0 \<and> printed s = []
      | Pread \<Rightarrow>
          (case cpc s of
             Cread \<Rightarrow> pipe1 s = 1 \<and> pipe2 s = 0 \<and> printed s = []
           | Cprint \<Rightarrow> pipe1 s = 0 \<and> pipe2 s = 0 \<and> printed s = []
           | Cwrite \<Rightarrow> pipe1 s = 0 \<and> pipe2 s = 0 \<and> printed s = [Ping]
           | Cexit \<Rightarrow> pipe1 s = 0 \<and> pipe2 s = 1 \<and> printed s = [Ping])
      | Pprint \<Rightarrow> cpc s = Cexit \<and> pipe1 s = 0 \<and> pipe2 s = 0 \<and> printed s = [Ping]
      | Pexit \<Rightarrow> cpc s = Cexit \<and> pipe1 s = 0 \<and> pipe2 s = 0 \<and> printed s = [Ping, Pong])"

lemma pingpong_inv_step: "pstep s t \<Longrightarrow> pingpong_inv s \<Longrightarrow> pingpong_inv t"
  by (erule pstep_E) (auto simp: pingpong_inv_def split: parent.splits child.splits)

lemma pingpong_inv_reach: "pstep\<^sup>*\<^sup>* pingpong_start s \<Longrightarrow> pingpong_inv s"
proof (induction rule: rtranclp_induct)
  case base
  then show ?case
    by (simp add: pingpong_inv_def pingpong_start_def)
next
  case (step s t)
  then show ?case
    by (blast intro: pingpong_inv_step)
qed

lemma pingpong_progress: "pingpong_inv s \<Longrightarrow> ppc s \<noteq> Pexit \<Longrightarrow> \<exists>t. pstep s t"
  by (auto simp: pingpong_inv_def split: parent.splits child.splits intro: pstep.intros)

text \<open>In every interleaving of the two processes the child's line is printed before the parent's, each at most once, no
  process waits forever, and when nothing more can happen both have exited and both lines are printed.\<close>

theorem pingpong_order:
  assumes "pstep\<^sup>*\<^sup>* pingpong_start s"
  shows "printed s \<in> {[], [Ping], [Ping, Pong]} \<and>
    ((\<exists>t. pstep s t) \<or> ppc s = Pexit \<and> cpc s = Cexit \<and> printed s = [Ping, Pong])"
proof -
  have inv: "pingpong_inv s"
    using assms by (rule pingpong_inv_reach)
  then have "printed s \<in> {[], [Ping], [Ping, Pong]}" "ppc s = Pexit \<Longrightarrow> cpc s = Cexit \<and> printed s = [Ping, Pong]"
    by (auto simp: pingpong_inv_def split: parent.splits child.splits)
  then show ?thesis
    using pingpong_progress [OF inv] by blast
qed

end
