(* ===== verification/Ls.thy ===== *)
theory Ls
  imports Ulib
begin

text \<open>
  \<^verbatim>\<open>user/ls.c\<close>: the names padded to the width of a directory entry, and the listing of a file or a directory. The
  file system is what \<^verbatim>\<open>fstat\<close> and \<^verbatim>\<open>stat\<close> tell of a path, with the entries of a directory; \<open>free\<close> is the number of
  descriptors that are left. \<^verbatim>\<open>fstat\<close> of a descriptor that was opened succeeds.
\<close>

section \<open>The program\<close>

record status =
  ls_type :: nat
  ls_ino :: u32
  ls_size :: u64
  ls_entries :: "(nat \<times> string) list"

definition LS_DIRSIZ :: nat where "LS_DIRSIZ = 14"

text \<open>The part of a path after its last slash.\<close>

definition after_slash :: "string \<Rightarrow> string" where
  "after_slash path = rev (takeWhile (\<lambda>c. c \<noteq> CHR ''/'') (rev path))"

definition fmtname :: "string \<Rightarrow> string" where
  "fmtname path =
     (let p = after_slash path in
      if length p \<ge> LS_DIRSIZ then p else p @ replicate (LS_DIRSIZ - length p) CHR '' '')"

definition ls_entry :: "(string \<Rightarrow> status option) \<Rightarrow> nat \<Rightarrow> string \<Rightarrow> nat \<times> string \<Rightarrow> uworld \<Rightarrow> uworld" where
  "ls_entry fs free path e w =
     (case e of (inum, name) \<Rightarrow>
      if inum = 0 then w
      else
        let buf = path @ ''/'' @ name in
        case (if free = 0 then None else fs buf) of
          None \<Rightarrow> fprintf 1 ''ls: cannot stat %s\<newline>'' [Ps buf] w
        | Some st \<Rightarrow>
            fprintf 1 ''%s %d %d %d\<newline>'' [Ps (fmtname buf), Pint (of_nat (ls_type st)), Pint (ls_ino st), Pint (ucast (ls_size st))] w)"

definition ls_path :: "(string \<Rightarrow> status option) \<Rightarrow> nat \<Rightarrow> string \<Rightarrow> uworld \<Rightarrow> uworld" where
  "ls_path fs free path w =
     (case (if free = 0 then None else fs path) of
        None \<Rightarrow> fprintf 2 ''ls: cannot open %s\<newline>'' [Ps path] w
      | Some st \<Rightarrow>
          if ls_type st = 2 then
            fprintf 1 ''%s %d %d %l\<newline>'' [Ps (fmtname path), Pint (of_nat (ls_type st)), Pint (ls_ino st), Plong (ls_size st)] w
          else if ls_type st = 1 then
            if length path + 1 + LS_DIRSIZ + 1 > 512 then fprintf 1 ''ls: path too long\<newline>'' [] w
            else fold (ls_entry fs (free - 1) path) (ls_entries st) w
          else w)"

definition ls_main :: "(string \<Rightarrow> status option) \<Rightarrow> nat \<Rightarrow> string list \<Rightarrow> uworld \<Rightarrow> unit run" where
  "ls_main fs free argv w =
     Exit 0 (if length argv < 2 then ls_path fs free ''.'' w else fold (ls_path fs free) (tl argv) w)"

section \<open>Names\<close>

text \<open>A name is at least as wide as an entry, and the entry of a directory is listed under its own name, without the
  path, as long as the name has no slash.\<close>

lemma fmtname_entry:
  assumes "CHR ''/'' \<notin> set name" "length name \<le> LS_DIRSIZ"
  shows "fmtname (path @ ''/'' @ name) = name @ replicate (LS_DIRSIZ - length name) CHR '' ''"
proof -
  have "takeWhile (\<lambda>c. c \<noteq> CHR ''/'') (rev name @ CHR ''/'' # rev path) = rev name"
    using assms(1) by (subst takeWhile_append2) auto
  then show ?thesis
    using assms(2) by (auto simp: fmtname_def after_slash_def)
qed

lemma fmtname_width: "LS_DIRSIZ \<le> length (fmtname path)"
  by (simp add: fmtname_def Let_def)

end
