(* ===== verification/Asm.thy ===== *)
theory Asm
  imports Xv6_Prelude
begin

text \<open>
  The assembly code of the kernel: \<^verbatim>\<open>trampoline.S\<close>, \<^verbatim>\<open>swtch.S\<close>, \<^verbatim>\<open>kernelvec.S\<close> and \<^verbatim>\<open>entry.S\<close>, instruction by instruction, on a
  machine with the registers of RISC-V, the control registers that the code uses and a memory of doublewords:
  every access of the code is to an aligned doubleword. An address is translated according to \<^verbatim>\<open>satp\<close>; the
  translation is a parameter. Code runs from its label to the instruction that leaves it.
\<close>

section \<open>The machine\<close>

datatype reg =
    RA | SP | GP | TP | T0 | T1 | T2 | T3 | T4 | T5 | T6
  | S0 | S1 | S2 | S3 | S4 | S5 | S6 | S7 | S8 | S9 | S10 | S11
  | A0 | A1 | A2 | A3 | A4 | A5 | A6 | A7

datatype creg = Satp | Sscratch | Sip | Sepc | Mscratch | Mepc | Mhartid

record mach =
  regs :: "reg \<Rightarrow> u64"
  cregs :: "creg \<Rightarrow> u64"
  dmem :: "u64 \<Rightarrow> u64"
  pc :: u64

datatype instr =
    Sd reg u64 reg
  | Ld reg u64 reg
  | Li reg u64
  | Addi reg reg u64
  | Add reg reg reg
  | Mul reg reg reg
  | Csrrw reg creg reg
  | Csrr reg creg
  | Csrw creg reg
  | Sfence
  | Jr reg
  | Sret
  | Mret

type_synonym translation = "u64 \<Rightarrow> u64 \<Rightarrow> u64"

definition set_reg :: "reg \<Rightarrow> u64 \<Rightarrow> mach \<Rightarrow> mach" where
  "set_reg r v m = m\<lparr>regs := (regs m)(r := v)\<rparr>"

definition set_creg :: "creg \<Rightarrow> u64 \<Rightarrow> mach \<Rightarrow> mach" where
  "set_creg c v m = m\<lparr>cregs := (cregs m)(c := v)\<rparr>"

definition phys :: "translation \<Rightarrow> mach \<Rightarrow> u64 \<Rightarrow> u64" where
  "phys tr m va = tr (cregs m Satp) va"

fun instr_step :: "translation \<Rightarrow> instr \<Rightarrow> mach \<Rightarrow> mach" where
  "instr_step tr (Sd r off b) m = m\<lparr>dmem := (dmem m)(phys tr m (regs m b + off) := regs m r)\<rparr>"
| "instr_step tr (Ld r off b) m = set_reg r (dmem m (phys tr m (regs m b + off))) m"
| "instr_step tr (Li r v) m = set_reg r v m"
| "instr_step tr (Addi r b v) m = set_reg r (regs m b + v) m"
| "instr_step tr (Add r b c) m = set_reg r (regs m b + regs m c) m"
| "instr_step tr (Mul r b c) m = set_reg r (regs m b * regs m c) m"
| "instr_step tr (Csrrw r c b) m = set_creg c (regs m b) (set_reg r (cregs m c) m)"
| "instr_step tr (Csrr r c) m = set_reg r (cregs m c) m"
| "instr_step tr (Csrw c b) m = set_creg c (regs m b) m"
| "instr_step tr Sfence m = m"
| "instr_step tr (Jr r) m = m\<lparr>pc := regs m r\<rparr>"
| "instr_step tr Sret m = m\<lparr>pc := cregs m Sepc\<rparr>"
| "instr_step tr Mret m = m\<lparr>pc := cregs m Mepc\<rparr>"

definition run_code :: "translation \<Rightarrow> instr list \<Rightarrow> mach \<Rightarrow> mach" where
  "run_code tr is m = fold (instr_step tr) is m"

section \<open>The code\<close>

definition uservec :: "instr list" where
  "uservec =
    [Csrrw A0 Sscratch A0,
     Sd RA 40 A0, Sd SP 48 A0, Sd GP 56 A0, Sd TP 64 A0, Sd T0 72 A0, Sd T1 80 A0, Sd T2 88 A0, Sd S0 96 A0,
     Sd S1 104 A0, Sd A1 120 A0, Sd A2 128 A0, Sd A3 136 A0, Sd A4 144 A0, Sd A5 152 A0, Sd A6 160 A0, Sd A7 168 A0,
     Sd S2 176 A0, Sd S3 184 A0, Sd S4 192 A0, Sd S5 200 A0, Sd S6 208 A0, Sd S7 216 A0, Sd S8 224 A0, Sd S9 232 A0,
     Sd S10 240 A0, Sd S11 248 A0, Sd T3 256 A0, Sd T4 264 A0, Sd T5 272 A0, Sd T6 280 A0,
     Csrr T0 Sscratch, Sd T0 112 A0,
     Ld SP 8 A0, Ld TP 32 A0, Ld T0 16 A0, Ld T1 0 A0,
     Csrw Satp T1, Sfence, Jr T0]"

definition userret :: "instr list" where
  "userret =
    [Csrw Satp A1, Sfence, Ld T0 112 A0, Csrw Sscratch T0,
     Ld RA 40 A0, Ld SP 48 A0, Ld GP 56 A0, Ld TP 64 A0, Ld T0 72 A0, Ld T1 80 A0, Ld T2 88 A0, Ld S0 96 A0,
     Ld S1 104 A0, Ld A1 120 A0, Ld A2 128 A0, Ld A3 136 A0, Ld A4 144 A0, Ld A5 152 A0, Ld A6 160 A0, Ld A7 168 A0,
     Ld S2 176 A0, Ld S3 184 A0, Ld S4 192 A0, Ld S5 200 A0, Ld S6 208 A0, Ld S7 216 A0, Ld S8 224 A0, Ld S9 232 A0,
     Ld S10 240 A0, Ld S11 248 A0, Ld T3 256 A0, Ld T4 264 A0, Ld T5 272 A0, Ld T6 280 A0,
     Csrrw A0 Sscratch A0, Sret]"

definition swtch :: "instr list" where
  "swtch =
    [Sd RA 0 A0, Sd SP 8 A0, Sd S0 16 A0, Sd S1 24 A0, Sd S2 32 A0, Sd S3 40 A0, Sd S4 48 A0,
     Sd S5 56 A0, Sd S6 64 A0, Sd S7 72 A0, Sd S8 80 A0, Sd S9 88 A0, Sd S10 96 A0, Sd S11 104 A0,
     Ld RA 0 A1, Ld SP 8 A1, Ld S0 16 A1, Ld S1 24 A1, Ld S2 32 A1, Ld S3 40 A1, Ld S4 48 A1,
     Ld S5 56 A1, Ld S6 64 A1, Ld S7 72 A1, Ld S8 80 A1, Ld S9 88 A1, Ld S10 96 A1, Ld S11 104 A1,
     Jr RA]"

text \<open>\<^verbatim>\<open>kernelvec\<close> before and after the call of \<^verbatim>\<open>kerneltrap\<close>.\<close>

definition kernelvec_save :: "instr list" where
  "kernelvec_save =
    [Addi SP SP (- 256),
     Sd RA 0 SP, Sd SP 8 SP, Sd GP 16 SP, Sd TP 24 SP, Sd T0 32 SP, Sd T1 40 SP, Sd T2 48 SP, Sd S0 56 SP,
     Sd S1 64 SP, Sd A0 72 SP, Sd A1 80 SP, Sd A2 88 SP, Sd A3 96 SP, Sd A4 104 SP, Sd A5 112 SP, Sd A6 120 SP,
     Sd A7 128 SP, Sd S2 136 SP, Sd S3 144 SP, Sd S4 152 SP, Sd S5 160 SP, Sd S6 168 SP, Sd S7 176 SP, Sd S8 184 SP,
     Sd S9 192 SP, Sd S10 200 SP, Sd S11 208 SP, Sd T3 216 SP, Sd T4 224 SP, Sd T5 232 SP, Sd T6 240 SP]"

definition kernelvec_restore :: "instr list" where
  "kernelvec_restore =
    [Ld RA 0 SP, Ld SP 8 SP, Ld GP 16 SP, Ld T0 32 SP, Ld T1 40 SP, Ld T2 48 SP, Ld S0 56 SP,
     Ld S1 64 SP, Ld A0 72 SP, Ld A1 80 SP, Ld A2 88 SP, Ld A3 96 SP, Ld A4 104 SP, Ld A5 112 SP, Ld A6 120 SP,
     Ld A7 128 SP, Ld S2 136 SP, Ld S3 144 SP, Ld S4 152 SP, Ld S5 160 SP, Ld S6 168 SP, Ld S7 176 SP, Ld S8 184 SP,
     Ld S9 192 SP, Ld S10 200 SP, Ld S11 208 SP, Ld T3 216 SP, Ld T4 224 SP, Ld T5 232 SP, Ld T6 240 SP,
     Addi SP SP 256, Sret]"

definition timervec :: "instr list" where
  "timervec =
    [Csrrw A0 Mscratch A0, Sd A1 0 A0, Sd A2 8 A0, Sd A3 16 A0,
     Ld A1 32 A0, Ld A2 40 A0, Ld A3 0 A1, Add A3 A3 A2, Sd A3 0 A1,
     Li A1 2, Csrw Sip A1,
     Ld A3 16 A0, Ld A2 8 A0, Ld A1 0 A0, Csrrw A0 Mscratch A0, Mret]"

text \<open>\<^verbatim>\<open>entry.S\<close> up to its call of \<^verbatim>\<open>start\<close>; the address of \<^verbatim>\<open>stack0\<close> is a parameter.\<close>

definition entry :: "u64 \<Rightarrow> instr list" where
  "entry stack0 = [Li SP stack0, Li A0 (1024 * 4), Csrr A1 Mhartid, Addi A1 A1 1, Mul A0 A0 A1, Add SP SP A0]"

section \<open>The trap frame\<close>

text \<open>Where \<^verbatim>\<open>struct trapframe\<close> has the register.\<close>

fun tf_slot :: "reg \<Rightarrow> u64" where
  "tf_slot RA = 40" | "tf_slot SP = 48" | "tf_slot GP = 56" | "tf_slot TP = 64"
| "tf_slot T0 = 72" | "tf_slot T1 = 80" | "tf_slot T2 = 88" | "tf_slot S0 = 96" | "tf_slot S1 = 104"
| "tf_slot A0 = 112" | "tf_slot A1 = 120" | "tf_slot A2 = 128" | "tf_slot A3 = 136" | "tf_slot A4 = 144"
| "tf_slot A5 = 152" | "tf_slot A6 = 160" | "tf_slot A7 = 168" | "tf_slot S2 = 176" | "tf_slot S3 = 184"
| "tf_slot S4 = 192" | "tf_slot S5 = 200" | "tf_slot S6 = 208" | "tf_slot S7 = 216" | "tf_slot S8 = 224"
| "tf_slot S9 = 232" | "tf_slot S10 = 240" | "tf_slot S11 = 248" | "tf_slot T3 = 256" | "tf_slot T4 = 264"
| "tf_slot T5 = 272" | "tf_slot T6 = 280"

section \<open>Blocks of stores and loads\<close>

definition stores :: "reg \<Rightarrow> (reg \<times> u64) list \<Rightarrow> instr list" where
  "stores b tbl = map (\<lambda>(r, off). Sd r off b) tbl"

definition loads :: "reg \<Rightarrow> (reg \<times> u64) list \<Rightarrow> instr list" where
  "loads b tbl = map (\<lambda>(r, off). Ld r off b) tbl"

definition put_all :: "u64 \<Rightarrow> (reg \<Rightarrow> u64) \<Rightarrow> (reg \<times> u64) list \<Rightarrow> (u64 \<Rightarrow> u64) \<Rightarrow> (u64 \<Rightarrow> u64)" where
  "put_all pa g tbl d = fold (\<lambda>(r, off) d. d(pa + off := g r)) tbl d"

definition get_all :: "u64 \<Rightarrow> (u64 \<Rightarrow> u64) \<Rightarrow> (reg \<times> u64) list \<Rightarrow> (reg \<Rightarrow> u64) \<Rightarrow> (reg \<Rightarrow> u64)" where
  "get_all pa d tbl g = fold (\<lambda>(r, off) g. g(r := d (pa + off))) tbl g"

lemma run_append: "run_code tr (is @ js) m = run_code tr js (run_code tr is m)"
  by (simp add: run_code_def)

lemma run_Cons: "run_code tr (i # is) m = run_code tr is (instr_step tr i m)"
  by (simp add: run_code_def)

lemma run_Nil: "run_code tr [] m = m"
  by (simp add: run_code_def)

lemma put_all_out: "(\<And>r off. (r, off) \<in> set tbl \<Longrightarrow> a \<noteq> pa + off) \<Longrightarrow> put_all pa g tbl d a = d a"
  unfolding put_all_def by (induction tbl arbitrary: d) force+

lemma put_all_in: "distinct (map snd tbl) \<Longrightarrow> (r, off) \<in> set tbl \<Longrightarrow> put_all pa g tbl d (pa + off) = g r"
proof (induction tbl arbitrary: d)
  case (Cons x tbl)
  obtain q o' where x: "x = (q, o')"
    by (cases x)
  show ?case
  proof (cases "(r, off) = x")
    case True
    have "put_all pa g tbl (d(pa + off := g r)) (pa + off) = g r"
      using Cons.prems(1) x True by (subst put_all_out) force+
    then show ?thesis
      using x True by (simp add: put_all_def)
  next
    case False
    then show ?thesis
      using Cons x by (auto simp: put_all_def)
  qed
qed simp

lemma get_all_out: "r \<notin> fst ` set tbl \<Longrightarrow> get_all pa d tbl g r = g r"
  unfolding get_all_def by (induction tbl arbitrary: g) force+

lemma get_all_in: "distinct (map fst tbl) \<Longrightarrow> (r, off) \<in> set tbl \<Longrightarrow> get_all pa d tbl g r = d (pa + off)"
proof (induction tbl arbitrary: g)
  case (Cons x tbl)
  obtain q o' where x: "x = (q, o')"
    by (cases x)
  show ?case
  proof (cases "(r, off) = x")
    case True
    have "get_all pa d tbl (g(r := d (pa + off))) r = d (pa + off)"
      using Cons.prems(1) x True by (subst get_all_out) auto
    then show ?thesis
      using x True by (simp add: get_all_def)
  next
    case False
    then show ?thesis
      using Cons x by (auto simp: get_all_def)
  qed
qed simp

lemma run_stores:
  "(\<And>r off. (r, off) \<in> set tbl \<Longrightarrow> phys tr m (regs m b + off) = pa + off) \<Longrightarrow>
   run_code tr (stores b tbl) m = m\<lparr>dmem := put_all pa (regs m) tbl (dmem m)\<rparr>"
proof (induction tbl arbitrary: m)
  case (Cons x tbl)
  obtain r off where x: "x = (r, off)"
    by (cases x)
  let ?m = "m\<lparr>dmem := (dmem m)(pa + off := regs m r)\<rparr>"
  have "run_code tr (stores b tbl) ?m = ?m\<lparr>dmem := put_all pa (regs ?m) tbl (dmem ?m)\<rparr>"
    by (rule Cons.IH) (use Cons.prems in \<open>auto simp: phys_def\<close>)
  then show ?case
    using Cons.prems [of r off] x by (simp add: stores_def run_Cons put_all_def)
qed (simp add: stores_def run_Nil put_all_def)

lemma run_loads:
  "(\<And>r off. (r, off) \<in> set tbl \<Longrightarrow> phys tr m (regs m b + off) = pa + off) \<Longrightarrow> b \<notin> fst ` set tbl \<Longrightarrow>
   run_code tr (loads b tbl) m = m\<lparr>regs := get_all pa (dmem m) tbl (regs m)\<rparr>"
proof (induction tbl arbitrary: m)
  case (Cons x tbl)
  obtain r off where x: "x = (r, off)"
    by (cases x)
  let ?m = "m\<lparr>regs := (regs m)(r := dmem m (pa + off))\<rparr>"
  have "run_code tr (loads b tbl) ?m = ?m\<lparr>regs := get_all pa (dmem ?m) tbl (regs ?m)\<rparr>"
    using Cons.prems x by (intro Cons.IH) (auto simp: phys_def)
  then show ?case
    using Cons.prems(1) [of r off] x by (simp add: loads_def run_Cons get_all_def set_reg_def)
qed (simp add: loads_def run_Nil get_all_def)

section \<open>Traps from user space\<close>

text \<open>A page table maps the page at \<open>va\<close> to the page at \<open>pa\<close>.\<close>

definition maps_page :: "translation \<Rightarrow> u64 \<Rightarrow> u64 \<Rightarrow> u64 \<Rightarrow> bool" where
  "maps_page tr pt va pa \<longleftrightarrow> (\<forall>off < 4096. tr pt (va + off) = pa + off)"

text \<open>The registers that both routines treat alike: all but \<^verbatim>\<open>a0\<close>.\<close>

definition tf_table :: "(reg \<times> u64) list" where
  "tf_table =
    [(RA, 40), (SP, 48), (GP, 56), (TP, 64), (T0, 72), (T1, 80), (T2, 88), (S0, 96), (S1, 104), (A1, 120), (A2, 128),
     (A3, 136), (A4, 144), (A5, 152), (A6, 160), (A7, 168), (S2, 176), (S3, 184), (S4, 192), (S5, 200), (S6, 208),
     (S7, 216), (S8, 224), (S9, 232), (S10, 240), (S11, 248), (T3, 256), (T4, 264), (T5, 272), (T6, 280)]"

lemma uservec_blocks:
  "uservec = Csrrw A0 Sscratch A0 # stores A0 tf_table @
     [Csrr T0 Sscratch, Sd T0 112 A0, Ld SP 8 A0, Ld TP 32 A0, Ld T0 16 A0, Ld T1 0 A0, Csrw Satp T1, Sfence, Jr T0]"
  by (simp add: uservec_def stores_def tf_table_def)

lemma userret_blocks:
  "userret = [Csrw Satp A1, Sfence, Ld T0 112 A0, Csrw Sscratch T0] @ loads A0 tf_table @ [Csrrw A0 Sscratch A0, Sret]"
  by (simp add: userret_def loads_def tf_table_def)

lemma tf_table_distinct: "distinct (map snd tf_table)" "distinct (map fst tf_table)" "A0 \<notin> fst ` set tf_table"
  by (simp_all add: tf_table_def)

lemma tf_table_slot: "r \<noteq> A0 \<Longrightarrow> (r, tf_slot r) \<in> set tf_table"
  by (cases r) (simp_all add: tf_table_def)

lemma tf_table_bounds: "(r, off) \<in> set tf_table \<Longrightarrow> 40 \<le> off \<and> off < 4096 \<and> off \<noteq> 112"
  by (auto simp: tf_table_def)

lemma maps_page_at: "maps_page tr pt va pa \<Longrightarrow> off < 4096 \<Longrightarrow> tr pt (va + off) = pa + off"
  by (simp add: maps_page_def)

lemma maps_page_0: "maps_page tr pt va pa \<Longrightarrow> tr pt va = pa"
  using maps_page_at [of tr pt va pa 0] by simp

text \<open>What \<^verbatim>\<open>uservec\<close> leaves.\<close>

lemma uservec_state:
  assumes "cregs m Sscratch = frame" "maps_page tr (cregs m Satp) frame tf"
  shows "r \<noteq> A0 \<Longrightarrow> dmem (run_code tr uservec m) (tf + tf_slot r) = regs m r"
    "dmem (run_code tr uservec m) (tf + tf_slot A0) = regs m A0"
    "regs (run_code tr uservec m) SP = dmem m (tf + 8)" "regs (run_code tr uservec m) TP = dmem m (tf + 32)"
    "cregs (run_code tr uservec m) Satp = dmem m tf" "pc (run_code tr uservec m) = dmem m (tf + 16)"
proof -
  let ?m = "m\<lparr>regs := (regs m)(A0 := frame), cregs := (cregs m)(Sscratch := regs m A0)\<rparr>"
  define d where "d = put_all tf ((regs m)(A0 := frame)) tf_table (dmem m)"
  have "run_code tr (stores A0 tf_table) ?m = ?m\<lparr>dmem := put_all tf (regs ?m) tf_table (dmem ?m)\<rparr>"
    by (rule run_stores) (auto simp: phys_def maps_page_at [OF assms(2)] dest: tf_table_bounds)
  then have st: "run_code tr (stores A0 tf_table) ?m = ?m\<lparr>dmem := d\<rparr>"
    by (simp add: d_def)
  have kept: "d (tf + off) = dmem m (tf + off)" if "off < 40" for off
    unfolding d_def using that tf_table_bounds by (intro put_all_out) force
  have saved: "d (tf + tf_slot r) = regs m r" if "r \<noteq> A0" for r
    unfolding d_def using put_all_in [OF tf_table_distinct(1) tf_table_slot [OF that], of tf "(regs m)(A0 := frame)"] that by simp
  have "tf_slot r \<noteq> 112" if "r \<noteq> A0" for r
    using tf_table_bounds [OF tf_table_slot [OF that]] by simp
  note facts = st maps_page_at [OF assms(2)] maps_page_0 [OF assms(2)] kept kept [of 0, simplified] saved this
  show "r \<noteq> A0 \<Longrightarrow> dmem (run_code tr uservec m) (tf + tf_slot r) = regs m r"
    "dmem (run_code tr uservec m) (tf + tf_slot A0) = regs m A0"
    "regs (run_code tr uservec m) SP = dmem m (tf + 8)" "regs (run_code tr uservec m) TP = dmem m (tf + 32)"
    "cregs (run_code tr uservec m) Satp = dmem m tf" "pc (run_code tr uservec m) = dmem m (tf + 16)"
    using assms(1) facts unfolding uservec_blocks run_Cons run_append
    by (simp_all add: run_Cons run_Nil set_reg_def set_creg_def phys_def)
qed

text \<open>What \<^verbatim>\<open>userret\<close> leaves.\<close>

lemma userret_state:
  assumes "regs m A0 = frame" "regs m A1 = pt" "maps_page tr pt frame tf"
  shows "regs (run_code tr userret m) r = dmem m (tf + tf_slot r)" "cregs (run_code tr userret m) Sscratch = frame"
    "cregs (run_code tr userret m) Satp = pt" "pc (run_code tr userret m) = cregs m Sepc"
proof -
  let ?m = "m\<lparr>cregs := (cregs m)(Satp := pt, Sscratch := dmem m (tf + 112)), regs := (regs m)(T0 := dmem m (tf + 112))\<rparr>"
  define g where "g = get_all tf (dmem m) tf_table ((regs m)(T0 := dmem m (tf + 112)))"
  have "run_code tr (loads A0 tf_table) ?m = ?m\<lparr>regs := get_all tf (dmem ?m) tf_table (regs ?m)\<rparr>"
    using tf_table_distinct(3)
    by (intro run_loads) (auto simp: phys_def assms(1) maps_page_at [OF assms(3)] dest: tf_table_bounds)
  then have ld: "run_code tr (loads A0 tf_table) ?m = ?m\<lparr>regs := g\<rparr>"
    by (simp add: g_def)
  have g: "g A0 = frame" "r \<noteq> A0 \<Longrightarrow> g r = dmem m (tf + tf_slot r)"
    unfolding g_def using get_all_out [OF tf_table_distinct(3)] get_all_in [OF tf_table_distinct(2) tf_table_slot] assms(1) by simp_all
  have m: "run_code tr [Csrw Satp A1, Sfence, Ld T0 112 A0, Csrw Sscratch T0] m = ?m"
    using assms maps_page_at [OF assms(3)] by (simp add: run_Cons run_Nil set_reg_def set_creg_def phys_def fun_upd_twist)
  have "run_code tr userret m = instr_step tr Sret (instr_step tr (Csrrw A0 Sscratch A0) (?m\<lparr>regs := g\<rparr>))"
    unfolding userret_blocks run_append m ld by (simp add: run_Cons run_Nil)
  then show "regs (run_code tr userret m) r = dmem m (tf + tf_slot r)" "cregs (run_code tr userret m) Sscratch = frame"
    "cregs (run_code tr userret m) Satp = pt" "pc (run_code tr userret m) = cregs m Sepc"
    using g by (cases "r = A0"; simp add: set_reg_def set_creg_def)+
qed

text \<open>C13: a trap from user space and the return to it preserve the registers of the user program: \<^verbatim>\<open>uservec\<close> enters the
  kernel with the stack pointer, the hart number, the page table and the entry point from the trap frame,
  and if the kernel leaves the saved registers in the trap frame alone, \<^verbatim>\<open>userret\<close> restores every register,
  together with the page table and the pointer to the trap frame, at the saved program counter. The user
  page table has to map the page of the trap frame.\<close>

theorem trap_roundtrip:
  assumes "cregs m Sscratch = frame" "cregs m Satp = user" "maps_page tr user frame tf" "m1 = run_code tr uservec m"
    "regs m2 A0 = frame" "regs m2 A1 = user" "\<And>r. dmem m2 (tf + tf_slot r) = dmem m1 (tf + tf_slot r)"
    "m3 = run_code tr userret m2"
  shows "regs m1 SP = dmem m (tf + 8) \<and> regs m1 TP = dmem m (tf + 32) \<and> cregs m1 Satp = dmem m tf \<and> pc m1 = dmem m (tf + 16) \<and>
    regs m3 = regs m \<and> cregs m3 Sscratch = frame \<and> cregs m3 Satp = user \<and> pc m3 = cregs m2 Sepc"
proof -
  note entered = uservec_state [OF assms(1), of tr tf, unfolded assms(2), OF assms(3), folded assms(4)]
  note left = userret_state [OF assms(5,6,3), folded assms(8)]
  have "regs m3 r = regs m r" for r
    using left(1) [of r] assms(7) [of r] entered(1) [of r] entered(2) by (cases "r = A0") auto
  then show ?thesis
    using entered(3-6) left(2-4) by (simp add: fun_eq_iff)
qed

definition example_mach :: mach where
  "example_mach = \<lparr>regs = (\<lambda>_. 7), cregs = (\<lambda>_. 0)(Sscratch := 0x3FFFFFE000, Satp := 5, Sepc := 9), dmem = (\<lambda>_. 0), pc = 0\<rparr>"

theorem trap_roundtrip_witness:
  "regs (run_code (\<lambda>_ va. va) userret
     ((run_code (\<lambda>_ va. va) uservec example_mach)\<lparr>regs := (\<lambda>_. 1)(A0 := 0x3FFFFFE000, A1 := 5)\<rparr>)) = regs example_mach"
proof -
  have "cregs example_mach Sscratch = 0x3FFFFFE000" "cregs example_mach Satp = 5" "maps_page (\<lambda>_ va. va) 5 0x3FFFFFE000 0x3FFFFFE000"
    by (simp_all add: example_mach_def maps_page_def)
  from trap_roundtrip [OF this refl _ _ _ refl, of "(run_code (\<lambda>_ va. va) uservec example_mach)\<lparr>regs := (\<lambda>_. 1)(A0 := 0x3FFFFFE000, A1 := 5)\<rparr>"]
  show ?thesis
    by simp
qed

section \<open>Switching between threads\<close>

text \<open>Where \<^verbatim>\<open>struct context\<close> has the registers that a function has to preserve.\<close>

definition ctx_table :: "(reg \<times> u64) list" where
  "ctx_table =
    [(RA, 0), (SP, 8), (S0, 16), (S1, 24), (S2, 32), (S3, 40), (S4, 48), (S5, 56), (S6, 64), (S7, 72), (S8, 80), (S9, 88),
     (S10, 96), (S11, 104)]"

lemma swtch_blocks: "swtch = stores A0 ctx_table @ loads A1 ctx_table @ [Jr RA]"
  by (simp add: swtch_def stores_def loads_def ctx_table_def)

lemma ctx_table_facts: "distinct (map snd ctx_table)" "distinct (map fst ctx_table)" "A1 \<notin> fst ` set ctx_table"
  "(RA, 0) \<in> set ctx_table"
  by (simp_all add: ctx_table_def)

lemma ctx_table_bounds: "(r, off) \<in> set ctx_table \<Longrightarrow> off < 112"
  by (auto simp: ctx_table_def)

text \<open>The kernel's page table maps a context at an address to itself, as all of the memory of the kernel.\<close>

definition maps_ctx :: "translation \<Rightarrow> u64 \<Rightarrow> u64 \<Rightarrow> bool" where
  "maps_ctx tr pt a \<longleftrightarrow> (\<forall>off < 112. tr pt (a + off) = a + off)"

definition apart_ctx :: "u64 \<Rightarrow> u64 \<Rightarrow> bool" where
  "apart_ctx a b \<longleftrightarrow> (\<forall>i < 112. \<forall>j < 112. a + i \<noteq> b + j)"

lemma swtch_state:
  assumes "maps_ctx tr (cregs m Satp) (regs m A0)" "maps_ctx tr (cregs m Satp) (regs m A1)" "apart_ctx (regs m A0) (regs m A1)"
    "(r, off) \<in> set ctx_table"
  shows "dmem (run_code tr swtch m) (regs m A0 + off) = regs m r" "regs (run_code tr swtch m) r = dmem m (regs m A1 + off)"
    "pc (run_code tr swtch m) = dmem m (regs m A1)"
proof -
  define d where "d = put_all (regs m A0) (regs m) ctx_table (dmem m)"
  define g where "g = get_all (regs m A1) d ctx_table (regs m)"
  have st: "run_code tr (stores A0 ctx_table) m = m\<lparr>dmem := d\<rparr>"
    unfolding d_def using assms(1) ctx_table_bounds by (intro run_stores) (auto simp: phys_def maps_ctx_def)
  have "run_code tr (loads A1 ctx_table) (m\<lparr>dmem := d\<rparr>) = m\<lparr>dmem := d, regs := g\<rparr>"
    using run_loads [of ctx_table tr "m\<lparr>dmem := d\<rparr>" A1 "regs m A1"] assms(2) ctx_table_bounds ctx_table_facts(3)
    by (auto simp: phys_def maps_ctx_def g_def)
  then have run: "run_code tr swtch m = m\<lparr>dmem := d, regs := g, pc := g RA\<rparr>"
    unfolding swtch_blocks run_append st by (simp add: run_Cons run_Nil)
  have new: "d (regs m A1 + off) = dmem m (regs m A1 + off)" if "off < 112" for off
    unfolding d_def using assms(3) that ctx_table_bounds by (intro put_all_out) (fastforce simp: apart_ctx_def)
  show "dmem (run_code tr swtch m) (regs m A0 + off) = regs m r"
    unfolding run d_def using put_all_in [OF ctx_table_facts(1) assms(4)] by simp
  show "regs (run_code tr swtch m) r = dmem m (regs m A1 + off)"
    unfolding run g_def using get_all_in [OF ctx_table_facts(2) assms(4)] new [OF ctx_table_bounds [OF assms(4)]] by simp
  show "pc (run_code tr swtch m) = dmem m (regs m A1)"
    unfolding run g_def using get_all_in [OF ctx_table_facts(2) ctx_table_facts(4)] new [of 0] by simp
qed

text \<open>C14: \<^verbatim>\<open>swtch\<close> switches threads: it saves the registers that a function has to preserve in the old context and goes on
  with those of the new one, at its return address; and when, later, any thread switches back to the old
  context, unchanged since, that thread goes on at the return address of its call with all these registers
  as they were.\<close>

theorem swtch_roundtrip:
  assumes "maps_ctx tr (cregs m Satp) (regs m A0)" "maps_ctx tr (cregs m Satp) (regs m A1)" "apart_ctx (regs m A0) (regs m A1)"
    "m1 = run_code tr swtch m" "(r, off) \<in> set ctx_table"
    "maps_ctx tr (cregs m2 Satp) (regs m2 A0)" "maps_ctx tr (cregs m2 Satp) (regs m2 A1)" "apart_ctx (regs m2 A0) (regs m2 A1)"
    "regs m2 A1 = regs m A0" "\<And>i. i < 112 \<Longrightarrow> dmem m2 (regs m A0 + i) = dmem m1 (regs m A0 + i)"
    "m3 = run_code tr swtch m2"
  shows "regs m1 r = dmem m (regs m A1 + off) \<and> pc m1 = dmem m (regs m A1) \<and> regs m3 r = regs m r \<and> pc m3 = regs m RA"
proof -
  note there = swtch_state [OF assms(1-3), folded assms(4)]
  note return = swtch_state [OF assms(6-8), folded assms(11), unfolded assms(9)]
  have "regs m3 r = regs m r"
    using return(2) [OF assms(5)] there(1) [OF assms(5)] assms(10) [OF ctx_table_bounds [OF assms(5)]] by simp
  moreover have "pc m3 = regs m RA"
    using return(3) [OF assms(5)] there(1) [OF ctx_table_facts(4)] assms(10) [of 0] by simp
  ultimately show ?thesis
    using there(2,3) [OF assms(5)] by simp
qed

theorem swtch_roundtrip_witness:
  "regs (run_code (\<lambda>_ va. va) swtch ((run_code (\<lambda>_ va. va) swtch (example_mach\<lparr>regs := (\<lambda>_. 7)(A0 := 0, A1 := 4096)\<rparr>))
     \<lparr>regs := (\<lambda>_. 1)(A0 := 4096, A1 := 0)\<rparr>)) S3 = 7"
proof -
  have apart: "apart_ctx 0 4096" "apart_ctx 4096 0"
    by (auto simp: apart_ctx_def unat_arith_simps)
  let ?m = "example_mach\<lparr>regs := (\<lambda>_. 7)(A0 := 0, A1 := 4096)\<rparr>"
  let ?m2 = "(run_code (\<lambda>_ va. va) swtch ?m)\<lparr>regs := (\<lambda>_. 1)(A0 := 4096, A1 := 0)\<rparr>"
  show ?thesis
    using swtch_roundtrip [of "\<lambda>_ va. va" ?m "run_code (\<lambda>_ va. va) swtch ?m" S3 40 ?m2] apart by (simp add: maps_ctx_def ctx_table_def)
qed

section \<open>Traps inside the kernel\<close>

text \<open>The registers after \<^verbatim>\<open>sp\<close> in the frame of \<^verbatim>\<open>kernelvec\<close>; \<^verbatim>\<open>tp\<close> is saved but not restored.\<close>

definition kv_table :: "(reg \<times> u64) list" where
  "kv_table =
    [(T0, 32), (T1, 40), (T2, 48), (S0, 56), (S1, 64), (A0, 72), (A1, 80), (A2, 88), (A3, 96), (A4, 104), (A5, 112), (A6, 120),
     (A7, 128), (S2, 136), (S3, 144), (S4, 152), (S5, 160), (S6, 168), (S7, 176), (S8, 184), (S9, 192), (S10, 200), (S11, 208),
     (T3, 216), (T4, 224), (T5, 232), (T6, 240)]"

lemma kernelvec_blocks:
  "kernelvec_save = Addi SP SP (- 256) # stores SP ((RA, 0) # (SP, 8) # (GP, 16) # (TP, 24) # kv_table)"
  "kernelvec_restore = [Ld RA 0 SP, Ld SP 8 SP] @ loads SP ((GP, 16) # kv_table) @ [Addi SP SP 256, Sret]"
  by (simp_all add: kernelvec_save_def kernelvec_restore_def stores_def loads_def kv_table_def)

lemma kv_table_facts:
  "distinct (map snd ((RA, 0) # (SP, 8) # (GP, 16) # (TP, 24) # kv_table))" "distinct (map fst ((GP, 16) # kv_table))"
  "SP \<notin> fst ` set ((GP, 16) # kv_table)"
  by (simp_all add: kv_table_def)

lemma kv_table_bounds: "(r, off) \<in> set ((RA, 0) # (SP, 8) # (GP, 16) # (TP, 24) # kv_table) \<Longrightarrow> off < 256"
  by (auto simp: kv_table_def)

lemma kv_table_all: "r \<noteq> RA \<Longrightarrow> r \<noteq> SP \<Longrightarrow> r \<noteq> TP \<Longrightarrow> \<exists>off. (r, off) \<in> set ((GP, 16) # kv_table)"
  by (cases r) (auto simp: kv_table_def)

definition maps_frame :: "translation \<Rightarrow> u64 \<Rightarrow> u64 \<Rightarrow> u64 \<Rightarrow> bool" where
  "maps_frame tr pt va pa \<longleftrightarrow> (\<forall>off < 256. tr pt (va + off) = pa + off)"

lemma maps_frame_at: "maps_frame tr pt va pa \<Longrightarrow> off < 256 \<Longrightarrow> tr pt (va + off) = pa + off"
  by (simp add: maps_frame_def)

lemma kernelvec_saves:
  assumes "maps_frame tr (cregs m Satp) (regs m SP - 256) pa"
    "(r, off) \<in> set ((RA, 0) # (SP, 8) # (GP, 16) # (TP, 24) # kv_table)"
  shows "dmem (run_code tr kernelvec_save m) (pa + off) = (if r = SP then regs m SP - 256 else regs m r)"
    "regs (run_code tr kernelvec_save m) SP = regs m SP - 256"
proof -
  let ?m = "m\<lparr>regs := (regs m)(SP := regs m SP - 256)\<rparr>"
  let ?t = "(RA, 0) # (SP, 8) # (GP, 16) # (TP, 24) # kv_table"
  have "phys tr ?m (regs ?m SP + off) = pa + off" if "(r, off) \<in> set ?t" for r off
    using maps_frame_at [OF assms(1) kv_table_bounds [OF that]] by (simp add: phys_def)
  then have "run_code tr (stores SP ?t) ?m = ?m\<lparr>dmem := put_all pa (regs ?m) ?t (dmem ?m)\<rparr>"
    by (rule run_stores)
  then have "run_code tr kernelvec_save m = ?m\<lparr>dmem := put_all pa (regs ?m) ?t (dmem ?m)\<rparr>"
    unfolding kernelvec_blocks run_Cons by (simp add: set_reg_def)
  then show "dmem (run_code tr kernelvec_save m) (pa + off) = (if r = SP then regs m SP - 256 else regs m r)"
    "regs (run_code tr kernelvec_save m) SP = regs m SP - 256"
    using put_all_in [OF kv_table_facts(1) assms(2), of pa "regs ?m"] by simp_all
qed

lemma kernelvec_restores:
  assumes "maps_frame tr (cregs m Satp) (regs m SP) pa" "dmem m (pa + 8) = regs m SP"
  shows "r \<noteq> RA \<Longrightarrow> r \<noteq> SP \<Longrightarrow> (r, off) \<in> set ((GP, 16) # kv_table) \<Longrightarrow> regs (run_code tr kernelvec_restore m) r = dmem m (pa + off)"
    "regs (run_code tr kernelvec_restore m) RA = dmem m pa" "regs (run_code tr kernelvec_restore m) SP = regs m SP + 256"
    "pc (run_code tr kernelvec_restore m) = cregs m Sepc"
proof -
  let ?m = "m\<lparr>regs := (regs m)(RA := dmem m pa)\<rparr>" and ?t = "(GP, 16) # kv_table"
  define g where "g = get_all pa (dmem m) ?t ((regs m)(RA := dmem m pa))"
  have first: "run_code tr [Ld RA 0 SP, Ld SP 8 SP] m = ?m"
  proof -
    have "(regs m)(RA := dmem m pa, SP := regs m SP) = (regs m)(RA := dmem m pa)"
      by (simp add: fun_eq_iff)
    moreover have "tr (cregs m Satp) (regs m SP) = pa" "tr (cregs m Satp) (regs m SP + 8) = pa + 8"
      using maps_frame_at [OF assms(1), of 0] maps_frame_at [OF assms(1), of 8] by simp_all
    ultimately show ?thesis
      using assms(2) by (simp add: run_Cons run_Nil set_reg_def phys_def)
  qed
  have "phys tr ?m (regs ?m SP + off) = pa + off" if "(r, off) \<in> set ?t" for r off
    using maps_frame_at [OF assms(1) kv_table_bounds [of r off]] that by (auto simp: phys_def)
  then have "run_code tr (loads SP ?t) ?m = ?m\<lparr>regs := g\<rparr>"
    using run_loads [OF _ kv_table_facts(3), of tr ?m pa] by (simp add: g_def)
  then have run: "run_code tr kernelvec_restore m = m\<lparr>regs := g(SP := g SP + 256), pc := cregs m Sepc\<rparr>"
    unfolding kernelvec_blocks run_append first by (simp add: run_Cons run_Nil set_reg_def)
  show "r \<noteq> RA \<Longrightarrow> r \<noteq> SP \<Longrightarrow> (r, off) \<in> set ?t \<Longrightarrow> regs (run_code tr kernelvec_restore m) r = dmem m (pa + off)"
    unfolding run g_def using get_all_in [OF kv_table_facts(2)] by simp
  have "RA \<notin> fst ` set ?t"
    by (simp add: kv_table_def)
  then show "regs (run_code tr kernelvec_restore m) RA = dmem m pa" "regs (run_code tr kernelvec_restore m) SP = regs m SP + 256"
    "pc (run_code tr kernelvec_restore m) = cregs m Sepc"
    unfolding run g_def using get_all_out [of RA ?t] get_all_out [OF kv_table_facts(3)] by simp_all
qed

text \<open>A trap inside the kernel preserves all registers but \<^verbatim>\<open>tp\<close>, which is the number of the hart the thread may have been
  moved to: what the compiler makes of \<^verbatim>\<open>kerneltrap\<close> gives back the stack pointer and leaves the frame alone.\<close>

theorem kernelvec_preserves:
  assumes "maps_frame tr (cregs m Satp) (regs m SP - 256) pa" "m1 = run_code tr kernelvec_save m"
    "cregs m2 Satp = cregs m Satp" "regs m2 SP = regs m1 SP" "\<And>off. off < 256 \<Longrightarrow> dmem m2 (pa + off) = dmem m1 (pa + off)"
    "m3 = run_code tr kernelvec_restore m2" "r \<noteq> TP"
  shows "regs m3 r = regs m r \<and> pc m3 = cregs m2 Sepc"
proof -
  note saved = kernelvec_saves [OF assms(1), folded assms(2)]
  have sp: "regs m2 SP = regs m SP - 256"
    using assms(4) saved(2) [of RA 0] by simp
  have kept: "dmem m2 (pa + off) = (if q = SP then regs m SP - 256 else regs m q)"
    if "(q, off) \<in> set ((RA, 0) # (SP, 8) # (GP, 16) # (TP, 24) # kv_table)" for q off
    using saved(1) [OF that] assms(5) [OF kv_table_bounds [OF that]] by simp
  have "maps_frame tr (cregs m2 Satp) (regs m2 SP) pa" "dmem m2 (pa + 8) = regs m2 SP"
    using assms(1,3) sp kept [of SP 8] by simp_all
  note restored = kernelvec_restores [OF this, folded assms(6)]
  have "regs m3 r = regs m r"
  proof (cases "r = RA \<or> r = SP")
    case True
    then show ?thesis
      using restored(2,3) kept [of RA 0] sp by auto
  next
    case False
    then obtain off where off: "(r, off) \<in> set ((GP, 16) # kv_table)"
      using kv_table_all assms(7) by blast
    then show ?thesis
      using restored(1) [of r off] kept [of r off] False by auto
  qed
  then show ?thesis
    using restored(4) by simp
qed

section \<open>Timer interrupts and starting\<close>

text \<open>The timer interrupt is taken in machine mode, where addresses are not translated. It moves the time of the next
  interrupt by the interval and raises a software interrupt, and preserves every register.\<close>

theorem timervec_state:
  assumes "cregs m Mscratch = sc" "mt = dmem m (sc + 32)" "\<And>off. off \<le> 40 \<Longrightarrow> mt \<noteq> sc + off"
  shows "regs (run_code (\<lambda>_ va. va) timervec m) = regs m" "cregs (run_code (\<lambda>_ va. va) timervec m) = (cregs m)(Sip := 2)"
    "dmem (run_code (\<lambda>_ va. va) timervec m) mt = dmem m mt + dmem m (sc + 40)" "pc (run_code (\<lambda>_ va. va) timervec m) = cregs m Mepc"
  using assms(1,2) assms(3) [of 0] assms(3) [of 8] assms(3) [of 16]
  by (simp_all add: run_code_def timervec_def set_reg_def set_creg_def phys_def fun_eq_iff)

text \<open>Every hart gets its own stack: the stack pointer is the end of the page of the hart.\<close>

lemma entry_sp: "regs (run_code tr (entry stack0) m) SP = stack0 + 4096 * (cregs m Mhartid + 1)"
  by (simp add: run_code_def entry_def set_reg_def)

end
