(* ===== verification/Umem.thy ===== *)
theory Umem
  imports Kstring
begin

text \<open>
  The memory routines of \<^verbatim>\<open>user/ulib.c\<close> on a byte-addressed memory, with the copying loops of \<^verbatim>\<open>Kstring\<close>. A \<^verbatim>\<open>char\<close> is
  unsigned on RISC-V. \<^verbatim>\<open>strcpy\<close> and \<^verbatim>\<open>strlen\<close> look for a NUL that need not be there, so they are partial.
\<close>

definition umemset :: "u64 \<Rightarrow> u32 \<Rightarrow> u32 \<Rightarrow> mem \<Rightarrow> mem" where
  "umemset dst c n m = memset_loop (unat n) 0 dst (ucast c) m"

text \<open>The count is an \<^verbatim>\<open>int\<close>; a negative one moves the pointers but copies nothing.\<close>

definition umemmove :: "u64 \<Rightarrow> u64 \<Rightarrow> u32 \<Rightarrow> mem \<Rightarrow> mem" where
  "umemmove vdst vsrc n m =
     (if vsrc > vdst then copy_up (nat (sint n)) vdst vsrc m
      else copy_down (nat (sint n)) (vdst + scast n) (vsrc + scast n) m)"

definition umemcmp :: "u64 \<Rightarrow> u64 \<Rightarrow> u32 \<Rightarrow> mem \<Rightarrow> int" where
  "umemcmp s1 s2 n m = memcmp_loop (unat n) s1 s2 m"

definition umemcpy :: "u64 \<Rightarrow> u64 \<Rightarrow> u32 \<Rightarrow> mem \<Rightarrow> mem" where
  "umemcpy dst src n m = umemmove dst src n m"

partial_function (option) ustrcpy :: "u64 \<Rightarrow> u64 \<Rightarrow> mem \<Rightarrow> mem option" where
  "ustrcpy s t m =
     (if m t \<noteq> 0 then ustrcpy (s + 1) (t + 1) (m(s := m t)) else Some (m(s := m t)))"

partial_function (option) ustrlen_from :: "mem \<Rightarrow> u64 \<Rightarrow> nat \<Rightarrow> nat option" where
  "ustrlen_from m s n = (if m (s + of_nat n) \<noteq> 0 then ustrlen_from m s (Suc n) else Some n)"

definition ustrlen :: "u64 \<Rightarrow> mem \<Rightarrow> nat option" where
  "ustrlen s m = ustrlen_from m s 0"

section \<open>Copying\<close>

lemma copy_down_same: "copy_down k d d m = m"
  by (induction k arbitrary: d) auto

text \<open>The user's \<^verbatim>\<open>memmove\<close> decides by the order of the two addresses alone, and is right for every overlap as well.\<close>

lemma umemmove_eq:
  assumes "0 \<le> sint n" "unat vsrc + unat n \<le> 2 ^ 64" "unat vdst + unat n \<le> 2 ^ 64"
  shows "umemmove vdst vsrc n m = (\<lambda>a. if in_range vdst (unat n) a then m (vsrc + (a - vdst)) else m a)"
proof -
  have n: "sint n = int (unat n)"
    using sint_nonneg [OF assms(1)] by simp
  then have s: "(scast n :: u64) = of_nat (unat n)"
    by (metis of_int_of_nat_eq of_int_sint)
  show ?thesis
  proof (cases "vsrc > vdst")
    case True
    then show ?thesis
      using assms(2) n copy_up_eq [of vsrc "unat n" vdst m] by (simp add: umemmove_def word_less_nat_alt)
  next
    case False
    then have "vsrc = vdst \<or> unat vsrc < unat vdst"
      by (auto simp: word_less_nat_alt unat_arith_simps)
    then show ?thesis
      using copy_down_eq [of vsrc vdst "unat n" m] assms(3) False n s copy_down_same
      by (auto simp: umemmove_def)
  qed
qed

text \<open>So it agrees with the kernel's.\<close>

theorem umemmove_memmove:
  assumes "0 \<le> sint n" "unat vsrc + unat n \<le> 2 ^ 64" "unat vdst + unat n \<le> 2 ^ 64"
  shows "umemmove vdst vsrc n m = memmove vdst vsrc n m"
  using umemmove_eq [OF assms] memmove_eq [OF assms(2,3)] by simp

lemma ustrlen_strlen: "ustrlen s m = strlen s m"
proof -
  have "strlen_from m s n = Some k" if "ustrlen_from m s n = Some k" for n k
    by (rule ustrlen_from.raw_induct [OF _ that, of "\<lambda>m s n k. strlen_from m s n = Some k"])
      (subst strlen_from.simps, auto split: if_splits)
  moreover have "ustrlen_from m s n = Some k" if "strlen_from m s n = Some k" for n k
    by (rule strlen_from.raw_induct [OF _ that, of "\<lambda>m s n k. ustrlen_from m s n = Some k"])
      (subst ustrlen_from.simps, auto split: if_splits)
  ultimately show ?thesis
    unfolding ustrlen_def strlen_def by (metis not_None_eq)
qed

end
