(* ===== verification/Spec2Isabelle.thy ===== *)
theory Spec2Isabelle
  imports Kalloc Klog Spinlock Console Vm_Boot Trap Sleep_Wakeup Proc_Props Grep
    Sh_Run Fs_Write Primes Find Coreutils Xargs Umalloc Mkfs Pingpong Ls Asm Umem
begin

text \<open>
  A verification development of the xv6 operating system for RISC-V: its kernel (\<^verbatim>\<open>src/kernel\<close>), its user
  programs (\<^verbatim>\<open>src/user\<close>) and the host tool that makes its file system (\<^verbatim>\<open>src/mkfs\<close>).

  \<^bold>\<open>The program.\<close> The kernel manages physical pages (\<^verbatim>\<open>kalloc.c\<close>) and page tables made of them (\<^verbatim>\<open>vm.c\<close>). Processes
  (\<^verbatim>\<open>proc.c\<close>) have an address space, a kernel stack and open files; they enter the kernel through the
  assembly code of \<^verbatim>\<open>trampoline.S\<close> and \<^verbatim>\<open>trap.c\<close>, which dispatches to the system calls of \<^verbatim>\<open>sysproc.c\<close> and
  \<^verbatim>\<open>sysfile.c\<close>. Files are inodes (\<^verbatim>\<open>fs.c\<close>), pipes (\<^verbatim>\<open>pipe.c\<close>) or the console (\<^verbatim>\<open>console.c\<close>, over \<^verbatim>\<open>uart.c\<close>). The file
  system changes blocks through the log (\<^verbatim>\<open>log.c\<close>), which makes groups of calls atomic; the log uses the
  block cache (\<^verbatim>\<open>bio.c\<close>) and that the disk driver (\<^verbatim>\<open>virtio_disk.c\<close>). Spin locks (\<^verbatim>\<open>spinlock.c\<close>), sleep locks
  (\<^verbatim>\<open>sleeplock.c\<close>) and \<^verbatim>\<open>sleep\<close>/\<^verbatim>\<open>wakeup\<close> order all this. User programs see system calls only.

  \<^bold>\<open>How it is modelled.\<close> Operations are functions from a state to an outcome, \<^verbatim>\<open>'a res\<close> of Xv6_Prelude: \<^verbatim>\<open>Ok\<close> with
  the result and the new state, \<^verbatim>\<open>Panic\<close> with the message of the source, \<^verbatim>\<open>Blocked\<close> when the code would have to
  wait, \<^verbatim>\<open>Fault\<close> for an access that the language or the machine does not define. C integers are words of their
  width where they can wrap around or are compared unsigned. Code that sleeps in the middle is cut there: a
  call ends asleep at a position and another definition goes on from it. Where the interleaving itself
  matters there is a step relation (Spinlock, Sleep_Wakeup, Pipe, Uart, Pingpong).

  \<^bold>\<open>Memory and strings.\<close>
  \<^item> Xv6_Prelude, Phys_Mem: integer types, outcomes, little-endian layout, byte-addressed memory.
  \<^item> Kstring: \<^verbatim>\<open>string.c\<close>. \<^verbatim>\<open>memmove\<close> is right for every overlap; \<^verbatim>\<open>strncmp\<close>, \<^verbatim>\<open>strncpy\<close> and \<^verbatim>\<open>safestrcpy\<close> do what they say.
  \<^item> Kalloc: \<^verbatim>\<open>kalloc.c\<close>, with the free list in the free pages. \<^verbatim>\<open>kinit\<close> frees exactly the pages above the kernel;
    no page is handed out twice. The locale page_allocator is its contract.

  \<^bold>\<open>Disk and files.\<close>
  \<^item> Bio: \<^verbatim>\<open>bio.c\<close>, with its doubly linked list. A buffer has the contents of its block, and the cache is a list with
    replacement of the least recently used buffer. The locale block_cache is its contract.
  \<^item> Klog: \<^verbatim>\<open>log.c\<close>. After a crash at any write of a commit, or of the recovery itself, recovery gives all of the
    transaction or nothing of it. Recovery makes reference counts wrap around.
  \<^item> Virtio: \<^verbatim>\<open>virtio_disk.c\<close>. Fs: \<^verbatim>\<open>fs.c\<close>. Kfile: \<^verbatim>\<open>file.c\<close> and the allocation of pipes.
  \<^item> Fs_Read, Fs_Write: \<^verbatim>\<open>readi\<close> returns the contents of a file across direct and indirect blocks; what \<^verbatim>\<open>writei\<close> writes over
    blocks the file has already, \<^verbatim>\<open>readi\<close> reads back, and nothing reaches
    the home blocks before the commit.

  \<^bold>\<open>Queues and devices.\<close>
  \<^item> Ring: bounded buffers by free-running counters or wrapped indices, and the locale fifo, their contract.
  \<^item> Pipe: \<^verbatim>\<open>pipe.c\<close>. Readers get the bytes of the writers in order, whatever the interleaving; a failing copy loses a byte.
  \<^item> Uart, Console: \<^verbatim>\<open>uart.c\<close>, \<^verbatim>\<open>console.c\<close>. Bytes leave in order; the interrupt handler implements line editing;
    \<^verbatim>\<open>consolewrite\<close> panics when the transmit buffer is full, because it sleeps with a lock held.

  \<^bold>\<open>Locks and processes.\<close>
  \<^item> Spinlock: \<^verbatim>\<open>spinlock.c\<close>, as single steps and instruction by instruction for any number of CPUs: mutual exclusion.
  \<^item> Kstate, Kernel_Image: the state of the running kernel, its initial variables, \<^verbatim>\<open>sleeplock.c\<close>.
  \<^item> Proc, Proc_Calls: \<^verbatim>\<open>proc.c\<close>. Proc_Table, Proc_Props: \<^verbatim>\<open>exit\<close> gives the children to \<^verbatim>\<open>init\<close> and wakes the parent;
    the cases of \<^verbatim>\<open>wait\<close>; every process that is ready gets the CPU in one pass of the scheduler; \<^verbatim>\<open>kill(0)\<close> marks an unused entry.
  \<^item> Sleep_Wakeup: no wakeup is lost, for any number of processes.
  \<^item> Sysfile, Kexec, Trap: \<^verbatim>\<open>sysfile.c\<close>, \<^verbatim>\<open>exec.c\<close>, \<^verbatim>\<open>sysproc.c\<close>, \<^verbatim>\<open>syscall.c\<close>, \<^verbatim>\<open>trap.c\<close>, \<^verbatim>\<open>plic.c\<close>, \<^verbatim>\<open>main.c\<close>, \<^verbatim>\<open>start.c\<close>.
  \<^item> Asm: \<^verbatim>\<open>trampoline.S\<close>, \<^verbatim>\<open>swtch.S\<close>, \<^verbatim>\<open>kernelvec.S\<close>, \<^verbatim>\<open>entry.S\<close>, instruction by instruction. A trap saves and restores all
    registers of the user program; \<^verbatim>\<open>swtch\<close> those of a thread; \<^verbatim>\<open>kernelvec\<close> those of the interrupted kernel.

  \<^bold>\<open>Virtual memory.\<close>
  \<^item> Vm: \<^verbatim>\<open>vm.c\<close> over the memory of the allocator. Vm_Tables, Vm_Maps, Vm_User: page tables as maps from pages to entries.
  \<^item> Vm_Copy: \<^verbatim>\<open>copyout\<close>, \<^verbatim>\<open>copyin\<close> and \<^verbatim>\<open>copyinstr\<close> copy exactly the user bytes; \<^verbatim>\<open>uvmalloc\<close> adds fresh zeroed pages or nothing.
  \<^item> Vm_Boot: the macro \<^verbatim>\<open>PTE2PA\<close> of \<^verbatim>\<open>riscv.h\<close> does not undo \<^verbatim>\<open>PA2PTE\<close>, and \<^verbatim>\<open>kvminit\<close> faults with it. The other results on page
    tables are therefore for every decoding that undoes \<^verbatim>\<open>PA2PTE\<close>, a parameter with that hypothesis; Vm_Copy has an
    instance, which is not the macro of the source.

  \<^bold>\<open>User programs.\<close>
  \<^item> Printf, Ulib, Umem: \<^verbatim>\<open>printf.c\<close> of kernel and user, and \<^verbatim>\<open>ulib.c\<close>, on strings and on memory.
  \<^item> Umalloc: \<^verbatim>\<open>umalloc.c\<close>. \<^verbatim>\<open>malloc\<close> and \<^verbatim>\<open>free\<close> end, and keep the ring of free blocks sound and the memory they manage exact.
  \<^item> Sh, Sh_Print, Sh_Roundtrip: the parser of \<^verbatim>\<open>sh.c\<close> ends, respects its limits, and inverts a printer of commands.
  \<^item> Descriptors, Sh_Run: descriptors of processes; \<^verbatim>\<open>runcmd\<close> routes input and output as a command says. \<^verbatim>\<open>init.c\<close> is here too.
  \<^item> Grep: the matcher agrees with the meaning of patterns; which lines are printed.
  \<^item> Find, Ls, Coreutils, Xargs, Primes, Pingpong: the programs of these names; Coreutils has \<^verbatim>\<open>cat\<close>, \<^verbatim>\<open>wc\<close>, \<^verbatim>\<open>echo\<close>, \<^verbatim>\<open>rm\<close>, \<^verbatim>\<open>mkdir\<close>,
    \<^verbatim>\<open>ln\<close>, \<^verbatim>\<open>kill\<close> and \<^verbatim>\<open>sleep\<close>. \<^verbatim>\<open>find\<close> prints what it should and ends, \<^verbatim>\<open>primes\<close> runs out of descriptors at 37,
    \<^verbatim>\<open>xargs\<close> overruns an array on lines of many words.
  \<^item> Mkfs: \<^verbatim>\<open>mkfs.c\<close>. It stops at an assertion on every run, since it was written for another layout of the disk.

  \<^bold>\<open>Bounds.\<close> Loops over the list of buffers are bounded by \<^verbatim>\<open>NBUF + 1\<close> and fault beyond; the invariant of Bio shows
  that this does not happen. The parser of the shell has a bound on the depth of its calls, four times the length
  of the line and four; it is never reached. Loops over a directory are bounded by its size. The searches
  of \<^verbatim>\<open>strlen\<close>, \<^verbatim>\<open>strcpy\<close>, \<^verbatim>\<open>malloc\<close> and \<^verbatim>\<open>free\<close> are partial functions, since they need not end in an arbitrary memory;
  for \<^verbatim>\<open>malloc\<close> and \<^verbatim>\<open>free\<close> it is proved that they end. All other loops have a termination proof.

  \<^bold>\<open>Not modelled.\<close> The linker script, \<^verbatim>\<open>defs.h\<close>, \<^verbatim>\<open>types.h\<close> and \<^verbatim>\<open>initcode.S\<close> (its bytes are in \<^verbatim>\<open>proc.c\<close>); the stubs
  that \<^verbatim>\<open>usys.pl\<close> generates; \<^verbatim>\<open>ramdisk.c\<close>, which is not built and does not fit \<^verbatim>\<open>struct buf\<close>; the lock of \<^verbatim>\<open>printf\<close> in the
  kernel; the harts that wait in \<^verbatim>\<open>main\<close>; the test programs \<^verbatim>\<open>usertests.c\<close>, \<^verbatim>\<open>grind.c\<close>, \<^verbatim>\<open>forktest.c\<close>, \<^verbatim>\<open>stressfs.c\<close> and \<^verbatim>\<open>zombie.c\<close>.
  Parameters of the model are what the linker decides, the answers of devices, the translation of addresses in Asm,
  and for user programs which forks and opens succeed and what the files contain. The kernel beyond
  the step relations runs as one thread at a time, between the points where it sleeps.
\<close>

text \<open>The C code of \<^verbatim>\<open>trap.c\<close> and the assembly code of \<^verbatim>\<open>trampoline.S\<close> agree on the layout of the trap frame: what
  \<^verbatim>\<open>usertrapret\<close> stores is what \<^verbatim>\<open>uservec\<close> loads, and the system call arguments are where the registers are saved.\<close>

lemma trapframe_layout:
  "{Ld T1 TF_kernel_satp A0, Ld SP TF_kernel_sp A0, Ld T0 TF_kernel_trap A0, Ld TP TF_kernel_hartid A0} \<subseteq> set uservec"
  "tf_slot SP = TF_sp" "tf_slot A0 = TF_a0" "tf_slot A1 = TF_a1" "tf_slot A7 = TF_a7"
  "unat (tf_slot r) + 8 \<le> TF_bytes"
  by (simp_all add: uservec_def TF_kernel_satp_def TF_kernel_sp_def TF_kernel_trap_def TF_kernel_hartid_def
      TF_sp_def TF_a0_def TF_a1_def TF_a7_def TF_bytes_def) (cases r; simp)

end
